(* ===== verification/Prelude.thy ===== *)
theory Prelude
  imports Complex_Main "HOL-Library.Char_ord" "HOL-Library.List_Lexorder"
begin

text \<open>
  What the components share: the JavaScript and SQLite values the code passes around, the
  string order, and generic lemmas on lists, options and keyed row lists.

  Strings are \<open>char list\<close>s over the ASCII range, where JavaScript's UTF-16 order, SQLite's
  BINARY collation and the lexicographic order on \<open>char list\<close> agree. JSON values are a
  datatype; a column that holds JSON text is a \<open>jtext\<close>: the value it parses to, or
  \<open>NotJson t\<close> for a text \<open>t\<close> that \<open>JSON.parse\<close> rejects. \<open>JSON.stringify\<close> of a value
  is then \<open>Json\<close> and \<open>JSON.parse\<close> its partial inverse. Objects keep their key order.
\<close>

named_theorems sql_simps "unfolding of the row operations of the SQL layer"
named_theorems js_simps "unfolding of the JavaScript value operations"

section \<open>JSON values and texts\<close>

datatype json =
    JNull
  | JBool bool
  | JNum rat
  | JStr string
  | JArr "json list"
  | JObj "(string \<times> json) list"

datatype jtext = Json json | NotJson string

definition json_stringify :: "json \<Rightarrow> jtext" where
  [js_simps]: "json_stringify v = Json v"

fun json_parse :: "jtext \<Rightarrow> json option" where
  "json_parse (Json v) = Some v"
| "json_parse (NotJson t) = None"

lemma json_parse_stringify [simp]: "json_parse (json_stringify v) = Some v"
  by (simp add: json_stringify_def)

type_synonym jobject = "(string \<times> json) list"

text \<open>Property read \<open>o[k]\<close> (\<open>None\<close> is undefined), spread update and property deletion.\<close>

definition obj_get :: "jobject \<Rightarrow> string \<Rightarrow> json option" where
  "obj_get ob k = map_of ob k"

fun obj_set :: "jobject \<Rightarrow> string \<Rightarrow> json \<Rightarrow> jobject" where
  "obj_set [] k v = [(k, v)]"
| "obj_set ((k', v') # ob) k v = (if k' = k then (k, v) # ob else (k', v') # obj_set ob k v)"

definition obj_spread :: "jobject \<Rightarrow> jobject \<Rightarrow> jobject" where
  "obj_spread ob entries = fold (\<lambda>(k, v) acc. obj_set acc k v) entries ob"

definition obj_without :: "jobject \<Rightarrow> string \<Rightarrow> jobject" where
  "obj_without ob k = filter (\<lambda>(k', v). k' \<noteq> k) ob"

lemma obj_get_set [simp]:
  "obj_get (obj_set ob k v) k' = (if k' = k then Some v else obj_get ob k')"
  by (induction ob k v rule: obj_set.induct) (auto simp: obj_get_def)

lemma obj_get_without [simp]:
  "obj_get (obj_without ob k) k' = (if k' = k then None else obj_get ob k')"
  by (induction ob) (auto simp: obj_get_def obj_without_def)

lemma obj_keys_set: "fst ` set (obj_set ob k v) = insert k (fst ` set ob)"
  by (induction ob k v rule: obj_set.induct) auto

lemma obj_get_spread:
  "distinct (map fst entries) \<Longrightarrow>
   obj_get (obj_spread ob entries) k =
     (case map_of entries k of Some v \<Rightarrow> Some v | None \<Rightarrow> obj_get ob k)"
proof (induction entries arbitrary: ob)
  case Nil
  then show ?case by (simp add: obj_spread_def)
next
  case (Cons e entries)
  obtain k' v' where e: "e = (k', v')" by (cases e)
  have tl: "obj_spread ob (e # entries) = obj_spread (obj_set ob k' v') entries"
    by (simp add: obj_spread_def e)
  from Cons.prems e have none: "map_of entries k' = None"
    by (simp add: map_of_eq_None_iff)
  show ?case
    using Cons.IH [of "obj_set ob k' v'"] Cons.prems none
    by (auto simp: tl [unfolded e] e split: option.splits)
qed

text \<open>Truthiness of a JavaScript value.\<close>

fun js_truthy :: "json \<Rightarrow> bool" where
  "js_truthy JNull = False"
| "js_truthy (JBool b) = b"
| "js_truthy (JNum n) = (n \<noteq> 0)"
| "js_truthy (JStr s) = (s \<noteq> [])"
| "js_truthy (JArr _) = True"
| "js_truthy (JObj _) = True"

definition opt_str :: "string option \<Rightarrow> json" where
  "opt_str s = (case s of None \<Rightarrow> JNull | Some t \<Rightarrow> JStr t)"

section \<open>The order on strings\<close>

lemma str_append_less:
  fixes xs ys us vs :: string
  assumes "length xs = length ys"
  shows "xs @ us < ys @ vs \<longleftrightarrow> xs < ys \<or> xs = ys \<and> us < vs"
  using assms by (induction xs ys rule: list_induct2) auto

lemma str_append_le:
  fixes xs ys us vs :: string
  assumes "length xs = length ys"
  shows "xs @ us \<le> ys @ vs \<longleftrightarrow> xs < ys \<or> xs = ys \<and> us \<le> vs"
  using assms by (induction xs ys rule: list_induct2) auto

section \<open>Lists of rows\<close>

text \<open>
  SQL's \<open>UPDATE ... WHERE p\<close>, \<open>DELETE ... WHERE p\<close> and their \<open>changes\<close> counts on a
  table held as a list of rows.
\<close>

definition update_where :: "('r \<Rightarrow> bool) \<Rightarrow> ('r \<Rightarrow> 'r) \<Rightarrow> 'r list \<Rightarrow> 'r list" where
  "update_where p f rows = map (\<lambda>r. if p r then f r else r) rows"

definition count_where :: "('r \<Rightarrow> bool) \<Rightarrow> 'r list \<Rightarrow> nat" where
  "count_where p rows = length (filter p rows)"

definition delete_where :: "('r \<Rightarrow> bool) \<Rightarrow> 'r list \<Rightarrow> 'r list" where
  "delete_where p rows = filter (\<lambda>r. \<not> p r) rows"

lemma set_update_where:
  "set (update_where p f rows) = f ` {r \<in> set rows. p r} \<union> {r \<in> set rows. \<not> p r}"
  by (auto simp: update_where_def)

lemma in_update_whereE:
  assumes "r \<in> set (update_where p f rows)"
  obtains "r \<in> set rows" "\<not> p r" | r' where "r' \<in> set rows" "p r'" "r = f r'"
  using assms by (auto simp: update_where_def split: if_splits)

lemma update_where_hit: "r \<in> set rows \<Longrightarrow> p r \<Longrightarrow> f r \<in> set (update_where p f rows)"
  by (auto simp: update_where_def intro!: image_eqI [of _ _ r])

lemma update_where_miss: "r \<in> set rows \<Longrightarrow> \<not> p r \<Longrightarrow> r \<in> set (update_where p f rows)"
  by (auto simp: update_where_def intro!: image_eqI [of _ _ r])

lemma map_update_where_key:
  assumes "\<And>r. k (f r) = k r"
  shows "map k (update_where p f rows) = map k rows"
  using assms by (simp add: update_where_def)

lemma length_update_where [simp]: "length (update_where p f rows) = length rows"
  by (simp add: update_where_def)

lemma update_where_none: "(\<And>r. r \<in> set rows \<Longrightarrow> \<not> p r) \<Longrightarrow> update_where p f rows = rows"
  by (induction rows) (auto simp: update_where_def)

lemma count_where_0 [simp]: "count_where p rows = 0 \<longleftrightarrow> (\<forall>r \<in> set rows. \<not> p r)"
  by (auto simp: count_where_def filter_empty_conv)

lemma count_where_pos: "0 < count_where p rows \<longleftrightarrow> (\<exists>r \<in> set rows. p r)"
  by (auto simp: count_where_def filter_empty_conv)

lemma count_where_unique_key:
  assumes "distinct (map k rows)" and "r \<in> set rows" and "p r"
    and "\<And>r'. p r' \<Longrightarrow> k r' = k r"
  shows "count_where p rows = 1"
proof -
  have "distinct (map k (filter p rows))"
    using assms(1) by (rule distinct_map_filter)
  moreover have "set (map k (filter p rows)) = {k r}"
  proof -
    have "set (map k (filter p rows)) \<subseteq> {k r}"
      unfolding set_map set_filter using assms(4) by blast
    moreover have "k r \<in> set (map k (filter p rows))"
      unfolding set_map set_filter using assms(2,3) by blast
    ultimately show ?thesis by blast
  qed
  ultimately have "length (map k (filter p rows)) = 1"
    by (metis distinct_card card_1_singleton_iff One_nat_def)
  then show ?thesis by (simp add: count_where_def)
qed

lemma count_where_le_one:
  assumes "distinct (map k rows)" and "\<And>r r'. p r \<Longrightarrow> p r' \<Longrightarrow> k r' = k r"
  shows "count_where p rows \<le> 1"
proof (cases "\<exists>r \<in> set rows. p r")
  case True
  then obtain r where "r \<in> set rows" "p r" by blast
  then have "count_where p rows = 1"
    using assms count_where_unique_key [of k rows r p] by blast
  then show ?thesis by simp
next
  case False
  then have "filter p rows = []" by (auto simp: filter_empty_conv)
  then show ?thesis by (simp add: count_where_def)
qed

lemma update_where_distinct_eq:
  assumes "distinct (map k rows)" and "r \<in> set rows"
    and "\<And>x. k (f x) = k x" and "r' \<in> set (update_where p f rows)" and "k r' = k r"
  shows "r' = (if p r then f r else r)"
proof -
  from assms(4) obtain x where x: "x \<in> set rows" and r': "r' = (if p x then f x else x)"
    by (auto simp: update_where_def)
  with assms(3,5) have "k x = k r" by (simp split: if_splits)
  with assms(1,2) x have "x = r" by (simp add: distinct_map inj_on_def)
  with r' show ?thesis by simp
qed

text \<open>\<open>ORDER BY key\<close>: a stable ascending sort.\<close>

definition order_by :: "('r \<Rightarrow> 'k::linorder) \<Rightarrow> 'r list \<Rightarrow> 'r list" where
  "order_by k rows = sort_key k rows"

lemma set_order_by [simp]: "set (order_by k rows) = set rows"
  by (simp add: order_by_def)

lemma sorted_order_by: "sorted (map k (order_by k rows))"
  by (simp add: order_by_def)

lemma length_order_by [simp]: "length (order_by k rows) = length rows"
  by (simp add: order_by_def)

lemma distinct_map_order_by [simp]: "distinct (map f (order_by k rows)) = distinct (map f rows)"
  by (simp add: order_by_def distinct_map)

end
