(* ===== verification/Durable_Work.thy ===== *)
theory Durable_Work
  imports Prelude
begin

text \<open>
  The per-host durable work spool of \<open>packages/core/src/durable-work.ts\<close> and the readers of
  \<open>packages/core/src/repositories/durable-work.ts\<close>. The table is a list of rows in rowid
  order. ISO-8601 instants written by \<open>toISOString\<close> are their milliseconds (\<open>int\<close>), an
  order-preserving reading for four-digit years. The current time and the random tokens the
  code draws are arguments; an operation that draws several tokens takes a function from the
  draw's index. Telemetry wrappers (\<open>instrument\<close>) run their body and change nothing.
\<close>

type_synonym time = int

definition LOCAL_WORK_TARGET :: string where
  "LOCAL_WORK_TARGET = ''local''"

datatype claim_state_t = Pending | Processing | Transferring | Consumed | Dead_Letter

record work_row =
  wid :: string
  target_site_id :: string
  kind :: string
  payload :: jtext
  idempotency_key :: string
  claim_state :: claim_state_t
  claim_token :: "string option"
  claimed_at :: "time option"
  attempt_count :: int
  last_error :: "string option"
  created_at :: time
  expires_at :: "time option"
  dead_lettered_at :: "time option"
  consumed_at :: "time option"
  ref_id :: "string option"
  source_site :: "string option"
  received_at :: "time option"
  stream_id :: "string option"
  trace_context :: "string option"
  reclassify_count :: int

record new_work =
  new_id :: string
  new_target :: string
  new_kind :: string
  new_payload :: jtext
  new_key :: string
  new_expires_at :: "time option"
  new_ref_id :: "string option"
  new_source_site :: "string option"
  new_received_at :: "time option"
  new_stream_id :: "string option"
  new_trace_context :: "string option"

type_synonym spool = "work_row list"

section \<open>Insertion\<close>

datatype work_error = Missing_Fields | Empty_Payload | Invalid_Json

definition validateDurableWork :: "new_work \<Rightarrow> work_error option" where
  "validateDurableWork row =
     (if new_id row = [] \<or> new_target row = [] \<or> new_kind row = [] \<or> new_key row = []
      then Some Missing_Fields
      else if new_payload row = NotJson [] then Some Empty_Payload
      else (case json_parse (new_payload row) of None \<Rightarrow> Some Invalid_Json | Some _ \<Rightarrow> None))"

definition fresh_row :: "new_work \<Rightarrow> time \<Rightarrow> work_row" where
  "fresh_row row now =
     \<lparr> wid = new_id row, target_site_id = new_target row, kind = new_kind row,
       payload = new_payload row, idempotency_key = new_key row,
       claim_state = Pending, claim_token = None, claimed_at = None, attempt_count = 0,
       last_error = None, created_at = now, expires_at = new_expires_at row,
       dead_lettered_at = None, consumed_at = None, ref_id = new_ref_id row,
       source_site = new_source_site row, received_at = new_received_at row,
       stream_id = new_stream_id row, trace_context = new_trace_context row,
       reclassify_count = 0 \<rparr>"

text \<open>The primary key and the unique index on \<open>(kind, idempotency_key)\<close>.\<close>

definition fenced :: "spool \<Rightarrow> new_work \<Rightarrow> bool" where
  "fenced rows row \<longleftrightarrow>
     list_ex (\<lambda>r. wid r = new_id row \<or> (kind r = new_kind row \<and> idempotency_key r = new_key row)) rows"

text \<open>\<open>insertDurableWork\<close>: an invalid row is an error; a fenced row is ignored. The third
  component is the \<open>durable_work:written\<close> event emitted outside a transaction.\<close>

definition insertDurableWork ::
  "bool \<Rightarrow> bool \<Rightarrow> spool \<Rightarrow> new_work \<Rightarrow> time \<Rightarrow> work_error + (spool \<times> bool \<times> (string \<times> string) list)"
where
  "insertDurableWork bus inTransaction rows row now =
     (case validateDurableWork row of
        Some e \<Rightarrow> Inl e
      | None \<Rightarrow>
          if fenced rows row then Inr (rows, False, [])
          else Inr (rows @ [fresh_row row now], True,
                    if \<not> inTransaction \<and> bus then [(new_id row, new_target row)] else []))"

definition emitDurableWorkWritten :: "bool \<Rightarrow> (string \<times> string) list \<Rightarrow> (string \<times> string) list" where
  "emitDurableWorkWritten bus rows = (if \<not> bus \<or> rows = [] then [] else rows)"

section \<open>The row transitions\<close>

definition to_processing :: "string \<Rightarrow> time \<Rightarrow> work_row \<Rightarrow> work_row" where
  "to_processing tok now r =
     r\<lparr>claim_state := Processing, claim_token := Some tok, claimed_at := Some now,
       attempt_count := attempt_count r + 1\<rparr>"

definition to_pending :: "work_row \<Rightarrow> work_row" where
  "to_pending r = r\<lparr>claim_state := Pending, claim_token := None, claimed_at := None\<rparr>"

definition to_consumed :: "time \<Rightarrow> work_row \<Rightarrow> work_row" where
  "to_consumed now r =
     r\<lparr>claim_state := Consumed, consumed_at := Some now, claim_token := None, claimed_at := None\<rparr>"

definition charge :: "work_row \<Rightarrow> work_row" where
  "charge r = (to_pending r)\<lparr>attempt_count := attempt_count r + 1\<rparr>"

section \<open>Claims\<close>

text \<open>The claim \<open>UPDATE ... WHERE id = ? AND claim_state = 'pending'\<close> shared by the claim
  operations.\<close>

definition claim_row :: "string \<Rightarrow> time \<Rightarrow> string \<Rightarrow> spool \<Rightarrow> spool" where
  "claim_row tok now i rows =
     update_where (\<lambda>r. wid r = i \<and> claim_state r = Pending) (to_processing tok now) rows"

definition claimLocalDurableWork ::
  "spool \<Rightarrow> string \<Rightarrow> string option \<Rightarrow> string \<Rightarrow> time \<Rightarrow> spool \<times> work_row option" where
  "claimLocalDurableWork rows targetSiteId k tok now =
     (let eligible = (\<lambda>r. target_site_id r = targetSiteId \<and> claim_state r = Pending \<and>
             (case k of None \<Rightarrow> True | Some kd \<Rightarrow> kd = [] \<or> kind r = kd))
      in case order_by created_at (filter eligible rows) of
           [] \<Rightarrow> (rows, None)
         | row # _ \<Rightarrow> (claim_row tok now (wid row) rows, Some (to_processing tok now row)))"

text \<open>Claiming a selected list of rows one after another, each under its own token.\<close>

fun claim_each ::
  "(nat \<Rightarrow> string) \<Rightarrow> time \<Rightarrow> nat \<Rightarrow> work_row list \<Rightarrow> spool \<Rightarrow> spool \<times> work_row list" where
  "claim_each tok now n [] rows = (rows, [])"
| "claim_each tok now n (r # rs) rows =
     (let (rows', claimed) = claim_each tok now (Suc n) rs (claim_row (tok n) now (wid r) rows)
      in (rows', to_processing (tok n) now r # claimed))"

definition claimDurableWorkByIds ::
  "spool \<Rightarrow> string list \<Rightarrow> string \<Rightarrow> (nat \<Rightarrow> string) \<Rightarrow> time \<Rightarrow> spool \<times> work_row list" where
  "claimDurableWorkByIds rows ids targetSiteId tok now =
     (if ids = [] then (rows, [])
      else claim_each tok now 0
             (filter (\<lambda>r. target_site_id r = targetSiteId \<and> claim_state r = Pending \<and> wid r \<in> set ids) rows)
             rows)"

definition ack_matches :: "string \<Rightarrow> string \<Rightarrow> work_row \<Rightarrow> bool" where
  "ack_matches i tok r \<longleftrightarrow> wid r = i \<and> claim_state r = Processing \<and> claim_token r = Some tok"

text \<open>The loop that retires every id of the set; the first id without a live token makes it
  give up, which the caller turns into a rollback.\<close>

fun consume_all :: "time \<Rightarrow> (string \<rightharpoonup> string) \<Rightarrow> string list \<Rightarrow> spool \<Rightarrow> spool \<times> bool" where
  "consume_all now tokenById [] rows = (rows, True)"
| "consume_all now tokenById (i # ids) rows =
     (case tokenById i of
        None \<Rightarrow> (rows, False)
      | Some tok \<Rightarrow>
          if tok = [] then (rows, False)
          else if count_where (ack_matches i tok) rows \<noteq> 1
          then (update_where (ack_matches i tok) (to_consumed now) rows, False)
          else consume_all now tokenById ids (update_where (ack_matches i tok) (to_consumed now) rows))"

definition claimAndConsumeDurableWorkByIds ::
  "spool \<Rightarrow> string list \<Rightarrow> string \<Rightarrow> (string \<rightharpoonup> string) \<Rightarrow> (nat \<Rightarrow> string) \<Rightarrow> time \<Rightarrow> time \<Rightarrow> spool \<times> bool"
where
  "claimAndConsumeDurableWorkByIds rows allIds targetSiteId preClaimed tok now consumedAt =
     (if allIds = [] then (rows, False)
      else
        let pendingIds = filter (\<lambda>i. preClaimed i = None) allIds;
            pending = filter (\<lambda>r. target_site_id r = targetSiteId \<and> claim_state r = Pending \<and>
                                  wid r \<in> set pendingIds) rows;
            (rows1, claimed) = claim_each tok now 0 pending rows;
            tokenById = preClaimed ++ map_of (map (\<lambda>r. (wid r, the (claim_token r))) claimed);
            (rows2, allConsumed) = consume_all consumedAt tokenById allIds rows1
        in if allConsumed then (rows2, True) else (rows, False))"

section \<open>Retirement, release and transfer\<close>

definition acknowledgeDurableWork :: "spool \<Rightarrow> string \<Rightarrow> string \<Rightarrow> time \<Rightarrow> spool \<times> bool" where
  "acknowledgeDurableWork rows i claimToken now =
     (update_where (ack_matches i claimToken) (to_consumed now) rows,
      count_where (ack_matches i claimToken) rows = 1)"

definition releaseDurableWorkClaim :: "spool \<Rightarrow> string \<Rightarrow> string \<Rightarrow> spool \<times> bool" where
  "releaseDurableWorkClaim rows i claimToken =
     (update_where (ack_matches i claimToken)
        (\<lambda>r. (to_pending r)\<lparr>attempt_count := max (attempt_count r - 1) 0\<rparr>) rows,
      count_where (ack_matches i claimToken) rows = 1)"

definition beginDurableWorkTransfer :: "spool \<Rightarrow> string \<Rightarrow> string \<Rightarrow> time \<Rightarrow> spool \<times> string option" where
  "beginDurableWorkTransfer rows i tok now =
     (update_where (\<lambda>r. wid r = i \<and> claim_state r = Pending)
        (\<lambda>r. r\<lparr>claim_state := Transferring, claim_token := Some tok, claimed_at := Some now\<rparr>) rows,
      if count_where (\<lambda>r. wid r = i \<and> claim_state r = Pending) rows = 1 then Some tok else None)"

definition transfer_matches :: "string \<Rightarrow> string \<Rightarrow> work_row \<Rightarrow> bool" where
  "transfer_matches i tok r \<longleftrightarrow> wid r = i \<and> claim_state r = Transferring \<and> claim_token r = Some tok"

definition rollbackUnsentDurableWorkTransfer :: "spool \<Rightarrow> string \<Rightarrow> string \<Rightarrow> spool \<times> bool" where
  "rollbackUnsentDurableWorkTransfer rows i token =
     (update_where (transfer_matches i token) to_pending rows,
      count_where (transfer_matches i token) rows = 1)"

definition acknowledgeDurableWorkTransfer :: "spool \<Rightarrow> string \<Rightarrow> string \<Rightarrow> spool \<times> bool" where
  "acknowledgeDurableWorkTransfer rows i transferToken =
     (delete_where (transfer_matches i transferToken) rows,
      count_where (transfer_matches i transferToken) rows = 1)"

definition resetProcessingDurableWork :: "spool \<Rightarrow> string \<Rightarrow> spool \<times> nat" where
  "resetProcessingDurableWork rows targetSiteId =
     (let p = (\<lambda>r. target_site_id r = targetSiteId \<and> claim_state r = Processing)
      in (update_where p to_pending rows, count_where p rows))"

definition resetTransferringLocalDurableWork :: "spool \<Rightarrow> spool \<times> nat" where
  "resetTransferringLocalDurableWork rows =
     (let p = (\<lambda>r. target_site_id r = LOCAL_WORK_TARGET \<and> claim_state r = Transferring)
      in (update_where p to_pending rows, count_where p rows))"

section \<open>Dead letters\<close>

definition DURABLE_WORK_TRANSFER_STALE_MS :: int where
  "DURABLE_WORK_TRANSFER_STALE_MS = 30000"

definition DURABLE_WORK_MAX_ATTEMPTS :: int where
  "DURABLE_WORK_MAX_ATTEMPTS = 3"

definition DEAD_LETTER_RETENTION_MS :: int where
  "DEAD_LETTER_RETENTION_MS = 7 * 24 * 60 * 60 * 1000"

definition TRANSFER_EXHAUSTED_LAST_ERROR :: string where
  "TRANSFER_EXHAUSTED_LAST_ERROR = ''transfer retries exhausted (no SPOOL_TRANSFER_ACK)''"

definition TRANSFER_EXHAUSTED_RECLASSIFY_BUDGET :: int where
  "TRANSFER_EXHAUSTED_RECLASSIFY_BUDGET = 3"

definition to_dead_letter :: "time \<Rightarrow> string option \<Rightarrow> bool \<Rightarrow> work_row \<Rightarrow> work_row" where
  "to_dead_letter now lastError preserveExistingError r =
     r\<lparr>claim_state := Dead_Letter, claim_token := None, claimed_at := None,
       last_error := (if preserveExistingError
                      then (case last_error r of None \<Rightarrow> Some ''expired'' | Some e \<Rightarrow> Some e)
                      else lastError),
       dead_lettered_at := Some now,
       expires_at := Some (now + DEAD_LETTER_RETENTION_MS)\<rparr>"

definition deadLetterDurableWorkRows ::
  "spool \<Rightarrow> time \<Rightarrow> string option \<Rightarrow> (work_row \<Rightarrow> bool) \<Rightarrow> bool \<Rightarrow> spool \<times> nat" where
  "deadLetterDurableWorkRows rows now lastError p preserveExistingError =
     (update_where p (to_dead_letter now lastError preserveExistingError) rows, count_where p rows)"

text \<open>SQL's three-valued comparisons on nullable columns are false on NULL.\<close>

definition sql_le :: "time option \<Rightarrow> time \<Rightarrow> bool" where
  "sql_le a b = (case a of None \<Rightarrow> False | Some x \<Rightarrow> x \<le> b)"

definition deadLetterExpiredDurableWork :: "spool \<Rightarrow> time \<Rightarrow> spool \<times> nat" where
  "deadLetterExpiredDurableWork rows now =
     deadLetterDurableWorkRows rows now None
       (\<lambda>r. claim_state r \<noteq> Dead_Letter \<and> expires_at r \<noteq> None \<and> sql_le (expires_at r) now) True"

definition deadLetterDurableWork :: "spool \<Rightarrow> string \<Rightarrow> string \<Rightarrow> time \<Rightarrow> spool \<times> bool" where
  "deadLetterDurableWork rows i err now =
     (let (rows', n) = deadLetterDurableWorkRows rows now (Some err)
            (\<lambda>r. wid r = i \<and> claim_state r \<noteq> Dead_Letter) False
      in (rows', n = 1))"

definition deadLetterClaimedDurableWork ::
  "spool \<Rightarrow> string \<Rightarrow> string \<Rightarrow> string \<Rightarrow> time \<Rightarrow> spool \<times> bool" where
  "deadLetterClaimedDurableWork rows i claimToken err now =
     (let (rows', n) = deadLetterDurableWorkRows rows now (Some err) (ack_matches i claimToken) False
      in (rows', n = 1))"

definition deadLetterPendingDurableWork :: "spool \<Rightarrow> string \<Rightarrow> string \<Rightarrow> time \<Rightarrow> spool \<times> bool" where
  "deadLetterPendingDurableWork rows i err now =
     (let (rows', n) = deadLetterDurableWorkRows rows now (Some err)
            (\<lambda>r. wid r = i \<and> claim_state r = Pending) False
      in (rows', n = 1))"

definition stale_transfer :: "time \<Rightarrow> work_row \<Rightarrow> bool" where
  "stale_transfer now r \<longleftrightarrow>
     claim_state r = Transferring \<and> claimed_at r \<noteq> None \<and>
     sql_le (claimed_at r) (now - DURABLE_WORK_TRANSFER_STALE_MS) \<and>
     (expires_at r = None \<or> \<not> sql_le (expires_at r) now)"

definition sweepStaleTransferringDurableWork :: "spool \<Rightarrow> int \<Rightarrow> time \<Rightarrow> spool \<times> nat" where
  "sweepStaleTransferringDurableWork rows maxAttempts now =
     (let (rows1, deadLettered) =
            deadLetterDurableWorkRows rows now (Some TRANSFER_EXHAUSTED_LAST_ERROR)
              (\<lambda>r. stale_transfer now r \<and> maxAttempts \<le> attempt_count r) False;
          p = (\<lambda>r. stale_transfer now r \<and> attempt_count r < maxAttempts)
      in (update_where p charge rows1, deadLettered + count_where p rows1))"

definition redriveTransferringDurableWork :: "spool \<Rightarrow> string \<Rightarrow> int \<Rightarrow> time \<Rightarrow> spool \<times> bool" where
  "redriveTransferringDurableWork rows i maxAttempts now =
     (let (rows1, n) =
            deadLetterDurableWorkRows rows now (Some TRANSFER_EXHAUSTED_LAST_ERROR)
              (\<lambda>r. wid r = i \<and> claim_state r = Transferring \<and> maxAttempts \<le> attempt_count r) False
      in if n = 1 then (rows1, True)
         else
           let p = (\<lambda>r. wid r = i \<and> claim_state r = Transferring \<and> attempt_count r < maxAttempts)
           in (update_where p charge rows1, count_where p rows1 = 1))"

definition reclassifiable :: "string \<Rightarrow> time \<Rightarrow> work_row \<Rightarrow> bool" where
  "reclassifiable peerSiteId horizon r \<longleftrightarrow>
     claim_state r = Dead_Letter \<and> last_error r = Some TRANSFER_EXHAUSTED_LAST_ERROR \<and>
     target_site_id r = peerSiteId \<and>
     (case dead_lettered_at r of None \<Rightarrow> False | Some d \<Rightarrow> horizon \<le> d) \<and>
     reclassify_count r < TRANSFER_EXHAUSTED_RECLASSIFY_BUDGET"

definition reclassifyTransferExhaustedDeadLetters ::
  "spool \<Rightarrow> string \<Rightarrow> int \<Rightarrow> time \<Rightarrow> spool \<times> nat" where
  "reclassifyTransferExhaustedDeadLetters rows peerSiteId recentWindowMs now =
     (let p = reclassifiable peerSiteId (now - recentWindowMs)
      in (update_where p
            (\<lambda>r. r\<lparr>claim_state := Pending, claim_token := None, claimed_at := None,
                   dead_lettered_at := None, last_error := None, attempt_count := 0,
                   reclassify_count := reclassify_count r + 1\<rparr>) rows,
          count_where p rows))"

definition redriveDeadLetterDurableWork :: "spool \<Rightarrow> string \<Rightarrow> time option \<Rightarrow> spool \<times> bool" where
  "redriveDeadLetterDurableWork rows i expiresAt =
     (let p = (\<lambda>r. wid r = i \<and> claim_state r = Dead_Letter)
      in (update_where p
            (\<lambda>r. r\<lparr>claim_state := Pending, claim_token := None, claimed_at := None,
                   dead_lettered_at := None, expires_at := expiresAt\<rparr>) rows,
          count_where p rows = 1))"

section \<open>Pruning and purging\<close>

definition pruneConsumedDurableWork :: "spool \<Rightarrow> time \<Rightarrow> spool \<times> nat" where
  "pruneConsumedDurableWork rows cutoff =
     (let p = (\<lambda>r. claim_state r = Consumed \<and>
                   (case consumed_at r of None \<Rightarrow> False | Some t \<Rightarrow> t < cutoff))
      in (delete_where p rows, count_where p rows))"

definition consumePendingDispatchByIdempotencyKey :: "spool \<Rightarrow> string \<Rightarrow> time \<Rightarrow> spool \<times> nat" where
  "consumePendingDispatchByIdempotencyKey rows key now =
     (let p = (\<lambda>r. target_site_id r = LOCAL_WORK_TARGET \<and> kind r = ''dispatch_message'' \<and>
                   idempotency_key r = key \<and> claim_state r = Pending)
      in (update_where p (to_consumed now) rows, count_where p rows))"

definition pruneExpiredDeadLetters :: "spool \<Rightarrow> time \<Rightarrow> spool \<times> nat" where
  "pruneExpiredDeadLetters rows now =
     (let p = (\<lambda>r. claim_state r = Dead_Letter \<and> expires_at r \<noteq> None \<and> sql_le (expires_at r) now)
      in (delete_where p rows, count_where p rows))"

datatype purge_selector =
    Dead_Lettered (sel_kind: "string option") (older_than: "int option")
  | All_Unclaimed (sel_kind: "string option") (older_than: "int option") bool

definition PURGE_UNCLAIMED_FLOOR_MS :: int where
  "PURGE_UNCLAIMED_FLOOR_MS = 60 * 60 * 1000"

definition older :: "time \<Rightarrow> int option \<Rightarrow> work_row \<Rightarrow> bool" where
  "older now ms r = (case ms of None \<Rightarrow> True | Some m \<Rightarrow> created_at r \<le> now - m)"

definition purgeable :: "purge_selector \<Rightarrow> time \<Rightarrow> work_row \<Rightarrow> bool" where
  "purgeable selector now r \<longleftrightarrow>
     (case sel_kind selector of None \<Rightarrow> True | Some k \<Rightarrow> k = [] \<or> kind r = k) \<and>
     (case selector of
        Dead_Lettered _ olderThanMs \<Rightarrow> claim_state r = Dead_Letter \<and> older now olderThanMs r
      | All_Unclaimed _ olderThanMs force \<Rightarrow>
          let pendingFloorMs =
                (if force then olderThanMs
                 else Some (max (case olderThanMs of None \<Rightarrow> PURGE_UNCLAIMED_FLOOR_MS | Some m \<Rightarrow> m)
                                PURGE_UNCLAIMED_FLOOR_MS))
          in (claim_state r = Pending \<and> (force \<or> target_site_id r = LOCAL_WORK_TARGET) \<and>
              older now pendingFloorMs r)
           \<or> (claim_state r = Dead_Letter \<and> older now olderThanMs r))"

definition purgeDurableWork :: "spool \<Rightarrow> purge_selector \<Rightarrow> time \<Rightarrow> spool \<times> nat" where
  "purgeDurableWork rows selector now =
     (delete_where (purgeable selector now) rows, count_where (purgeable selector now) rows)"

section \<open>Readers\<close>

definition readPendingPeerTargetedDurableWork :: "spool \<Rightarrow> string \<Rightarrow> string option \<Rightarrow> work_row list" where
  "readPendingPeerTargetedDurableWork rows ownSiteId target =
     order_by created_at
       (filter (\<lambda>r. claim_state r = Pending \<and>
          (case target of None \<Rightarrow> True | Some t \<Rightarrow> t = [] \<or> target_site_id r = t) \<and>
          target_site_id r \<noteq> ownSiteId \<and> target_site_id r \<noteq> LOCAL_WORK_TARGET) rows)"

definition readTransferringDurableWork :: "spool \<Rightarrow> string option \<Rightarrow> work_row list" where
  "readTransferringDurableWork rows target =
     order_by created_at
       (filter (\<lambda>r. claim_state r = Transferring \<and>
          (case target of None \<Rightarrow> True | Some t \<Rightarrow> t = [] \<or> target_site_id r = t) \<and>
          target_site_id r \<noteq> LOCAL_WORK_TARGET) rows)"

section \<open>The shape of the spool\<close>

text \<open>
  Row invariant: a claim token and its timestamp are present exactly while a generation is
  in flight; a consumed row has its consumption time; dead-letter rows are exactly the ones
  with a dead-letter time; the counters stay in range. Spool invariant: the primary key and
  the \<open>(kind, idempotency_key)\<close> fence are unique.
\<close>

definition row_ok :: "work_row \<Rightarrow> bool" where
  "row_ok r \<longleftrightarrow>
     (claim_token r \<noteq> None \<longleftrightarrow> claim_state r = Processing \<or> claim_state r = Transferring) \<and>
     (claimed_at r \<noteq> None \<longleftrightarrow> claim_token r \<noteq> None) \<and>
     (claim_state r = Consumed \<longrightarrow> consumed_at r \<noteq> None) \<and>
     (dead_lettered_at r \<noteq> None \<longleftrightarrow> claim_state r = Dead_Letter) \<and>
     0 \<le> attempt_count r \<and>
     0 \<le> reclassify_count r \<and> reclassify_count r \<le> TRANSFER_EXHAUSTED_RECLASSIFY_BUDGET"

definition fence_key :: "work_row \<Rightarrow> string \<times> string" where
  "fence_key r = (kind r, idempotency_key r)"

definition spool_ok :: "spool \<Rightarrow> bool" where
  "spool_ok rows \<longleftrightarrow>
     distinct (map wid rows) \<and> distinct (map fence_key rows) \<and> list_all row_ok rows"

lemmas transition_defs =
  to_processing_def to_pending_def to_consumed_def charge_def to_dead_letter_def

text \<open>
  Every \<open>UPDATE\<close> of the spool rewrites the lifecycle columns of the rows its guard selects
  and leaves their identity alone. A guarded transition that keeps the row invariant keeps
  the spool invariant, and what it does to one row is all it does.
\<close>

locale row_transition =
  fixes guard :: "work_row \<Rightarrow> bool" and step :: "work_row \<Rightarrow> work_row"
  assumes same_id: "wid (step r) = wid r"
    and same_fence: "fence_key (step r) = fence_key r"
    and step_ok: "row_ok r \<Longrightarrow> guard r \<Longrightarrow> row_ok (step r)"
begin

lemma update_ok: "spool_ok rows \<Longrightarrow> spool_ok (update_where guard step rows)"
  using map_update_where_key [of wid step guard rows, OF same_id]
    map_update_where_key [of fence_key step guard rows, OF same_fence] step_ok
  by (auto simp: spool_ok_def list_all_iff elim!: in_update_whereE)

lemma update_row:
  assumes "spool_ok rows" and "r \<in> set rows" and "r' \<in> set (update_where guard step rows)"
    and "wid r' = wid r"
  shows "r' = (if guard r then step r else r)"
  using update_where_distinct_eq [of wid rows r step r' guard] assms same_id
  by (auto simp: spool_ok_def)

end

interpretation claim: row_transition "\<lambda>r. wid r = i \<and> claim_state r = Pending" "to_processing tok now"
  for i tok now
  by unfold_locales (auto simp: to_processing_def fence_key_def row_ok_def)

interpretation consume: row_transition "ack_matches i tok" "to_consumed now" for i tok now
  by unfold_locales (auto simp: to_consumed_def fence_key_def row_ok_def ack_matches_def)

interpretation consume_pending: row_transition
  "\<lambda>r. target_site_id r = LOCAL_WORK_TARGET \<and> kind r = ''dispatch_message'' \<and>
       idempotency_key r = key \<and> claim_state r = Pending" "to_consumed now" for key now
  by unfold_locales (auto simp: to_consumed_def fence_key_def row_ok_def)

interpretation release: row_transition "ack_matches i tok"
  "\<lambda>r. (to_pending r)\<lparr>attempt_count := max (attempt_count r - 1) 0\<rparr>" for i tok
  by unfold_locales (auto simp: to_pending_def fence_key_def row_ok_def ack_matches_def)

interpretation begin_transfer: row_transition "\<lambda>r. wid r = i \<and> claim_state r = Pending"
  "\<lambda>r. r\<lparr>claim_state := Transferring, claim_token := Some tok, claimed_at := Some now\<rparr>" for i tok now
  by unfold_locales (auto simp: fence_key_def row_ok_def)

interpretation rollback: row_transition "transfer_matches i tok" to_pending for i tok
  by unfold_locales (auto simp: to_pending_def fence_key_def row_ok_def transfer_matches_def)

interpretation recover: row_transition
  "\<lambda>r. target_site_id r = t \<and> claim_state r = Processing" to_pending for t
  by unfold_locales (auto simp: to_pending_def fence_key_def row_ok_def)

interpretation recover_local: row_transition
  "\<lambda>r. target_site_id r = LOCAL_WORK_TARGET \<and> claim_state r = Transferring" to_pending
  by unfold_locales (auto simp: to_pending_def fence_key_def row_ok_def)

interpretation charge_stale: row_transition
  "\<lambda>r. stale_transfer now r \<and> attempt_count r < maxAttempts" charge for now maxAttempts
  by unfold_locales (auto simp: transition_defs fence_key_def row_ok_def stale_transfer_def)

interpretation charge_named: row_transition
  "\<lambda>r. wid r = i \<and> claim_state r = Transferring \<and> attempt_count r < maxAttempts" charge for i maxAttempts
  by unfold_locales (auto simp: transition_defs fence_key_def row_ok_def)

interpretation dead_letter: row_transition guard "to_dead_letter now err keep"
  for guard now err keep
  by unfold_locales (auto simp: to_dead_letter_def fence_key_def row_ok_def)

interpretation reclassify: row_transition "reclassifiable peer horizon"
  "\<lambda>r. r\<lparr>claim_state := Pending, claim_token := None, claimed_at := None,
         dead_lettered_at := None, last_error := None, attempt_count := 0,
         reclassify_count := reclassify_count r + 1\<rparr>" for peer horizon
  by unfold_locales (auto simp: fence_key_def row_ok_def reclassifiable_def)

interpretation redrive: row_transition "\<lambda>r. wid r = i \<and> claim_state r = Dead_Letter"
  "\<lambda>r. r\<lparr>claim_state := Pending, claim_token := None, claimed_at := None,
         dead_lettered_at := None, expires_at := e\<rparr>" for i e
  by unfold_locales (auto simp: fence_key_def row_ok_def)

lemma delete_where_ok: "spool_ok rows \<Longrightarrow> spool_ok (delete_where p rows)"
  by (simp add: spool_ok_def delete_where_def distinct_map_filter list_all_iff)

lemma fresh_row_ok: "row_ok (fresh_row row now)"
  by (simp add: row_ok_def fresh_row_def TRANSFER_EXHAUSTED_RECLASSIFY_BUDGET_def)

lemma insert_ok:
  assumes "spool_ok rows" and "insertDurableWork bus tx rows row now = Inr (rows', ins, ev)"
  shows "spool_ok rows'"
proof -
  have "spool_ok (rows @ [fresh_row row now])" if "\<not> fenced rows row"
    using that assms(1) fresh_row_ok [of row now]
    by (auto simp: spool_ok_def fenced_def list_ex_iff fence_key_def fresh_row_def)
  with assms show ?thesis
    by (auto simp: insertDurableWork_def split: option.splits if_splits)
qed

lemma claim_row_ok: "spool_ok rows \<Longrightarrow> spool_ok (claim_row tok now i rows)"
  by (simp add: claim_row_def claim.update_ok)

lemma claim_each_ok: "spool_ok rows \<Longrightarrow> spool_ok (fst (claim_each tok now n rs rows))"
  by (induction tok now n rs rows rule: claim_each.induct)
    (simp_all add: claim_row_ok case_prod_unfold Let_def)

lemma consume_all_ok: "spool_ok rows \<Longrightarrow> spool_ok (fst (consume_all now m ids rows))"
  by (induction now m ids rows rule: consume_all.induct)
    (simp_all add: consume.update_ok split: option.splits)

lemma dead_letter_ok: "spool_ok rows \<Longrightarrow> spool_ok (fst (deadLetterDurableWorkRows rows now err p keep))"
  by (simp add: deadLetterDurableWorkRows_def dead_letter.update_ok)

section \<open>The spool as a state machine\<close>

inductive spool_step :: "spool \<Rightarrow> spool \<Rightarrow> bool" where
  insert: "insertDurableWork bus tx rows row now = Inr (rows', ins, ev) \<Longrightarrow> spool_step rows rows'"
| claim_local: "spool_step rows (fst (claimLocalDurableWork rows target k tok now))"
| claim_ids: "spool_step rows (fst (claimDurableWorkByIds rows ids target toks now))"
| claim_consume:
    "spool_step rows (fst (claimAndConsumeDurableWorkByIds rows ids target pre toks now consumedAt))"
| acknowledge: "spool_step rows (fst (acknowledgeDurableWork rows i tok now))"
| release_claim: "spool_step rows (fst (releaseDurableWorkClaim rows i tok))"
| transfer_begin: "spool_step rows (fst (beginDurableWorkTransfer rows i tok now))"
| transfer_rollback: "spool_step rows (fst (rollbackUnsentDurableWorkTransfer rows i tok))"
| transfer_ack: "spool_step rows (fst (acknowledgeDurableWorkTransfer rows i tok))"
| boot_processing: "spool_step rows (fst (resetProcessingDurableWork rows target))"
| boot_local: "spool_step rows (fst (resetTransferringLocalDurableWork rows))"
| sweep: "spool_step rows (fst (sweepStaleTransferringDurableWork rows maxAttempts now))"
| expire: "spool_step rows (fst (deadLetterExpiredDurableWork rows now))"
| dead_letter_id: "spool_step rows (fst (deadLetterDurableWork rows i err now))"
| dead_letter_claimed: "spool_step rows (fst (deadLetterClaimedDurableWork rows i tok err now))"
| dead_letter_pending: "spool_step rows (fst (deadLetterPendingDurableWork rows i err now))"
| redrive_transferring: "spool_step rows (fst (redriveTransferringDurableWork rows i maxAttempts now))"
| reclassify_peer:
    "spool_step rows (fst (reclassifyTransferExhaustedDeadLetters rows peer window now))"
| redrive_dead: "spool_step rows (fst (redriveDeadLetterDurableWork rows i e))"
| prune_consumed: "spool_step rows (fst (pruneConsumedDurableWork rows cutoff))"
| consume_dispatch: "spool_step rows (fst (consumePendingDispatchByIdempotencyKey rows key now))"
| prune_dead: "spool_step rows (fst (pruneExpiredDeadLetters rows now))"
| purge: "spool_step rows (fst (purgeDurableWork rows selector now))"

inductive spool_reachable :: "spool \<Rightarrow> bool" where
  empty: "spool_reachable []"
| step: "spool_reachable rows \<Longrightarrow> spool_step rows rows' \<Longrightarrow> spool_reachable rows'"

lemmas spool_op_defs =
  claimLocalDurableWork_def claimDurableWorkByIds_def claimAndConsumeDurableWorkByIds_def
  acknowledgeDurableWork_def releaseDurableWorkClaim_def beginDurableWorkTransfer_def
  rollbackUnsentDurableWorkTransfer_def acknowledgeDurableWorkTransfer_def
  resetProcessingDurableWork_def resetTransferringLocalDurableWork_def
  deadLetterExpiredDurableWork_def deadLetterDurableWork_def deadLetterClaimedDurableWork_def
  deadLetterPendingDurableWork_def reclassifyTransferExhaustedDeadLetters_def
  redriveDeadLetterDurableWork_def pruneConsumedDurableWork_def
  consumePendingDispatchByIdempotencyKey_def pruneExpiredDeadLetters_def purgeDurableWork_def

lemmas spool_update_oks =
  claim.update_ok consume.update_ok consume_pending.update_ok release.update_ok
  begin_transfer.update_ok rollback.update_ok recover.update_ok recover_local.update_ok
  charge_stale.update_ok charge_named.update_ok reclassify.update_ok redrive.update_ok
  delete_where_ok dead_letter_ok claim_row_ok claim_each_ok

lemma claim_local_ok: "spool_ok rows \<Longrightarrow> spool_ok (fst (claimLocalDurableWork rows t k tok now))"
  by (simp add: claimLocalDurableWork_def claim_row_ok split: list.splits)

lemma claim_consume_ok:
  "spool_ok rows \<Longrightarrow> spool_ok (fst (claimAndConsumeDurableWorkByIds rows ids t pre toks now c))"
proof -
  assume ok: "spool_ok rows"
  have "spool_ok (fst (consume_all c m ids (fst (claim_each toks now 0 rs rows))))" for m rs
    by (intro consume_all_ok claim_each_ok ok)
  then show ?thesis
    using ok by (simp add: claimAndConsumeDurableWorkByIds_def Let_def case_prod_unfold)
qed

lemma sweep_ok: "spool_ok rows \<Longrightarrow> spool_ok (fst (sweepStaleTransferringDurableWork rows m now))"
  using dead_letter_ok [of rows now "Some TRANSFER_EXHAUSTED_LAST_ERROR"
      "\<lambda>r. stale_transfer now r \<and> m \<le> attempt_count r" False]
  by (simp add: sweepStaleTransferringDurableWork_def Let_def charge_stale.update_ok case_prod_unfold)

lemma redrive_transferring_ok:
  "spool_ok rows \<Longrightarrow> spool_ok (fst (redriveTransferringDurableWork rows i m now))"
  using dead_letter_ok [of rows now "Some TRANSFER_EXHAUSTED_LAST_ERROR"
      "\<lambda>r. wid r = i \<and> claim_state r = Transferring \<and> m \<le> attempt_count r" False]
  by (simp add: redriveTransferringDurableWork_def Let_def charge_named.update_ok case_prod_unfold)

lemma dead_letter_fst_ok:
  assumes "spool_ok rows"
  shows "spool_ok (fst (deadLetterDurableWork rows i err now))"
    and "spool_ok (fst (deadLetterClaimedDurableWork rows i tok err now))"
    and "spool_ok (fst (deadLetterPendingDurableWork rows i err now))"
    and "spool_ok (fst (deadLetterExpiredDurableWork rows now))"
  using assms
  by (simp_all add: deadLetterDurableWork_def deadLetterClaimedDurableWork_def
      deadLetterPendingDurableWork_def deadLetterExpiredDurableWork_def
      deadLetterDurableWorkRows_def dead_letter.update_ok)

lemma spool_step_ok: "spool_step rows rows' \<Longrightarrow> spool_ok rows \<Longrightarrow> spool_ok rows'"
proof (induction rule: spool_step.induct)
  case (insert bus tx rows row now rows' ins ev)
  then show ?case by (blast intro: insert_ok)
qed (simp_all add: claim_local_ok claim_consume_ok sweep_ok redrive_transferring_ok
    dead_letter_fst_ok spool_update_oks claimDurableWorkByIds_def acknowledgeDurableWork_def
    releaseDurableWorkClaim_def beginDurableWorkTransfer_def rollbackUnsentDurableWorkTransfer_def
    acknowledgeDurableWorkTransfer_def resetProcessingDurableWork_def
    resetTransferringLocalDurableWork_def reclassifyTransferExhaustedDeadLetters_def
    redriveDeadLetterDurableWork_def pruneConsumedDurableWork_def
    consumePendingDispatchByIdempotencyKey_def pruneExpiredDeadLetters_def purgeDurableWork_def Let_def)

lemma spool_reachable_ok: "spool_reachable rows \<Longrightarrow> spool_ok rows"
proof (induction rule: spool_reachable.induct)
  case empty
  show ?case by (simp add: spool_ok_def)
next
  case (step rows rows')
  then show ?case by (blast intro: spool_step_ok)
qed

section \<open>Claims and fences\<close>

lemma order_by_hd:
  assumes "order_by k xs = y # ys"
  shows "y \<in> set xs" and "\<forall>x \<in> set xs. k y \<le> k x"
proof -
  have "set (order_by k xs) = set xs" by simp
  with assms show "y \<in> set xs" by auto
  have "sorted (map k (y # ys))" using sorted_order_by [of k xs] assms by simp
  moreover have "set xs = insert y (set ys)" using assms set_order_by [of k xs] by simp
  ultimately show "\<forall>x \<in> set xs. k y \<le> k x" by auto
qed

lemma claimLocal_Some:
  assumes "claimLocalDurableWork rows t k tok now = (rows', Some r)"
  obtains row where "row \<in> set rows" and "claim_state row = Pending" and "target_site_id row = t"
    and "r = to_processing tok now row" and "rows' = claim_row tok now (wid row) rows"
    and "\<forall>r2 \<in> set rows. target_site_id r2 = t \<and> claim_state r2 = Pending \<and>
           (case k of None \<Rightarrow> True | Some kd \<Rightarrow> kd = [] \<or> kind r2 = kd) \<longrightarrow> created_at row \<le> created_at r2"
    and "case k of None \<Rightarrow> True | Some kd \<Rightarrow> kd = [] \<or> kind row = kd"
proof -
  let ?p = "\<lambda>r. target_site_id r = t \<and> claim_state r = Pending \<and>
             (case k of None \<Rightarrow> True | Some kd \<Rightarrow> kd = [] \<or> kind r = kd)"
  from assms obtain row rest where o: "order_by created_at (filter ?p rows) = row # rest"
    and e: "rows' = claim_row tok now (wid row) rows" "r = to_processing tok now row"
    by (auto simp: claimLocalDurableWork_def Let_def split: list.splits)
  from order_by_hd [OF o] e show ?thesis by (intro that) auto
qed

lemma spool_ok_unique: "spool_ok rows \<Longrightarrow> r \<in> set rows \<Longrightarrow> r' \<in> set rows \<Longrightarrow> wid r = wid r' \<Longrightarrow> r = r'"
  by (auto simp: spool_ok_def distinct_map dest: inj_onD)

lemma spool_ok_row: "spool_ok rows \<Longrightarrow> r \<in> set rows \<Longrightarrow> row_ok r"
  by (auto simp: spool_ok_def list_all_iff)

lemma count_one:
  assumes "spool_ok rows" and "\<And>r. p r \<Longrightarrow> wid r = i"
  shows "count_where p rows = 1 \<longleftrightarrow> (\<exists>r \<in> set rows. p r)"
proof
  assume "count_where p rows = 1"
  then have "0 < count_where p rows" by simp
  then show "\<exists>r \<in> set rows. p r" by (simp only: count_where_pos)
next
  assume "\<exists>r \<in> set rows. p r"
  then obtain r where r: "r \<in> set rows" "p r" by blast
  show "count_where p rows = 1"
  proof (rule count_where_unique_key [where k = wid and r = r])
    show "distinct (map wid rows)" using assms(1) by (simp add: spool_ok_def)
    show "wid r' = wid r" if "p r'" for r' using assms(2) that r(2) by metis
  qed (rule r)+
qed

lemma count_ack:
  "spool_ok rows \<Longrightarrow> count_where (ack_matches i tok) rows = 1 \<longleftrightarrow> (\<exists>r \<in> set rows. ack_matches i tok r)"
  by (rule count_one) (simp_all add: ack_matches_def)

lemma count_transfer:
  "spool_ok rows \<Longrightarrow>
   count_where (transfer_matches i tok) rows = 1 \<longleftrightarrow> (\<exists>r \<in> set rows. transfer_matches i tok r)"
  by (rule count_one) (simp_all add: transfer_matches_def)

lemma count_pending:
  "spool_ok rows \<Longrightarrow> count_where (\<lambda>r. wid r = i \<and> claim_state r = Pending) rows = 1 \<longleftrightarrow>
     (\<exists>r \<in> set rows. wid r = i \<and> claim_state r = Pending)"
  by (rule count_one) simp_all

lemma update_where_comp:
  assumes "\<And>r. r \<in> set rows \<Longrightarrow> p r \<Longrightarrow> q (f r) \<and> g (f r) = r"
    and "\<And>r. r \<in> set rows \<Longrightarrow> \<not> p r \<Longrightarrow> \<not> q r"
  shows "update_where q g (update_where p f rows) = rows"
  using assms by (auto simp: update_where_def intro!: map_idI)

lemma claim_row_ids: "map wid (claim_row tok now i rows) = map wid rows"
  unfolding claim_row_def by (rule map_update_where_key) (rule claim.same_id)

lemma claim_row_other: "r \<in> set rows \<Longrightarrow> wid r \<noteq> i \<Longrightarrow> r \<in> set (claim_row tok now i rows)"
  by (auto simp: claim_row_def set_update_where)

lemma claim_each_frame:
  shows "map wid (fst (claim_each tok now n rs rows)) = map wid rows"
    and "r \<in> set rows \<Longrightarrow> wid r \<notin> wid ` set rs \<Longrightarrow> r \<in> set (fst (claim_each tok now n rs rows))"
  by (induction tok now n rs rows rule: claim_each.induct)
    (simp_all add: claim_row_ids claim_row_other case_prod_unfold Let_def)

lemma claim_each_ids: "map wid (snd (claim_each tok now n rs rows)) = map wid rs"
  by (induction tok now n rs rows rule: claim_each.induct) (simp_all add: case_prod_unfold Let_def to_processing_def)

lemma consume_all_True:
  assumes "spool_ok rows" and "consume_all now m ids rows = (rows', True)"
  shows "spool_ok rows'" and "map wid rows' = map wid rows" and "set ids \<subseteq> wid ` set rows"
    and "\<forall>r \<in> set rows. wid r \<notin> set ids \<longrightarrow> r \<in> set rows'"
    and "\<forall>r' \<in> set rows'. wid r' \<in> set ids \<longrightarrow> claim_state r' = Consumed"
proof (atomize (full), use assms in \<open>induction ids arbitrary: rows\<close>)
  case Nil
  then show ?case by simp
next
  case (Cons i ids)
  from Cons.prems(2) obtain tok where tok: "m i = Some tok" "tok \<noteq> []"
    and one: "count_where (ack_matches i tok) rows = 1"
    and rest: "consume_all now m ids (update_where (ack_matches i tok) (to_consumed now) rows) = (rows', True)"
    by (auto split: option.splits if_splits)
  let ?rows = "update_where (ack_matches i tok) (to_consumed now) rows"
  have ok: "spool_ok ?rows" using Cons.prems(1) by (rule consume.update_ok)
  have ids: "map wid ?rows = map wid rows" by (rule map_update_where_key) (rule consume.same_id)
  note IH = Cons.IH [OF ok rest]
  from one count_ack [OF Cons.prems(1)] obtain r where r: "r \<in> set rows" "ack_matches i tok r" by blast
  have in1: "to_consumed now r \<in> set ?rows" using r by (auto simp: set_update_where)
  have other: "x \<in> set ?rows" if "x \<in> set rows" "wid x \<noteq> i" for x
    using that by (auto simp: set_update_where ack_matches_def)
  have done_i: "claim_state x = Consumed" if x: "x \<in> set rows'" "wid x = i" for x
  proof (cases "i \<in> set ids")
    case True
    with IH x show ?thesis by auto
  next
    case False
    have wi: "wid (to_consumed now r) = i" using r by (simp add: to_consumed_def ack_matches_def)
    with False in1 IH have "to_consumed now r \<in> set rows'" by auto
    then have "x = to_consumed now r" using IH x wi by (metis spool_ok_unique)
    then show ?thesis by (simp add: to_consumed_def)
  qed
  have "i \<in> wid ` set rows" using r by (auto simp: ack_matches_def)
  moreover have "wid ` set ?rows = wid ` set rows" using ids by (metis set_map)
  ultimately show ?case using IH ids other done_i by auto
qed

section \<open>Properties\<close>

text \<open>C8: every spool reachable from the empty table by any sequence of the spool's operations
  is well-formed: row ids and \<open>(kind, idempotency_key)\<close> fences are unique, a row has a
  claim token and claim time exactly while it is processing or transferring, consumed rows
  carry their consumption time, dead letters and only they carry a dead-letter time, attempts
  are non-negative and no row has been auto-reclassified more than three times.\<close>

theorem spool_invariant:
  assumes "spool_reachable rows"
  shows "distinct (map wid rows) \<and> distinct (map (\<lambda>r. (kind r, idempotency_key r)) rows) \<and>
         (\<forall>r \<in> set rows.
            (claim_token r \<noteq> None \<longleftrightarrow> claim_state r = Processing \<or> claim_state r = Transferring) \<and>
            (claimed_at r \<noteq> None \<longleftrightarrow> claim_token r \<noteq> None) \<and>
            (claim_state r = Consumed \<longrightarrow> consumed_at r \<noteq> None) \<and>
            (dead_lettered_at r \<noteq> None \<longleftrightarrow> claim_state r = Dead_Letter) \<and>
            0 \<le> attempt_count r \<and> 0 \<le> reclassify_count r \<and> reclassify_count r \<le> 3)"
proof -
  have "spool_ok rows" using assms by (rule spool_reachable_ok)
  moreover have "(\<lambda>r. (kind r, idempotency_key r)) = fence_key" by (simp add: fun_eq_iff fence_key_def)
  ultimately show ?thesis
    by (auto simp: spool_ok_def list_all_iff row_ok_def TRANSFER_EXHAUSTED_RECLASSIFY_BUDGET_def)
qed

definition demo_work :: new_work where
  "demo_work = \<lparr>new_id = ''w1'', new_target = ''local'', new_kind = ''dispatch_message'',
     new_payload = Json (JObj []), new_key = ''k1'', new_expires_at = Some 50, new_ref_id = None,
     new_source_site = None, new_received_at = None, new_stream_id = None, new_trace_context = None\<rparr>"

lemma demo_insert: "insertDurableWork True False [] demo_work 10 =
    Inr ([fresh_row demo_work 10], True, [(''w1'', ''local'')])"
  by (simp add: insertDurableWork_def demo_work_def validateDurableWork_def fenced_def)

lemma demo_reachable: "spool_reachable [fresh_row demo_work 10]"
  using spool_reachable.step [OF spool_reachable.empty spool_step.insert [OF demo_insert]] .

lemma demo_ok: "spool_ok [fresh_row demo_work 10]"
  by (rule spool_reachable_ok [OF demo_reachable])

theorem spool_invariant_witness: "distinct (map wid [fresh_row demo_work 10])"
  using spool_invariant [OF demo_reachable] by (rule conjunct1)

text \<open>C20: a local claim that returns a row took a pending row of the requested target and, when a
  kind is named, of that kind, and none of the rows it could have taken is older. What it returns
  is that row under the fresh token, in processing, with its attempt counted; the spool afterwards
  is the spool before with exactly that row replaced, every other row being as it was. No later
  claim from the resulting spool returns the row a second time.\<close>

theorem claim_oldest_exclusive:
  assumes "spool_ok rows"
    and "claimLocalDurableWork rows t k tok now = (rows', Some r)"
  shows "\<exists>row \<in> set rows. claim_state row = Pending \<and> target_site_id row = t \<and>
           (case k of None \<Rightarrow> True | Some kd \<Rightarrow> kd = [] \<or> kind row = kd) \<and>
           (\<forall>r2 \<in> set rows. target_site_id r2 = t \<and> claim_state r2 = Pending \<and>
              (case k of None \<Rightarrow> True | Some kd \<Rightarrow> kd = [] \<or> kind r2 = kd) \<longrightarrow> created_at row \<le> created_at r2) \<and>
           r = row\<lparr>claim_state := Processing, claim_token := Some tok, claimed_at := Some now,
                   attempt_count := attempt_count row + 1\<rparr> \<and>
           rows' = map (\<lambda>x. if wid x = wid row then r else x) rows \<and>
           (\<forall>t' k' tok' now' rows'' r'.
              claimLocalDurableWork rows' t' k' tok' now' = (rows'', Some r') \<longrightarrow> wid r' \<noteq> wid row)"
proof -
  from assms(2) obtain row where row: "row \<in> set rows" "claim_state row = Pending"
    "target_site_id row = t" and r: "r = to_processing tok now row"
    and rows': "rows' = claim_row tok now (wid row) rows"
    and oldest: "\<forall>r2 \<in> set rows. target_site_id r2 = t \<and> claim_state r2 = Pending \<and>
       (case k of None \<Rightarrow> True | Some kd \<Rightarrow> kd = [] \<or> kind r2 = kd) \<longrightarrow> created_at row \<le> created_at r2"
    and kd: "case k of None \<Rightarrow> True | Some kd \<Rightarrow> kd = [] \<or> kind row = kd"
    by (rule claimLocal_Some)
  have ok': "spool_ok rows'" unfolding rows' using assms(1) by (rule claim_row_ok)
  have rin: "r \<in> set rows'" using row by (auto simp: r rows' claim_row_def set_update_where)
  have once: "wid r' \<noteq> wid row" if "claimLocalDurableWork rows' t' k' tok' now' = (rows'', Some r')"
    for t' k' tok' now' rows'' r'
  proof
    assume same: "wid r' = wid row"
    from that obtain row2 where "row2 \<in> set rows'" "claim_state row2 = Pending"
      "r' = to_processing tok' now' row2" by (rule claimLocal_Some) blast
    with same rin ok' have "row2 = r" by (auto simp: r to_processing_def intro: spool_ok_unique)
    with \<open>claim_state row2 = Pending\<close> show False by (simp add: r to_processing_def)
  qed
  have "rows' = map (\<lambda>x. if wid x = wid row then r else x) rows"
    unfolding rows' claim_row_def update_where_def
    using row(1,2) spool_ok_unique [OF assms(1) _ row(1)] by (auto simp: r)
  with row oldest kd once show ?thesis by (intro bexI [of _ row]) (simp_all add: r to_processing_def)
qed

theorem claim_oldest_exclusive_witness:
  "\<exists>row. row \<in> set [fresh_row demo_work 10] \<and> target_site_id row = ''local'' \<and>
     fst (claimLocalDurableWork [fresh_row demo_work 10] ''local'' None ''t'' 20)
       = [row\<lparr>claim_state := Processing, claim_token := Some ''t'', claimed_at := Some 20,
              attempt_count := attempt_count row + 1\<rparr>]"
  using claim_oldest_exclusive [OF demo_ok,
      of "''local''" None "''t''" 20
         "fst (claimLocalDurableWork [fresh_row demo_work 10] ''local'' None ''t'' 20)"
         "to_processing ''t'' 20 (fresh_row demo_work 10)"]
  by (auto simp: claimLocalDurableWork_def order_by_def fresh_row_def demo_work_def)

text \<open>claiming a row and releasing the claim gives back exactly the spool before the claim,
  attempt count included: a release is attempt-neutral.\<close>

theorem claim_release_roundtrip:
  assumes "spool_ok rows"
    and "claimLocalDurableWork rows t k tok now = (rows', Some r)"
  shows "releaseDurableWorkClaim rows' (wid r) tok = (rows, True)"
proof -
  from assms(2) obtain row where row: "row \<in> set rows" "claim_state row = Pending"
    and r: "r = to_processing tok now row" and rows': "rows' = claim_row tok now (wid row) rows"
    by (rule claimLocal_Some) blast
  have ok': "spool_ok rows'" unfolding rows' using assms(1) by (rule claim_row_ok)
  have "r \<in> set rows'" using row by (auto simp: r rows' claim_row_def set_update_where)
  moreover have "ack_matches (wid r) tok r" by (simp add: ack_matches_def r to_processing_def)
  ultimately have "count_where (ack_matches (wid r) tok) rows' = 1"
    using count_ack [OF ok'] by blast
  moreover have "update_where (ack_matches (wid r) tok)
      (\<lambda>r. (to_pending r)\<lparr>attempt_count := max (attempt_count r - 1) 0\<rparr>) rows' = rows"
    unfolding rows' claim_row_def
  proof (rule update_where_comp)
    fix x assume "x \<in> set rows" "wid x = wid row \<and> claim_state x = Pending"
    then show "ack_matches (wid r) tok (to_processing tok now x) \<and>
       (to_pending (to_processing tok now x))\<lparr>attempt_count := max (attempt_count (to_processing tok now x) - 1) 0\<rparr> = x"
      using spool_ok_row [OF assms(1), of x]
      by (auto simp: r to_processing_def to_pending_def ack_matches_def row_ok_def)
  next
    fix x assume x: "x \<in> set rows" "\<not> (wid x = wid row \<and> claim_state x = Pending)"
    then show "\<not> ack_matches (wid r) tok x"
      using spool_ok_unique [OF assms(1) x(1) row(1)] row(2)
      by (auto simp: ack_matches_def r to_processing_def)
  qed
  ultimately show ?thesis by (simp add: releaseDurableWorkClaim_def)
qed

theorem claim_release_roundtrip_witness:
  "\<exists>rows'. releaseDurableWorkClaim rows' ''w1'' ''t'' = ([fresh_row demo_work 10], True)"
  using claim_release_roundtrip [OF demo_ok,
      of "''local''" None "''t''" 20 _ "to_processing ''t'' 20 (fresh_row demo_work 10)"]
  by (auto simp: claimLocalDurableWork_def order_by_def fresh_row_def demo_work_def to_processing_def)

text \<open>C9: retirement is fenced by the claim token. An acknowledgement succeeds exactly when the
  row is processing under that very token; it then marks that row consumed and leaves every
  other row alone, and no further acknowledgement of the row succeeds. With any other token
  the spool is unchanged.\<close>

theorem acknowledge_fenced:
  assumes "spool_ok rows" and "acknowledgeDurableWork rows i tok now = (rows', acked)"
  shows "(acked \<longleftrightarrow> (\<exists>r \<in> set rows. wid r = i \<and> claim_state r = Processing \<and> claim_token r = Some tok)) \<and>
         (\<not> acked \<longrightarrow> rows' = rows) \<and>
         (\<forall>r \<in> set rows. wid r \<noteq> i \<longrightarrow> r \<in> set rows') \<and>
         (acked \<longrightarrow> (\<forall>r' \<in> set rows'. wid r' = i \<longrightarrow> claim_state r' = Consumed \<and> consumed_at r' = Some now)) \<and>
         (acked \<longrightarrow> (\<forall>tok' now'. \<not> snd (acknowledgeDurableWork rows' i tok' now')))"
proof -
  have rows': "rows' = update_where (ack_matches i tok) (to_consumed now) rows"
    and acked: "acked \<longleftrightarrow> count_where (ack_matches i tok) rows = 1"
    using assms(2) by (auto simp: acknowledgeDurableWork_def)
  have iff: "acked \<longleftrightarrow> (\<exists>r \<in> set rows. ack_matches i tok r)"
    using count_ack [OF assms(1)] acked by blast
  have ok': "spool_ok rows'" unfolding rows' using assms(1) by (rule consume.update_ok)
  have cons: "r' = to_consumed now r" if "ack_matches i tok r" "r \<in> set rows" "r' \<in> set rows'" "wid r' = i"
    for r r'
  proof -
    have "wid r' = wid r" using that by (simp add: ack_matches_def)
    from consume.update_row [OF assms(1) that(2) that(3) [unfolded rows'] this] that(1)
    show ?thesis by simp
  qed
  have gone: "\<not> snd (acknowledgeDurableWork rows' i tok' now')" if "acked" for tok' now'
  proof -
    from that iff obtain r where r: "r \<in> set rows" "ack_matches i tok r" by blast
    have "\<not> ack_matches i tok' r'" if "r' \<in> set rows'" for r'
      using cons [OF r(2,1) that] by (auto simp: ack_matches_def to_consumed_def)
    then show ?thesis using count_ack [OF ok', of i tok'] by (auto simp: acknowledgeDurableWork_def)
  qed
  have "rows' = rows" if "\<not> acked"
    using that iff by (auto simp: rows' intro!: update_where_none)
  moreover have "r \<in> set rows'" if "r \<in> set rows" "wid r \<noteq> i" for r
    using that by (auto simp: rows' set_update_where ack_matches_def)
  moreover have "claim_state r' = Consumed \<and> consumed_at r' = Some now"
    if "acked" "r' \<in> set rows'" "wid r' = i" for r'
  proof -
    from that(1) iff obtain r where "r \<in> set rows" "ack_matches i tok r" by blast
    then have "r' = to_consumed now r" using cons that(2,3) by blast
    then show ?thesis by (simp add: to_consumed_def)
  qed
  ultimately show ?thesis using iff gone by (auto simp: ack_matches_def)
qed

theorem acknowledge_fenced_witness:
  "\<not> snd (acknowledgeDurableWork [fresh_row demo_work 10] ''w1'' ''t'' 20)"
  using acknowledge_fenced [OF demo_ok surjective_pairing, of "''w1''" "''t''" 20]
  by (simp add: fresh_row_def)

lemma claim_consume_effect:
  assumes "spool_ok rows"
    and "claimAndConsumeDurableWorkByIds rows allIds t pre toks now c = (rows', success)"
  shows "(\<not> success \<longrightarrow> rows' = rows) \<and>
         (success \<longrightarrow> set allIds \<subseteq> wid ` set rows \<and>
            (\<forall>r' \<in> set rows'. wid r' \<in> set allIds \<longrightarrow> claim_state r' = Consumed) \<and>
            (\<forall>r \<in> set rows. wid r \<notin> set allIds \<longrightarrow> r \<in> set rows'))"
proof (cases success)
  case False
  with assms(2) show ?thesis
    by (auto simp: claimAndConsumeDurableWorkByIds_def Let_def case_prod_unfold split: if_splits)
next
  case True
  let ?pend = "filter (\<lambda>r. target_site_id r = t \<and> claim_state r = Pending \<and>
      wid r \<in> set (filter (\<lambda>i. pre i = None) allIds)) rows"
  let ?rows1 = "fst (claim_each toks now 0 ?pend rows)"
  let ?m = "pre ++ map_of (map (\<lambda>r. (wid r, the (claim_token r))) (snd (claim_each toks now 0 ?pend rows)))"
  from True assms(2) have c: "consume_all c ?m allIds ?rows1 = (rows', True)"
    by (auto simp: claimAndConsumeDurableWorkByIds_def Let_def case_prod_unfold prod_eq_iff split: if_splits)
  have ok: "spool_ok ?rows1" using assms(1) by (rule claim_each_ok)
  have ids: "wid ` set ?rows1 = wid ` set rows" using claim_each_frame(1) by (metis set_map)
  have frame: "r \<in> set ?rows1" if "r \<in> set rows" "wid r \<notin> set allIds" for r
    by (rule claim_each_frame(2) [OF that(1)]) (use that(2) in auto)
  have sub: "set allIds \<subseteq> wid ` set rows"
    using consume_all_True(3) [OF ok c] unfolding ids .
  have "r \<in> set rows'" if "r \<in> set rows" "wid r \<notin> set allIds" for r
    by (rule consume_all_True(4) [OF ok c, rule_format, OF frame [OF that] that(2)])
  with sub consume_all_True(5) [OF ok c] True show ?thesis by simp
qed

text \<open>claiming the missing siblings of a multipart set and retiring the whole set is
  all-or-nothing. If it reports failure the spool is exactly as before, so no claim is left
  behind; if it reports success every id of the set is a row of the spool and is consumed, and
  no other row changed.\<close>

theorem claim_consume_all_or_nothing:
  assumes "spool_ok rows"
    and "claimAndConsumeDurableWorkByIds rows allIds t pre toks now c = (rows', success)"
  shows "(\<not> success \<longrightarrow> rows' = rows) \<and>
         (success \<longrightarrow> set allIds \<subseteq> wid ` set rows \<and>
            (\<forall>r' \<in> set rows'. wid r' \<in> set allIds \<longrightarrow> claim_state r' = Consumed) \<and>
            (\<forall>r \<in> set rows. wid r \<notin> set allIds \<longrightarrow> r \<in> set rows'))"
  using assms by (rule claim_consume_effect)

theorem claim_consume_all_or_nothing_witness:
  "fst (claimAndConsumeDurableWorkByIds [fresh_row demo_work 10] [''w1'', ''w2''] ''local'' Map.empty
     (\<lambda>n. ''t'') 20 21) = [fresh_row demo_work 10]"
proof -
  let ?r = "claimAndConsumeDurableWorkByIds [fresh_row demo_work 10] [''w1'', ''w2''] ''local'' Map.empty
     (\<lambda>n. ''t'') 20 21"
  have "\<not> snd ?r"
    using claim_consume_all_or_nothing [OF demo_ok surjective_pairing, of "[''w1'', ''w2'']" "''local''"
        Map.empty "\<lambda>n. ''t''" 20 21]
    by (auto simp: fresh_row_def demo_work_def)
  then show ?thesis
    using claim_consume_all_or_nothing [OF demo_ok surjective_pairing, of "[''w1'', ''w2'']" "''local''"
        Map.empty "\<lambda>n. ''t''" 20 21] by simp
qed

text \<open>enqueueing is idempotent on the \<open>(kind, idempotency_key)\<close> fence. After an insert
  that created a row, a retry under the same fence (whatever its id) inserts nothing, changes
  nothing and emits nothing, both at once and after the row has been claimed and consumed.\<close>

theorem insert_exactly_once:
  assumes "insertDurableWork bus tx rows row now = Inr (rows1, True, ev)"
    and "new_kind row2 = new_kind row" and "new_key row2 = new_key row"
    and "validateDurableWork row2 = None"
    and "rows2 = fst (acknowledgeDurableWork (fst (claimLocalDurableWork rows1 t k tok now1)) i tok2 now2)"
  shows "insertDurableWork bus2 tx2 rows1 row2 now3 = Inr (rows1, False, []) \<and>
         insertDurableWork bus2 tx2 rows2 row2 now3 = Inr (rows2, False, [])"
proof -
  have mem: "fresh_row row now \<in> set rows1"
    using assms(1) by (auto simp: insertDurableWork_def split: option.splits if_splits)
  have noop: "insertDurableWork bus2 tx2 rs row2 now3 = Inr (rs, False, [])"
    if "map fence_key rs = map fence_key rows1" for rs
  proof -
    have "fence_key (fresh_row row now) \<in> fence_key ` set rs"
      using mem that by (metis image_eqI list.set_map)
    then have "fenced rs row2"
      using assms(2,3) by (auto simp: fenced_def list_ex_iff fence_key_def fresh_row_def)
    with assms(4) show ?thesis by (simp add: insertDurableWork_def)
  qed
  have "map fence_key (fst (claimLocalDurableWork rows1 t k tok now1)) = map fence_key rows1"
    using map_update_where_key [of fence_key "to_processing tok now1", OF claim.same_fence]
    by (simp add: claimLocalDurableWork_def claim_row_def split: list.splits)
  then have "map fence_key rows2 = map fence_key rows1"
    using map_update_where_key [of fence_key "to_consumed now2", OF consume.same_fence]
    by (simp add: assms(5) acknowledgeDurableWork_def)
  then show ?thesis using noop by simp
qed

theorem insert_exactly_once_witness:
  "insertDurableWork True False [fresh_row demo_work 10] (demo_work\<lparr>new_id := ''w9''\<rparr>) 30 =
     Inr ([fresh_row demo_work 10], False, [])"
proof -
  have "validateDurableWork (demo_work\<lparr>new_id := ''w9''\<rparr>) = None"
    by (simp add: validateDurableWork_def demo_work_def)
  then show ?thesis
    using insert_exactly_once [OF demo_insert _ _ _ refl, of "demo_work\<lparr>new_id := ''w9''\<rparr>"] by simp
qed

text \<open>beginning a transfer and rolling it back before the frame was sent restores the spool
  exactly, without charging an attempt; and once a transfer is acknowledged under its token
  the sender's copy is gone while every other row is untouched.\<close>

theorem transfer_roundtrip:
  assumes "spool_ok rows" and "beginDurableWorkTransfer rows i tok now = (rows', Some tok)"
  shows "rollbackUnsentDurableWorkTransfer rows' i tok = (rows, True) \<and>
         (\<exists>rows''. acknowledgeDurableWorkTransfer rows' i tok = (rows'', True) \<and>
            set rows'' = {r \<in> set rows. wid r \<noteq> i})"
proof -
  let ?p = "\<lambda>r. wid r = i \<and> claim_state r = Pending"
  let ?f = "\<lambda>r. r\<lparr>claim_state := Transferring, claim_token := Some tok, claimed_at := Some now\<rparr>"
  from assms(2) have rows': "rows' = update_where ?p ?f rows" and one: "count_where ?p rows = 1"
    by (auto simp: beginDurableWorkTransfer_def split: if_splits)
  from one count_pending [OF assms(1)] obtain r where r: "r \<in> set rows" "?p r" by blast
  have ok': "spool_ok rows'" unfolding rows' using assms(1) by (rule begin_transfer.update_ok)
  have others: "\<not> transfer_matches i tok x" if "x \<in> set rows" "\<not> ?p x" for x
    using spool_ok_unique [OF assms(1) that(1) r(1)] that r(2) by (auto simp: transfer_matches_def)
  have hit: "?f r \<in> set rows'" "transfer_matches i tok (?f r)"
    using r by (auto simp: rows' set_update_where transfer_matches_def)
  have cnt: "count_where (transfer_matches i tok) rows' = 1"
    using count_transfer [OF ok'] hit by blast
  have "update_where (transfer_matches i tok) to_pending rows' = rows"
    unfolding rows'
  proof (rule update_where_comp)
    fix x assume "x \<in> set rows" "?p x"
    then show "transfer_matches i tok (?f x) \<and> to_pending (?f x) = x"
      using spool_ok_row [OF assms(1), of x]
      by (auto simp: to_pending_def transfer_matches_def row_ok_def)
  qed (rule others)
  moreover have "set (delete_where (transfer_matches i tok) rows') = {r \<in> set rows. wid r \<noteq> i}"
  proof -
    have "wid x \<noteq> i" if "x \<in> set rows" "\<not> ?p x" for x
      using spool_ok_unique [OF assms(1) that(1) r(1)] that r(2) by auto
    then show ?thesis
      by (auto simp: delete_where_def rows' set_update_where transfer_matches_def)
  qed
  ultimately show ?thesis
    using cnt by (simp add: rollbackUnsentDurableWorkTransfer_def acknowledgeDurableWorkTransfer_def)
qed

theorem transfer_roundtrip_witness:
  "\<exists>rows'. rollbackUnsentDurableWorkTransfer rows' ''w1'' ''t'' = ([fresh_row demo_work 10], True)"
proof -
  let ?r = "beginDurableWorkTransfer [fresh_row demo_work 10] ''w1'' ''t'' 20"
  have "?r = (fst ?r, Some ''t'')"
    by (simp add: beginDurableWorkTransfer_def count_where_def fresh_row_def demo_work_def)
  from transfer_roundtrip [OF demo_ok this] show ?thesis by blast
qed

text \<open>one pass of the stale-transfer sweep acts on each row by itself and only on
  transferring rows whose transfer timed out and whose own deadline has not passed: such a row
  at or over the attempt cap becomes a transfer-exhausted dead letter kept for seven days, any
  other such row returns to pending with its token cleared and one more attempt charged, and
  every other row is untouched. The reported count is the number of rows acted on.\<close>

theorem sweep_rows:
  assumes "spool_ok rows" and "sweepStaleTransferringDurableWork rows maxAttempts now = (rows', n)"
  shows "rows' = map (\<lambda>r. if claim_state r = Transferring \<and> sql_le (claimed_at r) (now - 30000) \<and>
                            (expires_at r = None \<or> \<not> sql_le (expires_at r) now)
                         then if maxAttempts \<le> attempt_count r
                              then r\<lparr>claim_state := Dead_Letter, claim_token := None, claimed_at := None,
                                     last_error := Some TRANSFER_EXHAUSTED_LAST_ERROR,
                                     dead_lettered_at := Some now, expires_at := Some (now + 604800000)\<rparr>
                              else r\<lparr>claim_state := Pending, claim_token := None, claimed_at := None,
                                     attempt_count := attempt_count r + 1\<rparr>
                         else r) rows \<and>
         n = length (filter (stale_transfer now) rows)"
proof -
  let ?d = "\<lambda>r. stale_transfer now r \<and> maxAttempts \<le> attempt_count r"
  let ?c = "\<lambda>r. stale_transfer now r \<and> attempt_count r < maxAttempts"
  let ?rows1 = "update_where ?d (to_dead_letter now (Some TRANSFER_EXHAUSTED_LAST_ERROR) False) rows"
  from assms(2) have rows': "rows' = update_where ?c charge ?rows1"
    and n: "n = count_where ?d rows + count_where ?c ?rows1"
    by (auto simp: sweepStaleTransferringDurableWork_def deadLetterDurableWorkRows_def Let_def)
  have dead: "\<not> stale_transfer now (to_dead_letter now e k r)" for e k r
    by (simp add: stale_transfer_def to_dead_letter_def)
  have stale: "stale_transfer now r \<longleftrightarrow> claim_state r = Transferring \<and> sql_le (claimed_at r) (now - 30000) \<and>
      (expires_at r = None \<or> \<not> sql_le (expires_at r) now)" for r
    by (auto simp: stale_transfer_def DURABLE_WORK_TRANSFER_STALE_MS_def sql_le_def split: option.splits)
  have 1: "count_where ?c ?rows1 = count_where ?c rows"
    by (induction rows) (auto simp: count_where_def update_where_def dead)
  have 2: "count_where ?d rows + count_where ?c rows = length (filter (stale_transfer now) rows)"
    by (induction rows) (auto simp: count_where_def)
  have 3: "rows' = map (\<lambda>r. if stale_transfer now r then if maxAttempts \<le> attempt_count r
      then to_dead_letter now (Some TRANSFER_EXHAUSTED_LAST_ERROR) False r else charge r else r) rows"
    by (auto simp: rows' update_where_def dead)
  show ?thesis
    unfolding 3 n 1 2
    by (auto simp: stale to_dead_letter_def charge_def to_pending_def DEAD_LETTER_RETENTION_MS_def)
qed

theorem sweep_rows_witness:
  "fst (sweepStaleTransferringDurableWork
     [(fresh_row demo_work 10)\<lparr>claim_state := Transferring, claim_token := Some ''t'', claimed_at := Some 0,
        expires_at := None\<rparr>] 3 40000) = [(fresh_row demo_work 10)\<lparr>attempt_count := 1, expires_at := None\<rparr>]"
proof -
  let ?r = "(fresh_row demo_work 10)\<lparr>claim_state := Transferring, claim_token := Some ''t'',
    claimed_at := Some 0, expires_at := None\<rparr>"
  have "spool_ok [?r]"
    by (simp add: spool_ok_def row_ok_def fresh_row_def TRANSFER_EXHAUSTED_RECLASSIFY_BUDGET_def)
  from sweep_rows [OF this surjective_pairing, of 3 40000]
  have "fst (sweepStaleTransferringDurableWork [?r] 3 40000) = [?r\<lparr>claim_state := Pending,
      claim_token := None, claimed_at := None, attempt_count := attempt_count ?r + 1\<rparr>]"
    by (simp add: sql_le_def fresh_row_def)
  then show ?thesis by (simp add: fresh_row_def)
qed

text \<open>an operator purge never destroys work that is or may be in flight. It deletes no
  processing, transferring or consumed row in any mode; and without \<open>force\<close> every pending
  row it deletes is a local wakeup at least one hour old, so no undelivered peer-targeted row
  is lost. The reported count is the number of rows that disappear.\<close>

theorem purge_safe:
  assumes "purgeDurableWork rows selector now = (rows', n)" and "r \<in> set rows" and "r \<notin> set rows'"
  shows "claim_state r \<noteq> Processing \<and> claim_state r \<noteq> Transferring \<and> claim_state r \<noteq> Consumed \<and>
         ((\<forall>k o'. selector \<noteq> All_Unclaimed k o' True) \<and> claim_state r = Pending \<longrightarrow>
            target_site_id r = LOCAL_WORK_TARGET \<and> created_at r \<le> now - 3600000) \<and>
         n + length rows' = length rows"
proof -
  from assms(1) have rows': "rows' = delete_where (purgeable selector now) rows"
    and n: "n = count_where (purgeable selector now) rows"
    by (auto simp: purgeDurableWork_def)
  from assms(2,3) have p: "purgeable selector now r" by (simp add: rows' delete_where_def)
  have "n + length rows' = length rows"
    using sum_length_filter_compl [of "purgeable selector now" rows]
    by (simp add: n rows' count_where_def delete_where_def)
  moreover have "claim_state r = Pending \<or> claim_state r = Dead_Letter"
    using p by (auto simp: purgeable_def Let_def split: purge_selector.splits)
  moreover have "target_site_id r = LOCAL_WORK_TARGET \<and> created_at r \<le> now - 3600000"
    if "\<forall>k o'. selector \<noteq> All_Unclaimed k o' True" "claim_state r = Pending"
    using p that
    by (cases selector) (auto simp: purgeable_def Let_def older_def PURGE_UNCLAIMED_FLOOR_MS_def
        split: if_splits option.splits)
  ultimately show ?thesis by auto
qed

theorem purge_safe_witness:
  "created_at (fresh_row demo_work 10) \<le> 3600010 - (3600000::int)"
proof -
  have "fresh_row demo_work 10 \<notin> set (fst (purgeDurableWork [fresh_row demo_work 10] (All_Unclaimed None None False) 3600010))"
    by (simp add: purgeDurableWork_def delete_where_def purgeable_def Let_def older_def
        PURGE_UNCLAIMED_FLOOR_MS_def fresh_row_def demo_work_def LOCAL_WORK_TARGET_def)
  from purge_safe [OF surjective_pairing _ this] show ?thesis by (simp add: fresh_row_def)
qed

text \<open>C39: terminal expiry does not spare consumed rows. A row that was consumed but whose
  \<open>expires_at\<close> has passed is turned into a dead letter by the expiry sweep, and a redrive
  then makes the already consumed work pending again under the same id, kind, key and
  payload: the next claim of its target can hand it out a second time.\<close>

theorem consumed_work_resurrected:
  assumes "r \<in> set rows" and "claim_state r = Consumed" and "expires_at r = Some e" and "e \<le> now"
  shows "\<exists>r' \<in> set (fst (redriveDeadLetterDurableWork (fst (deadLetterExpiredDurableWork rows now)) (wid r) ttl)).
           wid r' = wid r \<and> claim_state r' = Pending \<and> kind r' = kind r \<and> payload r' = payload r \<and>
           idempotency_key r' = idempotency_key r \<and> target_site_id r' = target_site_id r \<and>
           consumed_at r' = consumed_at r"
proof -
  let ?d = "to_dead_letter now None True r"
  have "?d \<in> set (fst (deadLetterExpiredDurableWork rows now))"
    using assms by (auto simp: deadLetterExpiredDurableWork_def deadLetterDurableWorkRows_def
        set_update_where sql_le_def)
  moreover have "wid ?d = wid r \<and> claim_state ?d = Dead_Letter" by (simp add: to_dead_letter_def)
  ultimately have "?d\<lparr>claim_state := Pending, claim_token := None, claimed_at := None,
      dead_lettered_at := None, expires_at := ttl\<rparr> \<in>
    set (fst (redriveDeadLetterDurableWork (fst (deadLetterExpiredDurableWork rows now)) (wid r) ttl))"
    unfolding redriveDeadLetterDurableWork_def Let_def fst_conv by (rule update_where_hit)
  then show ?thesis by (rule bexI [rotated]) (simp add: to_dead_letter_def)
qed

theorem consumed_work_resurrected_witness:
  "\<exists>r' \<in> set (fst (redriveDeadLetterDurableWork (fst (deadLetterExpiredDurableWork
       [to_consumed 30 (fresh_row demo_work 10)] 60)) ''w1'' None)). claim_state r' = Pending"
  using consumed_work_resurrected [of "to_consumed 30 (fresh_row demo_work 10)"
      "[to_consumed 30 (fresh_row demo_work 10)]" 50 60 None]
  by (auto simp: to_consumed_def fresh_row_def demo_work_def)

text \<open>the reconnect auto-redrive is bounded. Reclassification touches only recent
  transfer-exhausted dead letters of that peer, gives each a fresh attempt budget and charges
  its persistent budget; a row that has been reclassified three times is never touched again,
  whatever else happens to it in between.\<close>

theorem reclassify_bounded:
  assumes "reclassifyTransferExhaustedDeadLetters rows peer window now = (rows', n)"
  shows "(\<forall>r \<in> set rows. \<not> (claim_state r = Dead_Letter \<and> target_site_id r = peer \<and>
            last_error r = Some TRANSFER_EXHAUSTED_LAST_ERROR \<and> reclassify_count r < 3) \<longrightarrow> r \<in> set rows') \<and>
         (\<forall>r' \<in> set rows'. r' \<in> set rows \<or>
            claim_state r' = Pending \<and> attempt_count r' = 0 \<and> target_site_id r' = peer \<and>
            reclassify_count r' \<le> 3) \<and>
         (\<Sum>r\<leftarrow>rows'. reclassify_count r) = (\<Sum>r\<leftarrow>rows. reclassify_count r) + int n"
proof -
  let ?f = "\<lambda>r. r\<lparr>claim_state := Pending, claim_token := None, claimed_at := None,
      dead_lettered_at := None, last_error := None, attempt_count := 0,
      reclassify_count := reclassify_count r + 1\<rparr>"
  let ?p = "reclassifiable peer (now - window)"
  from assms have rows': "rows' = update_where ?p ?f rows" and n: "n = count_where ?p rows"
    by (auto simp: reclassifyTransferExhaustedDeadLetters_def Let_def)
  have "(\<Sum>r\<leftarrow>rows'. reclassify_count r) = (\<Sum>r\<leftarrow>rows. reclassify_count r) + int n"
    unfolding rows' n by (induction rows) (auto simp: update_where_def count_where_def)
  moreover have "r \<in> set rows'" if "r \<in> set rows" "\<not> ?p r" for r
    using that by (auto simp: rows' set_update_where)
  ultimately show ?thesis
    by (auto simp: reclassifiable_def TRANSFER_EXHAUSTED_RECLASSIFY_BUDGET_def rows' set_update_where)
qed

theorem reclassify_bounded_witness:
  "fst (reclassifyTransferExhaustedDeadLetters
     [to_dead_letter 20 (Some TRANSFER_EXHAUSTED_LAST_ERROR) False
        ((fresh_row demo_work 10)\<lparr>reclassify_count := 3\<rparr>)] ''local'' 100 30) \<noteq> []"
  using reclassify_bounded [OF surjective_pairing, of
      "[to_dead_letter 20 (Some TRANSFER_EXHAUSTED_LAST_ERROR) False
        ((fresh_row demo_work 10)\<lparr>reclassify_count := 3\<rparr>)]" "''local''" 100 30]
  by (auto simp: to_dead_letter_def)

end
