(* ===== verification/Hlc.thy ===== *)
theory Hlc
  imports Prelude
begin

text \<open>
  The hybrid logical clock of \<open>packages/shared/src/hlc.ts\<close>, on the strings the code
  uses: \<open>timestamp_counter_site\<close>. The wall clock is an argument (the code reads
  \<open>new Date().toISOString()\<close>). JavaScript numbers that may be NaN are \<open>int option\<close>.
\<close>

section \<open>JavaScript number and string helpers used by the clock\<close>

definition hex_char :: "nat \<Rightarrow> char" where
  "hex_char n = ''0123456789abcdef'' ! n"

fun hex_digits :: "nat \<Rightarrow> string" where
  "hex_digits n = (if n < 16 then [hex_char n] else hex_digits (n div 16) @ [hex_char (n mod 16)])"

declare hex_digits.simps [simp del]

text \<open>\<open>Number.prototype.toString(16)\<close>.\<close>

definition to_string16 :: "int option \<Rightarrow> string" where
  "to_string16 n =
     (case n of None \<Rightarrow> ''NaN''
      | Some i \<Rightarrow> if i < 0 then CHR ''-'' # hex_digits (nat (- i)) else hex_digits (nat i))"

text \<open>\<open>String.prototype.padStart\<close>.\<close>

definition pad_start :: "nat \<Rightarrow> char \<Rightarrow> string \<Rightarrow> string" where
  "pad_start n c s = replicate (n - length s) c @ s"

definition hex_value :: "char \<Rightarrow> nat option" where
  "hex_value c =
     (let n = of_char c :: nat in
      if 48 \<le> n \<and> n \<le> 57 then Some (n - 48)
      else if 97 \<le> n \<and> n \<le> 102 then Some (n - 87)
      else if 65 \<le> n \<and> n \<le> 70 then Some (n - 55)
      else None)"

definition is_space :: "char \<Rightarrow> bool" where
  "is_space c = (let n = of_char c :: nat in 9 \<le> n \<and> n \<le> 13 \<or> n = 32)"

definition hex_number :: "string \<Rightarrow> nat" where
  "hex_number ds = foldl (\<lambda>a c. a * 16 + (case hex_value c of None \<Rightarrow> 0 | Some d \<Rightarrow> d)) 0 ds"

text \<open>\<open>Number.parseInt(s, 16)\<close>: leading space, a sign, a \<open>0x\<close> prefix, then the longest
  run of digits; \<open>None\<close> is NaN.\<close>

definition parse_int16 :: "string \<Rightarrow> int option" where
  "parse_int16 s =
     (let s1 = dropWhile is_space s;
          neg = (s1 \<noteq> [] \<and> hd s1 = CHR ''-'');
          s2 = (if s1 \<noteq> [] \<and> (hd s1 = CHR ''-'' \<or> hd s1 = CHR ''+'') then tl s1 else s1);
          s3 = (if take 2 s2 = ''0x'' \<or> take 2 s2 = ''0X'' then drop 2 s2 else s2);
          ds = takeWhile (\<lambda>c. hex_value c \<noteq> None) s3
      in if ds = [] then None
         else Some (if neg then - int (hex_number ds) else int (hex_number ds)))"

text \<open>The text before and after the last \<open>c\<close> (\<open>lastIndexOf\<close> and \<open>substring\<close>): with no
  \<open>c\<close> the first part is empty and the second is the whole string.\<close>

definition split_last :: "char \<Rightarrow> string \<Rightarrow> string \<times> string" where
  "split_last c s =
     (let r = rev s in
      (rev (drop 1 (dropWhile (\<lambda>x. x \<noteq> c) r)), rev (takeWhile (\<lambda>x. x \<noteq> c) r)))"

section \<open>The clock\<close>

definition HLC_ZERO :: string where
  "HLC_ZERO = ''0000-00-00T00:00:00.000Z_0000_0000''"

definition parseHlc :: "string \<Rightarrow> string \<times> string \<times> string" where
  "parseHlc hlc =
     (let (rest, siteId) = split_last CHR ''_'' hlc;
          (timestamp, counter) = split_last CHR ''_'' rest
      in (timestamp, counter, siteId))"

text \<open>The template literal \<open>${ts}_${counter}_${siteId}\<close>.\<close>

definition format_hlc :: "string \<Rightarrow> string \<Rightarrow> string \<Rightarrow> string" where
  "format_hlc ts counter siteId = ts @ ''_'' @ counter @ ''_'' @ siteId"

definition next_counter :: "int option \<Rightarrow> string" where
  "next_counter n = pad_start 4 CHR ''0'' (to_string16 (map_option (\<lambda>i. i + 1) n))"

definition generateHlc :: "string \<Rightarrow> string option \<Rightarrow> string \<Rightarrow> string" where
  "generateHlc wallClock lastHlc siteId =
     (case lastHlc of
        None \<Rightarrow> format_hlc wallClock ''0000'' siteId
      | Some prev \<Rightarrow>
          if prev = [] then format_hlc wallClock ''0000'' siteId
          else
            let (lastTs, lastCounter, _) = parseHlc prev in
            if lastTs < wallClock then format_hlc wallClock ''0000'' siteId
            else format_hlc lastTs (next_counter (parse_int16 lastCounter)) siteId)"

text \<open>\<open>Math.max\<close> is NaN when an argument is.\<close>

definition js_max :: "int option \<Rightarrow> int option \<Rightarrow> int option" where
  "js_max a b =
     (case a of None \<Rightarrow> None | Some x \<Rightarrow> (case b of None \<Rightarrow> None | Some y \<Rightarrow> Some (max x y)))"

definition mergeHlc :: "string \<Rightarrow> string \<Rightarrow> string \<Rightarrow> string \<Rightarrow> string" where
  "mergeHlc now localHlc remoteHlc siteId =
     (let (localTs, localCounter, _) = parseHlc localHlc;
          (remoteTs, remoteCounter, _) = parseHlc remoteHlc;
          maxTs = last (sort [now, localTs, remoteTs])
      in if maxTs = now \<and> localTs < now \<and> remoteTs < now then format_hlc now ''0000'' siteId
         else format_hlc maxTs
                (next_counter (js_max (parse_int16 localCounter) (parse_int16 remoteCounter)))
                siteId)"

section \<open>Well-formed clock values\<close>

text \<open>
  A clock value is well-formed when its timestamp has the 24 characters of an ISO-8601 UTC
  instant (\<open>toISOString\<close> for the years 0 to 9999) and its counter is the four lower-case
  hexadecimal digits of a number below \<open>65536\<close>; \<open>hlc_number\<close> reads the counter back.
\<close>

definition hlc_ts :: "string \<Rightarrow> string" where
  "hlc_ts h = fst (parseHlc h)"

definition hlc_number :: "string \<Rightarrow> nat" where
  "hlc_number h = hex_number (fst (snd (parseHlc h)))"

definition hlc_site :: "string \<Rightarrow> string" where
  "hlc_site h = snd (snd (parseHlc h))"

definition counter4 :: "nat \<Rightarrow> string" where
  "counter4 n = pad_start 4 CHR ''0'' (hex_digits n)"

definition hlc_wf :: "string \<Rightarrow> bool" where
  "hlc_wf h \<longleftrightarrow>
     h = format_hlc (hlc_ts h) (counter4 (hlc_number h)) (hlc_site h) \<and>
     length (hlc_ts h) = 24 \<and> hlc_number h < 65536"

definition site_wf :: "string \<Rightarrow> bool" where
  "site_wf s \<longleftrightarrow> CHR ''_'' \<notin> set s"

section \<open>Counters\<close>

lemma hex_char_less: "i < 16 \<Longrightarrow> j < 16 \<Longrightarrow> hex_char i < hex_char j \<longleftrightarrow> i < j"
proof -
  have "\<forall>i \<in> set [0..<16]. \<forall>j \<in> set [0..<16]. (hex_char i < hex_char j) = (i < j)"
    by code_simp
  then show "i < 16 \<Longrightarrow> j < 16 \<Longrightarrow> ?thesis" by simp
qed

lemma hex_char_eq: "i < 16 \<Longrightarrow> j < 16 \<Longrightarrow> hex_char i = hex_char j \<longleftrightarrow> i = j"
  using hex_char_less [of i j] hex_char_less [of j i] by (metis less_irrefl linorder_neqE)

lemma hex_value_char: "i < 16 \<Longrightarrow> hex_value (hex_char i) = Some i"
proof -
  have "\<forall>i \<in> set [0..<16]. hex_value (hex_char i) = Some i" by code_simp
  then show "i < 16 \<Longrightarrow> ?thesis" by simp
qed

lemma hex_char_plain:
  assumes "i < 16"
  shows "hex_char i \<noteq> CHR ''_''" and "hex_char i \<noteq> CHR ''-''" and "hex_char i \<noteq> CHR ''+''"
    and "hex_char i \<noteq> CHR ''x''" and "hex_char i \<noteq> CHR ''X''" and "\<not> is_space (hex_char i)"
proof -
  have "\<forall>i \<in> set [0..<16]. hex_char i \<noteq> CHR ''_'' \<and> hex_char i \<noteq> CHR ''-'' \<and>
      hex_char i \<noteq> CHR ''+'' \<and> hex_char i \<noteq> CHR ''x'' \<and> hex_char i \<noteq> CHR ''X'' \<and>
      \<not> is_space (hex_char i)" by code_simp
  with assms show "hex_char i \<noteq> CHR ''_''" and "hex_char i \<noteq> CHR ''-''"
    and "hex_char i \<noteq> CHR ''+''" and "hex_char i \<noteq> CHR ''x''" and "hex_char i \<noteq> CHR ''X''"
    and "\<not> is_space (hex_char i)" by auto
qed

lemma hex_char_0: "hex_char 0 = CHR ''0''"
  by (simp add: hex_char_def)

lemma counter4_eq:
  assumes "n < 65536"
  shows "counter4 n = [hex_char (n div 4096), hex_char (n div 256 mod 16),
                       hex_char (n div 16 mod 16), hex_char (n mod 16)]"
proof -
  have q: "n div 16 div 16 = n div 256" "n div 16 div 16 div 16 = n div 4096"
    "n div 256 div 16 = n div 4096"
    by (simp_all add: div_mult2_eq [symmetric])
  consider "n < 16" | "16 \<le> n" "n < 256" | "256 \<le> n" "n < 4096" | "4096 \<le> n" by linarith
  then show ?thesis
  proof cases
    case 1
    then show ?thesis
      by (simp add: counter4_def pad_start_def hex_digits.simps [of n] hex_char_0
          numeral_3_eq_3)
  next
    case 2
    then have "n div 16 < 16" by simp
    with 2 show ?thesis
      by (simp add: counter4_def pad_start_def hex_digits.simps [of n]
          hex_digits.simps [of "n div 16"] hex_char_0 numeral_2_eq_2)
  next
    case 3
    then have "n div 16 \<ge> 16" "n div 256 < 16" by simp_all
    with 3 q show ?thesis
      by (simp add: counter4_def pad_start_def hex_digits.simps [of n]
          hex_digits.simps [of "n div 16"] hex_digits.simps [of "n div 256"] hex_char_0)
  next
    case 4
    then have "n div 16 \<ge> 16" "n div 256 \<ge> 16" "n div 4096 < 16" using assms by simp_all
    with 4 q show ?thesis
      by (simp add: counter4_def pad_start_def hex_digits.simps [of n]
          hex_digits.simps [of "n div 16"] hex_digits.simps [of "n div 256"]
          hex_digits.simps [of "n div 4096"])
  qed
qed

lemma length_counter4 [simp]: "n < 65536 \<Longrightarrow> length (counter4 n) = 4"
  by (simp add: counter4_eq)

lemma counter4_nibbles:
  assumes "n < 65536"
  obtains a b c d where "n = 4096 * a + 256 * b + 16 * c + d"
    and "a < 16" "b < 16" "c < 16" "d < 16"
    and "counter4 n = [hex_char a, hex_char b, hex_char c, hex_char d]"
proof
  have "n = 4096 * (n div 4096) + n mod 4096" by simp
  moreover have "n mod 4096 = 256 * (n div 256 mod 16) + n mod 256"
    using mod_mult2_eq [of n 256 16] by simp
  moreover have "n mod 256 = 16 * (n div 16 mod 16) + n mod 16"
    using mod_mult2_eq [of n 16 16] by simp
  ultimately show "n = 4096 * (n div 4096) + 256 * (n div 256 mod 16) + 16 * (n div 16 mod 16) + n mod 16"
    by linarith
  show "n div 4096 < 16" using assms by simp
qed (simp_all add: counter4_eq [OF assms])

lemma counter4_plain:
  assumes "n < 65536" shows "CHR ''_'' \<notin> set (counter4 n)"
  using assms by (rule counter4_nibbles) (simp add: hex_char_plain(1) [symmetric])

lemma counter4_less:
  assumes "n < 65536" and "m < 65536"
  shows "counter4 n < counter4 m \<longleftrightarrow> n < m"
proof -
  from assms(1) obtain a b c d where n: "n = 4096 * a + 256 * b + 16 * c + d"
    and ln: "a < 16" "b < 16" "c < 16" "d < 16"
    and cn: "counter4 n = [hex_char a, hex_char b, hex_char c, hex_char d]"
    by (rule counter4_nibbles)
  from assms(2) obtain a' b' c' d' where m: "m = 4096 * a' + 256 * b' + 16 * c' + d'"
    and lm: "a' < 16" "b' < 16" "c' < 16" "d' < 16"
    and cm: "counter4 m = [hex_char a', hex_char b', hex_char c', hex_char d']"
    by (rule counter4_nibbles)
  have "counter4 n < counter4 m \<longleftrightarrow>
    a < a' \<or> a = a' \<and> (b < b' \<or> b = b' \<and> (c < c' \<or> c = c' \<and> d < d'))"
    by (simp add: cn cm hex_char_less hex_char_eq ln lm)
  also have "\<dots> \<longleftrightarrow> n < m"
    unfolding n m using ln lm by linarith
  finally show ?thesis .
qed

lemma parse_counter4:
  assumes "n < 65536"
  shows "parse_int16 (counter4 n) = Some (int n)" and "hex_number (counter4 n) = n"
proof -
  from assms obtain a b c d where n: "n = 4096 * a + 256 * b + 16 * c + d"
    and lt: "a < 16" "b < 16" "c < 16" "d < 16"
    and cn: "counter4 n = [hex_char a, hex_char b, hex_char c, hex_char d]"
    by (rule counter4_nibbles)
  show h: "hex_number (counter4 n) = n"
    unfolding cn hex_number_def by (simp add: hex_value_char lt n)
  then have "hex_number [hex_char a, hex_char b, hex_char c, hex_char d] = n"
    by (simp add: cn)
  then show "parse_int16 (counter4 n) = Some (int n)"
    using hex_char_plain [OF lt(1)] hex_char_plain [OF lt(2)]
    by (simp add: cn parse_int16_def Let_def hex_value_char lt)
qed

lemma next_counter4: "n < 65535 \<Longrightarrow> next_counter (Some (int n)) = counter4 (n + 1)"
  by (simp add: next_counter_def to_string16_def counter4_def nat_add_distrib)

section \<open>Parsing and formatting\<close>

lemma split_last_append:
  "c \<notin> set b \<Longrightarrow> split_last c (a @ c # b) = (a, b)"
proof -
  assume "c \<notin> set b"
  then have "takeWhile (\<lambda>x. x \<noteq> c) (rev b @ c # rev a) = rev b"
    and "dropWhile (\<lambda>x. x \<noteq> c) (rev b @ c # rev a) = c # rev a"
    by (subst takeWhile_append2 dropWhile_append2; auto)+
  then show ?thesis by (simp add: split_last_def Let_def)
qed

lemma parse_format:
  assumes "CHR ''_'' \<notin> set c" and "site_wf s"
  shows "parseHlc (format_hlc ts c s) = (ts, c, s)"
  using assms split_last_append [of "CHR ''_''" s "ts @ ''_'' @ c"]
    split_last_append [of "CHR ''_''" c ts]
  by (simp add: parseHlc_def format_hlc_def site_wf_def)

lemma hlc_wf_format:
  assumes "length ts = 24" and "n < 65536" and "site_wf s"
  shows "hlc_wf (format_hlc ts (counter4 n) s)"
    and "hlc_ts (format_hlc ts (counter4 n) s) = ts"
    and "hlc_number (format_hlc ts (counter4 n) s) = n"
    and "hlc_site (format_hlc ts (counter4 n) s) = s"
proof -
  have p: "parseHlc (format_hlc ts (counter4 n) s) = (ts, counter4 n, s)"
    using assms by (simp add: parse_format counter4_plain)
  then show "hlc_wf (format_hlc ts (counter4 n) s)"
    and "hlc_ts (format_hlc ts (counter4 n) s) = ts"
    and "hlc_number (format_hlc ts (counter4 n) s) = n"
    and "hlc_site (format_hlc ts (counter4 n) s) = s"
    using assms by (simp_all add: hlc_wf_def hlc_ts_def hlc_number_def hlc_site_def parse_counter4)
qed

lemma takeWhile_rev_plain: "c \<notin> set (snd (split_last c s))"
  by (auto simp: split_last_def Let_def dest: set_takeWhileD)

lemma hlc_site_wf: "site_wf (hlc_site h)"
  using takeWhile_rev_plain [of "CHR ''_''" h]
  by (auto simp: hlc_site_def parseHlc_def site_wf_def split: prod.splits)

lemma hlc_wfD:
  assumes "hlc_wf h"
  shows "parseHlc h = (hlc_ts h, counter4 (hlc_number h), hlc_site h)"
    and "parse_int16 (counter4 (hlc_number h)) = Some (int (hlc_number h))"
    and "length (hlc_ts h) = 24" and "hlc_number h < 65536" and "h \<noteq> []"
    and "h = format_hlc (hlc_ts h) (counter4 (hlc_number h)) (hlc_site h)"
proof -
  from assms have e: "h = format_hlc (hlc_ts h) (counter4 (hlc_number h)) (hlc_site h)"
    and l: "length (hlc_ts h) = 24" and n: "hlc_number h < 65536" by (auto simp: hlc_wf_def)
  show "parseHlc h = (hlc_ts h, counter4 (hlc_number h), hlc_site h)"
    using parse_format [OF counter4_plain [OF n] hlc_site_wf, of "hlc_ts h"] e by metis
  show "parse_int16 (counter4 (hlc_number h)) = Some (int (hlc_number h))"
    by (rule parse_counter4(1) [OF n])
  show "length (hlc_ts h) = 24" by (rule l)
  show "hlc_number h < 65536" by (rule n)
  show "h = format_hlc (hlc_ts h) (counter4 (hlc_number h)) (hlc_site h)" by (rule e)
  show "h \<noteq> []" using e by (metis append_is_Nil_conv format_hlc_def list.distinct(1))
qed

section \<open>The order on clock values\<close>

text \<open>On well-formed values the string order is the order on timestamp, counter and site.\<close>

lemma format_hlc_less:
  assumes "length ts = length ts'" and "n < 65536" and "m < 65536"
  shows "format_hlc ts (counter4 n) s < format_hlc ts' (counter4 m) s' \<longleftrightarrow>
           ts < ts' \<or> ts = ts' \<and> (n < m \<or> n = m \<and> s < s')"
proof -
  have "counter4 n = counter4 m \<longleftrightarrow> n = m"
    using parse_counter4(2) assms(2,3) by metis
  then show ?thesis
    using assms by (simp add: format_hlc_def str_append_less counter4_less)
qed

lemma hlc_less_iff:
  assumes "hlc_wf a" and "hlc_wf b"
  shows "a < b \<longleftrightarrow> hlc_ts a < hlc_ts b \<or> hlc_ts a = hlc_ts b \<and>
           (hlc_number a < hlc_number b \<or> hlc_number a = hlc_number b \<and> hlc_site a < hlc_site b)"
proof -
  have "a < b \<longleftrightarrow> format_hlc (hlc_ts a) (counter4 (hlc_number a)) (hlc_site a)
                    < format_hlc (hlc_ts b) (counter4 (hlc_number b)) (hlc_site b)"
    using hlc_wfD(6) assms by metis
  then show ?thesis
    using format_hlc_less hlc_wfD(3,4) assms by simp
qed

lemma counter4_0: "counter4 0 = ''0000''"
  by (simp add: counter4_eq hex_char_0)

lemma hlc_less_format:
  assumes "hlc_wf a" and "length ts = 24" and "n < 65536" and "site_wf s"
  shows "a < format_hlc ts (counter4 n) s \<longleftrightarrow> hlc_ts a < ts \<or> hlc_ts a = ts \<and>
           (hlc_number a < n \<or> hlc_number a = n \<and> hlc_site a < s)"
  using hlc_less_iff [OF assms(1) hlc_wf_format(1)] hlc_wf_format(2-4) assms(2-4) by simp

section \<open>The clock moves forward\<close>

text \<open>A counter with room left: the next value still has four digits.\<close>

definition hlc_room :: "string \<Rightarrow> bool" where
  "hlc_room h \<longleftrightarrow> hlc_number h < 65535"

definition wall_wf :: "string \<Rightarrow> bool" where
  "wall_wf w \<longleftrightarrow> length w = 24"

lemma generateHlc_first:
  assumes "wall_wf w" and "site_wf s"
  shows "hlc_wf (generateHlc w None s)"
  using hlc_wf_format(1) [of w 0 s] assms
  by (simp add: generateHlc_def counter4_0 wall_wf_def)

lemma generateHlc_next:
  assumes "wall_wf w" and "site_wf s" and "hlc_wf h" and "hlc_room h"
  shows "hlc_wf (generateHlc w (Some h) s)" and "h < generateHlc w (Some h) s"
proof -
  note d = hlc_wfD [OF assms(3)]
  have n: "hlc_number h < 65535" and w: "length w = 24"
    using assms by (simp_all add: hlc_room_def wall_wf_def)
  have g: "generateHlc w (Some h) s =
      (if hlc_ts h < w then format_hlc w (counter4 0) s
       else format_hlc (hlc_ts h) (counter4 (hlc_number h + 1)) s)"
    using d n by (simp add: generateHlc_def counter4_0 next_counter4 [OF n])
  show "hlc_wf (generateHlc w (Some h) s)"
    using hlc_wf_format(1) d n w assms(2) by (simp add: g)
  show "h < generateHlc w (Some h) s"
    using hlc_less_format [OF assms(3)] d n w assms(2) by (simp add: g)
qed

text \<open>\<open>SELECT hlc ... ORDER BY hlc DESC LIMIT 1\<close>.\<close>

definition latest :: "'h::linorder list \<Rightarrow> 'h option" where
  "latest hs = (if hs = [] then None else Some (Max (set hs)))"

lemma latest_Some: "latest hs = Some h \<Longrightarrow> h \<in> set hs \<and> (\<forall>x \<in> set hs. x \<le> h)"
  by (auto simp: latest_def split: if_splits)

lemma generateHlc_number:
  assumes "wall_wf w" and "site_wf s" and "\<forall>h \<in> set hs. hlc_wf h \<and> hlc_number h + Suc m \<le> 65535"
    and "m \<le> 65535"
  shows "hlc_number (generateHlc w (latest hs) s) + m \<le> 65535"
proof (cases "latest hs")
  case None
  then show ?thesis
    using hlc_wf_format(3) [of w 0 s] assms by (simp add: generateHlc_def counter4_0 wall_wf_def)
next
  case (Some h)
  then have h: "hlc_wf h" "hlc_number h + Suc m \<le> 65535" using assms(3) by (auto dest: latest_Some)
  then have n: "hlc_number h < 65535" by simp
  have "generateHlc w (Some h) s =
      (if hlc_ts h < w then format_hlc w (counter4 0) s
       else format_hlc (hlc_ts h) (counter4 (hlc_number h + 1)) s)"
    using hlc_wfD [OF h(1)] by (simp add: generateHlc_def counter4_0 next_counter4 [OF n])
  then show ?thesis
    using Some h n hlc_wfD(3) [OF h(1)] hlc_wf_format(3) assms(1,2,4) by (simp add: wall_wf_def)
qed

lemma last_sort3: "last (sort [a, b, c]) = max a (max b (c::string))"
  by (auto simp: max_def)

lemma mergeHlc_cases:
  assumes "hlc_wf a" and "hlc_wf b" and "hlc_room a" and "hlc_room b"
  shows "mergeHlc w a b s =
     (if hlc_ts a < w \<and> hlc_ts b < w then format_hlc w (counter4 0) s
      else format_hlc (max w (max (hlc_ts a) (hlc_ts b)))
             (counter4 (max (hlc_number a) (hlc_number b) + 1)) s)"
proof -
  let ?n = "max (hlc_number a) (hlc_number b)"
  have n: "?n < 65535" using assms by (simp add: hlc_room_def)
  have "js_max (parse_int16 (counter4 (hlc_number a))) (parse_int16 (counter4 (hlc_number b)))
        = Some (int ?n)"
    using hlc_wfD(2) [OF assms(1)] hlc_wfD(2) [OF assms(2)] by (simp add: js_max_def of_nat_max)
  then show ?thesis
    using next_counter4 [OF n] hlc_wfD(1) [OF assms(1)] hlc_wfD(1) [OF assms(2)]
    unfolding mergeHlc_def last_sort3
    by (auto simp: counter4_0 max_def)
qed

lemma mergeHlc_next:
  assumes "wall_wf w" and "site_wf s" and "hlc_wf a" and "hlc_wf b" and "hlc_room a" and "hlc_room b"
  shows "hlc_wf (mergeHlc w a b s)" and "a < mergeHlc w a b s" and "b < mergeHlc w a b s"
proof -
  note da = hlc_wfD [OF assms(3)] and db = hlc_wfD [OF assms(4)]
  have n: "max (hlc_number a) (hlc_number b) + 1 < 65536" and w: "length w = 24"
    using assms by (simp_all add: hlc_room_def wall_wf_def)
  have len: "length (max w (max (hlc_ts a) (hlc_ts b))) = 24"
    using w da db by (simp add: max_def)
  note g = mergeHlc_cases [OF assms(3-6), of w s]
  show "hlc_wf (mergeHlc w a b s)"
    using hlc_wf_format(1) [OF w] hlc_wf_format(1) [OF len n] assms(2) by (simp add: g)
  show "a < mergeHlc w a b s"
    using hlc_less_format [OF assms(3) w] hlc_less_format [OF assms(3) len n assms(2)] assms(2)
    by (auto simp: g max_def)
  show "b < mergeHlc w a b s"
    using hlc_less_format [OF assms(4) w] hlc_less_format [OF assms(4) len n assms(2)] assms(2)
    by (auto simp: g max_def)
qed

section \<open>The interface the change log relies on\<close>

text \<open>
  A logical clock: a local tick exceeds the previous stamp and a merge exceeds both its
  arguments, as long as the stamps still have room. The lemmas say what a log that stamps each
  entry from its latest one gets from that.
\<close>

locale logical_clock =
  fixes tick :: "'w \<Rightarrow> 'h::linorder option \<Rightarrow> 's \<Rightarrow> 'h"
    and merge :: "'w \<Rightarrow> 'h \<Rightarrow> 'h \<Rightarrow> 's \<Rightarrow> 'h"
    and zero :: 'h
    and wf :: "'h \<Rightarrow> bool" and room :: "'h \<Rightarrow> bool"
    and wall_ok :: "'w \<Rightarrow> bool" and site_ok :: "'s \<Rightarrow> bool"
  assumes tick_first: "wall_ok w \<Longrightarrow> site_ok s \<Longrightarrow> wf (tick w None s)"
    and tick_wf: "wall_ok w \<Longrightarrow> site_ok s \<Longrightarrow> wf h \<Longrightarrow> room h \<Longrightarrow> wf (tick w (Some h) s)"
    and tick_less: "wall_ok w \<Longrightarrow> site_ok s \<Longrightarrow> wf h \<Longrightarrow> room h \<Longrightarrow> h < tick w (Some h) s"
    and merge_wf: "wall_ok w \<Longrightarrow> site_ok s \<Longrightarrow> wf a \<Longrightarrow> wf b \<Longrightarrow> room a \<Longrightarrow> room b \<Longrightarrow> wf (merge w a b s)"
    and merge_local: "wall_ok w \<Longrightarrow> site_ok s \<Longrightarrow> wf a \<Longrightarrow> wf b \<Longrightarrow> room a \<Longrightarrow> room b \<Longrightarrow> a < merge w a b s"
    and merge_remote: "wall_ok w \<Longrightarrow> site_ok s \<Longrightarrow> wf a \<Longrightarrow> wf b \<Longrightarrow> room a \<Longrightarrow> room b \<Longrightarrow> b < merge w a b s"
    and zero_wf: "wf zero" and zero_room: "room zero"
begin

lemma tick_log:
  assumes "wall_ok w" and "site_ok s" and "\<forall>h \<in> set hs. wf h \<and> room h"
  shows "wf (tick w (latest hs) s)" and "\<forall>h \<in> set hs. h < tick w (latest hs) s"
proof (atomize (full), cases "latest hs")
  case None
  then have "hs = []" by (simp add: latest_def split: if_splits)
  then show "wf (tick w (latest hs) s) \<and> (\<forall>h \<in> set hs. h < tick w (latest hs) s)"
    using tick_first assms by (simp add: latest_def)
next
  case (Some m)
  then have m: "m \<in> set hs" "\<forall>x \<in> set hs. x \<le> m" by (auto dest: latest_Some)
  then show "wf (tick w (latest hs) s) \<and> (\<forall>h \<in> set hs. h < tick w (latest hs) s)"
    using tick_wf tick_less assms by (auto simp: Some intro: le_less_trans)
qed

lemma merge_log:
  assumes "wall_ok w" and "site_ok s" and "\<forall>h \<in> set hs. wf h \<and> room h" and "wf r" and "room r"
    and "m = (case latest hs of None \<Rightarrow> zero | Some h \<Rightarrow> h)"
  shows "wf (merge w m r s)" and "\<forall>h \<in> set hs. h < merge w m r s" and "r < merge w m r s"
proof -
  have m: "wf m" "room m" "\<forall>x \<in> set hs. x \<le> m"
    using assms(3,6) zero_wf zero_room
    by (auto simp: latest_def split: option.splits if_splits)
  show "wf (merge w m r s)" and "r < merge w m r s"
    using merge_wf merge_remote m assms by blast+
  show "\<forall>h \<in> set hs. h < merge w m r s"
    using merge_local m assms by (blast intro: le_less_trans)
qed

end

lemma HLC_ZERO_wf: "hlc_wf HLC_ZERO" and HLC_ZERO_room: "hlc_room HLC_ZERO"
proof -
  have "HLC_ZERO = format_hlc ''0000-00-00T00:00:00.000Z'' (counter4 0) ''0000''"
    by (simp add: HLC_ZERO_def format_hlc_def counter4_0)
  then show "hlc_wf HLC_ZERO" and "hlc_room HLC_ZERO"
    using hlc_wf_format [of "''0000-00-00T00:00:00.000Z''" 0 "''0000''"]
    by (simp_all add: hlc_room_def site_wf_def)
qed

interpretation hlc: logical_clock generateHlc mergeHlc HLC_ZERO hlc_wf hlc_room wall_wf site_wf
  by unfold_locales
    (simp_all add: generateHlc_first generateHlc_next mergeHlc_next HLC_ZERO_wf HLC_ZERO_room)

lemma overflow_stamp:
  assumes "wallClock \<le> ts" and "CHR ''_'' \<notin> set site"
  shows "generateHlc wallClock (Some (format_hlc ts ''ffff'' site)) siteId =
           format_hlc ts ''10000'' siteId \<and>
         generateHlc wallClock (Some (format_hlc ts ''ffff'' site)) siteId <
           format_hlc ts ''ffff'' site"
proof -
  have p: "parseHlc (format_hlc ts ''ffff'' site) = (ts, ''ffff'', site)"
    using assms(2) by (intro parse_format) (simp_all add: site_wf_def)
  have f: "hex_value CHR ''f'' = Some 15" by (simp add: hex_value_def)
  have "parse_int16 ''ffff'' = Some 65535"
    by (simp add: parse_int16_def hex_number_def f is_space_def)
  moreover have "hex_digits 65536 = ''10000''"
    by (simp add: hex_digits.simps hex_char_def)
  ultimately have n: "next_counter (parse_int16 ''ffff'') = ''10000''"
    by (simp add: next_counter_def to_string16_def pad_start_def)
  have ne: "format_hlc ts ''ffff'' site \<noteq> []" by (simp add: format_hlc_def)
  have g: "generateHlc wallClock (Some (format_hlc ts ''ffff'' site)) siteId =
           format_hlc ts ''10000'' siteId"
    using assms(1) ne by (simp add: generateHlc_def p n leD)
  moreover have "format_hlc ts ''10000'' siteId < format_hlc ts ''ffff'' site"
    by (simp add: format_hlc_def str_append_less)
  ultimately show ?thesis by simp
qed

section \<open>Properties\<close>

text \<open>a locally generated clock value is strictly greater, in the string order the
  change log sorts by, than the value it follows, and is again well-formed: the clock never
  runs backwards while the previous counter is below \<open>ffff\<close>, whatever the wall clock does.\<close>

theorem generateHlc_increases:
  assumes "hlc_wf lastHlc" and "hlc_number lastHlc < 65535"
    and "length wallClock = 24" and "CHR ''_'' \<notin> set siteId"
  shows "lastHlc < generateHlc wallClock (Some lastHlc) siteId \<and>
         hlc_wf (generateHlc wallClock (Some lastHlc) siteId)"
  using generateHlc_next assms by (simp add: hlc_room_def wall_wf_def site_wf_def)

theorem generateHlc_increases_witness:
  "HLC_ZERO < generateHlc ''2026-01-02T03:04:05.678Z'' (Some HLC_ZERO) ''ab12''"
  using generateHlc_increases [of HLC_ZERO "''2026-01-02T03:04:05.678Z''" "''ab12''"]
    HLC_ZERO_wf HLC_ZERO_room by (simp add: hlc_room_def)

text \<open>merging the local clock with a received one gives a well-formed value strictly
  greater than both, whatever the wall clock reads, while both counters are below
  \<open>ffff\<close>.\<close>

theorem mergeHlc_increases:
  assumes "hlc_wf localHlc" and "hlc_wf remoteHlc"
    and "hlc_number localHlc < 65535" and "hlc_number remoteHlc < 65535"
    and "length now = 24" and "CHR ''_'' \<notin> set siteId"
  shows "localHlc < mergeHlc now localHlc remoteHlc siteId \<and>
         remoteHlc < mergeHlc now localHlc remoteHlc siteId \<and>
         hlc_wf (mergeHlc now localHlc remoteHlc siteId)"
  using mergeHlc_next assms by (simp add: hlc_room_def wall_wf_def site_wf_def)

theorem mergeHlc_increases_witness:
  "HLC_ZERO < mergeHlc ''2026-01-02T03:04:05.678Z'' HLC_ZERO HLC_ZERO ''ab12''"
  using mergeHlc_increases [of HLC_ZERO HLC_ZERO "''2026-01-02T03:04:05.678Z''" "''ab12''"]
    HLC_ZERO_wf HLC_ZERO_room by (simp add: hlc_room_def)

text \<open>the counter has no overflow rule. When the previous counter is \<open>ffff\<close> and the
  wall clock has not passed its timestamp, the generated value has the five-digit counter
  \<open>10000\<close> and sorts below the value it follows, for every site, so the string order no
  longer follows causality.\<close>

theorem generateHlc_counter_overflow:
  assumes "wallClock \<le> ts" and "CHR ''_'' \<notin> set site"
  shows "generateHlc wallClock (Some (format_hlc ts ''ffff'' site)) siteId =
           format_hlc ts ''10000'' siteId \<and>
         generateHlc wallClock (Some (format_hlc ts ''ffff'' site)) siteId <
           format_hlc ts ''ffff'' site"
  using overflow_stamp [OF assms] by blast

theorem generateHlc_counter_overflow_witness:
  "generateHlc ''2026-01-02T03:04:05.678Z''
     (Some ''2026-01-02T03:04:05.678Z_ffff_ab12'') ''ab12'' < ''2026-01-02T03:04:05.678Z_ffff_ab12''"
  using generateHlc_counter_overflow
    [of "''2026-01-02T03:04:05.678Z''" "''2026-01-02T03:04:05.678Z''" "''ab12''" "''ab12''"]
  by (simp add: format_hlc_def)

end
