(* ===== verification/Sql_Store.thy ===== *)
theory Sql_Store
  imports Hlc
begin

text \<open>
  The SQLite layer under the synced tables. A row is a function from column names to values, a
  table a list of rows in rowid order. What the schema contributes (the columns of a table,
  their defaults, how a bound value is stored in a column, and the constraints and triggers a
  new or updated row has to pass) is the record \<open>schema\<close>, an argument of every operation.
  A statement returns \<open>None\<close> where SQLite raises.

  The store also holds the change log, the stack of event scopes and the delivered events of
  \<open>packages/core/src/change-log.ts\<close>, the readings of the wall clock the code will make
  (\<open>now_at\<close>, consumed in order) and the UUIDs it will draw.
\<close>

type_synonym row = "string \<Rightarrow> json"

record schema =
  table_columns :: "string \<Rightarrow> string list"
  column_default :: "string \<Rightarrow> string \<Rightarrow> json"
  bind_value :: "string \<Rightarrow> string \<Rightarrow> json \<Rightarrow> json option"
  insert_ok :: "string \<Rightarrow> row list \<Rightarrow> row \<Rightarrow> bool"
  update_ok :: "string \<Rightarrow> row list \<Rightarrow> string list \<Rightarrow> row \<Rightarrow> row \<Rightarrow> bool"

record log_entry =
  hlc :: string
  table_name :: string
  row_id :: string
  site_id :: string
  timestamp :: string
  row_data :: jtext

record change_event =
  ev_hlc :: string
  ev_table :: string
  ev_site :: string

record store =
  tables :: "string \<Rightarrow> row list"
  change_log :: "log_entry list"
  scopes :: "change_event list list"
  emitted :: "change_event list"
  now_at :: "nat \<Rightarrow> string"
  reads :: nat
  uuid_at :: "nat \<Rightarrow> string"
  draws :: nat

text \<open>Reading the wall clock and drawing a UUID.\<close>

definition read_clock :: "store \<Rightarrow> string \<times> store" where
  "read_clock st = (now_at st (reads st), st\<lparr>reads := reads st + 1\<rparr>)"

definition draw_uuid :: "store \<Rightarrow> string \<times> store" where
  "draw_uuid st = (uuid_at st (draws st), st\<lparr>draws := draws st + 1\<rparr>)"

section \<open>Statements\<close>

text \<open>SQL equality: NULL equals nothing.\<close>

definition sql_eq :: "json \<Rightarrow> json \<Rightarrow> bool" where
  "sql_eq a b \<longleftrightarrow> a \<noteq> JNull \<and> b \<noteq> JNull \<and> a = b"

text \<open>Binding the values of a statement to their columns: an unknown column or a value the
  driver or the STRICT table rejects makes the statement fail.\<close>

fun bind_all :: "schema \<Rightarrow> string \<Rightarrow> jobject \<Rightarrow> jobject option" where
  "bind_all s t [] = Some []"
| "bind_all s t ((c, v) # cvs) =
     (if c \<notin> set (table_columns s t) then None
      else case bind_value s t c v of
             None \<Rightarrow> None
           | Some w \<Rightarrow> (case bind_all s t cvs of None \<Rightarrow> None | Some ws \<Rightarrow> Some ((c, w) # ws)))"

definition row_with :: "jobject \<Rightarrow> row \<Rightarrow> row" where
  "row_with cvs r = (\<lambda>c. case map_of cvs c of Some v \<Rightarrow> v | None \<Rightarrow> r c)"

definition fresh :: "schema \<Rightarrow> string \<Rightarrow> jobject \<Rightarrow> row" where
  "fresh s t cvs = row_with cvs (column_default s t)"

text \<open>\<open>UPDATE t SET cvs WHERE p\<close>: the new table and the number of rows changed.\<close>

definition sql_update ::
  "schema \<Rightarrow> string \<Rightarrow> string \<Rightarrow> jobject \<Rightarrow> (row \<Rightarrow> bool) \<Rightarrow> row list \<Rightarrow> (row list \<times> nat) option"
where
  "sql_update s t pk cvs p rows =
     (if cvs = [] then None
      else case bind_all s t cvs of
             None \<Rightarrow> None
           | Some bound \<Rightarrow>
               let rows' = update_where p (row_with bound) rows;
                   others = filter (\<lambda>r. \<not> p r) rows
               in if list_all (\<lambda>r. p r \<longrightarrow> update_ok s t others (map fst bound) r (row_with bound r)) rows
                     \<and> distinct (filter (\<lambda>v. v \<noteq> JNull) (map (\<lambda>r. r pk) rows'))
                  then Some (rows', count_where p rows)
                  else None)"

text \<open>\<open>INSERT INTO t (cvs)\<close>. A row whose key is taken is handed to the conflict clause: plain
  inserts fail, \<open>DO NOTHING\<close> keeps the table, \<open>DO UPDATE\<close> rewrites the row it met.\<close>

datatype on_conflict = Abort | Do_Nothing | Do_Update "row \<Rightarrow> row \<Rightarrow> bool" "string list"

definition key_taken :: "string \<Rightarrow> row \<Rightarrow> row list \<Rightarrow> bool" where
  "key_taken pk new rows \<longleftrightarrow> list_ex (\<lambda>r. sql_eq (r pk) (new pk)) rows"

definition sql_insert ::
  "schema \<Rightarrow> string \<Rightarrow> string \<Rightarrow> on_conflict \<Rightarrow> jobject \<Rightarrow> row list \<Rightarrow> (row list \<times> nat) option"
where
  "sql_insert s t pk clause cvs rows =
     (if cvs = [] then None
      else case bind_all s t cvs of
             None \<Rightarrow> None
           | Some bound \<Rightarrow>
               let new = fresh s t bound;
                   others = filter (\<lambda>r. \<not> sql_eq (r pk) (new pk)) rows
               in if \<not> insert_ok s t others new then None
                  else if \<not> key_taken pk new rows then Some (rows @ [new], 1)
                  else case clause of
                         Abort \<Rightarrow> None
                       | Do_Nothing \<Rightarrow> Some (rows, 0)
                       | Do_Update cond cols \<Rightarrow>
                           (let p = (\<lambda>r. sql_eq (r pk) (new pk) \<and> cond new r);
                                f = (\<lambda>r. row_with (map (\<lambda>c. (c, new c)) cols) r)
                            in if list_all (\<lambda>r. p r \<longrightarrow> update_ok s t others cols r (f r)) rows
                               then Some (update_where p f rows, count_where p rows)
                               else None))"

text \<open>\<open>SELECT * ... WHERE pk = ?\<close> and the object the driver builds from a row.\<close>

definition select_pk :: "string \<Rightarrow> json \<Rightarrow> row list \<Rightarrow> row option" where
  "select_pk pk v rows = find (\<lambda>r. sql_eq (r pk) v) rows"

definition row_object :: "schema \<Rightarrow> string \<Rightarrow> row \<Rightarrow> jobject" where
  "row_object s t r = map (\<lambda>c. (c, r c)) (table_columns s t)"

definition set_table :: "string \<Rightarrow> row list \<Rightarrow> store \<Rightarrow> store" where
  "set_table t rows st = st\<lparr>tables := (tables st)(t := rows)\<rparr>"

section \<open>Facts about statements\<close>

text \<open>The primary key: among the rows of a table, non-NULL key values are unique.\<close>

definition keyed :: "string \<Rightarrow> row list \<Rightarrow> bool" where
  "keyed pk rows \<longleftrightarrow> distinct (filter (\<lambda>v. v \<noteq> JNull) (map (\<lambda>r. r pk) rows))"

lemma sql_eq_refl [simp]: "sql_eq v v \<longleftrightarrow> v \<noteq> JNull"
  by (auto simp: sql_eq_def)

lemma sql_eqD: "sql_eq a b \<Longrightarrow> a = b"
  by (simp add: sql_eq_def)

lemma bind_all_keys: "bind_all s t cvs = Some bound \<Longrightarrow> map fst bound = map fst cvs"
  by (induction s t cvs arbitrary: bound rule: bind_all.induct)
    (auto split: if_splits option.splits)

lemma bind_all_columns: "bind_all s t cvs = Some bound \<Longrightarrow> set (map fst bound) \<subseteq> set (table_columns s t)"
  by (induction s t cvs arbitrary: bound rule: bind_all.induct)
    (fastforce split: if_splits option.splits)+

lemma bind_all_lookup:
  "bind_all s t cvs = Some bound \<Longrightarrow>
   map_of bound c = (case map_of cvs c of None \<Rightarrow> None | Some v \<Rightarrow> bind_value s t c v)"
  by (induction s t cvs arbitrary: bound rule: bind_all.induct)
    (auto split: if_splits option.splits)

lemma row_with_hit: "map_of cvs c = Some v \<Longrightarrow> row_with cvs r c = v"
  by (simp add: row_with_def)

lemma row_with_miss: "c \<notin> set (map fst cvs) \<Longrightarrow> row_with cvs r c = r c"
  by (simp add: row_with_def map_of_eq_None_iff [THEN iffD2])

lemma row_with_idem [simp]: "row_with cvs (row_with cvs r) = row_with cvs r"
  by (auto simp: row_with_def split: option.splits)

lemma row_with_same_columns:
  "set (map fst a) = set (map fst b) \<Longrightarrow> row_with a (row_with b r) = row_with a r"
proof (rule ext)
  fix c
  assume "set (map fst a) = set (map fst b)"
  then have "map_of a c = None \<longleftrightarrow> map_of b c = None" by (simp add: map_of_eq_None_iff)
  then show "row_with a (row_with b r) c = row_with a r c"
    by (auto simp: row_with_def split: option.splits)
qed

lemma keyed_unique:
  assumes "keyed pk rows" and "r \<in> set rows" and "r' \<in> set rows" and "sql_eq (r pk) (r' pk)"
  shows "r = r'"
  using assms
proof (induction rows)
  case (Cons x rows)
  from Cons.prems(1) have k: "keyed pk rows" and x: "x pk \<noteq> JNull \<Longrightarrow> x pk \<notin> (\<lambda>r. r pk) ` set rows"
    by (auto simp: keyed_def split: if_splits)
  have "r = x \<longleftrightarrow> r' = x"
  proof
    assume "r = x"
    with Cons.prems(3,4) x show "r' = x" by (auto simp: sql_eq_def)
  next
    assume "r' = x"
    with Cons.prems(2,4) x show "r = x"
      by (metis image_eqI insert_iff list.simps(15) sql_eq_def)
  qed
  with Cons.IH [OF k] Cons.prems(2-4) show ?case by auto
qed simp

lemma select_pk_Some: "select_pk pk v rows = Some r \<Longrightarrow> r \<in> set rows \<and> sql_eq (r pk) v"
  by (auto simp: select_pk_def find_Some_iff)

lemma select_pk_None: "select_pk pk v rows = None \<longleftrightarrow> (\<forall>r \<in> set rows. \<not> sql_eq (r pk) v)"
  by (auto simp: select_pk_def find_None_iff)

lemma select_pk_eq:
  assumes "keyed pk rows" and "r \<in> set rows" and "sql_eq (r pk) v"
  shows "select_pk pk v rows = Some r"
proof (cases "select_pk pk v rows")
  case None
  then show ?thesis using assms by (auto simp: select_pk_None)
next
  case (Some r')
  then have "r' \<in> set rows" "sql_eq (r' pk) v" by (auto dest: select_pk_Some)
  with assms have "r' = r" by (intro keyed_unique [OF assms(1)]) (auto simp: sql_eq_def)
  with Some show ?thesis by simp
qed

lemma sql_updateE:
  assumes "sql_update s t pk cvs p rows = Some (rows', n)"
  obtains bound where "bind_all s t cvs = Some bound" and "rows' = update_where p (row_with bound) rows"
    and "n = count_where p rows" and "keyed pk rows'" and "cvs \<noteq> []"
  using assms by (auto simp: sql_update_def keyed_def Let_def split: if_splits option.splits)

lemma sql_insertE:
  assumes "sql_insert s t pk clause cvs rows = Some (rows', n)"
  obtains (new) bound where "bind_all s t cvs = Some bound" and "\<not> key_taken pk (fresh s t bound) rows"
      and "rows' = rows @ [fresh s t bound]" and "n = 1"
  | (kept) bound where "bind_all s t cvs = Some bound" and "key_taken pk (fresh s t bound) rows"
      and "clause = Do_Nothing" and "rows' = rows" and "n = 0"
  | (upd) bound cond cols where "bind_all s t cvs = Some bound" and "key_taken pk (fresh s t bound) rows"
      and "clause = Do_Update cond cols"
      and "rows' = update_where (\<lambda>r. sql_eq (r pk) (fresh s t bound pk) \<and> cond (fresh s t bound) r)
                     (row_with (map (\<lambda>c. (c, fresh s t bound c)) cols)) rows"
      and "n = count_where (\<lambda>r. sql_eq (r pk) (fresh s t bound pk) \<and> cond (fresh s t bound) r) rows"
  using assms
  by (auto simp: sql_insert_def Let_def split: if_splits option.splits on_conflict.splits)

lemma keyed_append:
  "keyed pk rows \<Longrightarrow> \<not> key_taken pk new rows \<Longrightarrow> keyed pk (rows @ [new])"
  by (auto simp: keyed_def key_taken_def list_ex_iff sql_eq_def)

lemma keyed_update:
  assumes "\<And>r. f r pk = r pk"
  shows "keyed pk (update_where p f rows) = keyed pk rows"
  using map_update_where_key [of "\<lambda>r. r pk" f p rows] assms by (simp add: keyed_def)

lemma sql_insert_keyed:
  assumes "keyed pk rows" and "sql_insert s t pk clause cvs rows = Some (rows', n)"
    and "\<And>cond cols. clause = Do_Update cond cols \<Longrightarrow> pk \<notin> set cols"
  shows "keyed pk rows'"
  using assms(2)
proof (cases rule: sql_insertE)
  case (new bound)
  then show ?thesis using assms(1) by (simp add: keyed_append)
next
  case (kept bound)
  then show ?thesis using assms(1) by simp
next
  case (upd bound cond cols)
  have "row_with (map (\<lambda>c. (c, fresh s t bound c)) cols) r pk = r pk" for r
    using assms(3) [OF upd(3)] by (intro row_with_miss) auto
  then have "keyed pk rows' = keyed pk rows"
    unfolding upd(4) by (rule keyed_update)
  then show ?thesis using assms(1) by blast
qed

lemma sql_update_keyed: "sql_update s t pk cvs p rows = Some (rows', n) \<Longrightarrow> keyed pk rows'"
  by (erule sql_updateE) simp

section \<open>A concrete schema and store\<close>

text \<open>Eight nullable columns without further constraints, and an empty database whose clock
  stands still: what the concrete instances of the properties run on.\<close>

definition plain_schema :: schema where
  "plain_schema =
     \<lparr>table_columns = (\<lambda>t. [''id'', ''role'', ''status'', ''relation'', ''context'', ''metadata'',
                            ''deleted'', ''modified_at'']),
      column_default = (\<lambda>t c. JNull), bind_value = (\<lambda>t c v. Some v),
      insert_ok = (\<lambda>t others new. True), update_ok = (\<lambda>t others cs old new. True)\<rparr>"

definition empty_store :: store where
  "empty_store =
     \<lparr>tables = (\<lambda>t. []), change_log = [], scopes = [], emitted = [],
      now_at = (\<lambda>n. ''2026-01-02T03:04:05.678Z''), reads = 0,
      uuid_at = (\<lambda>n. ''m1''), draws = 0\<rparr>"

end
