(* ===== verification/Change_Log.thy ===== *)
theory Change_Log
  imports Sql_Store
begin

text \<open>
  The transactional outbox of \<open>packages/core/src/change-log.ts\<close>: every write of a synced
  table appends a change-log entry in the same transaction and notifies the event bus after
  the commit. An action takes the store to a result (\<open>Inl\<close> is a thrown error) and the store
  afterwards. The bus is an option: \<open>None\<close> when no bus is set, otherwise the predicate saying
  for which events a listener throws; listeners do not write to the database themselves.
\<close>

datatype db_error =
    System_Role
  | Invalid_Column string
  | Sql_Error
  | Row_Disappeared
  | Listener_Failed
  | Reason_Required

type_synonym 'a action = "store \<Rightarrow> (db_error + 'a) \<times> store"
type_synonym bus = "(change_event \<Rightarrow> bool) option"

definition return :: "'a \<Rightarrow> 'a action" where
  "return a st = (Inr a, st)"

definition throw :: "db_error \<Rightarrow> 'a action" where
  "throw e st = (Inl e, st)"

definition and_then :: "'a action \<Rightarrow> ('a \<Rightarrow> 'b action) \<Rightarrow> 'b action" where
  "and_then f g st = (case f st of (Inl e, st') \<Rightarrow> (Inl e, st') | (Inr a, st') \<Rightarrow> g a st')"

text \<open>\<open>db.transaction(fn)()\<close>: a throwing body leaves tables and log as they were.\<close>

definition in_transaction :: "'a action \<Rightarrow> 'a action" where
  "in_transaction fn st =
     (case fn st of
        (Inr a, st') \<Rightarrow> (Inr a, st')
      | (Inl e, st') \<Rightarrow> (Inl e, st'\<lparr>tables := tables st, change_log := change_log st\<rparr>))"

section \<open>Names and keys\<close>

definition SYNCED_TABLE_NAMES :: "string list" where
  "SYNCED_TABLE_NAMES =
     [''users'', ''threads'', ''messages'', ''semantic_memory'', ''tasks'', ''files'', ''hosts'',
      ''cluster_config'', ''advisories'', ''skills'', ''agents'', ''memory_edges'',
      ''connector_handles'', ''webhooks'', ''rss_feeds'', ''client_sessions'', ''turns'']"

definition getPkColumn :: "string \<Rightarrow> string" where
  "getPkColumn t =
     (if t = ''hosts'' then ''site_id'' else if t = ''cluster_config'' then ''key'' else ''id'')"

text \<open>The pattern \<open>/^[a-z_]+$/\<close>.\<close>

definition valid_column_name :: "string \<Rightarrow> bool" where
  "valid_column_name s \<longleftrightarrow>
     s \<noteq> [] \<and> list_all (\<lambda>c. c = CHR ''_'' \<or> CHR ''a'' \<le> c \<and> c \<le> CHR ''z'') s"

definition validateColumnName :: "string \<Rightarrow> unit action" where
  "validateColumnName name = (if valid_column_name name then return () else throw (Invalid_Column name))"

fun validate_columns :: "string list \<Rightarrow> unit action" where
  "validate_columns [] = return ()"
| "validate_columns (c # cs) = and_then (validateColumnName c) (\<lambda>_. validate_columns cs)"

section \<open>The log\<close>

definition createChangeLogEntry ::
  "string \<Rightarrow> string \<Rightarrow> string \<Rightarrow> jobject \<Rightarrow> string option \<Rightarrow> string action" where
  "createChangeLogEntry tableName rowId siteId rowData remoteHlc st =
     (let (now, st1) = read_clock st;
          lastRow = latest (map hlc (change_log st1));
          (h, st2) =
            (case remoteHlc of
               None \<Rightarrow> (generateHlc now lastRow siteId, st1)
             | Some r \<Rightarrow>
                 if r = [] then (generateHlc now lastRow siteId, st1)
                 else let (now2, st2) = read_clock st1
                      in (mergeHlc now2 (case lastRow of None \<Rightarrow> HLC_ZERO | Some l \<Rightarrow> l) r siteId, st2))
      in if h \<in> set (map hlc (change_log st2)) then (Inl Sql_Error, st2)
         else (Inr h,
               st2\<lparr>change_log := change_log st2 @
                 [\<lparr>hlc = h, table_name = tableName, row_id = rowId, site_id = siteId,
                   timestamp = now, row_data = json_stringify (JObj rowData)\<rparr>]\<rparr>))"

section \<open>Events\<close>

definition event_of :: "log_entry \<Rightarrow> change_event" where
  "event_of e = \<lparr>ev_hlc = hlc e, ev_table = table_name e, ev_site = site_id e\<rparr>"

definition deliver :: "bus \<Rightarrow> change_event \<Rightarrow> unit action" where
  "deliver bus ev st =
     (case bus of
        None \<Rightarrow> (Inr (), st)
      | Some throws \<Rightarrow>
          (if throws ev then Inl Listener_Failed else Inr (), st\<lparr>emitted := emitted st @ [ev]\<rparr>))"

definition emitChangeLogEvent :: "bus \<Rightarrow> change_event \<Rightarrow> unit action" where
  "emitChangeLogEvent bus ev st =
     (case scopes st of
        scope # outer \<Rightarrow> (Inr (), st\<lparr>scopes := (scope @ [ev]) # outer\<rparr>)
      | [] \<Rightarrow> deliver bus ev st)"

text \<open>Every event gets its attempt; the first failure is thrown at the end.\<close>

fun drainChangeLogEvents :: "bus \<Rightarrow> change_event list \<Rightarrow> unit action" where
  "drainChangeLogEvents bus [] st = (Inr (), st)"
| "drainChangeLogEvents bus (ev # evs) st =
     (let (r, st1) = deliver bus ev st;
          (r', st2) = drainChangeLogEvents bus evs st1
      in (case r of Inl e \<Rightarrow> Inl e | Inr _ \<Rightarrow> r', st2))"

definition emitWrittenChangeLogEvent :: "bus \<Rightarrow> string \<Rightarrow> string \<Rightarrow> string option \<Rightarrow> unit action" where
  "emitWrittenChangeLogEvent bus tableName siteId h =
     (case h of
        None \<Rightarrow> return ()
      | Some hl \<Rightarrow> emitChangeLogEvent bus \<lparr>ev_hlc = hl, ev_table = tableName, ev_site = siteId\<rparr>)"

text \<open>The end of every write helper: run the body in a transaction, then notify.\<close>

definition commit_and_emit :: "bus \<Rightarrow> string \<Rightarrow> string \<Rightarrow> string option action \<Rightarrow> string option action" where
  "commit_and_emit bus t siteId body =
     and_then (in_transaction body)
       (\<lambda>h. and_then (emitWrittenChangeLogEvent bus t siteId h) (\<lambda>_. return h))"

definition withChangeLog ::
  "bus \<Rightarrow> string \<Rightarrow> (string \<times> string \<times> jobject \<times> 'a) action \<Rightarrow> 'a action" where
  "withChangeLog bus siteId fn =
     and_then
       (in_transaction
          (and_then fn (\<lambda>(tableName, rowId, rowData, result).
             and_then (createChangeLogEntry tableName rowId siteId rowData None)
               (\<lambda>h. return (result, h, tableName)))))
       (\<lambda>(result, h, tableName).
          and_then
            (if bus = None then return ()
             else emitChangeLogEvent bus \<lparr>ev_hlc = h, ev_table = tableName, ev_site = siteId\<rparr>)
            (\<lambda>_. return result))"

section \<open>Row writes\<close>

definition insert_body :: "schema \<Rightarrow> string \<Rightarrow> jobject \<Rightarrow> string \<Rightarrow> string option action" where
  "insert_body s t rowData siteId st =
     (case sql_insert s t (getPkColumn t) Abort rowData (tables st t) of
        None \<Rightarrow> (Inl Sql_Error, st)
      | Some (rows', _) \<Rightarrow>
          (case obj_get rowData (getPkColumn t) of
             Some (JStr rowId) \<Rightarrow>
               and_then (createChangeLogEntry t rowId siteId rowData None) (\<lambda>h. return (Some h))
                 (set_table t rows' st)
           | _ \<Rightarrow> (Inl Sql_Error, set_table t rows' st)))"

definition insertRow :: "schema \<Rightarrow> bus \<Rightarrow> string \<Rightarrow> jobject \<Rightarrow> string \<Rightarrow> string option action" where
  "insertRow s bus t rowData siteId =
     (if t = ''messages'' \<and> obj_get rowData ''role'' = Some (JStr ''system'') then throw System_Role
      else and_then (validate_columns (map fst rowData))
             (\<lambda>_. commit_and_emit bus t siteId (insert_body s t rowData siteId)))"

text \<open>Reading the row back and logging its full snapshot.\<close>

definition log_snapshot :: "schema \<Rightarrow> string \<Rightarrow> string \<Rightarrow> string \<Rightarrow> string option action" where
  "log_snapshot s t i siteId st =
     (case select_pk (getPkColumn t) (JStr i) (tables st t) of
        None \<Rightarrow> (Inl Row_Disappeared, st)
      | Some r \<Rightarrow>
          and_then (createChangeLogEntry t i siteId (row_object s t r) None) (\<lambda>h. return (Some h)) st)"

definition has_id :: "string \<Rightarrow> string \<Rightarrow> row \<Rightarrow> bool" where
  "has_id t i r \<longleftrightarrow> sql_eq (r (getPkColumn t)) (JStr i)"

definition update_body :: "schema \<Rightarrow> string \<Rightarrow> string \<Rightarrow> jobject \<Rightarrow> string \<Rightarrow> string option action" where
  "update_body s t i updates siteId st =
     (let (now, st1) = read_clock st;
          updatesWithModified = obj_set updates ''modified_at'' (JStr now)
      in and_then (validate_columns (map fst updatesWithModified))
           (\<lambda>_ st2.
              case sql_update s t (getPkColumn t) updatesWithModified (has_id t i) (tables st2 t) of
                None \<Rightarrow> (Inl Sql_Error, st2)
              | Some (rows', _) \<Rightarrow> log_snapshot s t i siteId (set_table t rows' st2)) st1)"

definition updateRow :: "schema \<Rightarrow> bus \<Rightarrow> string \<Rightarrow> string \<Rightarrow> jobject \<Rightarrow> string \<Rightarrow> string option action" where
  "updateRow s bus t i updates siteId = commit_and_emit bus t siteId (update_body s t i updates siteId)"

definition matches :: "jobject \<Rightarrow> row \<Rightarrow> bool" where
  "matches conds r \<longleftrightarrow> list_all (\<lambda>(k, v). sql_eq (r k) v) conds"

definition update_if_body ::
  "schema \<Rightarrow> string \<Rightarrow> string \<Rightarrow> jobject \<Rightarrow> jobject \<Rightarrow> string \<Rightarrow> string option action" where
  "update_if_body s t i conds updates siteId st =
     (let (now, st1) = read_clock st;
          updatesWithModified = obj_set updates ''modified_at'' (JStr now)
      in and_then (validate_columns (map fst updatesWithModified))
           (\<lambda>_. and_then (validate_columns (map fst conds))
              (\<lambda>_ st2.
                 case bind_all s t conds of
                   None \<Rightarrow> (Inl Sql_Error, st2)
                 | Some bound \<Rightarrow>
                     (case sql_update s t (getPkColumn t) updatesWithModified
                             (\<lambda>r. has_id t i r \<and> matches bound r) (tables st2 t) of
                        None \<Rightarrow> (Inl Sql_Error, st2)
                      | Some (rows', n) \<Rightarrow>
                          if n = 0 then (Inr None, st2)
                          else log_snapshot s t i siteId (set_table t rows' st2)))) st1)"

definition updateRowIf ::
  "schema \<Rightarrow> bus \<Rightarrow> string \<Rightarrow> string \<Rightarrow> jobject \<Rightarrow> jobject \<Rightarrow> string \<Rightarrow> bool action" where
  "updateRowIf s bus t i conds updates siteId =
     and_then (commit_and_emit bus t siteId (update_if_body s t i conds updates siteId))
       (\<lambda>h. return (h \<noteq> None))"

definition delete_body :: "schema \<Rightarrow> string \<Rightarrow> string \<Rightarrow> string \<Rightarrow> string option action" where
  "delete_body s t i siteId st =
     (let (now, st1) = read_clock st
      in case sql_update s t (getPkColumn t) [(''deleted'', JNum 1), (''modified_at'', JStr now)]
                (has_id t i) (tables st1 t) of
           None \<Rightarrow> (Inl Sql_Error, st1)
         | Some (rows', _) \<Rightarrow> log_snapshot s t i siteId (set_table t rows' st1))"

definition softDelete :: "schema \<Rightarrow> bus \<Rightarrow> string \<Rightarrow> string \<Rightarrow> string \<Rightarrow> string option action" where
  "softDelete s bus t i siteId = commit_and_emit bus t siteId (delete_body s t i siteId)"

section \<open>Transactions over several writes\<close>

definition withTx :: "bus \<Rightarrow> 'a action \<Rightarrow> 'a action" where
  "withTx bus fn st =
     (case in_transaction fn (st\<lparr>scopes := [] # scopes st\<rparr>) of
        (Inr a, st2) \<Rightarrow>
          (case scopes st2 of
             scope # parent # outer \<Rightarrow> (Inr a, st2\<lparr>scopes := (parent @ scope) # outer\<rparr>)
           | [scope] \<Rightarrow>
               (let (r, st3) = drainChangeLogEvents bus scope st2
                in (case r of Inl e \<Rightarrow> Inl e | Inr _ \<Rightarrow> Inr a, st3\<lparr>scopes := []\<rparr>))
           | [] \<Rightarrow> (Inr a, st2))
      | (Inl e, st2) \<Rightarrow>
          (Inl e, if length (scopes st2) = Suc (length (scopes st))
                  then st2\<lparr>scopes := tl (scopes st2)\<rparr> else st2))"

text \<open>The raw-write escape hatch: the statement is the caller's.\<close>

definition dangerouslyExecuteRawWrite ::
  "((string \<Rightarrow> row list) \<Rightarrow> (string \<Rightarrow> row list) option) \<Rightarrow> string \<Rightarrow> unit action" where
  "dangerouslyExecuteRawWrite sql reason st =
     (if dropWhile is_space reason = [] then (Inl Reason_Required, st)
      else case sql (tables st) of
             None \<Rightarrow> (Inl Sql_Error, st)
           | Some tbs \<Rightarrow> (Inr (), st\<lparr>tables := tbs\<rparr>))"

section \<open>Messages\<close>

record message_params =
  msg_threadId :: string
  msg_role :: string
  msg_content :: string
  msg_modelId :: "string option"
  msg_toolName :: "string option"
  msg_hostOrigin :: string

definition insertMessage :: "schema \<Rightarrow> bus \<Rightarrow> message_params \<Rightarrow> string \<Rightarrow> string action" where
  "insertMessage s bus params siteId st =
     (let (i, st1) = draw_uuid st;
          (now, st2) = read_clock st1
      in and_then
           (insertRow s bus ''messages''
              [(''id'', JStr i), (''thread_id'', JStr (msg_threadId params)), (''role'', JStr (msg_role params)),
               (''content'', JStr (msg_content params)), (''model_id'', opt_str (msg_modelId params)),
               (''tool_name'', opt_str (msg_toolName params)), (''created_at'', JStr now),
               (''modified_at'', JStr now), (''host_origin'', JStr (msg_hostOrigin params)),
               (''deleted'', JNum 0), (''exit_code'', JNull), (''metadata'', JNull)] siteId)
           (\<lambda>_. return i) st2)"

text \<open>The metadata bag is JSON text in a column: \<open>parse\<close> and \<open>stringify\<close> are
  \<open>JSON.parse\<close> and \<open>JSON.stringify\<close> on texts.\<close>

definition readMessageMetadata :: "(string \<Rightarrow> json option) \<Rightarrow> string \<Rightarrow> store \<Rightarrow> json option" where
  "readMessageMetadata parse messageId st =
     (case select_pk ''id'' (JStr messageId) (tables st ''messages'') of
        None \<Rightarrow> None
      | Some r \<Rightarrow> (case r ''metadata'' of JStr txt \<Rightarrow> parse txt | _ \<Rightarrow> None))"

definition spreadable :: "json option \<Rightarrow> jobject" where
  "spreadable v = (case v of Some (JObj ob) \<Rightarrow> ob | _ \<Rightarrow> [])"

definition writeMessageMetadata ::
  "schema \<Rightarrow> bus \<Rightarrow> (string \<Rightarrow> json option) \<Rightarrow> (json \<Rightarrow> string) \<Rightarrow> string \<Rightarrow> jobject \<Rightarrow> string \<Rightarrow>
     string option action" where
  "writeMessageMetadata s bus parse stringify messageId entries siteId st =
     (let merged = obj_spread (spreadable (readMessageMetadata parse messageId st)) entries
      in updateRow s bus ''messages'' messageId [(''metadata'', JStr (stringify (JObj merged)))] siteId st)"

section \<open>What an action does to the log and the events\<close>

lemmas action_defs = return_def throw_def and_then_def

lemma in_transactionE:
  assumes "in_transaction fn st = (r, st')"
  obtains (ok) a where "r = Inr a" and "fn st = (Inr a, st')"
  | (failed) e st1 where "r = Inl e" and "fn st = (Inl e, st1)"
      and "st' = st1\<lparr>tables := tables st, change_log := change_log st\<rparr>"
  using assms by (auto simp: in_transaction_def split: prod.splits sum.splits)

lemma validate_columns_run:
  "validate_columns cs st =
     (case find (\<lambda>c. \<not> valid_column_name c) cs of None \<Rightarrow> Inr () | Some c \<Rightarrow> Inl (Invalid_Column c), st)"
  by (induction cs) (auto simp: action_defs validateColumnName_def split: option.splits)

definition same_env :: "store \<Rightarrow> store \<Rightarrow> bool" where
  "same_env st st' \<longleftrightarrow>
     scopes st' = scopes st \<and> emitted st' = emitted st \<and> now_at st' = now_at st \<and>
     uuid_at st' = uuid_at st \<and> draws st' = draws st"

definition merges :: "string option \<Rightarrow> bool" where
  "merges remote \<longleftrightarrow> remote \<noteq> None \<and> remote \<noteq> Some []"

text \<open>The stamp a new entry gets, and the entry.\<close>

definition next_hlc :: "store \<Rightarrow> string \<Rightarrow> string option \<Rightarrow> string" where
  "next_hlc st site remote =
     (let lastRow = latest (map hlc (change_log st)) in
      if merges remote
      then mergeHlc (now_at st (reads st + 1)) (case lastRow of None \<Rightarrow> HLC_ZERO | Some l \<Rightarrow> l) (the remote) site
      else generateHlc (now_at st (reads st)) lastRow site)"

definition log_row :: "store \<Rightarrow> string \<Rightarrow> string \<Rightarrow> string \<Rightarrow> jobject \<Rightarrow> string option \<Rightarrow> log_entry" where
  "log_row st t i site rd remote =
     \<lparr>hlc = next_hlc st site remote, table_name = t, row_id = i, site_id = site,
      timestamp = now_at st (reads st), row_data = json_stringify (JObj rd)\<rparr>"

lemma createChangeLogEntry_run:
  "createChangeLogEntry t i site rd remote st =
     (let n = reads st + (if merges remote then 2 else 1); h = next_hlc st site remote in
      if h \<in> hlc ` set (change_log st) then (Inl Sql_Error, st\<lparr>reads := n\<rparr>)
      else (Inr h, st\<lparr>reads := n, change_log := change_log st @ [log_row st t i site rd remote]\<rparr>))"
  by (simp add: createChangeLogEntry_def read_clock_def next_hlc_def log_row_def merges_def Let_def
      split: option.split)

lemma next_hlc_local [simp]:
  "next_hlc st site None = generateHlc (now_at st (reads st)) (latest (map hlc (change_log st))) site"
  by (simp add: next_hlc_def merges_def)

lemma createChangeLogEntryE:
  assumes "createChangeLogEntry t i site rd remote st = (r, st')"
  obtains (dup) "r = Inl Sql_Error" and "tables st' = tables st" and "same_env st st'"
      and "change_log st' = change_log st"
  | (logged) h e where "r = Inr h" and "tables st' = tables st" and "same_env st st'"
      and "change_log st' = change_log st @ [e]" and "h \<notin> hlc ` set (change_log st)"
      and "hlc e = h" and "table_name e = t" and "row_id e = i" and "site_id e = site"
      and "row_data e = json_stringify (JObj rd)" and "timestamp e = now_at st (reads st)"
      and "h = next_hlc st site remote"
proof -
  let ?h = "next_hlc st site remote" and ?n = "reads st + (if merges remote then 2 else 1)"
  have run: "(r, st') = (if ?h \<in> hlc ` set (change_log st) then (Inl Sql_Error, st\<lparr>reads := ?n\<rparr>)
      else (Inr ?h, st\<lparr>reads := ?n, change_log := change_log st @ [log_row st t i site rd remote]\<rparr>))"
    using assms unfolding createChangeLogEntry_run Let_def by simp
  show ?thesis
  proof (cases "?h \<in> hlc ` set (change_log st)")
    case True
    with run show ?thesis by (intro dup) (auto simp: same_env_def)
  next
    case False
    with run show ?thesis
      by (intro logged [of ?h "log_row st t i site rd remote"]) (auto simp: same_env_def log_row_def)
  qed
qed

text \<open>
  The body of a write: it keeps the event scopes to itself, and either throws, or does nothing,
  or logs exactly one entry of its table and site.
\<close>

locale logged_body =
  fixes body :: "string option action" and t :: string and site :: string
  assumes body_quiet: "body st = (r, st') \<Longrightarrow> same_env st st'"
    and body_error: "body st = (Inl err, st') \<Longrightarrow> err \<noteq> Listener_Failed"
    and body_none: "body st = (Inr None, st') \<Longrightarrow> tables st' = tables st \<and> change_log st' = change_log st"
    and body_some: "body st = (Inr (Some h), st') \<Longrightarrow>
          \<exists>e. change_log st' = change_log st @ [e] \<and> hlc e = h \<and> table_name e = t \<and> site_id e = site"
    and body_stamp: "body st = (Inr (Some h), st') \<Longrightarrow>
          \<exists>k. h = generateHlc (now_at st k) (latest (map hlc (change_log st))) site"
begin

lemma transaction_log:
  assumes "in_transaction body st = (r, st')"
  shows "same_env st st'"
    and "r = Inl err \<Longrightarrow> err \<noteq> Listener_Failed \<and> tables st' = tables st \<and> change_log st' = change_log st"
    and "r = Inr None \<Longrightarrow> tables st' = tables st \<and> change_log st' = change_log st"
    and "r = Inr (Some h) \<Longrightarrow>
          \<exists>e. change_log st' = change_log st @ [e] \<and> event_of e = \<lparr>ev_hlc = h, ev_table = t, ev_site = site\<rparr>"
  using assms
  by (auto elim!: in_transactionE dest: body_quiet body_error body_none body_some
      simp: same_env_def event_of_def)

text \<open>Inside a transaction scope the entry's event is buffered and nothing is delivered.\<close>

lemma buffered:
  assumes "commit_and_emit bus t site body st = (r, st')" and "scopes st = scope # outer"
  shows "\<exists>es. change_log st' = change_log st @ es \<and>
              scopes st' = (scope @ map event_of es) # outer \<and> emitted st' = emitted st"
proof -
  obtain q st1 where q: "in_transaction body st = (q, st1)" by (cases "in_transaction body st")
  note log = transaction_log [OF q]
  have env: "scopes st1 = scope # outer" "emitted st1 = emitted st"
    using log(1) assms(2) by (simp_all add: same_env_def)
  consider (err) e where "q = Inl e" | (none) "q = Inr None" | (some) h where "q = Inr (Some h)"
    by (metis not_None_eq sum.exhaust)
  then show ?thesis
  proof cases
    case err
    then show ?thesis
      using assms(1) env log(2) [OF err] q
      by (auto simp: commit_and_emit_def and_then_def intro!: exI [of _ "[]"])
  next
    case none
    then show ?thesis
      using assms(1) env log(3) [OF none] q
      by (auto simp: commit_and_emit_def action_defs emitWrittenChangeLogEvent_def intro!: exI [of _ "[]"])
  next
    case some
    obtain e where e: "change_log st1 = change_log st @ [e]"
        "event_of e = \<lparr>ev_hlc = h, ev_table = t, ev_site = site\<rparr>"
      using log(4) [OF some] by blast
    then show ?thesis
      using assms(1) env some q
      by (auto simp: commit_and_emit_def action_defs emitWrittenChangeLogEvent_def emitChangeLogEvent_def
          intro!: exI [of _ "[e]"])
  qed
qed

text \<open>Outside any scope a failure that is not a listener's leaves the database alone.\<close>

lemma failed_unchanged:
  assumes "commit_and_emit bus t site body st = (Inl err, st')" and "err \<noteq> Listener_Failed"
  shows "tables st' = tables st \<and> change_log st' = change_log st \<and>
         scopes st' = scopes st \<and> emitted st' = emitted st"
proof -
  obtain q st1 where q: "in_transaction body st = (q, st1)" by (cases "in_transaction body st")
  note log = transaction_log [OF q]
  show ?thesis
  proof (cases q)
    case (Inl e)
    then show ?thesis
      using assms(1) q log(1) log(2) [OF Inl]
      by (auto simp: commit_and_emit_def and_then_def same_env_def)
  next
    case (Inr h)
    then show ?thesis
      using assms q
      by (auto simp: commit_and_emit_def action_defs emitWrittenChangeLogEvent_def
          emitChangeLogEvent_def deliver_def split: option.splits list.splits if_splits)
  qed
qed

text \<open>A success tells what the body did; the event part only touches the event state.\<close>

lemma committed:
  assumes "commit_and_emit bus t site body st = (Inr h, st')"
  obtains st1 where "body st = (Inr h, st1)" and "tables st' = tables st1"
    and "change_log st' = change_log st1"
  using assms
  by (auto simp: commit_and_emit_def action_defs emitWrittenChangeLogEvent_def emitChangeLogEvent_def
      deliver_def elim!: in_transactionE
      split: prod.splits sum.splits option.splits list.splits if_splits)

end

lemma same_env_refl [simp]: "same_env st st"
  by (simp add: same_env_def)

lemma same_env_set_table [simp]: "same_env (set_table t rows st) st' = same_env st st'"
  by (simp add: same_env_def set_table_def)

lemma same_env_read [simp]: "same_env (st\<lparr>reads := n\<rparr>) st' = same_env st st'"
  by (simp add: same_env_def)

lemma change_log_set_table [simp]: "change_log (set_table t rows st) = change_log st"
  by (simp add: set_table_def)

lemma now_at_set_table [simp]: "now_at (set_table t rows st) = now_at st"
  by (simp add: set_table_def)

lemma tables_set_table [simp]: "tables (set_table t rows st) = (tables st)(t := rows)"
  by (simp add: set_table_def)

lemma log_snapshotE:
  assumes "log_snapshot s t i site st = (r, st')"
  obtains (failed) err where "r = Inl err" and "err \<noteq> Listener_Failed" and "same_env st st'"
  | (logged) h e x where "r = Inr (Some h)" and "same_env st st'" and "tables st' = tables st"
      and "select_pk (getPkColumn t) (JStr i) (tables st t) = Some x"
      and "change_log st' = change_log st @ [e]" and "hlc e = h" and "h \<notin> hlc ` set (change_log st)"
      and "table_name e = t" and "row_id e = i" and "site_id e = site"
      and "row_data e = json_stringify (JObj (row_object s t x))"
      and "\<exists>k. h = generateHlc (now_at st k) (latest (map hlc (change_log st))) site"
proof (cases "select_pk (getPkColumn t) (JStr i) (tables st t)")
  case None
  then show ?thesis using assms by (intro failed) (auto simp: log_snapshot_def)
next
  case (Some x)
  obtain q st1 where q: "createChangeLogEntry t i site (row_object s t x) None st = (q, st1)"
    by (cases "createChangeLogEntry t i site (row_object s t x) None st")
  from q show ?thesis
  proof (cases rule: createChangeLogEntryE)
    case dup
    then show ?thesis using assms q Some
      by (intro failed [of Sql_Error]) (auto simp: log_snapshot_def action_defs)
  next
    case (logged h e)
    then show ?thesis using assms q Some
      by (intro that(2) [of h x e]) (auto simp: log_snapshot_def action_defs)
  qed
qed

text \<open>What the four bodies do, from their last step backwards.\<close>

lemma insert_bodyE:
  assumes "insert_body s t rd site st = (r, st')"
  obtains (failed) err where "r = Inl err" and "err \<noteq> Listener_Failed" and "same_env st st'"
  | (logged) h e rows' n i where "r = Inr (Some h)" and "same_env st st'"
      and "sql_insert s t (getPkColumn t) Abort rd (tables st t) = Some (rows', n)"
      and "tables st' = (tables st)(t := rows')"
      and "change_log st' = change_log st @ [e]" and "hlc e = h"
      and "table_name e = t" and "site_id e = site" and "row_id e = i"
      and "obj_get rd (getPkColumn t) = Some (JStr i)" and "row_data e = json_stringify (JObj rd)"
      and "\<exists>k. h = generateHlc (now_at st k) (latest (map hlc (change_log st))) site"
proof (cases "sql_insert s t (getPkColumn t) Abort rd (tables st t)")
  case None
  then show ?thesis using assms by (intro failed) (auto simp: insert_body_def)
next
  case (Some res)
  obtain rows' n where res: "res = (rows', n)" by (cases res)
  show ?thesis
  proof (cases "\<exists>i. obj_get rd (getPkColumn t) = Some (JStr i)")
    case False
    then show ?thesis using assms Some res
      by (intro failed) (auto simp: insert_body_def same_env_def set_table_def split: option.splits json.splits)
  next
    case True
    then obtain i where i: "obj_get rd (getPkColumn t) = Some (JStr i)" by blast
    obtain q st1 where q: "createChangeLogEntry t i site rd None (set_table t rows' st) = (q, st1)"
      by (cases "createChangeLogEntry t i site rd None (set_table t rows' st)")
    from q show ?thesis
    proof (cases rule: createChangeLogEntryE)
      case dup
      then show ?thesis using assms q Some res i
        by (intro failed [of Sql_Error]) (auto simp: insert_body_def action_defs)
    next
      case (logged h e)
      then show ?thesis using assms q Some res i
        by (intro that(2) [of h rows' n e i]) (auto simp: insert_body_def action_defs)
    qed
  qed
qed

lemma update_bodyE:
  assumes "update_body s t i updates site st = (r, st')"
  obtains (failed) err where "r = Inl err" and "err \<noteq> Listener_Failed" and "same_env st st'"
  | (logged) h e x rows' n where "r = Inr (Some h)" and "same_env st st'"
      and "sql_update s t (getPkColumn t) (obj_set updates ''modified_at'' (JStr (now_at st (reads st))))
             (has_id t i) (tables st t) = Some (rows', n)"
      and "tables st' = (tables st)(t := rows')"
      and "select_pk (getPkColumn t) (JStr i) rows' = Some x"
      and "change_log st' = change_log st @ [e]" and "hlc e = h"
      and "table_name e = t" and "site_id e = site" and "row_id e = i"
      and "row_data e = json_stringify (JObj (row_object s t x))"
      and "\<exists>k. h = generateHlc (now_at st k) (latest (map hlc (change_log st))) site"
proof -
  let ?u = "obj_set updates ''modified_at'' (JStr (now_at st (reads st)))"
  let ?st1 = "st\<lparr>reads := reads st + 1\<rparr>"
  show ?thesis
  proof (cases "find (\<lambda>c. \<not> valid_column_name c) (map fst ?u)")
    case (Some c)
    then show ?thesis using assms
      by (intro failed [of "Invalid_Column c"])
        (auto simp: update_body_def read_clock_def action_defs validate_columns_run same_env_def)
  next
    case None
    show ?thesis
    proof (cases "sql_update s t (getPkColumn t) ?u (has_id t i) (tables st t)")
      case None
      then show ?thesis
        using assms \<open>find _ _ = None\<close>
        by (intro failed [of Sql_Error])
          (auto simp: update_body_def read_clock_def action_defs validate_columns_run same_env_def)
    next
      case (Some res)
      obtain rows' n where res: "res = (rows', n)" by (cases res)
      have "log_snapshot s t i site (set_table t rows' ?st1) = (r, st')"
        using assms \<open>find _ _ = None\<close> Some res
        by (simp add: update_body_def read_clock_def action_defs validate_columns_run)
      then show ?thesis
      proof (cases rule: log_snapshotE)
        case (failed err)
        then show ?thesis by (intro that(1)) auto
      next
        case (logged h e x)
        then show ?thesis using Some res by (intro that(2) [of h rows' n x e]) auto
      qed
    qed
  qed
qed

lemma update_if_bodyE:
  assumes "update_if_body s t i conds updates site st = (r, st')"
  obtains (failed) err where "r = Inl err" and "err \<noteq> Listener_Failed" and "same_env st st'"
  | (missed) rows' bound where "r = Inr None" and "same_env st st'" and "tables st' = tables st"
      and "change_log st' = change_log st" and "bind_all s t conds = Some bound"
      and "sql_update s t (getPkColumn t) (obj_set updates ''modified_at'' (JStr (now_at st (reads st))))
             (\<lambda>r. has_id t i r \<and> matches bound r) (tables st t) = Some (rows', 0)"
  | (logged) h e x rows' n bound where "r = Inr (Some h)" and "same_env st st'" and "n > 0"
      and "bind_all s t conds = Some bound"
      and "sql_update s t (getPkColumn t) (obj_set updates ''modified_at'' (JStr (now_at st (reads st))))
             (\<lambda>r. has_id t i r \<and> matches bound r) (tables st t) = Some (rows', n)"
      and "tables st' = (tables st)(t := rows')"
      and "select_pk (getPkColumn t) (JStr i) rows' = Some x"
      and "change_log st' = change_log st @ [e]" and "hlc e = h"
      and "table_name e = t" and "site_id e = site" and "row_id e = i"
      and "row_data e = json_stringify (JObj (row_object s t x))"
      and "\<exists>k. h = generateHlc (now_at st k) (latest (map hlc (change_log st))) site"
proof -
  note fail = that(1) and log = that(3)
  let ?u = "obj_set updates ''modified_at'' (JStr (now_at st (reads st)))"
  let ?st1 = "st\<lparr>reads := reads st + 1\<rparr>"
  let ?bad = "\<lambda>c. \<not> valid_column_name c"
  have bad1: ?thesis if "find ?bad (map fst ?u) = Some c" for c
    using assms that
    by (intro failed [of "Invalid_Column c"])
      (auto simp: update_if_body_def read_clock_def action_defs validate_columns_run same_env_def)
  have bad2: ?thesis if "find ?bad (map fst ?u) = None" "find ?bad (map fst conds) = Some c" for c
    using assms that
    by (intro failed [of "Invalid_Column c"])
      (auto simp: update_if_body_def read_clock_def action_defs validate_columns_run same_env_def)
  have unbound: ?thesis if "find ?bad (map fst ?u) = None" "find ?bad (map fst conds) = None"
      "bind_all s t conds = None"
    using assms that
    by (intro failed [of Sql_Error])
      (auto simp: update_if_body_def read_clock_def action_defs validate_columns_run same_env_def)
  have bound: ?thesis if g: "find ?bad (map fst ?u) = None" "find ?bad (map fst conds) = None"
      "bind_all s t conds = Some bound" for bound
  proof (cases "sql_update s t (getPkColumn t) ?u (\<lambda>r. has_id t i r \<and> matches bound r) (tables st t)")
    case None
    then show ?thesis using assms g
      by (intro failed [of Sql_Error])
        (auto simp: update_if_body_def read_clock_def action_defs validate_columns_run same_env_def)
  next
    case (Some res)
    obtain rows' n where res: "res = (rows', n)" by (cases res)
    show ?thesis
    proof (cases n)
      case 0
      then show ?thesis using assms g Some res
        by (intro missed [of bound rows'])
          (auto simp: update_if_body_def read_clock_def action_defs validate_columns_run same_env_def)
    next
      case (Suc m)
      have "log_snapshot s t i site (set_table t rows' ?st1) = (r, st')"
        using assms g Some res Suc
        by (simp add: update_if_body_def read_clock_def action_defs validate_columns_run)
      then show ?thesis
      proof (cases rule: log_snapshotE)
        case (failed err)
        then show ?thesis by (intro fail) auto
      next
        case (logged h e x)
        then show ?thesis using Some res g Suc by (intro log [of h n bound rows' x e]) auto
      qed
    qed
  qed
  show ?thesis using bad1 bad2 unbound bound by (meson not_None_eq)
qed

lemma delete_bodyE:
  assumes "delete_body s t i site st = (r, st')"
  obtains (failed) err where "r = Inl err" and "err \<noteq> Listener_Failed" and "same_env st st'"
  | (logged) h e x rows' n where "r = Inr (Some h)" and "same_env st st'"
      and "sql_update s t (getPkColumn t)
             [(''deleted'', JNum 1), (''modified_at'', JStr (now_at st (reads st)))]
             (has_id t i) (tables st t) = Some (rows', n)"
      and "tables st' = (tables st)(t := rows')"
      and "select_pk (getPkColumn t) (JStr i) rows' = Some x"
      and "change_log st' = change_log st @ [e]" and "hlc e = h"
      and "table_name e = t" and "site_id e = site" and "row_id e = i"
      and "row_data e = json_stringify (JObj (row_object s t x))"
      and "\<exists>k. h = generateHlc (now_at st k) (latest (map hlc (change_log st))) site"
proof (cases "sql_update s t (getPkColumn t)
             [(''deleted'', JNum 1), (''modified_at'', JStr (now_at st (reads st)))]
             (has_id t i) (tables st t)")
  case None
  then show ?thesis using assms
    by (intro failed [of Sql_Error]) (auto simp: delete_body_def read_clock_def same_env_def)
next
  case (Some res)
  obtain rows' n where res: "res = (rows', n)" by (cases res)
  have "log_snapshot s t i site (set_table t rows' (st\<lparr>reads := reads st + 1\<rparr>)) = (r, st')"
    using assms Some res by (simp add: delete_body_def read_clock_def)
  then show ?thesis
  proof (cases rule: log_snapshotE)
    case (failed err)
    then show ?thesis by (intro that(1)) auto
  next
    case (logged h e x)
    then show ?thesis using Some res by (intro that(2) [of h rows' n x e]) auto
  qed
qed

interpretation ins: logged_body "insert_body s t rd site" t site for s t rd site
  by unfold_locales (auto elim!: insert_bodyE)

interpretation upd: logged_body "update_body s t i updates site" t site for s t i updates site
  by unfold_locales (auto elim!: update_bodyE)

interpretation cas: logged_body "update_if_body s t i conds updates site" t site
  for s t i conds updates site
  by unfold_locales (auto elim!: update_if_bodyE)

interpretation del: logged_body "delete_body s t i site" t site for s t i site
  by unfold_locales (auto elim!: delete_bodyE)

text \<open>The table after a successful update or soft delete.\<close>

lemma updateRow_rows:
  assumes "updateRow s bus t i u site st = (Inr h, st')"
  obtains bound where
    "bind_all s t (obj_set u ''modified_at'' (JStr (now_at st (reads st)))) = Some bound"
    and "tables st' = (tables st)(t := update_where (has_id t i) (row_with bound) (tables st t))"
proof -
  from assms obtain st1 where b: "update_body s t i u site st = (Inr h, st1)"
    and t1: "tables st' = tables st1"
    unfolding updateRow_def by (rule upd.committed)
  from b show ?thesis
  proof (cases rule: update_bodyE)
    case (logged h' e x rows' n)
    from logged(3) show ?thesis
      by (rule sql_updateE) (use that logged(4) t1 in auto)
  qed auto
qed

lemma softDelete_rows:
  assumes "softDelete s bus t i site st = (Inr h, st')"
  obtains bound where
    "bind_all s t [(''deleted'', JNum 1), (''modified_at'', JStr (now_at st (reads st)))] = Some bound"
    and "tables st' = (tables st)(t := update_where (has_id t i) (row_with bound) (tables st t))"
proof -
  from assms obtain st1 where b: "delete_body s t i site st = (Inr h, st1)"
    and t1: "tables st' = tables st1"
    unfolding softDelete_def by (rule del.committed)
  from b show ?thesis
  proof (cases rule: delete_bodyE)
    case (logged h' e x rows' n)
    from logged(3) show ?thesis
      by (rule sql_updateE) (use that logged(4) t1 in auto)
  qed auto
qed

section \<open>Properties\<close>

text \<open>a successful update writes table and log together. The row with that id is rewritten
  in exactly the given columns and \<open>modified_at\<close> (set to the clock reading), every other
  row and table is untouched, and the log grows by exactly one entry, which names table, row
  and site and carries the full image of the row as it now stands in the table.\<close>

theorem updateRow_outbox:
  assumes "updateRow s bus t i updates site st = (Inr h, st')"
    and "getPkColumn t \<notin> fst ` set (obj_set updates ''modified_at'' JNull)"
    and "keyed (getPkColumn t) (tables st t)"
  shows "\<exists>bound old e.
    bind_all s t (obj_set updates ''modified_at'' (JStr (now_at st (reads st)))) = Some bound \<and>
    old \<in> set (tables st t) \<and> sql_eq (old (getPkColumn t)) (JStr i) \<and>
    tables st' = (tables st)(t := update_where (\<lambda>r. sql_eq (r (getPkColumn t)) (JStr i)) (row_with bound) (tables st t)) \<and>
    change_log st' = change_log st @ [e] \<and> table_name e = t \<and> row_id e = i \<and> site_id e = site \<and>
    row_data e = Json (JObj (map (\<lambda>c. (c, row_with bound old c)) (table_columns s t)))"
proof -
  from assms(1) obtain st1 where b: "update_body s t i updates site st = (Inr h, st1)"
    and t1: "tables st' = tables st1" "change_log st' = change_log st1"
    unfolding updateRow_def by (rule upd.committed)
  from b show ?thesis
  proof (cases rule: update_bodyE)
    case (logged h' e x rows' n)
    let ?u = "obj_set updates ''modified_at'' (JStr (now_at st (reads st)))"
    obtain bound where bd: "bind_all s t ?u = Some bound"
      and rows': "rows' = update_where (has_id t i) (row_with bound) (tables st t)"
      using logged(3) by (rule sql_updateE)
    have keep: "row_with bound r (getPkColumn t) = r (getPkColumn t)" for r
      using bind_all_keys [OF bd] assms(2) by (intro row_with_miss) (simp add: obj_keys_set)
    have x: "x \<in> set rows'" "has_id t i x"
      using select_pk_Some [OF logged(5)] by (simp_all add: has_id_def)
    then obtain old where old: "old \<in> set (tables st t)" "has_id t i old" "x = row_with bound old"
      unfolding rows' by (auto elim!: in_update_whereE)
    show ?thesis
      using t1 logged rows' bd old
      by (intro exI [of _ bound] exI [of _ old] exI [of _ e])
        (simp add: has_id_def [abs_def] row_object_def json_stringify_def)
  qed auto
qed

definition user_row :: row where
  "user_row = (\<lambda>c. if c = ''id'' then JStr ''u1'' else JNull)"

definition user_store :: store where
  "user_store = set_table ''users'' [user_row] empty_store"

theorem updateRow_outbox_witness:
  "\<exists>e. change_log (snd (updateRow plain_schema None ''users'' ''u1'' [(''status'', JStr ''on'')] ''ab12'' user_store))
        = change_log user_store @ [e] \<and> row_id e = ''u1''"
proof -
  let ?run = "updateRow plain_schema None ''users'' ''u1'' [(''status'', JStr ''on'')] ''ab12'' user_store"
  have "isl (fst ?run) = False" by code_simp
  then obtain h where "fst ?run = Inr h" by (cases "fst ?run") auto
  then have run: "?run = (Inr h, snd ?run)" by (metis prod.collapse)
  have "getPkColumn ''users'' \<notin> fst ` set (obj_set [(''status'', JStr ''on'')] ''modified_at'' JNull)"
    by (simp add: getPkColumn_def)
  moreover have "keyed (getPkColumn ''users'') (tables user_store ''users'')"
    by (simp add: keyed_def user_store_def)
  ultimately show ?thesis using updateRow_outbox [OF run] by blast
qed

text \<open>compare-and-swap has one winner. When an update conditioned on a column value succeeded
  and changed that column, a second one conditioned on the same values reports false and
  leaves tables, log and events exactly as they are, whoever runs it.\<close>

theorem updateRowIf_one_winner:
  assumes "updateRowIf s bus t i conds updates site st = (Inr True, st1)"
    and "updateRowIf s bus' t i conds updates' site' st1 = (Inr won, st2)"
    and "obj_get conds k = Some v" and "obj_get updates k = Some v'" and "k \<noteq> ''modified_at''"
    and "bind_value s t k v = Some w" and "bind_value s t k v' = Some w'" and "w \<noteq> w'"
  shows "\<not> won \<and> tables st2 = tables st1 \<and> change_log st2 = change_log st1 \<and>
         scopes st2 = scopes st1 \<and> emitted st2 = emitted st1"
proof -
  obtain h where c1: "commit_and_emit bus t site (update_if_body s t i conds updates site) st = (Inr (Some h), st1)"
    using assms(1) by (auto simp: updateRowIf_def action_defs split: prod.splits sum.splits)
  then obtain stb where b1: "update_if_body s t i conds updates site st = (Inr (Some h), stb)"
    and tb: "tables st1 = tables stb"
    by (rule cas.committed)
  from b1 obtain rows' n bc where bc: "bind_all s t conds = Some bc"
    and up: "sql_update s t (getPkColumn t) (obj_set updates ''modified_at'' (JStr (now_at st (reads st))))
             (\<lambda>r. has_id t i r \<and> matches bc r) (tables st t) = Some (rows', n)"
    and t': "tables stb = (tables st)(t := rows')"
    by (cases rule: update_if_bodyE) auto
  from up obtain bu where bu: "bind_all s t (obj_set updates ''modified_at'' (JStr (now_at st (reads st)))) = Some bu"
    and rows': "rows' = update_where (\<lambda>r. has_id t i r \<and> matches bc r) (row_with bu) (tables st t)"
    by (rule sql_updateE)
  have kw': "map_of bu k = Some w'"
    using bind_all_lookup [OF bu, of k] assms(4,5,7) obj_get_set [of updates "''modified_at''" _ k]
    by (simp add: obj_get_def)
  have "map_of bc k = Some w"
    using bind_all_lookup [OF bc, of k] assms(3,6) by (simp add: obj_get_def)
  then have kw: "(k, w) \<in> set bc" by (rule map_of_SomeD)
  have none: "\<not> (has_id t i r \<and> matches bc r)" if "r \<in> set (tables st1 t)" for r
  proof -
    from that have "r \<in> set rows'" using tb t' by simp
    then show ?thesis unfolding rows'
    proof (cases rule: in_update_whereE)
      case 2
      then have "r k = w'" using row_with_hit [OF kw'] by simp
      then show ?thesis using kw assms(8) by (auto simp: matches_def list_all_iff sql_eq_def)
    qed blast
  qed
  obtain o2 where c2: "commit_and_emit bus' t site' (update_if_body s t i conds updates' site') st1 = (Inr o2, st2)"
    and won: "won = (o2 \<noteq> None)"
    using assms(2) by (auto simp: updateRowIf_def action_defs split: prod.splits sum.splits)
  from c2 obtain stc where b2: "update_if_body s t i conds updates' site' st1 = (Inr o2, stc)"
    by (rule cas.committed)
  have o2: "o2 = None"
    using b2
  proof (cases rule: update_if_bodyE)
    case (logged h' e x rows'' n' bound)
    then have "n' = count_where (\<lambda>r. has_id t i r \<and> matches bc r) (tables st1 t)"
      using bc by (auto elim: sql_updateE)
    moreover have "\<dots> = 0" using none by (simp add: count_where_0)
    ultimately show ?thesis using logged(3) by simp
  qed auto
  have "in_transaction (update_if_body s t i conds updates' site') st1 = (Inr None, stc)"
    using b2 o2 by (simp add: in_transaction_def)
  then show ?thesis
    using cas.body_none [of s t i conds updates' site' st1 stc] cas.body_quiet [OF b2] b2 o2 c2 won
    by (auto simp: commit_and_emit_def action_defs emitWrittenChangeLogEvent_def same_env_def)
qed

theorem updateRowIf_one_winner_witness:
  "\<not> (case updateRowIf plain_schema None ''tasks'' ''u1'' [(''status'', JStr ''a'')] [(''status'', JStr ''c'')] ''s2''
        (snd (updateRowIf plain_schema None ''tasks'' ''u1'' [(''status'', JStr ''a'')] [(''status'', JStr ''b'')] ''s1''
           (set_table ''tasks'' [user_row(''status'' := JStr ''a'')] empty_store))) of
      (Inr won, _) \<Rightarrow> won | _ \<Rightarrow> True)"
proof -
  let ?st = "set_table ''tasks'' [user_row(''status'' := JStr ''a'')] empty_store"
  let ?c = "[(''status'', JStr ''a'')]"
  let ?r1 = "updateRowIf plain_schema None ''tasks'' ''u1'' ?c [(''status'', JStr ''b'')] ''s1'' ?st"
  let ?r2 = "updateRowIf plain_schema None ''tasks'' ''u1'' ?c [(''status'', JStr ''c'')] ''s2'' (snd ?r1)"
  have "fst ?r1 = Inr True" by code_simp
  then have r1: "?r1 = (Inr True, snd ?r1)" by (metis prod.collapse)
  have "\<not> isl (fst ?r2)" by code_simp
  then obtain won where "fst ?r2 = Inr won" by (cases "fst ?r2") auto
  then have r2: "?r2 = (Inr won, snd ?r2)" by (metis prod.collapse)
  have "\<not> won"
    using updateRowIf_one_winner [OF r1 r2, of "''status''" "JStr ''a''" "JStr ''b''" "JStr ''a''" "JStr ''b''"]
    by (simp add: obj_get_def plain_schema_def)
  then show ?thesis using r2 by (metis case_prod_conv old.sum.simps(6))
qed

text \<open>message metadata round-trips. After a successful write, reading the bag of the message
  gives the old bag overlaid with the written entries: a written key has its new value and every
  other key keeps what it had. \<open>JSON.parse\<close> inverting \<open>JSON.stringify\<close> on the merged
  bag and text columns storing text as it is are hypotheses.\<close>

theorem metadata_roundtrip:
  assumes "writeMessageMetadata s bus parse stringify i entries site st = (Inr h, st')"
    and "parse (stringify (JObj merged)) = Some (JObj merged)"
    and "merged = obj_spread (spreadable (readMessageMetadata parse i st)) entries"
    and "\<And>txt. bind_value s ''messages'' ''metadata'' (JStr txt) = Some (JStr txt)"
    and "distinct (map fst entries)"
  shows "readMessageMetadata parse i st' = Some (JObj merged) \<and>
         (\<forall>k. obj_get merged k =
            (case map_of entries k of Some v \<Rightarrow> Some v
             | None \<Rightarrow> obj_get (spreadable (readMessageMetadata parse i st)) k))"
proof
  let ?t = "''messages''" and ?u = "[(''metadata'', JStr (stringify (JObj merged)))]"
  have pk: "getPkColumn ?t = ''id''" by (simp add: getPkColumn_def)
  from assms(1,3) have "updateRow s bus ?t i ?u site st = (Inr h, st')"
    by (simp add: writeMessageMetadata_def)
  then obtain st1 where b: "update_body s ?t i ?u site st = (Inr h, st1)" and t1: "tables st' = tables st1"
    unfolding updateRow_def by (rule upd.committed)
  from b show "readMessageMetadata parse i st' = Some (JObj merged)"
  proof (cases rule: update_bodyE)
    case (logged h' e x rows' n)
    let ?uu = "obj_set ?u ''modified_at'' (JStr (now_at st (reads st)))"
    obtain bound where bd: "bind_all s ?t ?uu = Some bound"
      and rows': "rows' = update_where (has_id ?t i) (row_with bound) (tables st ?t)"
      using logged(3) by (rule sql_updateE)
    have m: "map_of bound ''metadata'' = Some (JStr (stringify (JObj merged)))"
      using bind_all_lookup [OF bd, of "''metadata''"] assms(4) by simp
    have keep: "row_with bound r ''id'' = r ''id''" for r
      using bind_all_keys [OF bd] by (intro row_with_miss) simp
    from select_pk_Some [OF logged(5)] have "x \<in> set rows'" "has_id ?t i x" by (simp_all add: has_id_def)
    then obtain old where "x = row_with bound old"
      unfolding rows' by (auto simp: has_id_def pk keep elim!: in_update_whereE)
    then have "x ''metadata'' = JStr (stringify (JObj merged))" using row_with_hit [OF m] by simp
    then show ?thesis
      using t1 logged(4,5) assms(2) pk by (simp add: readMessageMetadata_def)
  qed auto
  show "\<forall>k. obj_get merged k = (case map_of entries k of Some v \<Rightarrow> Some v
          | None \<Rightarrow> obj_get (spreadable (readMessageMetadata parse i st)) k)"
    using obj_get_spread [OF assms(5)] assms(3) by simp
qed

theorem metadata_roundtrip_witness:
  "readMessageMetadata (\<lambda>_. Some (JObj [(''k'', JNum 1)])) ''u1''
     (snd (writeMessageMetadata plain_schema None (\<lambda>_. Some (JObj [(''k'', JNum 1)])) (\<lambda>_. ''txt'')
        ''u1'' [(''k'', JNum 1)] ''ab12'' (set_table ''messages'' [user_row] empty_store)))
   = Some (JObj [(''k'', JNum 1)])"
proof -
  let ?parse = "\<lambda>_ :: string. Some (JObj [(''k'', JNum 1)])"
  let ?run = "writeMessageMetadata plain_schema None ?parse (\<lambda>_. ''txt'')
        ''u1'' [(''k'', JNum 1)] ''ab12'' (set_table ''messages'' [user_row] empty_store)"
  have "\<not> isl (fst ?run)" by code_simp
  then obtain h where "fst ?run = Inr h" by (cases "fst ?run") auto
  then have run: "?run = (Inr h, snd ?run)" by (metis prod.collapse)
  have "[(''k'', JNum 1)] = obj_spread (spreadable (readMessageMetadata ?parse ''u1''
          (set_table ''messages'' [user_row] empty_store))) [(''k'', JNum 1)]"
    by (simp add: readMessageMetadata_def select_pk_def user_row_def spreadable_def obj_spread_def)
  from metadata_roundtrip [OF run _ this] show ?thesis by (simp add: plain_schema_def)
qed

text \<open>counter overflow stops a site from writing. When the log's latest stamp has counter
  \<open>ffff\<close> and the wall clock has not passed its timestamp, the first write of a site logs the
  stamp with counter \<open>10000\<close>, which sorts below; the next write of that site is given the
  very same stamp, collides on the primary key and fails, until the clock moves on.\<close>

theorem hlc_overflow_blocks_writes:
  assumes "latest (map hlc (change_log st)) = Some (format_hlc ts ''ffff'' s0)" and "CHR ''_'' \<notin> set s0"
    and "\<And>k. now_at st k \<le> ts"
    and "createChangeLogEntry t i site rd None st = (Inr h, st1)"
  shows "h = format_hlc ts ''10000'' site \<and>
         fst (createChangeLogEntry t' i' site rd' None st1) = Inl Sql_Error"
proof -
  let ?f = "format_hlc ts ''ffff'' s0" and ?o = "format_hlc ts ''10000'' site"
  have gen: "generateHlc w (Some ?f) site = ?o \<and> ?o < ?f" if "w \<le> ts" for w
    using overflow_stamp [OF that assms(2), of site] by metis
  from assms(4) obtain e where e: "h = next_hlc st site None" "change_log st1 = change_log st @ [e]"
      "hlc e = h" "same_env st st1"
    by (rule createChangeLogEntryE) auto
  then have h: "h = ?o" using gen assms(1,3) by simp
  have "latest (map hlc (change_log st1)) = Some ?f"
  proof -
    have f: "?f \<in> set (map hlc (change_log st))" "\<forall>x \<in> set (map hlc (change_log st)). x \<le> ?f"
      using latest_Some [OF assms(1)] by simp_all
    have "Max (insert ?o (set (map hlc (change_log st)))) = ?f"
      using f gen [OF assms(3) [of 0]] by (intro Max_eqI) auto
    then show ?thesis using e(2,3) h by (simp add: latest_def)
  qed
  moreover have "now_at st1 k \<le> ts" for k using e(4) assms(3) by (simp add: same_env_def)
  ultimately have "next_hlc st1 site None = ?o" using gen by simp
  moreover have "?o \<in> hlc ` set (change_log st1)" using e(2,3) h by simp
  ultimately show ?thesis using h by (simp add: createChangeLogEntry_run Let_def)
qed

theorem hlc_overflow_blocks_writes_witness:
  "fst (createChangeLogEntry ''users'' ''u2'' ''ab12'' [] None
     (snd (createChangeLogEntry ''users'' ''u1'' ''ab12'' [] None
        (empty_store\<lparr>change_log :=
           [\<lparr>hlc = format_hlc ''2026-01-02T03:04:05.678Z'' ''ffff'' ''cd34'', table_name = ''users'', row_id = ''u0'',
             site_id = ''cd34'', timestamp = ''2026-01-02T03:04:05.678Z'', row_data = Json (JObj [])\<rparr>]\<rparr>))))
   = Inl Sql_Error"
proof -
  let ?ts = "''2026-01-02T03:04:05.678Z''"
  let ?st = "empty_store\<lparr>change_log :=
           [\<lparr>hlc = format_hlc ?ts ''ffff'' ''cd34'', table_name = ''users'', row_id = ''u0'',
             site_id = ''cd34'', timestamp = ?ts, row_data = Json (JObj [])\<rparr>]\<rparr>"
  have l: "latest (map hlc (change_log ?st)) = Some (format_hlc ?ts ''ffff'' ''cd34'')"
    by (simp add: latest_def)
  have now: "now_at ?st k \<le> ?ts" for k by (simp add: empty_store_def)
  have "next_hlc ?st ''ab12'' None = format_hlc ?ts ''10000'' ''ab12''"
    using overflow_stamp [of "now_at ?st (reads ?st)" ?ts "''cd34''" "''ab12''"] now l by simp
  then have "createChangeLogEntry ''users'' ''u1'' ''ab12'' [] None ?st =
      (Inr (format_hlc ?ts ''10000'' ''ab12''), snd (createChangeLogEntry ''users'' ''u1'' ''ab12'' [] None ?st))"
    by (simp add: createChangeLogEntry_run Let_def format_hlc_def)
  from hlc_overflow_blocks_writes [OF l _ now this] show ?thesis by simp
qed

end
