(* ===== verification/Dispatch.thy ===== *)
theory Dispatch
  imports Durable_Work Change_Log
begin

text \<open>
  Wakeups of agent threads: the dispatch queue of \<open>packages/core/src/dispatch.ts\<close>, which
  bridges the legacy \<open>dispatch_queue\<close> table and \<open>dispatch_message\<close> rows of the durable
  spool, and the per-thread drain loop of \<open>packages/core/src/thread-executor.ts\<close>. An event
  payload is JSON text inside a JSON payload, so \<open>JSON.stringify\<close> and \<open>JSON.parse\<close> on
  texts are the two fields of a \<open>codec\<close> argument. Operations that throw return \<open>None\<close>; each of them either
  has a single statement or rolls its transaction back, so the database is then unchanged.
\<close>

record codec =
  to_text :: "json \<Rightarrow> string"
  of_text :: "string \<Rightarrow> json option"

datatype dispatch_status = D_Pending | D_Processing | D_Acknowledged | D_Expired

record dispatch_entry =
  message_id :: string
  thread_id :: string
  status :: dispatch_status
  claimed_by :: "string option"
  event_type :: string
  event_payload :: "string option"
  dq_created_at :: time
  dq_modified_at :: time
  durable_ref :: "(string \<times> string) option"

record dispatch_db =
  spool_rows :: spool
  queue :: "dispatch_entry list"

definition CLIENT_TOOL_CALL :: string where "CLIENT_TOOL_CALL = ''client_tool_call''"
definition TOOL_RESULT :: string where "TOOL_RESULT = ''tool_result''"

section \<open>Enqueueing\<close>

definition dispatch_work :: "string \<Rightarrow> string \<Rightarrow> string \<Rightarrow> string \<Rightarrow> string option \<Rightarrow> string \<Rightarrow> new_work" where
  "dispatch_work uuid threadId messageId eventType eventPayload idempotencyKey =
     \<lparr>new_id = uuid, new_target = LOCAL_WORK_TARGET, new_kind = ''dispatch_message'',
      new_payload = json_stringify (JObj [(''message_id'', JStr messageId), (''thread_id'', JStr threadId),
        (''event_type'', JStr eventType), (''event_payload'', opt_str eventPayload)]),
      new_key = idempotencyKey, new_expires_at = None, new_ref_id = None, new_source_site = None,
      new_received_at = None, new_stream_id = None, new_trace_context = None\<rparr>"

definition enqueueDurableDispatch ::
  "string \<Rightarrow> time \<Rightarrow> string \<Rightarrow> string \<Rightarrow> string \<Rightarrow> string option \<Rightarrow> string \<Rightarrow> dispatch_db \<Rightarrow> dispatch_db option" where
  "enqueueDurableDispatch uuid now threadId messageId eventType eventPayload idempotencyKey d =
     (case insertDurableWork False False (spool_rows d)
             (dispatch_work uuid threadId messageId eventType eventPayload idempotencyKey) now of
        Inl e \<Rightarrow> None
      | Inr (rows, _) \<Rightarrow> Some (d\<lparr>spool_rows := rows\<rparr>))"

definition legacy_entry :: "string \<Rightarrow> string \<Rightarrow> string option \<Rightarrow> string \<Rightarrow> string option \<Rightarrow> time \<Rightarrow> dispatch_entry" where
  "legacy_entry messageId threadId claimedBy eventType eventPayload now =
     \<lparr>message_id = messageId, thread_id = threadId, status = D_Pending, claimed_by = claimedBy,
      event_type = eventType, event_payload = eventPayload, dq_created_at = now, dq_modified_at = now,
      durable_ref = None\<rparr>"

text \<open>\<open>INSERT OR IGNORE INTO dispatch_queue\<close>.\<close>

definition insert_or_ignore :: "dispatch_entry \<Rightarrow> dispatch_db \<Rightarrow> dispatch_db" where
  "insert_or_ignore e d =
     (if list_ex (\<lambda>x. message_id x = message_id e) (queue d) then d else d\<lparr>queue := queue d @ [e]\<rparr>)"

definition insert_entry :: "dispatch_entry \<Rightarrow> dispatch_db \<Rightarrow> dispatch_db option" where
  "insert_entry e d =
     (if list_ex (\<lambda>x. message_id x = message_id e) (queue d) then None
      else Some (d\<lparr>queue := queue d @ [e]\<rparr>))"

definition enqueueMessage :: "bool \<Rightarrow> string \<Rightarrow> time \<Rightarrow> string \<Rightarrow> string \<Rightarrow> dispatch_db \<Rightarrow> dispatch_db option" where
  "enqueueMessage durableEnabled uuid now messageId threadId d =
     (if durableEnabled
      then enqueueDurableDispatch uuid now threadId messageId ''user_message'' None messageId d
      else Some (insert_or_ignore (legacy_entry messageId threadId None ''user_message'' None now) d))"

definition enqueueNotification ::
  "codec \<Rightarrow> bool \<Rightarrow> string \<Rightarrow> string \<Rightarrow> time \<Rightarrow> string \<Rightarrow> jobject \<Rightarrow> string option \<Rightarrow> dispatch_db \<Rightarrow> (dispatch_db \<times> string) option"
where
  "enqueueNotification c durableEnabled uuid uuid2 now threadId payload0 idempotencyKey d =
     (let entryId = (case idempotencyKey of None \<Rightarrow> uuid | Some k \<Rightarrow> k);
          text = to_text c (JObj payload0)
      in if durableEnabled
         then map_option (\<lambda>d'. (d', entryId))
                (enqueueDurableDispatch uuid2 now threadId entryId ''notification'' (Some text)
                   (case idempotencyKey of None \<Rightarrow> ''notify:'' @ entryId | Some k \<Rightarrow> k) d)
         else Some (insert_or_ignore (legacy_entry entryId threadId None ''notification'' (Some text) now) d, entryId))"

definition enqueueClientToolCall ::
  "codec \<Rightarrow> string \<Rightarrow> time \<Rightarrow> string \<Rightarrow> jobject \<Rightarrow> string \<Rightarrow> dispatch_db \<Rightarrow> (dispatch_db \<times> string) option" where
  "enqueueClientToolCall c uuid now threadId payload0 connectionId d =
     map_option (\<lambda>d'. (d', uuid))
       (insert_entry (legacy_entry uuid threadId (Some connectionId) CLIENT_TOOL_CALL
          (Some (to_text c (JObj payload0))) now) d)"

definition tool_result_key :: "string \<Rightarrow> string \<Rightarrow> string" where
  "tool_result_key threadId callId = ''tool-result:'' @ threadId @ '':'' @ callId"

definition call_payload :: "codec \<Rightarrow> string \<Rightarrow> string" where
  "call_payload c callId = to_text c (JObj [(''call_id'', JStr callId)])"

text \<open>\<open>JSON.parse(payload).message_id\<close> of a dispatch row.\<close>

definition payload_text :: "work_row \<Rightarrow> string \<Rightarrow> string option" where
  "payload_text r k =
     (case payload r of Json (JObj ob) \<Rightarrow> (case obj_get ob k of Some (JStr t) \<Rightarrow> Some t | _ \<Rightarrow> None) | _ \<Rightarrow> None)"

definition in_flight :: "dispatch_entry \<Rightarrow> bool" where
  "in_flight e \<longleftrightarrow> status e = D_Pending \<or> status e = D_Processing"

definition enqueueToolResult ::
  "codec \<Rightarrow> bool \<Rightarrow> string \<Rightarrow> string \<Rightarrow> time \<Rightarrow> string \<Rightarrow> string \<Rightarrow> dispatch_db \<Rightarrow> (dispatch_db \<times> string) option" where
  "enqueueToolResult c durableEnabled uuid uuid2 now threadId callId d =
     (if durableEnabled
      then (case enqueueDurableDispatch uuid2 now threadId uuid TOOL_RESULT (Some (call_payload c callId))
                   (tool_result_key threadId callId) d of
              None \<Rightarrow> None
            | Some d' \<Rightarrow>
                Some (d', case find (\<lambda>r. kind r = ''dispatch_message'' \<and>
                             idempotency_key r = tool_result_key threadId callId) (spool_rows d') of
                        None \<Rightarrow> uuid
                      | Some r \<Rightarrow> (case payload_text r ''message_id'' of Some m \<Rightarrow> m | None \<Rightarrow> [])))
      else (case find (\<lambda>e. thread_id e = threadId \<and> event_type e = TOOL_RESULT \<and>
                     event_payload e = Some (call_payload c callId) \<and> in_flight e) (queue d) of
              Some e \<Rightarrow> Some (d, message_id e)
            | None \<Rightarrow>
                map_option (\<lambda>d'. (d', uuid))
                  (insert_entry (legacy_entry uuid threadId None TOOL_RESULT (Some (call_payload c callId)) now) d)))"

section \<open>Claiming a thread's wakeups\<close>

text \<open>The \<open>dispatch_message\<close> rows of a thread (\<open>json_extract(payload, '$.thread_id') = ?\<close>).\<close>

definition durable_dispatch :: "string \<Rightarrow> work_row \<Rightarrow> bool" where
  "durable_dispatch threadId r \<longleftrightarrow>
     target_site_id r = LOCAL_WORK_TARGET \<and> kind r = ''dispatch_message'' \<and>
     payload_text r ''thread_id'' = Some threadId"

text \<open>\<open>String(v)\<close> of a JSON value.\<close>

fun separate :: "'a \<Rightarrow> 'a list \<Rightarrow> 'a list" where
  "separate a (x # y # zs) = x # a # separate a (y # zs)"
| "separate a xs = xs"

fun js_text :: "codec \<Rightarrow> json \<Rightarrow> string" where
  "js_text c (JStr t) = t"
| "js_text c (JObj ob) = ''[object Object]''"
| "js_text c (JArr vs) =
     concat (separate '','' (map (\<lambda>v. if v = JNull then [] else js_text c v) vs))"
| "js_text c v = to_text c v"

text \<open>The text a template literal makes of the parsed payload's \<open>call_id\<close>; \<open>None\<close> where
  reading it throws (a payload that does not parse, or that is \<open>null\<close>).\<close>

definition call_id_text :: "codec \<Rightarrow> string option \<Rightarrow> string option" where
  "call_id_text c payload0 =
     (case payload0 of
        None \<Rightarrow> Some ''undefined''
      | Some txt \<Rightarrow>
          (case of_text c txt of
             None \<Rightarrow> None
           | Some JNull \<Rightarrow> None
           | Some (JObj ob) \<Rightarrow>
               Some (case obj_get ob ''call_id'' of
                       None \<Rightarrow> ''undefined'' | Some v \<Rightarrow> js_text c v)
           | Some _ \<Rightarrow> Some ''undefined''))"

definition identity_of :: "codec \<Rightarrow> string \<Rightarrow> string \<Rightarrow> string \<Rightarrow> string option \<Rightarrow> string option" where
  "identity_of c eventType threadId messageId payload0 =
     (if eventType = TOOL_RESULT then map_option (tool_result_key threadId) (call_id_text c payload0)
      else Some messageId)"

definition entry_identity :: "codec \<Rightarrow> dispatch_entry \<Rightarrow> string option" where
  "entry_identity c e = identity_of c (event_type e) (thread_id e) (message_id e) (event_payload e)"

definition text_field :: "work_row \<Rightarrow> string \<Rightarrow> string" where
  "text_field r k = (case payload_text r k of None \<Rightarrow> [] | Some t \<Rightarrow> t)"

definition row_identity :: "codec \<Rightarrow> work_row \<Rightarrow> string option" where
  "row_identity c r =
     identity_of c (text_field r ''event_type'') (text_field r ''thread_id'')
       (text_field r ''message_id'') (payload_text r ''event_payload'')"

fun all_identities :: "('a \<Rightarrow> string option) \<Rightarrow> 'a list \<Rightarrow> string list option" where
  "all_identities f [] = Some []"
| "all_identities f (x # xs) =
     (case f x of None \<Rightarrow> None | Some i \<Rightarrow> map_option (\<lambda>is. i # is) (all_identities f xs))"

text \<open>The entry handed out for a claimed durable row.\<close>

definition claimed_entry :: "string \<Rightarrow> time \<Rightarrow> work_row \<Rightarrow> dispatch_entry" where
  "claimed_entry claimedBy now r =
     \<lparr>message_id = text_field r ''message_id'', thread_id = text_field r ''thread_id'', status = D_Processing,
      claimed_by = Some claimedBy, event_type = text_field r ''event_type'',
      event_payload = payload_text r ''event_payload'', dq_created_at = created_at r, dq_modified_at = now,
      durable_ref = Some (wid r, case claim_token r of None \<Rightarrow> [] | Some t \<Rightarrow> t)\<rparr>"

definition with_status :: "dispatch_status \<Rightarrow> time \<Rightarrow> dispatch_entry \<Rightarrow> dispatch_entry" where
  "with_status s now e = e\<lparr>status := s, dq_modified_at := now\<rparr>"

definition in_ids :: "string list \<Rightarrow> dispatch_entry \<Rightarrow> bool" where
  "in_ids ids e \<longleftrightarrow> message_id e \<in> set ids"

definition claimable :: "string \<Rightarrow> dispatch_entry \<Rightarrow> bool" where
  "claimable threadId e \<longleftrightarrow> thread_id e = threadId \<and> status e = D_Pending \<and> event_type e \<noteq> CLIENT_TOOL_CALL"

text \<open>\<open>claimPending\<close>. A durable payload without a field has the empty text there, where the source has
  \<open>undefined\<close>; every producer of these rows writes the fields.\<close>

definition claimPending ::
  "codec \<Rightarrow> (nat \<Rightarrow> string) \<Rightarrow> time \<Rightarrow> string \<Rightarrow> string \<Rightarrow> dispatch_db \<Rightarrow> (dispatch_db \<times> dispatch_entry list) option" where
  "claimPending c tok now threadId claimedBy d =
     (let durable = order_by created_at
            (filter (\<lambda>r. durable_dispatch threadId r \<and> claim_state r = Pending) (spool_rows d));
          (rows', claimed) = claim_each tok now 0 durable (spool_rows d);
          entries = map (claimed_entry claimedBy now) claimed;
          pending = order_by dq_created_at (filter (claimable threadId) (queue d))
      in case (all_identities (row_identity c) (filter (durable_dispatch threadId) rows'),
               all_identities (entry_identity c) pending) of
           (Some fences, Some ids) \<Rightarrow>
             (let legacy = filter (\<lambda>e. the (entry_identity c e) \<notin> set fences) pending;
                  suppressed = filter (\<lambda>e. the (entry_identity c e) \<in> set fences) pending;
                  q1 = update_where (in_ids (map message_id suppressed)) (with_status D_Acknowledged now) (queue d);
                  q2 = update_where (in_ids (map message_id legacy))
                         (\<lambda>e. (with_status D_Processing now e)\<lparr>claimed_by := Some claimedBy\<rparr>) q1
              in Some (\<lparr>spool_rows = rows', queue = q2\<rparr>, entries @ legacy))
         | _ \<Rightarrow> None)"

section \<open>Completion, recovery and expiry\<close>

definition acknowledge_ids :: "time \<Rightarrow> string list \<Rightarrow> dispatch_db \<Rightarrow> dispatch_db" where
  "acknowledge_ids now ids d = d\<lparr>queue := update_where (in_ids ids) (with_status D_Acknowledged now) (queue d)\<rparr>"

fun acknowledge_durable :: "time \<Rightarrow> dispatch_entry list \<Rightarrow> spool \<Rightarrow> spool" where
  "acknowledge_durable now [] rows = rows"
| "acknowledge_durable now (e # es) rows =
     acknowledge_durable now es
       (case durable_ref e of
          Some (i, tok) \<Rightarrow> if i = [] \<or> tok = [] then rows else fst (acknowledgeDurableWork rows i tok now)
        | None \<Rightarrow> rows)"

definition acknowledgeBatch :: "time \<Rightarrow> dispatch_entry list \<Rightarrow> dispatch_db \<Rightarrow> dispatch_db" where
  "acknowledgeBatch now entries d =
     (let legacyIds = map message_id (filter (\<lambda>e. durable_ref e = None) entries);
          d1 = (if legacyIds = [] then d else acknowledge_ids now legacyIds d)
      in d1\<lparr>spool_rows := acknowledge_durable now entries (spool_rows d1)\<rparr>)"

definition to_dq_pending :: "time \<Rightarrow> dispatch_entry \<Rightarrow> dispatch_entry" where
  "to_dq_pending now e = e\<lparr>status := D_Pending, claimed_by := None, dq_modified_at := now\<rparr>"

definition resetProcessing :: "time \<Rightarrow> dispatch_db \<Rightarrow> dispatch_db \<times> nat" where
  "resetProcessing now d =
     (let p = (\<lambda>e. status e = D_Processing \<and> event_type e \<noteq> CLIENT_TOOL_CALL)
      in (d\<lparr>queue := update_where p (to_dq_pending now) (queue d)\<rparr>, count_where p (queue d)))"

definition resetProcessingForThread :: "time \<Rightarrow> string \<Rightarrow> dispatch_db \<Rightarrow> dispatch_db \<times> nat" where
  "resetProcessingForThread now threadId d =
     (let p = (\<lambda>e. status e = D_Processing \<and> thread_id e = threadId \<and> event_type e \<noteq> CLIENT_TOOL_CALL)
      in (d\<lparr>queue := update_where p (to_dq_pending now) (queue d)\<rparr>, count_where p (queue d)))"

definition resetProcessingDurableDispatchForThread :: "string \<Rightarrow> dispatch_db \<Rightarrow> dispatch_db \<times> nat" where
  "resetProcessingDurableDispatchForThread threadId d =
     (let p = (\<lambda>r. durable_dispatch threadId r \<and> claim_state r = Processing)
      in (d\<lparr>spool_rows := update_where p to_pending (spool_rows d)\<rparr>, count_where p (spool_rows d)))"

definition hasPending :: "dispatch_db \<Rightarrow> string \<Rightarrow> bool" where
  "hasPending d threadId \<longleftrightarrow>
     0 < count_where (claimable threadId) (queue d) +
         count_where (\<lambda>r. durable_dispatch threadId r \<and> claim_state r = Pending) (spool_rows d)"

definition client_call_of :: "string \<Rightarrow> dispatch_entry \<Rightarrow> bool" where
  "client_call_of threadId e \<longleftrightarrow> thread_id e = threadId \<and> event_type e = CLIENT_TOOL_CALL \<and> in_flight e"

definition hasPendingClientToolCalls :: "dispatch_db \<Rightarrow> string \<Rightarrow> bool" where
  "hasPendingClientToolCalls d threadId \<longleftrightarrow> 0 < count_where (client_call_of threadId) (queue d)"

definition hasInFlightClientToolCallsForConnection :: "dispatch_db \<Rightarrow> string \<Rightarrow> bool" where
  "hasInFlightClientToolCallsForConnection d connectionId \<longleftrightarrow>
     0 < count_where (\<lambda>e. claimed_by e = Some connectionId \<and> event_type e = CLIENT_TOOL_CALL \<and> in_flight e) (queue d)"

definition getPendingClientToolCalls :: "dispatch_db \<Rightarrow> string \<Rightarrow> dispatch_entry list" where
  "getPendingClientToolCalls d threadId = order_by dq_created_at (filter (client_call_of threadId) (queue d))"

definition acknowledgeClientToolCall :: "time \<Rightarrow> string \<Rightarrow> dispatch_db \<Rightarrow> dispatch_db" where
  "acknowledgeClientToolCall now entryId d = acknowledge_ids now [entryId] d"

definition expire_where :: "time \<Rightarrow> (dispatch_entry \<Rightarrow> bool) \<Rightarrow> dispatch_db \<Rightarrow> dispatch_db \<times> dispatch_entry list" where
  "expire_where now p d = (d\<lparr>queue := update_where p (with_status D_Expired now) (queue d)\<rparr>, filter p (queue d))"

definition expireClientToolCalls ::
  "time \<Rightarrow> int \<Rightarrow> string option \<Rightarrow> string list \<Rightarrow> dispatch_db \<Rightarrow> dispatch_db \<times> dispatch_entry list" where
  "expireClientToolCalls now ttlMs threadId excludeThreadIds d =
     (let excluded = filter (\<lambda>t. t \<noteq> []) excludeThreadIds
      in expire_where now
           (\<lambda>e. event_type e = CLIENT_TOOL_CALL \<and> in_flight e \<and> dq_created_at e < now - ttlMs \<and>
                (case threadId of None \<Rightarrow> True | Some t \<Rightarrow> t = [] \<or> thread_id e = t) \<and>
                thread_id e \<notin> set excluded) d)"

definition expireClientToolCallsForConnection ::
  "time \<Rightarrow> string \<Rightarrow> dispatch_db \<Rightarrow> dispatch_db \<times> dispatch_entry list" where
  "expireClientToolCallsForConnection now connectionId d =
     expire_where now (\<lambda>e. event_type e = CLIENT_TOOL_CALL \<and> in_flight e \<and> claimed_by e = Some connectionId) d"

definition cancelClientToolCalls :: "time \<Rightarrow> string \<Rightarrow> dispatch_db \<Rightarrow> dispatch_db \<times> nat" where
  "cancelClientToolCalls now threadId d =
     (d\<lparr>queue := update_where (client_call_of threadId) (with_status D_Expired now) (queue d)\<rparr>,
      count_where (client_call_of threadId) (queue d))"

definition updateClaimedBy :: "time \<Rightarrow> string \<Rightarrow> string \<Rightarrow> dispatch_db \<Rightarrow> dispatch_db" where
  "updateClaimedBy now entryId connectionId d =
     d\<lparr>queue := update_where (\<lambda>e. message_id e = entryId)
          (\<lambda>e. (with_status D_Processing now e)\<lparr>claimed_by := Some connectionId\<rparr>) (queue d)\<rparr>"

definition pruneAcknowledged :: "time \<Rightarrow> dispatch_db \<Rightarrow> dispatch_db \<times> nat" where
  "pruneAcknowledged cutoff d =
     (let p = (\<lambda>e. status e = D_Acknowledged \<and> dq_modified_at e < cutoff)
      in (d\<lparr>queue := delete_where p (queue d)\<rparr>, count_where p (queue d)))"

definition acknowledgeToolResultForCall ::
  "codec \<Rightarrow> bool \<Rightarrow> time \<Rightarrow> string \<Rightarrow> string \<Rightarrow> dispatch_db \<Rightarrow> dispatch_db" where
  "acknowledgeToolResultForCall c durableEnabled now threadId callId d =
     (let q = update_where (\<lambda>e. thread_id e = threadId \<and> event_type e = TOOL_RESULT \<and>
                event_payload e = Some (call_payload c callId) \<and> in_flight e) (with_status D_Acknowledged now) (queue d)
      in d\<lparr>queue := q,
          spool_rows := (if durableEnabled
            then fst (consumePendingDispatchByIdempotencyKey (spool_rows d) (tool_result_key threadId callId) now)
            else spool_rows d)\<rparr>)"

text \<open>Delivering the result of a background tool: the placeholder message gets the content and
  loses its background marker, and the thread is woken. With an event bus the recomputed
  in-flight count is pushed to the subscribers, the third component of the result;
  \<open>json_extract\<close> throws on metadata that does not parse.\<close>

definition background_marker :: "codec \<Rightarrow> row \<Rightarrow> bool option" where
  "background_marker c r =
     (case r ''metadata'' of
        JStr txt \<Rightarrow>
          (case of_text c txt of
             None \<Rightarrow> None
           | Some (JObj ob) \<Rightarrow> Some (obj_get ob ''background'' = Some (JBool True) \<or>
                                    obj_get ob ''background'' = Some (JNum 1))
           | Some _ \<Rightarrow> Some False)
      | _ \<Rightarrow> Some False)"

definition live_tool_result :: "string \<Rightarrow> row \<Rightarrow> bool" where
  "live_tool_result threadId r \<longleftrightarrow>
     sql_eq (r ''thread_id'') (JStr threadId) \<and> r ''role'' = JStr ''tool_result'' \<and> r ''deleted'' = JNum 0"

definition countBackgroundToolCallsByThread :: "codec \<Rightarrow> string \<Rightarrow> row list \<Rightarrow> nat option" where
  "countBackgroundToolCallsByThread c threadId messages =
     (let rows = filter (live_tool_result threadId) messages in
      if list_ex (\<lambda>r. background_marker c r = None) rows then None
      else Some (count_where (\<lambda>r. background_marker c r = Some True) rows))"

text \<open>\<open>ORDER BY ... DESC\<close>: ties keep the scan order.\<close>

definition order_desc :: "('r \<Rightarrow> 'k::linorder) \<Rightarrow> 'r list \<Rightarrow> 'r list" where
  "order_desc k rows = rev (order_by k (rev rows))"

definition text_key :: "json \<Rightarrow> string" where
  "text_key v = (case v of JStr t \<Rightarrow> t | _ \<Rightarrow> [])"

definition find_placeholder :: "string \<Rightarrow> string \<Rightarrow> row list \<Rightarrow> row option" where
  "find_placeholder threadId callId messages =
     (case order_desc (\<lambda>r. text_key (r ''created_at''))
              (filter (\<lambda>r. live_tool_result threadId r \<and> sql_eq (r ''tool_name'') (JStr callId)) messages) of
        [] \<Rightarrow> None | r # _ \<Rightarrow> Some r)"

definition resolveDeferredToolResult ::
  "schema \<Rightarrow> bus \<Rightarrow> codec \<Rightarrow> bool \<Rightarrow> bool \<Rightarrow> string \<Rightarrow> string \<Rightarrow> time \<Rightarrow> string \<Rightarrow> string \<Rightarrow> string \<Rightarrow> bool \<Rightarrow> string \<Rightarrow>
     store \<Rightarrow> dispatch_db \<Rightarrow> (nat option) option \<times> store \<times> dispatch_db" where
  "resolveDeferredToolResult s bus c eventBus durableEnabled uuid uuid2 now threadId callId content isError siteId st d =
     (let wake = (\<lambda>st'.
            case enqueueToolResult c durableEnabled uuid uuid2 now threadId callId d of
              None \<Rightarrow> (None, st', d)
            | Some (d', _) \<Rightarrow>
                (if \<not> eventBus then Some None
                 else map_option Some (countBackgroundToolCallsByThread c threadId (tables st' ''messages'')),
                 st', d'))
      in case find_placeholder threadId callId (tables st ''messages'') of
           None \<Rightarrow> wake st
         | Some r \<Rightarrow>
             (let i = text_key (r ''id'');
                  rest = obj_without (spreadable (readMessageMetadata (of_text c) i st)) ''background'';
                  remaining = to_text c (JObj (obj_set rest ''background_delivered'' (JBool True)))
              in case updateRow s bus ''messages'' i
                        [(''content'', JStr content), (''exit_code'', JNum (if isError then 1 else 0)),
                         (''metadata'', JStr remaining)] siteId st of
                   (Inl e, st') \<Rightarrow> (None, st', d)
                 | (Inr _, st') \<Rightarrow> wake st'))"

section \<open>What a claim does\<close>

lemma claim_each_effect:
  assumes "spool_ok rows" and "set rs \<subseteq> set rows" and "distinct (map wid rs)"
    and "\<And>r. r \<in> set rs \<Longrightarrow> claim_state r = Pending"
  shows "set (fst (claim_each tok now n rs rows)) =
           {r \<in> set rows. wid r \<notin> wid ` set rs} \<union> set (snd (claim_each tok now n rs rows))"
    and "\<forall>x \<in> set (snd (claim_each tok now n rs rows)). \<exists>r \<in> set rs. \<exists>m. x = to_processing (tok m) now r"
    and "\<forall>r \<in> set rs. \<exists>m. to_processing (tok m) now r \<in> set (snd (claim_each tok now n rs rows))"
proof (atomize (full), use assms in \<open>induction rs arbitrary: n rows\<close>)
  case Nil
  then show ?case by simp
next
  case (Cons a rs)
  let ?rows = "claim_row (tok n) now (wid a) rows"
  have wa: "wid (to_processing (tok n) now a) = wid a" by (simp add: to_processing_def)
  have one: "x = a" if "x \<in> set rows" "wid x = wid a" for x
    using that Cons.prems(1,2) spool_ok_unique by auto
  have new: "set ?rows = insert (to_processing (tok n) now a) {r \<in> set rows. wid r \<noteq> wid a}"
  proof (intro set_eqI iffI)
    fix x assume "x \<in> set ?rows"
    then obtain r where r: "r \<in> set rows"
        "x = (if wid r = wid a \<and> claim_state r = Pending then to_processing (tok n) now r else r)"
      by (auto simp: claim_row_def update_where_def)
    show "x \<in> insert (to_processing (tok n) now a) {r \<in> set rows. wid r \<noteq> wid a}"
      using r one [of r] Cons.prems(4) [of a] by (cases "wid r = wid a") auto
  next
    fix x assume "x \<in> insert (to_processing (tok n) now a) {r \<in> set rows. wid r \<noteq> wid a}"
    then show "x \<in> set ?rows"
      using Cons.prems(2,4) update_where_hit [of a rows] claim_row_other by (auto simp: claim_row_def)
  qed
  have sub: "set rs \<subseteq> set ?rows" using Cons.prems(2,3) by (auto simp: new) (metis image_eqI)
  have "spool_ok ?rows" using Cons.prems(1) by (rule claim_row_ok)
  from Cons.IH [OF this sub, of "Suc n"] Cons.prems(3,4)
  have IH: "set (fst (claim_each tok now (Suc n) rs ?rows)) =
        {r \<in> set ?rows. wid r \<notin> wid ` set rs} \<union> set (snd (claim_each tok now (Suc n) rs ?rows))"
      "\<forall>x \<in> set (snd (claim_each tok now (Suc n) rs ?rows)). \<exists>r \<in> set rs. \<exists>m. x = to_processing (tok m) now r"
      "\<forall>r \<in> set rs. \<exists>m. to_processing (tok m) now r \<in> set (snd (claim_each tok now (Suc n) rs ?rows))"
    by auto
  show ?case
    using IH Cons.prems(3) wa by (auto simp: case_prod_unfold Let_def new) (metis image_eqI)
qed

lemma all_identities_Some:
  "all_identities f xs = Some is \<Longrightarrow> is = map (the \<circ> f) xs \<and> (\<forall>x \<in> set xs. f x \<noteq> None)"
  by (induction xs arbitrary: "is") (auto split: option.splits)

lemma claimPending_Some:
  assumes "claimPending c tok now tid by d = Some (d', es)"
  obtains durable fences legacy where
    "durable = order_by created_at (filter (\<lambda>r. durable_dispatch tid r \<and> claim_state r = Pending) (spool_rows d))"
    and "spool_rows d' = fst (claim_each tok now 0 durable (spool_rows d))"
    and "fences = (the \<circ> row_identity c) ` {r \<in> set (spool_rows d'). durable_dispatch tid r}"
    and "legacy = filter (\<lambda>e. the (entry_identity c e) \<notin> fences)
                   (order_by dq_created_at (filter (claimable tid) (queue d)))"
    and "es = map (claimed_entry by now) (snd (claim_each tok now 0 durable (spool_rows d))) @ legacy"
    and "queue d' = update_where (in_ids (map message_id legacy))
           (\<lambda>e. (with_status D_Processing now e)\<lparr>claimed_by := Some by\<rparr>)
           (update_where (in_ids (map message_id
              (filter (\<lambda>e. the (entry_identity c e) \<in> fences)
                 (order_by dq_created_at (filter (claimable tid) (queue d))))))
              (with_status D_Acknowledged now) (queue d))"
proof -
  let ?durable = "order_by created_at (filter (\<lambda>r. durable_dispatch tid r \<and> claim_state r = Pending) (spool_rows d))"
  let ?pending = "order_by dq_created_at (filter (claimable tid) (queue d))"
  obtain rows' claimed where ce: "claim_each tok now 0 ?durable (spool_rows d) = (rows', claimed)"
    by (cases "claim_each tok now 0 ?durable (spool_rows d)")
  from assms obtain fs ids where
      f: "all_identities (row_identity c) (filter (durable_dispatch tid) rows') = Some fs"
    and i: "all_identities (entry_identity c) ?pending = Some ids"
    by (auto simp: claimPending_def Let_def ce split: option.splits)
  have fs: "set fs = (the \<circ> row_identity c) ` {r \<in> set rows'. durable_dispatch tid r}"
    using all_identities_Some [OF f] by simp
  from assms have eq: "\<lparr>spool_rows = rows', queue = update_where
        (in_ids (map message_id (filter (\<lambda>e. the (entry_identity c e) \<notin> set fs) ?pending)))
           (\<lambda>e. (with_status D_Processing now e)\<lparr>claimed_by := Some by\<rparr>)
           (update_where (in_ids (map message_id (filter (\<lambda>e. the (entry_identity c e) \<in> set fs) ?pending)))
              (with_status D_Acknowledged now) (queue d))\<rparr> = d'"
      "map (claimed_entry by now) claimed @ filter (\<lambda>e. the (entry_identity c e) \<notin> set fs) ?pending = es"
    by (simp_all add: claimPending_def Let_def ce f i)
  show ?thesis
    by (rule that [OF refl _ refl refl]) (simp_all add: ce fs eq [symmetric])
qed

text \<open>The keys of the two tables: \<open>message_id\<close> is the queue's primary key, and a queue row has
  no durable reference.\<close>

definition dispatch_ok :: "dispatch_db \<Rightarrow> bool" where
  "dispatch_ok d \<longleftrightarrow> spool_ok (spool_rows d) \<and> distinct (map message_id (queue d)) \<and>
     list_all (\<lambda>e. durable_ref e = None) (queue d)"

lemma queue_unique:
  "distinct (map message_id q) \<Longrightarrow> e \<in> set q \<Longrightarrow> e' \<in> set q \<Longrightarrow> message_id e = message_id e' \<Longrightarrow> e = e'"
  by (auto simp: distinct_map dest: inj_onD)

definition mark_processing :: "string \<Rightarrow> time \<Rightarrow> dispatch_entry \<Rightarrow> dispatch_entry" where
  "mark_processing by now e = (with_status D_Processing now e)\<lparr>claimed_by := Some by\<rparr>"

lemma status_simps [simp]:
  "message_id (with_status s now e) = message_id e" "message_id (mark_processing by now e) = message_id e"
  "message_id (to_dq_pending now e) = message_id e"
  "status (with_status s now e) = s" "status (mark_processing by now e) = D_Processing"
  "status (to_dq_pending now e) = D_Pending"
  "event_type (with_status s now e) = event_type e" "event_type (mark_processing by now e) = event_type e"
  "event_type (to_dq_pending now e) = event_type e"
  "thread_id (with_status s now e) = thread_id e" "thread_id (mark_processing by now e) = thread_id e"
  "thread_id (to_dq_pending now e) = thread_id e"
  "durable_ref (with_status s now e) = durable_ref e" "durable_ref (mark_processing by now e) = durable_ref e"
  "durable_ref (to_dq_pending now e) = durable_ref e"
  by (simp_all add: with_status_def mark_processing_def to_dq_pending_def)

lemma processing_simps [simp]:
  "wid (to_processing t now r) = wid r" "claim_state (to_processing t now r) = Processing"
  "claim_token (to_processing t now r) = Some t"
  "durable_dispatch tid (to_processing t now r) = durable_dispatch tid r"
  "row_identity c (to_processing t now r) = row_identity c r"
  "text_field (to_processing t now r) k = text_field r k"
  by (simp_all add: to_processing_def durable_dispatch_def row_identity_def payload_text_def text_field_def)

text \<open>The identities a thread's durable rows stand for, in whatever state they are.\<close>

definition fence_set :: "codec \<Rightarrow> string \<Rightarrow> spool \<Rightarrow> string set" where
  "fence_set c tid rows = (the \<circ> row_identity c) ` {r \<in> set rows. durable_dispatch tid r}"

lemma fence_setI: "r \<in> set rows \<Longrightarrow> durable_dispatch tid r \<Longrightarrow> the (row_identity c r) \<in> fence_set c tid rows"
  by (auto simp: fence_set_def)

lemma claimed_rows:
  assumes "spool_ok rows"
    and "durable = order_by created_at (filter (\<lambda>r. durable_dispatch tid r \<and> claim_state r = Pending) rows)"
    and "ce = claim_each tok now 0 durable rows"
  shows "set (fst ce) = {r \<in> set rows. \<not> (durable_dispatch tid r \<and> claim_state r = Pending)} \<union> set (snd ce)"
    and "\<forall>x \<in> set (snd ce). \<exists>r \<in> set rows. durable_dispatch tid r \<and> claim_state r = Pending \<and>
           (\<exists>m. x = to_processing (tok m) now r)"
    and "\<forall>r \<in> set rows. durable_dispatch tid r \<and> claim_state r = Pending \<longrightarrow>
           (\<exists>m. to_processing (tok m) now r \<in> set (snd ce))"
    and "fence_set c tid (fst ce) = fence_set c tid rows"
proof -
  have dist: "distinct (map wid durable)"
    using assms(1) by (simp add: assms(2) spool_ok_def distinct_map_filter)
  have "wid r \<in> wid ` set durable \<longleftrightarrow> durable_dispatch tid r \<and> claim_state r = Pending" if "r \<in> set rows" for r
    using that spool_ok_unique [OF assms(1)] by (fastforce simp: assms(2))
  then have *: "{r \<in> set rows. wid r \<notin> wid ` set durable} =
      {r \<in> set rows. \<not> (durable_dispatch tid r \<and> claim_state r = Pending)}" by blast
  have dur: "set durable = {r \<in> set rows. durable_dispatch tid r \<and> claim_state r = Pending}"
    by (auto simp: assms(2))
  then have sub: "set durable \<subseteq> set rows" and pend: "\<And>r. r \<in> set durable \<Longrightarrow> claim_state r = Pending"
    by blast+
  note eff = claim_each_effect [OF assms(1) sub dist pend, of tok now 0, folded assms(3), unfolded *]
  show 1: "set (fst ce) = {r \<in> set rows. \<not> (durable_dispatch tid r \<and> claim_state r = Pending)} \<union> set (snd ce)"
    by (rule eff(1))
  show 2: "\<forall>x \<in> set (snd ce). \<exists>r \<in> set rows. durable_dispatch tid r \<and> claim_state r = Pending \<and>
           (\<exists>m. x = to_processing (tok m) now r)"
    using eff(2) dur by blast
  show 3: "\<forall>r \<in> set rows. durable_dispatch tid r \<and> claim_state r = Pending \<longrightarrow>
           (\<exists>m. to_processing (tok m) now r \<in> set (snd ce))"
    using eff(3) dur by blast
  show "fence_set c tid (fst ce) = fence_set c tid rows"
  proof (intro set_eqI iffI)
    fix x assume "x \<in> fence_set c tid (fst ce)"
    then obtain r where r: "r \<in> set (fst ce)" "durable_dispatch tid r" "x = the (row_identity c r)"
      by (auto simp: fence_set_def)
    show "x \<in> fence_set c tid rows"
    proof (cases "r \<in> set (snd ce)")
      case True
      with 2 obtain r0 m where "r0 \<in> set rows" "r = to_processing (tok m) now r0" by blast
      with r show ?thesis by (auto simp: fence_set_def)
    next
      case False
      with r 1 show ?thesis by (auto simp: fence_set_def)
    qed
  next
    fix x assume "x \<in> fence_set c tid rows"
    then obtain r where r: "r \<in> set rows" "durable_dispatch tid r" "x = the (row_identity c r)"
      by (auto simp: fence_set_def)
    show "x \<in> fence_set c tid (fst ce)"
    proof (cases "claim_state r = Pending")
      case True
      with r 3 obtain m where "to_processing (tok m) now r \<in> set (fst ce)" using 1 by blast
      with fence_setI [OF this, of tid c] r show ?thesis by simp
    next
      case False
      with r 1 show ?thesis by (auto simp: fence_set_def)
    qed
  qed
qed

text \<open>The two updates by id lists are one pass over the queue.\<close>

definition claim_entry :: "codec \<Rightarrow> string set \<Rightarrow> string \<Rightarrow> time \<Rightarrow> dispatch_entry \<Rightarrow> dispatch_entry" where
  "claim_entry c fences by now e =
     (if the (entry_identity c e) \<in> fences then with_status D_Acknowledged now e else mark_processing by now e)"

lemma in_ids_filter:
  assumes "distinct (map message_id q)" and "e \<in> set q"
  shows "in_ids (map message_id (filter p (order_by k (filter r q)))) e \<longleftrightarrow> p e \<and> r e"
  using assms by (auto simp: in_ids_def dest: queue_unique)

lemma in_ids_with_status [simp]: "in_ids ids (with_status s now e) = in_ids ids e"
  by (simp add: in_ids_def)

lemma claimed_queue:
  assumes "distinct (map message_id q)"
  shows "update_where (in_ids (map message_id (filter (\<lambda>e. the (entry_identity c e) \<notin> fences)
             (order_by k (filter (claimable tid) q)))))
           (\<lambda>e. (with_status D_Processing now e)\<lparr>claimed_by := Some by\<rparr>)
           (update_where (in_ids (map message_id (filter (\<lambda>e. the (entry_identity c e) \<in> fences)
                (order_by k (filter (claimable tid) q))))) (with_status D_Acknowledged now) q)
       = update_where (claimable tid) (claim_entry c fences by now) q"
  unfolding update_where_def map_map comp_def
  by (rule map_cong [OF refl])
    (auto simp: in_ids_filter [OF assms] claim_entry_def mark_processing_def)

lemma claimPending_effect:
  assumes ok: "dispatch_ok d" and claim: "claimPending c tok now tid by d = Some (d', es)"
  shows "queue d' = update_where (claimable tid) (claim_entry c (fence_set c tid (spool_rows d)) by now) (queue d)"
    and "\<forall>r \<in> set (spool_rows d). durable_dispatch tid r \<and> claim_state r = Pending \<longrightarrow>
           (\<exists>m. to_processing (tok m) now r \<in> set (spool_rows d') \<and>
                claimed_entry by now (to_processing (tok m) now r) \<in> set es)"
    and "\<forall>r \<in> set (spool_rows d). \<not> (durable_dispatch tid r \<and> claim_state r = Pending) \<longrightarrow> r \<in> set (spool_rows d')"
    and "\<forall>r' \<in> set (spool_rows d'). r' \<in> set (spool_rows d) \<and> \<not> (durable_dispatch tid r' \<and> claim_state r' = Pending) \<or>
           (\<exists>r \<in> set (spool_rows d). durable_dispatch tid r \<and> claim_state r = Pending \<and>
              (\<exists>m. r' = to_processing (tok m) now r))"
    and "set es = claimed_entry by now ` {r' \<in> set (spool_rows d'). \<exists>r \<in> set (spool_rows d).
              durable_dispatch tid r \<and> claim_state r = Pending \<and> (\<exists>m. r' = to_processing (tok m) now r)} \<union>
           {e \<in> set (queue d). claimable tid e \<and> the (entry_identity c e) \<notin> fence_set c tid (spool_rows d)}"
    and "spool_ok (spool_rows d')"
proof -
  obtain durable fences legacy where
    dur: "durable = order_by created_at (filter (\<lambda>r. durable_dispatch tid r \<and> claim_state r = Pending) (spool_rows d))"
    and rows: "spool_rows d' = fst (claim_each tok now 0 durable (spool_rows d))"
    and f: "fences = (the \<circ> row_identity c) ` {r \<in> set (spool_rows d'). durable_dispatch tid r}"
    and leg: "legacy = filter (\<lambda>e. the (entry_identity c e) \<notin> fences)
                   (order_by dq_created_at (filter (claimable tid) (queue d)))"
    and es: "es = map (claimed_entry by now) (snd (claim_each tok now 0 durable (spool_rows d))) @ legacy"
    and q: "queue d' = update_where (in_ids (map message_id legacy))
           (\<lambda>e. (with_status D_Processing now e)\<lparr>claimed_by := Some by\<rparr>)
           (update_where (in_ids (map message_id
              (filter (\<lambda>e. the (entry_identity c e) \<in> fences)
                 (order_by dq_created_at (filter (claimable tid) (queue d))))))
              (with_status D_Acknowledged now) (queue d))"
    using claim by (rule claimPending_Some)
  have sok: "spool_ok (spool_rows d)" and dist: "distinct (map message_id (queue d))"
    using ok by (simp_all add: dispatch_ok_def)
  note cr = claimed_rows [OF sok dur refl, where tok = tok and now = now, folded rows]
  have fs: "fences = fence_set c tid (spool_rows d)"
    using cr(4) [where c = c] by (simp add: f fence_set_def)
  show "queue d' = update_where (claimable tid) (claim_entry c (fence_set c tid (spool_rows d)) by now) (queue d)"
    using claimed_queue [OF dist] by (simp add: q leg fs)
  show "\<forall>r \<in> set (spool_rows d). durable_dispatch tid r \<and> claim_state r = Pending \<longrightarrow>
           (\<exists>m. to_processing (tok m) now r \<in> set (spool_rows d') \<and>
                claimed_entry by now (to_processing (tok m) now r) \<in> set es)"
    using cr(1,3) by (fastforce simp: es)
  show "\<forall>r \<in> set (spool_rows d). \<not> (durable_dispatch tid r \<and> claim_state r = Pending) \<longrightarrow> r \<in> set (spool_rows d')"
    using cr(1) by blast
  show new: "\<forall>r' \<in> set (spool_rows d'). r' \<in> set (spool_rows d) \<and> \<not> (durable_dispatch tid r' \<and> claim_state r' = Pending) \<or>
           (\<exists>r \<in> set (spool_rows d). durable_dispatch tid r \<and> claim_state r = Pending \<and>
              (\<exists>m. r' = to_processing (tok m) now r))"
    using cr(1,2) by blast
  show "spool_ok (spool_rows d')" using sok by (simp add: rows claim_each_ok)
  have "set (snd (claim_each tok now 0 durable (spool_rows d))) =
      {r' \<in> set (spool_rows d'). \<exists>r \<in> set (spool_rows d).
              durable_dispatch tid r \<and> claim_state r = Pending \<and> (\<exists>m. r' = to_processing (tok m) now r)}"
  proof (intro set_eqI iffI)
    fix x assume "x \<in> {r' \<in> set (spool_rows d'). \<exists>r \<in> set (spool_rows d).
              durable_dispatch tid r \<and> claim_state r = Pending \<and> (\<exists>m. r' = to_processing (tok m) now r)}"
    then obtain r m where x: "x \<in> set (spool_rows d')" "r \<in> set (spool_rows d)" "claim_state r = Pending"
        "x = to_processing (tok m) now r" by blast
    have new: "claim_state x = Processing" "wid x = wid r" by (simp_all add: x(4))
    have "x \<notin> set (spool_rows d)"
      using spool_ok_unique [OF sok _ x(2) new(2)] new(1) x(3) by force
    with x cr(1) show "x \<in> set (snd (claim_each tok now 0 durable (spool_rows d)))" by blast
  qed (use cr(1,2) in blast)
  then show "set es = claimed_entry by now ` {r' \<in> set (spool_rows d'). \<exists>r \<in> set (spool_rows d).
              durable_dispatch tid r \<and> claim_state r = Pending \<and> (\<exists>m. r' = to_processing (tok m) now r)} \<union>
           {e \<in> set (queue d). claimable tid e \<and> the (entry_identity c e) \<notin> fence_set c tid (spool_rows d)}"
    by (auto simp: es leg fs)
qed

lemma update_queue_ok:
  assumes "dispatch_ok d" and "\<And>e. message_id (f e) = message_id e" and "\<And>e. durable_ref (f e) = durable_ref e"
    and "spool_ok rows"
  shows "dispatch_ok \<lparr>spool_rows = rows, queue = update_where p f (queue d)\<rparr>"
  using assms map_update_where_key [of message_id f p "queue d"]
  by (auto simp: dispatch_ok_def list_all_iff elim!: in_update_whereE)

lemma claimPending_ok:
  assumes "dispatch_ok d" and "claimPending c tok now tid by d = Some (d', es)"
  shows "dispatch_ok d'"
proof -
  note eff = claimPending_effect [OF assms]
  have "dispatch_ok \<lparr>spool_rows = spool_rows d', queue = queue d'\<rparr>"
    unfolding eff(1) by (rule update_queue_ok [OF assms(1)]) (simp_all add: claim_entry_def eff(6))
  then show ?thesis by (simp add: dispatch_ok_def)
qed

lemma not_hasPending:
  "\<not> hasPending d tid \<longleftrightarrow>
     (\<forall>e \<in> set (queue d). \<not> claimable tid e) \<and>
     (\<forall>r \<in> set (spool_rows d). \<not> (durable_dispatch tid r \<and> claim_state r = Pending))"
  by (simp add: hasPending_def)

lemma claim_entry_not_claimable [simp]: "\<not> claimable tid (claim_entry c fs by now e)"
  by (simp add: claim_entry_def claimable_def)

lemma claimPending_drains:
  assumes "dispatch_ok d" and "claimPending c tok now tid by d = Some (d', es)"
  shows "\<not> hasPending d' tid"
proof -
  note eff = claimPending_effect [OF assms]
  have "\<not> claimable tid e" if "e \<in> set (queue d')" for e
    using that unfolding eff(1) by (auto elim!: in_update_whereE)
  moreover have "\<not> (durable_dispatch tid r \<and> claim_state r = Pending)" if "r \<in> set (spool_rows d')" for r
    using eff(4) that by fastforce
  ultimately show ?thesis by (simp add: not_hasPending)
qed

lemma claimPending_entry:
  assumes "dispatch_ok d" and "claimPending c tok now tid by d = Some (d', es)"
    and e: "e \<in> set (queue d)" "claimable tid e"
  shows "if the (entry_identity c e) \<in> fence_set c tid (spool_rows d)
         then with_status D_Acknowledged now e \<in> set (queue d') \<and> e \<notin> set es
         else mark_processing by now e \<in> set (queue d') \<and> e \<in> set es"
proof -
  note eff = claimPending_effect [OF assms(1,2)]
  have "claim_entry c (fence_set c tid (spool_rows d)) by now e \<in> set (queue d')"
    unfolding eff(1) using e by (simp add: update_where_hit)
  moreover have "durable_ref e = None" using e assms(1) by (auto simp: dispatch_ok_def list_all_iff)
  then have "e \<in> set es \<longleftrightarrow> the (entry_identity c e) \<notin> fence_set c tid (spool_rows d)"
    unfolding eff(5) using e by (auto simp: claimed_entry_def)
  ultimately show ?thesis by (simp add: claim_entry_def split: if_splits)
qed

text \<open>A claim keeps the keys of the spool and returns no entry twice: durable entries differ in the row
  they stand for, legacy entries in their message id, and only the former carry a row reference.\<close>

lemma claimPending_once:
  assumes ok: "dispatch_ok d" and claim: "claimPending c tok now tid by d = Some (d', es)"
  shows "map wid (spool_rows d') = map wid (spool_rows d)" and "distinct es"
proof -
  obtain durable fences legacy where
    dur: "durable = order_by created_at (filter (\<lambda>r. durable_dispatch tid r \<and> claim_state r = Pending) (spool_rows d))"
    and rows: "spool_rows d' = fst (claim_each tok now 0 durable (spool_rows d))"
    and leg: "legacy = filter (\<lambda>e. the (entry_identity c e) \<notin> fences)
                   (order_by dq_created_at (filter (claimable tid) (queue d)))"
    and es: "es = map (claimed_entry by now) (snd (claim_each tok now 0 durable (spool_rows d))) @ legacy"
    using claim by (rule claimPending_Some)
  show "map wid (spool_rows d') = map wid (spool_rows d)" unfolding rows by (rule claim_each_frame)
  let ?claimed = "snd (claim_each tok now 0 durable (spool_rows d))"
  have "distinct (map wid durable)" using ok by (simp add: dur dispatch_ok_def spool_ok_def distinct_map_filter)
  then have "distinct (map wid ?claimed)" by (simp only: claim_each_ids)
  moreover have "map (fst \<circ> the \<circ> durable_ref) (map (claimed_entry by now) ?claimed) = map wid ?claimed"
    by (simp add: claimed_entry_def)
  ultimately have "distinct (map (claimed_entry by now) ?claimed)" by (metis distinct_map)
  moreover have "distinct (queue d)" and "\<forall>e\<in>set (queue d). durable_ref e = None"
    using ok by (auto simp: dispatch_ok_def list_all_iff distinct_map)
  ultimately show "distinct es" by (auto simp: es leg order_by_def claimed_entry_def)
qed

text \<open>A claim that returns has read the identity of every durable row and every pending queue row of the
  thread, so the suppression compares defined identities.\<close>

lemma claimPending_identities:
  assumes ok: "dispatch_ok d" and claim: "claimPending c tok now tid by d = Some (d', es)"
  shows "r \<in> set (spool_rows d) \<Longrightarrow> durable_dispatch tid r \<Longrightarrow> row_identity c r \<noteq> None"
    and "e \<in> set (queue d) \<Longrightarrow> claimable tid e \<Longrightarrow> entry_identity c e \<noteq> None"
    and "e \<in> set (queue d) \<Longrightarrow> claimable tid e \<Longrightarrow> the (entry_identity c e) \<in> fence_set c tid (spool_rows d) \<longleftrightarrow>
           (\<exists>r\<in>set (spool_rows d). durable_dispatch tid r \<and> row_identity c r = entry_identity c e)"
proof -
  note eff = claimPending_effect [OF assms]
  have new: "\<forall>r\<in>set (spool_rows d'). durable_dispatch tid r \<longrightarrow> row_identity c r \<noteq> None"
    and q: "\<forall>e\<in>set (queue d). claimable tid e \<longrightarrow> entry_identity c e \<noteq> None"
    using claim by (auto simp: claimPending_def Let_def case_prod_unfold split: option.splits dest!: all_identities_Some)
  show r: "row_identity c r \<noteq> None" if "r \<in> set (spool_rows d)" "durable_dispatch tid r" for r
    using eff(2,3) new that by (cases "claim_state r = Pending") fastforce+
  show e: "entry_identity c e \<noteq> None" if "e \<in> set (queue d)" "claimable tid e" for e using q that by blast
  show "the (entry_identity c e) \<in> fence_set c tid (spool_rows d) \<longleftrightarrow>
      (\<exists>r\<in>set (spool_rows d). durable_dispatch tid r \<and> row_identity c r = entry_identity c e)"
    if "e \<in> set (queue d)" "claimable tid e" for e
    using r e [OF that] by (force simp: fence_set_def)
qed

lemma claimPending_rows:
  assumes "dispatch_ok d" and "claimPending c tok now tid by d = Some (d', es)"
  shows "list_all2 (\<lambda>r r'. if durable_dispatch tid r \<and> claim_state r = Pending
           then \<exists>m. r' = to_processing (tok m) now r \<and> claimed_entry by now r' \<in> set es else r' = r)
           (spool_rows d) (spool_rows d')"
proof (rule list_all2_all_nthI)
  note eff = claimPending_effect [OF assms] and ids = claimPending_once(1) [OF assms]
  show len: "length (spool_rows d) = length (spool_rows d')" using ids by (metis length_map)
  fix i assume i: "i < length (spool_rows d)"
  let ?r = "spool_rows d ! i" and ?r' = "spool_rows d' ! i"
  have r: "?r \<in> set (spool_rows d)" "?r' \<in> set (spool_rows d')" using i len by simp_all
  have same: "wid ?r' = wid ?r" using ids i len by (metis nth_map)
  have at: "?r' = x" if "x \<in> set (spool_rows d')" "wid x = wid ?r" for x
    using spool_ok_unique [OF eff(6) r(2) that(1)] same that(2) by simp
  show "if durable_dispatch tid ?r \<and> claim_state ?r = Pending
        then \<exists>m. ?r' = to_processing (tok m) now ?r \<and> claimed_entry by now ?r' \<in> set es else ?r' = ?r"
  proof (cases "durable_dispatch tid ?r \<and> claim_state ?r = Pending")
    case True
    then obtain m where "to_processing (tok m) now ?r \<in> set (spool_rows d')"
        "claimed_entry by now (to_processing (tok m) now ?r) \<in> set es" using eff(2) r(1) by blast
    then show ?thesis using True at [of "to_processing (tok m) now ?r"] by auto
  next
    case False
    then show ?thesis using eff(3) r(1) at [of ?r] by auto
  qed
qed

lemma claimPending_queue:
  assumes "dispatch_ok d" and "claimPending c tok now tid by d = Some (d', es)"
  shows "list_all2 (\<lambda>e e'. if claimable tid e
           then if \<exists>r\<in>set (spool_rows d). durable_dispatch tid r \<and> row_identity c r = entry_identity c e
                then e' = with_status D_Acknowledged now e \<and> e \<notin> set es
                else e' = mark_processing by now e \<and> e \<in> set es
           else e' = e \<and> e \<notin> set es) (queue d) (queue d')"
proof (rule list_all2_all_nthI)
  note eff = claimPending_effect [OF assms] and id = claimPending_identities(3) [OF assms]
  show "length (queue d) = length (queue d')" by (simp add: eff(1) update_where_def)
  fix i assume i: "i < length (queue d)"
  let ?e = "queue d ! i"
  have e: "?e \<in> set (queue d)" using i by simp
  then have "durable_ref ?e = None" using assms(1) by (simp add: dispatch_ok_def list_all_iff)
  then have hit: "?e \<in> set es \<longleftrightarrow> claimable tid ?e \<and> the (entry_identity c ?e) \<notin> fence_set c tid (spool_rows d)"
    unfolding eff(5) using e by (auto simp: claimed_entry_def)
  have at: "queue d' ! i = (if claimable tid ?e then claim_entry c (fence_set c tid (spool_rows d)) by now ?e else ?e)"
    using i by (simp add: eff(1) update_where_def)
  show "if claimable tid ?e
        then if \<exists>r\<in>set (spool_rows d). durable_dispatch tid r \<and> row_identity c r = entry_identity c ?e
             then queue d' ! i = with_status D_Acknowledged now ?e \<and> ?e \<notin> set es
             else queue d' ! i = mark_processing by now ?e \<and> ?e \<in> set es
        else queue d' ! i = ?e \<and> ?e \<notin> set es"
    using hit id [OF e] by (simp add: at claim_entry_def) blast
qed

text \<open>C15: A claim hands out every wakeup of the thread exactly once across the two stores, and touches
  nothing else. The returned list has no repetitions and holds nothing but entries of the two kinds
  below. Row by row, a pending local dispatch row of the thread is now in processing under a fresh
  token, with its attempt counted, and its entry with that token is returned; every other durable row
  is unchanged. Entry by entry, a pending queue row of the thread that is not a client tool call is
  returned and now in processing, unless a durable row of the thread has its identity: then it is
  acknowledged without being returned; every other queue row is unchanged and not returned. Nothing
  of the thread is left pending, and the keys of both tables stay unique.\<close>

theorem claimPending_bridges:
  assumes "dispatch_ok d" and "claimPending c tok now threadId claimedBy d = Some (d', es)"
  shows "dispatch_ok d' \<and> \<not> hasPending d' threadId \<and> distinct es \<and>
    set es \<subseteq> set (queue d) \<union> claimed_entry claimedBy now ` (set (spool_rows d') - set (spool_rows d)) \<and>
    list_all2 (\<lambda>r r'.
       if target_site_id r = LOCAL_WORK_TARGET \<and> kind r = ''dispatch_message'' \<and>
          payload_text r ''thread_id'' = Some threadId \<and> claim_state r = Pending
       then \<exists>m. r' = r\<lparr>claim_state := Processing, claim_token := Some (tok m), claimed_at := Some now,
                       attempt_count := attempt_count r + 1\<rparr> \<and>
              claimed_entry claimedBy now r' \<in> set es \<and>
              durable_ref (claimed_entry claimedBy now r') = Some (wid r, tok m)
       else r' = r) (spool_rows d) (spool_rows d') \<and>
    list_all2 (\<lambda>e e'.
       if thread_id e = threadId \<and> status e = D_Pending \<and> event_type e \<noteq> CLIENT_TOOL_CALL
       then if \<exists>r\<in>set (spool_rows d). target_site_id r = LOCAL_WORK_TARGET \<and> kind r = ''dispatch_message'' \<and>
                payload_text r ''thread_id'' = Some threadId \<and> row_identity c r = entry_identity c e
            then e' = e\<lparr>status := D_Acknowledged, dq_modified_at := now\<rparr> \<and> e \<notin> set es
            else e' = e\<lparr>status := D_Processing, dq_modified_at := now, claimed_by := Some claimedBy\<rparr> \<and> e \<in> set es
       else e' = e \<and> e \<notin> set es) (queue d) (queue d')"
proof (intro conjI)
  note eff = claimPending_effect [OF assms]
  show "dispatch_ok d'" using assms by (rule claimPending_ok)
  show "\<not> hasPending d' threadId" using assms by (rule claimPending_drains)
  show "distinct es" using assms by (rule claimPending_once)
  have "r' \<notin> set (spool_rows d)"
    if "r \<in> set (spool_rows d)" "claim_state r = Pending" "r' = to_processing (tok m) now r" for r r' m
  proof
    assume "r' \<in> set (spool_rows d)"
    then have "r' = r" using assms(1) that by (intro spool_ok_unique [of "spool_rows d"]) (simp_all add: dispatch_ok_def)
    with that(2) have "claim_state (to_processing (tok m) now r) = Pending" using that(3) by simp
    then show False by simp
  qed
  then show "set es \<subseteq> set (queue d) \<union> claimed_entry claimedBy now ` (set (spool_rows d') - set (spool_rows d))"
    unfolding eff(5) by blast
  show "list_all2 (\<lambda>r r'.
       if target_site_id r = LOCAL_WORK_TARGET \<and> kind r = ''dispatch_message'' \<and>
          payload_text r ''thread_id'' = Some threadId \<and> claim_state r = Pending
       then \<exists>m. r' = r\<lparr>claim_state := Processing, claim_token := Some (tok m), claimed_at := Some now,
                       attempt_count := attempt_count r + 1\<rparr> \<and>
              claimed_entry claimedBy now r' \<in> set es \<and>
              durable_ref (claimed_entry claimedBy now r') = Some (wid r, tok m)
       else r' = r) (spool_rows d) (spool_rows d')"
    by (rule list_all2_mono [OF claimPending_rows [OF assms]])
      (auto simp: durable_dispatch_def to_processing_def claimed_entry_def split: if_splits)
  show "list_all2 (\<lambda>e e'.
       if thread_id e = threadId \<and> status e = D_Pending \<and> event_type e \<noteq> CLIENT_TOOL_CALL
       then if \<exists>r\<in>set (spool_rows d). target_site_id r = LOCAL_WORK_TARGET \<and> kind r = ''dispatch_message'' \<and>
                payload_text r ''thread_id'' = Some threadId \<and> row_identity c r = entry_identity c e
            then e' = e\<lparr>status := D_Acknowledged, dq_modified_at := now\<rparr> \<and> e \<notin> set es
            else e' = e\<lparr>status := D_Processing, dq_modified_at := now, claimed_by := Some claimedBy\<rparr> \<and> e \<in> set es
       else e' = e \<and> e \<notin> set es) (queue d) (queue d')"
    using claimPending_queue [OF assms]
    unfolding claimable_def durable_dispatch_def with_status_def mark_processing_def conj_assoc by simp
qed

definition example_codec :: codec where
  "example_codec = \<lparr>to_text = (\<lambda>v. case v of JObj [(_, JStr t)] \<Rightarrow> t | _ \<Rightarrow> []),
                    of_text = (\<lambda>t. Some (JObj [(''call_id'', JStr t)]))\<rparr>"

definition example_dispatch :: dispatch_db where
  "example_dispatch =
     \<lparr>spool_rows = [fresh_row (dispatch_work ''w1'' ''t'' ''m1'' ''user_message'' None ''m1'') 5,
                    fresh_row (dispatch_work ''w2'' ''t'' ''m2'' ''tool_result'' (Some ''call_1'') ''k2'') 3],
      queue = [legacy_entry ''m1'' ''t'' None ''user_message'' None 4,
               legacy_entry ''m3'' ''t'' None ''notification'' (Some ''x'') 6]\<rparr>"

definition example_token :: "nat \<Rightarrow> string" where
  "example_token n = replicate (Suc n) (CHR ''t'')"

lemma example_dispatch_ok: "dispatch_ok example_dispatch"
  by code_simp

theorem claimPending_bridges_witness:
  "case claimPending example_codec example_token 9 ''t'' ''host'' example_dispatch of
     None \<Rightarrow> False
   | Some (d', es) \<Rightarrow> distinct es \<and> \<not> hasPending d' ''t'' \<and> map message_id es = [''m2'', ''m1'', ''m3'']"
proof -
  have "map_option (map message_id \<circ> snd)
      (claimPending example_codec example_token 9 ''t'' ''host'' example_dispatch) = Some [''m2'', ''m1'', ''m3'']"
    by code_simp
  then obtain d' es where c: "claimPending example_codec example_token 9 ''t'' ''host'' example_dispatch = Some (d', es)"
      "map message_id es = [''m2'', ''m1'', ''m3'']" by auto
  show ?thesis
    using claimPending_bridges [OF example_dispatch_ok c(1)] by (simp add: c)
qed

section \<open>Completion and recovery of a claim\<close>

definition refers :: "dispatch_entry \<Rightarrow> work_row \<Rightarrow> bool" where
  "refers e r \<longleftrightarrow>
     (case durable_ref e of None \<Rightarrow> False | Some (i, tok) \<Rightarrow> i \<noteq> [] \<and> tok \<noteq> [] \<and> ack_matches i tok r)"

lemma not_refers_consumed [simp]: "\<not> refers e (to_consumed now r)"
  by (simp add: refers_def ack_matches_def to_consumed_def split: option.split)

lemma acknowledge_durable_rows:
  "acknowledge_durable now es rows = update_where (\<lambda>r. \<exists>e \<in> set es. refers e r) (to_consumed now) rows"
proof (induction es arbitrary: rows)
  case Nil
  show ?case by (simp add: update_where_none)
next
  case (Cons e es)
  have one: "(case durable_ref e of
          Some (i, tok) \<Rightarrow> if i = [] \<or> tok = [] then rows else fst (acknowledgeDurableWork rows i tok now)
        | None \<Rightarrow> rows) = update_where (refers e) (to_consumed now) rows"
    by (auto simp: refers_def acknowledgeDurableWork_def update_where_def split: option.split)
  show ?case
    unfolding acknowledge_durable.simps one Cons.IH by (auto simp: update_where_def)
qed

lemma acknowledgeBatch_eq:
  "acknowledgeBatch now es d =
     \<lparr>spool_rows = update_where (\<lambda>r. \<exists>e \<in> set es. refers e r) (to_consumed now) (spool_rows d),
      queue = update_where (in_ids (map message_id (filter (\<lambda>e. durable_ref e = None) es)))
                (with_status D_Acknowledged now) (queue d)\<rparr>"
  by (auto simp: acknowledgeBatch_def acknowledge_ids_def acknowledge_durable_rows Let_def in_ids_def
      filter_empty_conv update_where_none)

text \<open>The reset that the executor runs after a yielded or failed run.\<close>

definition reset_thread :: "time \<Rightarrow> string \<Rightarrow> dispatch_db \<Rightarrow> dispatch_db" where
  "reset_thread now threadId d =
     fst (resetProcessingDurableDispatchForThread threadId (fst (resetProcessingForThread now threadId d)))"

definition held :: "string \<Rightarrow> dispatch_entry \<Rightarrow> bool" where
  "held tid e \<longleftrightarrow> status e = D_Processing \<and> thread_id e = tid \<and> event_type e \<noteq> CLIENT_TOOL_CALL"

lemma reset_thread_eq:
  "reset_thread now tid d =
     \<lparr>spool_rows = update_where (\<lambda>r. durable_dispatch tid r \<and> claim_state r = Processing) to_pending (spool_rows d),
      queue = update_where (held tid) (to_dq_pending now) (queue d)\<rparr>"
proof -
  have h: "held tid = (\<lambda>e. status e = D_Processing \<and> thread_id e = tid \<and> event_type e \<noteq> CLIENT_TOOL_CALL)"
    by (simp add: held_def fun_eq_iff)
  show ?thesis
    by (simp add: reset_thread_def resetProcessingDurableDispatchForThread_def resetProcessingForThread_def
        Let_def h)
qed

interpretation recover_dispatch: row_transition
  "\<lambda>r. durable_dispatch tid r \<and> claim_state r = Processing" to_pending for tid
  by unfold_locales (auto simp: to_pending_def fence_key_def row_ok_def)

lemma reset_thread_ok: "dispatch_ok d \<Longrightarrow> dispatch_ok (reset_thread now tid d)"
  unfolding reset_thread_eq
  by (rule update_queue_ok) (simp_all add: recover_dispatch.update_ok dispatch_ok_def)

lemma acknowledgeBatch_ok:
  assumes "dispatch_ok d"
  shows "dispatch_ok (acknowledgeBatch now es d)"
proof -
  have "spool_ok (acknowledge_durable now es rows)" if "spool_ok rows" for rows
    using that
    by (induction es arbitrary: rows)
      (auto simp: acknowledgeDurableWork_def consume.update_ok split: option.split)
  with assms show ?thesis
    unfolding acknowledgeBatch_eq
    by (intro update_queue_ok [OF assms]) (simp_all add: dispatch_ok_def flip: acknowledge_durable_rows)
qed

lemma claimed_entry_refers:
  assumes "wid r \<noteq> []" and "tok \<noteq> []"
  shows "refers (claimed_entry by now (to_processing tok now r)) (to_processing tok now r)"
  using assms by (simp add: refers_def claimed_entry_def ack_matches_def)

text \<open>Claiming a thread's wakeups and acknowledging the returned batch retires all of them:
  every durable row that was pending is consumed, every queue row that was pending is
  acknowledged, and the thread has nothing pending. Tokens and row ids are not empty.\<close>

theorem claim_acknowledge_retires:
  assumes "dispatch_ok d" and "claimPending c tok now threadId claimedBy d = Some (d', es)"
    and "\<And>n. tok n \<noteq> []" and "list_all (\<lambda>r. wid r \<noteq> []) (spool_rows d)"
  shows "\<not> hasPending (acknowledgeBatch t es d') threadId \<and>
    (\<forall>r. r \<in> set (spool_rows d) \<and> durable_dispatch threadId r \<and> claim_state r = Pending \<longrightarrow>
       (\<exists>r'. r' \<in> set (spool_rows (acknowledgeBatch t es d')) \<and> wid r' = wid r \<and> claim_state r' = Consumed)) \<and>
    (\<forall>e. e \<in> set (queue d) \<and> claimable threadId e \<longrightarrow>
       (\<exists>e'. e' \<in> set (queue (acknowledgeBatch t es d')) \<and> message_id e' = message_id e \<and> status e' = D_Acknowledged))"
proof (intro conjI allI impI)
  note eff = claimPending_effect [OF assms(1,2)]
  have np: "\<not> hasPending d' threadId" using assms(1,2) by (rule claimPending_drains)
  show "\<not> hasPending (acknowledgeBatch t es d') threadId"
    using np unfolding not_hasPending acknowledgeBatch_eq
    by (auto simp: claimable_def durable_dispatch_def to_consumed_def elim!: in_update_whereE)
  fix r assume r: "r \<in> set (spool_rows d) \<and> durable_dispatch threadId r \<and> claim_state r = Pending"
  with eff(2) obtain m where m: "to_processing (tok m) now r \<in> set (spool_rows d')"
      "claimed_entry claimedBy now (to_processing (tok m) now r) \<in> set es" by blast
  have "wid r \<noteq> []" using r assms(4) by (auto simp: list_all_iff)
  then have "refers (claimed_entry claimedBy now (to_processing (tok m) now r)) (to_processing (tok m) now r)"
    using assms(3) by (rule claimed_entry_refers)
  with m have "to_consumed t (to_processing (tok m) now r) \<in> set (spool_rows (acknowledgeBatch t es d'))"
    unfolding acknowledgeBatch_eq by (auto intro!: update_where_hit)
  then show "\<exists>r'. r' \<in> set (spool_rows (acknowledgeBatch t es d')) \<and> wid r' = wid r \<and> claim_state r' = Consumed"
    by (intro exI) (auto simp: to_consumed_def)
next
  note eff = claimPending_effect [OF assms(1,2)]
  fix e assume e: "e \<in> set (queue d) \<and> claimable threadId e"
  let ?e = "claim_entry c (fence_set c threadId (spool_rows d)) claimedBy now e"
  have q: "?e \<in> set (queue d')" unfolding eff(1) using e by (simp add: update_where_hit)
  have none: "durable_ref e = None" using e assms(1) by (auto simp: dispatch_ok_def list_all_iff)
  let ?p = "in_ids (map message_id (filter (\<lambda>e. durable_ref e = None) es))"
  have "the (entry_identity c e) \<notin> fence_set c threadId (spool_rows d) \<Longrightarrow> e \<in> set es"
    using e unfolding eff(5) by blast
  with none have "?p ?e \<or> status ?e = D_Acknowledged"
    by (auto simp: claim_entry_def in_ids_def)
  then have "status (if ?p ?e then with_status D_Acknowledged t ?e else ?e) = D_Acknowledged" by auto
  moreover have "(if ?p ?e then with_status D_Acknowledged t ?e else ?e) \<in> set (queue (acknowledgeBatch t es d'))"
    using q unfolding acknowledgeBatch_eq by (simp add: update_where_hit update_where_miss)
  moreover have "message_id (if ?p ?e then with_status D_Acknowledged t ?e else ?e) = message_id e"
    by (simp add: claim_entry_def)
  ultimately show "\<exists>e'. e' \<in> set (queue (acknowledgeBatch t es d')) \<and> message_id e' = message_id e \<and> status e' = D_Acknowledged"
    by blast
qed

theorem claim_acknowledge_retires_witness:
  "case claimPending example_codec example_token 9 ''t'' ''host'' example_dispatch of
     None \<Rightarrow> False | Some (d', es) \<Rightarrow> \<not> hasPending (acknowledgeBatch 10 es d') ''t''"
proof -
  have "claimPending example_codec example_token 9 ''t'' ''host'' example_dispatch \<noteq> None"
    by code_simp
  then obtain d' es where c: "claimPending example_codec example_token 9 ''t'' ''host'' example_dispatch = Some (d', es)"
    by auto
  have "list_all (\<lambda>r. wid r \<noteq> []) (spool_rows example_dispatch)" by code_simp
  with claim_acknowledge_retires [OF example_dispatch_ok c, where t = 10]
  show ?thesis by (simp add: c example_token_def)
qed

text \<open>A run that yields or fails loses no wakeup: claiming and then resetting the thread
  leaves every durable row as it was before the claim, pending and claimable, with one more
  attempt charged, and every queue row that was handed out pending again with no owner.\<close>

theorem claim_reset_restores:
  assumes "dispatch_ok d" and "claimPending c tok now threadId claimedBy d = Some (d', es)"
  shows "(\<forall>r. r \<in> set (spool_rows d) \<and> durable_dispatch threadId r \<and> claim_state r = Pending \<longrightarrow>
       r\<lparr>attempt_count := attempt_count r + 1\<rparr> \<in> set (spool_rows (reset_thread t threadId d'))) \<and>
    (\<forall>e. e \<in> set (queue d) \<and> claimable threadId e \<and> e \<in> set es \<longrightarrow>
       e\<lparr>claimed_by := None, dq_modified_at := t\<rparr> \<in> set (queue (reset_thread t threadId d')))"
proof (intro conjI allI impI)
  note eff = claimPending_effect [OF assms]
  fix r assume r: "r \<in> set (spool_rows d) \<and> durable_dispatch threadId r \<and> claim_state r = Pending"
  with eff(2) obtain m where m: "to_processing (tok m) now r \<in> set (spool_rows d')" by blast
  have "to_pending (to_processing (tok m) now r) \<in> set (spool_rows (reset_thread t threadId d'))"
    unfolding reset_thread_eq using m r by (auto intro!: update_where_hit)
  moreover have "claim_token r = None" "claimed_at r = None"
    using r assms(1) by (auto simp: dispatch_ok_def row_ok_def dest!: spool_ok_row)
  then have "to_pending (to_processing (tok m) now r) = r\<lparr>attempt_count := attempt_count r + 1\<rparr>"
    using r by (simp add: to_pending_def to_processing_def)
  ultimately show "r\<lparr>attempt_count := attempt_count r + 1\<rparr> \<in> set (spool_rows (reset_thread t threadId d'))"
    by simp
next
  fix e assume e: "e \<in> set (queue d) \<and> claimable threadId e \<and> e \<in> set es"
  have "mark_processing claimedBy now e \<in> set (queue d')"
    using claimPending_entry [OF assms, of e] e by (simp split: if_splits)
  then have "to_dq_pending t (mark_processing claimedBy now e) \<in> set (queue (reset_thread t threadId d'))"
    unfolding reset_thread_eq using e by (auto intro!: update_where_hit simp: held_def claimable_def)
  moreover have "to_dq_pending t (mark_processing claimedBy now e) = e\<lparr>claimed_by := None, dq_modified_at := t\<rparr>"
    using e by (simp add: to_dq_pending_def mark_processing_def with_status_def claimable_def)
  ultimately show "e\<lparr>claimed_by := None, dq_modified_at := t\<rparr> \<in> set (queue (reset_thread t threadId d'))" by simp
qed

theorem claim_reset_restores_witness:
  "case claimPending example_codec example_token 9 ''t'' ''host'' example_dispatch of
     None \<Rightarrow> False
   | Some (d', es) \<Rightarrow>
       (fresh_row (dispatch_work ''w1'' ''t'' ''m1'' ''user_message'' None ''m1'') 5)\<lparr>attempt_count := 1\<rparr>
         \<in> set (spool_rows (reset_thread 10 ''t'' d'))"
proof -
  let ?r = "fresh_row (dispatch_work ''w1'' ''t'' ''m1'' ''user_message'' None ''m1'') 5"
  have "claimPending example_codec example_token 9 ''t'' ''host'' example_dispatch \<noteq> None"
    by code_simp
  then obtain d' es where c: "claimPending example_codec example_token 9 ''t'' ''host'' example_dispatch = Some (d', es)"
    by auto
  have "?r \<in> set (spool_rows example_dispatch)" by (simp add: example_dispatch_def)
  moreover have "durable_dispatch ''t'' ?r" by code_simp
  moreover have "claim_state ?r = Pending" "attempt_count ?r = 0" by (simp_all add: fresh_row_def)
  ultimately show ?thesis
    using claim_reset_restores [OF example_dispatch_ok c, of 10] by (auto simp: c)
qed

section \<open>Reused call ids\<close>

lemma dispatch_work_valid:
  assumes "uuid \<noteq> []" and "key \<noteq> []"
  shows "validateDurableWork (dispatch_work uuid tid mid ev pl key) = None"
  using assms by (simp add: validateDurableWork_def dispatch_work_def LOCAL_WORK_TARGET_def json_stringify_def)

lemma enqueueDurableDispatch_cases:
  assumes "uuid \<noteq> []" and "key \<noteq> []"
  shows "enqueueDurableDispatch uuid now tid mid ev pl key d =
     Some (if fenced (spool_rows d) (dispatch_work uuid tid mid ev pl key) then d
           else d\<lparr>spool_rows := spool_rows d @ [fresh_row (dispatch_work uuid tid mid ev pl key) now]\<rparr>)"
  using dispatch_work_valid [OF assms, of tid mid ev pl]
  by (simp add: enqueueDurableDispatch_def insertDurableWork_def)

lemma tool_result_key_nonempty [simp]: "tool_result_key tid cid \<noteq> []"
  by (simp add: tool_result_key_def)

text \<open>The two enqueue routes disagree on a call id that a later turn of the thread reuses.
  With durable dispatch, as long as any row of the earlier result is in the spool, consumed or
  dead-lettered included, a new result under the same call id changes nothing, so it wakes
  nobody; with the legacy route, once no row of the call is in flight the result is enqueued and
  the thread has pending work.\<close>

theorem reused_call_id_dropped:
  assumes "list_ex (\<lambda>r. kind r = ''dispatch_message'' \<and> idempotency_key r = tool_result_key threadId callId) (spool_rows d)"
    and "uuid2 \<noteq> []"
    and "\<not> list_ex (\<lambda>e. thread_id e = threadId \<and> event_type e = TOOL_RESULT \<and>
           event_payload e = Some (call_payload c callId) \<and> in_flight e) (queue d)"
    and "\<not> list_ex (\<lambda>e. message_id e = uuid) (queue d)"
  shows "map_option fst (enqueueToolResult c True uuid uuid2 now threadId callId d) = Some d \<and>
    map_option (\<lambda>(d', m). hasPending d' threadId) (enqueueToolResult c False uuid uuid2 now threadId callId d) = Some True"
proof -
  have "fenced (spool_rows d) (dispatch_work uuid2 threadId uuid TOOL_RESULT (Some (call_payload c callId))
      (tool_result_key threadId callId))"
    using assms(1) by (auto simp: fenced_def list_ex_iff dispatch_work_def)
  then have durable: "map_option fst (enqueueToolResult c True uuid uuid2 now threadId callId d) = Some d"
    by (simp add: enqueueToolResult_def enqueueDurableDispatch_cases assms(2))
  have "find (\<lambda>e. thread_id e = threadId \<and> event_type e = TOOL_RESULT \<and>
      event_payload e = Some (call_payload c callId) \<and> in_flight e) (queue d) = None"
    using assms(3) by (auto simp: find_None_iff list_ex_iff)
  then have "map_option (\<lambda>(d', m). hasPending d' threadId) (enqueueToolResult c False uuid uuid2 now threadId callId d) = Some True"
    using assms(4)
    by (simp add: enqueueToolResult_def insert_entry_def legacy_entry_def hasPending_def count_where_def
        claimable_def TOOL_RESULT_def CLIENT_TOOL_CALL_def)
  with durable show ?thesis ..
qed

theorem reused_call_id_dropped_witness:
  "let r = to_consumed 8 (fresh_row (dispatch_work ''w1'' ''t'' ''m1'' TOOL_RESULT (Some ''call_1'')
             (tool_result_key ''t'' ''call_1'')) 5);
       d = \<lparr>spool_rows = [r], queue = []\<rparr>
   in map_option fst (enqueueToolResult example_codec True ''u'' ''v'' 9 ''t'' ''call_1'' d) = Some d \<and> \<not> hasPending d ''t''"
proof -
  let ?r = "to_consumed 8 (fresh_row (dispatch_work ''w1'' ''t'' ''m1'' TOOL_RESULT (Some ''call_1'')
             (tool_result_key ''t'' ''call_1'')) 5)"
  have k: "kind ?r = ''dispatch_message''" "idempotency_key ?r = tool_result_key ''t'' ''call_1''"
    by (simp_all add: to_consumed_def fresh_row_def dispatch_work_def)
  have "\<not> hasPending \<lparr>spool_rows = [?r], queue = []\<rparr> ''t''"
    by (simp add: hasPending_def count_where_def to_consumed_def)
  with reused_call_id_dropped [of "''t''" "''call_1''" "\<lparr>spool_rows = [?r], queue = []\<rparr>" "''v''" example_codec "''u''" 9]
  show ?thesis by (simp add: k)
qed

end
