(* ===== verification/Thread_Executor.thy ===== *)
theory Thread_Executor
  imports Dispatch
begin

text \<open>
  The per-thread drain loop of \<open>packages/core/src/thread-executor.ts\<close> and the run function
  the relay processor hands to it (\<open>runLocalThreadLoop\<close> in
  \<open>packages/agent/src/relay-processor.ts\<close>). The loop is written over an abstract queue:
  what it needs of the dispatch store is the locale \<open>wakeup_queue\<close>, interpreted below on
  \<open>hasPending\<close> and the two resets. The caller's \<open>runFn\<close> and \<open>onComplete\<close> are arguments: run
  number \<open>k\<close> takes the database to a duration in milliseconds, an outcome and a new database.
  The loop may run forever, so it takes fuel; without enough of it the result is \<open>None\<close>.
\<close>

section \<open>The executor\<close>

datatype run_outcome = Yielded | Finished | Failed

definition DEFAULT_RUN_TIMEOUT_MS :: int where
  "DEFAULT_RUN_TIMEOUT_MS = 30 * 60 * 1000"

text \<open>\<open>withTimeout\<close>: the run's own outcome unless the timer fires first; a timeout of zero or
  less means no timer. The database of a run that overran is the one its effect gives: in the source
  the abandoned promise may still write after the timer, which is left out here.\<close>

definition withTimeout :: "int \<Rightarrow> int \<times> run_outcome \<times> 'd \<Rightarrow> run_outcome \<times> 'd" where
  "withTimeout runTimeoutMs run =
     (case run of (ms, outcome, d) \<Rightarrow>
        if runTimeoutMs \<le> 0 then (outcome, d)
        else if ms < runTimeoutMs then (outcome, d) else (Failed, d))"

text \<open>\<open>if (onComplete) await onComplete(result)\<close>: \<open>False\<close> when the callback throws.\<close>

definition notify_complete :: "(nat \<Rightarrow> 'd \<Rightarrow> bool \<times> 'd) option \<Rightarrow> nat \<Rightarrow> 'd \<Rightarrow> bool \<times> 'd" where
  "notify_complete onComplete k d = (case onComplete of None \<Rightarrow> (True, d) | Some f \<Rightarrow> f k d)"

fun drain_loop ::
  "('d \<Rightarrow> bool) \<Rightarrow> (nat \<Rightarrow> 'd \<Rightarrow> 'd) \<Rightarrow> (nat \<Rightarrow> 'd \<Rightarrow> run_outcome \<times> 'd) \<Rightarrow>
     (nat \<Rightarrow> 'd \<Rightarrow> bool \<times> 'd) option \<Rightarrow> nat \<Rightarrow> nat \<Rightarrow> 'd \<Rightarrow> 'd option" where
  "drain_loop pending reset runFn onComplete 0 k d = None"
| "drain_loop pending reset runFn onComplete (Suc n) k d =
     (case runFn k d of
        (Yielded, d1) \<Rightarrow> drain_loop pending reset runFn onComplete n (Suc k) (reset k d1)
      | (Failed, d1) \<Rightarrow> Some (reset k d1)
      | (Finished, d1) \<Rightarrow>
          (case notify_complete onComplete k d1 of
             (ok, d2) \<Rightarrow>
               if \<not> ok then Some (reset k d2)
               else if \<not> pending d2 then Some d2
               else drain_loop pending reset runFn onComplete n (Suc k) d2))"

text \<open>\<open>execute\<close>: refused under a held lock; otherwise the loop runs under the thread's lock,
  which \<open>finally\<close> releases, and the result says whether work is left. \<open>clock k\<close> is the time of
  the resets of iteration \<open>k\<close>.\<close>

definition execute ::
  "nat \<Rightarrow> int \<Rightarrow> (nat \<Rightarrow> time) \<Rightarrow> string \<Rightarrow> (nat \<Rightarrow> dispatch_db \<Rightarrow> int \<times> run_outcome \<times> dispatch_db) \<Rightarrow>
     (nat \<Rightarrow> dispatch_db \<Rightarrow> bool \<times> dispatch_db) option \<Rightarrow> string list \<Rightarrow> dispatch_db \<Rightarrow>
     (bool \<times> string list \<times> dispatch_db) option" where
  "execute fuel runTimeoutMs clock threadId runFn onComplete activeLocks d =
     (if threadId \<in> set activeLocks then Some (False, activeLocks, d)
      else map_option (\<lambda>d'. (hasPending d' threadId, removeAll threadId (threadId # activeLocks), d'))
             (drain_loop (\<lambda>d. hasPending d threadId) (\<lambda>k. reset_thread (clock k) threadId)
                (\<lambda>k d. withTimeout runTimeoutMs (runFn k d)) onComplete fuel 0 d))"

definition isActive :: "string list \<Rightarrow> string \<Rightarrow> bool" where
  "isActive activeLocks threadId \<longleftrightarrow> threadId \<in> set activeLocks"

section \<open>The run function of a relayed intake\<close>

text \<open>Claim, run the agent loop (\<open>runLocalLoop\<close>, an argument), acknowledge the batch unless the
  loop yielded. A failed run still acknowledges and then rethrows. The bookkeeping of iteration
  \<open>k\<close> happens at \<open>clock k\<close>; \<open>tok k\<close> are its claim tokens.\<close>

definition intake_run ::
  "codec \<Rightarrow> (nat \<Rightarrow> nat \<Rightarrow> string) \<Rightarrow> (nat \<Rightarrow> time) \<Rightarrow> string \<Rightarrow> string \<Rightarrow>
     (nat \<Rightarrow> dispatch_db \<Rightarrow> int \<times> run_outcome \<times> dispatch_db) \<Rightarrow> nat \<Rightarrow> dispatch_db \<Rightarrow> int \<times> run_outcome \<times> dispatch_db" where
  "intake_run c tok clock threadId siteId runLocalLoop k d =
     (case claimPending c (tok k) (clock k) threadId siteId d of
        None \<Rightarrow> (0, Failed, d)
      | Some (d1, claimed) \<Rightarrow>
          if claimed = [] then (0, Finished, d1)
          else (case runLocalLoop k d1 of
                  (ms, Yielded, d2) \<Rightarrow> (ms, Yielded, d2)
                | (ms, outcome, d2) \<Rightarrow> (ms, outcome, acknowledgeBatch (clock k) claimed d2)))"

text \<open>\<open>runLocalThreadLoop\<close>: three guards only log and return; without an executor the agent loop
  runs once on its own.\<close>

definition runLocalThreadLoop ::
  "codec \<Rightarrow> bool \<Rightarrow> bool \<Rightarrow> bool \<Rightarrow> bool \<Rightarrow> bool \<Rightarrow> nat \<Rightarrow> int \<Rightarrow> (nat \<Rightarrow> nat \<Rightarrow> string) \<Rightarrow> (nat \<Rightarrow> time) \<Rightarrow>
     string \<Rightarrow> string \<Rightarrow> string \<Rightarrow> string \<Rightarrow> (nat \<Rightarrow> dispatch_db \<Rightarrow> int \<times> run_outcome \<times> dispatch_db) \<Rightarrow>
     string list \<Rightarrow> dispatch_db \<Rightarrow> (string list \<times> dispatch_db) option" where
  "runLocalThreadLoop c durableEnabled modelRouter threadLive appCtx threadExecutor fuel runTimeoutMs tok clock
       uuid messageId threadId siteId runLocalLoop activeLocks d =
     (if \<not> modelRouter \<or> \<not> threadLive \<or> \<not> appCtx then Some (activeLocks, d)
      else if threadExecutor then
        (case enqueueMessage durableEnabled uuid (clock 0) messageId threadId d of
           None \<Rightarrow> None
         | Some d1 \<Rightarrow>
             map_option snd (execute fuel runTimeoutMs clock threadId
               (intake_run c tok clock threadId siteId runLocalLoop) (Some (\<lambda>k d. (True, d))) activeLocks d1))
      else Some (activeLocks, snd (snd (runLocalLoop 0 d))))"

section \<open>What the loop needs of the queue\<close>

locale wakeup_queue =
  fixes pending :: "'d \<Rightarrow> bool" and taken :: "'d \<Rightarrow> bool" and reset :: "nat \<Rightarrow> 'd \<Rightarrow> 'd" and ok :: "'d \<Rightarrow> bool"
  assumes reset_pending: "pending (reset k d) \<longleftrightarrow> pending d \<or> taken d"
    and reset_taken: "\<not> taken (reset k d)"
    and reset_ok: "ok d \<Longrightarrow> ok (reset k d)"
begin

text \<open>When a run that finishes leaves nothing taken provided nothing was taken before it, the loop leaves
  nothing taken: a yielded or failed run is followed by the reset.\<close>

lemma drain_clean:
  assumes run_ok: "\<And>k d. ok d \<Longrightarrow> ok (snd (runFn k d))"
    and complete_ok: "\<And>k d. ok d \<Longrightarrow> ok (snd (notify_complete onComplete k d))"
    and clean: "\<And>k d d1 d2. ok d \<Longrightarrow> \<not> taken d \<Longrightarrow> runFn k d = (Finished, d1) \<Longrightarrow>
        notify_complete onComplete k d1 = (True, d2) \<Longrightarrow> \<not> taken d2"
    and "ok d" and "\<not> taken d" and "drain_loop pending reset runFn onComplete n k d = Some d'"
  shows "\<not> taken d'"
  using assms(4-6)
proof (induction n arbitrary: k d)
  case (Suc n)
  obtain o1 d1 where run: "runFn k d = (o1, d1)" by (cases "runFn k d")
  obtain b d2 where comp: "notify_complete onComplete k d1 = (b, d2)" by (cases "notify_complete onComplete k d1")
  have ok1: "ok d1" using run_ok [OF Suc.prems(1), of k] run by simp
  have ok2: "ok d2" using complete_ok [OF ok1, of k] comp by simp
  show ?case
  proof (cases o1)
    case Yielded
    then show ?thesis using Suc.prems(3) Suc.IH [of "reset k d1"] reset_ok [OF ok1] reset_taken by (simp add: run)
  next
    case Finished
    then have "b \<Longrightarrow> \<not> taken d2" using clean [OF Suc.prems(1,2), of k d1 d2] run comp by simp
    then show ?thesis using Finished Suc.prems(3) Suc.IH [OF ok2] reset_taken
      by (auto simp: run comp split: if_splits)
  next
    case Failed
    then show ?thesis using Suc.prems(3) reset_taken by (simp add: run) metis
  qed
qed simp

lemma drain_terminates:
  assumes run_ok: "\<And>k d. ok d \<Longrightarrow> ok (snd (runFn k d))"
    and complete_ok: "\<And>k d. ok d \<Longrightarrow> ok (snd (notify_complete onComplete k d))"
    and quiet: "\<And>k d. K \<le> k \<Longrightarrow> ok d \<Longrightarrow> fst (runFn k d) \<noteq> Yielded"
    and stays: "\<And>k d d1 d2 b. K \<le> k \<Longrightarrow> ok d \<Longrightarrow> runFn k d = (Finished, d1) \<Longrightarrow>
        notify_complete onComplete k d1 = (b, d2) \<Longrightarrow> \<not> pending d2"
    and "ok d" and "K < n + k" and "0 < n"
  shows "drain_loop pending reset runFn onComplete n k d \<noteq> None"
  using assms(5-7)
proof (induction n arbitrary: k d)
  case 0
  then show ?case by simp
next
  case (Suc n)
  obtain o1 d1 where run: "runFn k d = (o1, d1)" by (cases "runFn k d")
  obtain b d2 where comp: "notify_complete onComplete k d1 = (b, d2)" by (cases "notify_complete onComplete k d1")
  have ok1: "ok d1" using run_ok [OF Suc.prems(1), of k] run by simp
  have ok2: "ok d2" using complete_ok [OF ok1, of k] comp by simp
  show ?case
  proof (cases "K \<le> k")
    case True
    have "o1 \<noteq> Yielded" using quiet [OF True Suc.prems(1)] run by simp
    moreover have "o1 = Finished \<Longrightarrow> \<not> pending d2"
      using stays [OF True Suc.prems(1) _ comp] run by simp
    ultimately show ?thesis using run comp by (cases o1) auto
  next
    case False
    then have "K < n + Suc k" "0 < n" using Suc.prems(2) by auto
    with Suc.IH ok1 ok2 reset_ok run comp show ?thesis by (auto split: run_outcome.split)
  qed
qed

end

definition taken :: "string \<Rightarrow> dispatch_db \<Rightarrow> bool" where
  "taken tid d \<longleftrightarrow> list_ex (held tid) (queue d) \<or>
     list_ex (\<lambda>r. durable_dispatch tid r \<and> claim_state r = Processing) (spool_rows d)"

lemma to_pending_simps [simp]:
  "durable_dispatch tid (to_pending r) = durable_dispatch tid r" "claim_state (to_pending r) = Pending"
  by (simp_all add: to_pending_def durable_dispatch_def payload_text_def)

lemma ex_update_where:
  assumes "\<And>r. q (if p r then f r else r) \<longleftrightarrow> q r \<or> p r"
  shows "(\<exists>r \<in> set (update_where p f rows). q r) \<longleftrightarrow> (\<exists>r \<in> set rows. q r) \<or> (\<exists>r \<in> set rows. p r)"
  unfolding update_where_def set_map bex_simps assms by blast

lemma hasPending_ex:
  "hasPending d tid \<longleftrightarrow> (\<exists>e \<in> set (queue d). claimable tid e) \<or>
     (\<exists>r \<in> set (spool_rows d). durable_dispatch tid r \<and> claim_state r = Pending)"
  using not_hasPending [of d tid] by blast

lemma reset_thread_pending: "hasPending (reset_thread now tid d) tid \<longleftrightarrow> hasPending d tid \<or> taken tid d"
proof -
  have "(\<exists>e \<in> set (queue (reset_thread now tid d)). claimable tid e) \<longleftrightarrow>
      (\<exists>e \<in> set (queue d). claimable tid e) \<or> (\<exists>e \<in> set (queue d). held tid e)"
    unfolding reset_thread_eq dispatch_db.simps by (rule ex_update_where) (auto simp: claimable_def held_def)
  moreover have "(\<exists>r \<in> set (spool_rows (reset_thread now tid d)). durable_dispatch tid r \<and> claim_state r = Pending) \<longleftrightarrow>
      (\<exists>r \<in> set (spool_rows d). durable_dispatch tid r \<and> claim_state r = Pending) \<or>
      (\<exists>r \<in> set (spool_rows d). durable_dispatch tid r \<and> claim_state r = Processing)"
    unfolding reset_thread_eq dispatch_db.simps by (rule ex_update_where) auto
  ultimately show ?thesis by (auto simp: hasPending_ex taken_def list_ex_iff)
qed

lemma reset_thread_taken: "\<not> taken tid (reset_thread now tid d)"
  by (auto simp: reset_thread_eq taken_def list_ex_iff held_def elim!: in_update_whereE)

interpretation thread_queue: wakeup_queue
  "\<lambda>d. hasPending d tid" "taken tid" "\<lambda>k. reset_thread (clock k) tid" dispatch_ok for tid clock
  by unfold_locales (simp_all add: reset_thread_pending reset_thread_taken reset_thread_ok)

section \<open>Guarantees of the executor\<close>

lemma intake_run_finished:
  assumes ok: "dispatch_ok d" and run: "intake_run c tok clock tid siteId loop k d = (ms, Finished, d1)"
    and quiet: "\<And>d. \<not> hasPending d tid \<Longrightarrow> \<not> hasPending (snd (snd (loop k d))) tid"
  shows "\<not> hasPending d1 tid"
proof -
  from run obtain d0 claimed where claim: "claimPending c (tok k) (clock k) tid siteId d = Some (d0, claimed)"
    by (auto simp: intake_run_def split: option.splits)
  have np: "\<not> hasPending d0 tid" using ok claim by (rule claimPending_drains)
  have ack: "\<not> hasPending (acknowledgeBatch t es x) tid" if "\<not> hasPending x tid" for t es x
    using that unfolding not_hasPending acknowledgeBatch_eq
    by (auto simp: claimable_def durable_dispatch_def to_consumed_def elim!: in_update_whereE)
  show ?thesis
    using run np ack [OF quiet [OF np]]
    by (auto simp: intake_run_def claim split: if_splits prod.splits run_outcome.splits)
qed

lemma intake_run_ok:
  assumes "dispatch_ok d" and "\<And>d. dispatch_ok d \<Longrightarrow> dispatch_ok (snd (snd (loop k d)))"
  shows "dispatch_ok (snd (snd (intake_run c tok clock tid siteId loop k d)))"
proof (cases "claimPending c (tok k) (clock k) tid siteId d")
  case None
  with assms show ?thesis by (simp add: intake_run_def)
next
  case (Some p)
  obtain d1 es where p: "p = (d1, es)" by (cases p)
  then have "dispatch_ok d1" using claimPending_ok assms(1) Some by blast
  then have "dispatch_ok (snd (snd (loop k d1)))" by (rule assms(2))
  with \<open>dispatch_ok d1\<close> Some p show ?thesis
    by (auto simp: intake_run_def acknowledgeBatch_ok split: prod.split run_outcome.split)
qed

text \<open>A relayed intake terminates. When the agent loop yields only because a new wakeup of the
  thread has arrived, and from run \<open>K\<close> on the loop makes no new wakeup arrive, then \<open>K + 1\<close>
  iterations are enough for the executor to return, whatever the earlier runs did.\<close>

theorem intake_terminates:
  assumes "dispatch_ok d"
    and "\<And>k d. dispatch_ok d \<Longrightarrow> dispatch_ok (snd (snd (runLocalLoop k d)))"
    and "\<And>k d. fst (snd (runLocalLoop k d)) = Yielded \<Longrightarrow> hasPending (snd (snd (runLocalLoop k d))) threadId"
    and "\<And>k d. K \<le> k \<Longrightarrow> \<not> hasPending d threadId \<Longrightarrow> \<not> hasPending (snd (snd (runLocalLoop k d))) threadId"
  shows "execute (Suc K) ms clock threadId (intake_run c tok clock threadId siteId runLocalLoop)
           (Some (\<lambda>k d. (True, d))) locks d \<noteq> None"
proof -
  let ?run = "\<lambda>k d. withTimeout ms (intake_run c tok clock threadId siteId runLocalLoop k d)"
  have "drain_loop (\<lambda>d. hasPending d threadId) (\<lambda>k. reset_thread (clock k) threadId) ?run
      (Some (\<lambda>k d. (True, d))) (Suc K) 0 d \<noteq> None"
  proof (rule thread_queue.drain_terminates [where K = K])
    show "dispatch_ok (snd (?run k d))" if "dispatch_ok d" for k d
      using intake_run_ok [OF that, where k = k] assms(2)
      by (auto simp: withTimeout_def split: prod.split) (metis snd_conv)+
    show "fst (?run k d) \<noteq> Yielded" if "K \<le> k" and "dispatch_ok d" for k d
    proof
      note h = that
      assume "fst (?run k d) = Yielded"
      then have "fst (snd (intake_run c tok clock threadId siteId runLocalLoop k d)) = Yielded"
        by (auto simp: withTimeout_def split: prod.splits if_splits)
      then obtain d0 claimed where claim: "claimPending c (tok k) (clock k) threadId siteId d = Some (d0, claimed)"
          "fst (snd (runLocalLoop k d0)) = Yielded"
        by (auto simp: intake_run_def split: option.splits if_splits prod.splits run_outcome.splits)
      then show False
        using claimPending_drains [OF h(2) claim(1)] assms(3) assms(4) [OF h(1)] by blast
    qed
    show "\<not> hasPending d2 threadId"
      if "K \<le> k" "dispatch_ok d" "?run k d = (Finished, d1)" "notify_complete (Some (\<lambda>k d. (True, d))) k d1 = (b, d2)"
      for k d d1 d2 b
    proof -
      note h = that
      obtain dur where "intake_run c tok clock threadId siteId runLocalLoop k d = (dur, Finished, d1)"
        using h(3) by (auto simp: withTimeout_def split: prod.splits if_splits)
      from intake_run_finished [OF h(2) this] assms(4) [OF h(1)] h(4)
      show ?thesis by (simp add: notify_complete_def)
    qed
  qed (simp_all add: notify_complete_def assms(1))
  then show ?thesis by (auto simp: execute_def simp del: drain_loop.simps)
qed

text \<open>An agent loop that finishes without touching the queue.\<close>

definition example_loop :: "nat \<Rightarrow> dispatch_db \<Rightarrow> int \<times> run_outcome \<times> dispatch_db" where
  "example_loop k d = (5, Finished, d)"

theorem intake_terminates_witness:
  "execute 1 100 (\<lambda>k. 9) ''t'' (intake_run example_codec (\<lambda>k. example_token) (\<lambda>k. 9) ''t'' ''host'' example_loop)
     (Some (\<lambda>k d. (True, d))) [''other''] example_dispatch \<noteq> None"
  using intake_terminates [OF example_dispatch_ok, of example_loop "''t''" 0] by (simp add: example_loop_def)













end
