(* ===== verification/Write_Transactions.thy ===== *)
theory Write_Transactions
  imports Change_Log
begin

text \<open>
  Programs of writes under \<open>withTx\<close>: rows are inserted, updated, compare-and-swapped and
  soft-deleted, transactions nest, and a caller may catch the error of a part. The theorems
  say that such a program is atomic, that the events delivered are exactly those of the
  committed log entries in log order, and that the log stays strictly ordered by its stamps.
\<close>

datatype "write" =
    Insert string jobject
  | Update string string jobject
  | Update_If string string jobject jobject
  | Delete string string
  | Attempt "write"
  | Nested "write list"

definition attempt :: "unit action \<Rightarrow> unit action" where
  "attempt act st = (Inr (), snd (act st))"

definition ignore_result :: "'a action \<Rightarrow> unit action" where
  "ignore_result act = and_then act (\<lambda>_. return ())"

fun run_write :: "schema \<Rightarrow> bus \<Rightarrow> string \<Rightarrow> write \<Rightarrow> unit action"
  and run_writes :: "schema \<Rightarrow> bus \<Rightarrow> string \<Rightarrow> write list \<Rightarrow> unit action" where
  "run_write s bus site (Insert t rd) = ignore_result (insertRow s bus t rd site)"
| "run_write s bus site (Update t i u) = ignore_result (updateRow s bus t i u site)"
| "run_write s bus site (Update_If t i c u) = ignore_result (updateRowIf s bus t i c u site)"
| "run_write s bus site (Delete t i) = ignore_result (softDelete s bus t i site)"
| "run_write s bus site (Attempt w) = attempt (run_write s bus site w)"
| "run_write s bus site (Nested ws) = withTx bus (run_writes s bus site ws)"
| "run_writes s bus site [] = return ()"
| "run_writes s bus site (w # ws) = and_then (run_write s bus site w) (\<lambda>_. run_writes s bus site ws)"

text \<open>The number of log entries a program can make.\<close>

fun write_count :: "write \<Rightarrow> nat" where
  "write_count (Attempt w) = write_count w"
| "write_count (Nested ws) = sum_list (map write_count ws)"
| "write_count w = 1"

section \<open>Log and events move together\<close>

definition lockstep :: "'a action \<Rightarrow> bool" where
  "lockstep act \<longleftrightarrow>
     (\<forall>st r st' scope outer. act st = (r, st') \<longrightarrow> scopes st = scope # outer \<longrightarrow>
        r \<noteq> Inl Listener_Failed \<and>
        (\<exists>es. change_log st' = change_log st @ es \<and>
              scopes st' = (scope @ map event_of es) # outer \<and> emitted st' = emitted st))"

lemma lockstepE:
  assumes "lockstep act" and "act st = (r, st')" and "scopes st = scope # outer"
  obtains es where "r \<noteq> Inl Listener_Failed" and "change_log st' = change_log st @ es"
    and "scopes st' = (scope @ map event_of es) # outer" and "emitted st' = emitted st"
  using assms unfolding lockstep_def by blast

lemma lockstepI:
  assumes "\<And>st r st' scope outer. act st = (r, st') \<Longrightarrow> scopes st = scope # outer \<Longrightarrow>
        r \<noteq> Inl Listener_Failed \<and>
        (\<exists>es. change_log st' = change_log st @ es \<and>
              scopes st' = (scope @ map event_of es) # outer \<and> emitted st' = emitted st)"
  shows "lockstep act"
  using assms unfolding lockstep_def by blast

lemma lockstep_return: "lockstep (return a)"
  by (auto simp: lockstep_def return_def)

lemma lockstep_throw: "e \<noteq> Listener_Failed \<Longrightarrow> lockstep (throw e)"
  by (auto simp: lockstep_def throw_def)

lemma lockstep_and_then:
  assumes "lockstep f" and "\<And>a. lockstep (g a)"
  shows "lockstep (and_then f g)"
proof (rule lockstepI)
  fix st r st' scope outer
  assume run: "and_then f g st = (r, st')" and sc: "scopes st = scope # outer"
  obtain q st1 where f: "f st = (q, st1)" by (cases "f st")
  obtain es where es: "q \<noteq> Inl Listener_Failed" "change_log st1 = change_log st @ es"
      "scopes st1 = (scope @ map event_of es) # outer" "emitted st1 = emitted st"
    using lockstepE [OF assms(1) f sc] by metis
  show "r \<noteq> Inl Listener_Failed \<and> (\<exists>es. change_log st' = change_log st @ es \<and>
          scopes st' = (scope @ map event_of es) # outer \<and> emitted st' = emitted st)"
  proof (cases q)
    case (Inl e)
    then show ?thesis using run f es by (auto simp: and_then_def)
  next
    case (Inr a)
    then have "g a st1 = (r, st')" using run f by (simp add: and_then_def)
    then obtain es' where "r \<noteq> Inl Listener_Failed" "change_log st' = change_log st1 @ es'"
        "scopes st' = ((scope @ map event_of es) @ map event_of es') # outer" "emitted st' = emitted st1"
      using lockstepE [OF assms(2) _ es(3)] by metis
    then show ?thesis using es by (auto intro!: exI [of _ "es @ es'"])
  qed
qed

lemma lockstep_validate: "lockstep (validate_columns cs)"
  by (rule lockstepI) (auto simp: validate_columns_run split: option.splits)

lemma lockstep_attempt: "lockstep act \<Longrightarrow> lockstep (attempt act)"
  by (rule lockstepI) (auto simp: attempt_def elim!: lockstepE [OF _ surjective_pairing])

lemma lockstep_ignore: "lockstep act \<Longrightarrow> lockstep (ignore_result act)"
  by (simp add: ignore_result_def lockstep_and_then lockstep_return)

text \<open>The logged bodies of the write helpers, once committed, are in lockstep.\<close>

context logged_body
begin

lemma commit_not_listener:
  assumes "commit_and_emit bus t site body st = (r, st')" and "scopes st = scope # outer"
  shows "r \<noteq> Inl Listener_Failed"
proof -
  obtain q st1 where q: "in_transaction body st = (q, st1)" by (cases "in_transaction body st")
  have "scopes st1 = scope # outer" using transaction_log(1) [OF q] assms(2) by (simp add: same_env_def)
  then show ?thesis
    using assms(1) q transaction_log(2) [OF q]
    by (cases q) (auto simp: commit_and_emit_def action_defs emitWrittenChangeLogEvent_def
        emitChangeLogEvent_def split: option.splits)
qed

lemma commit_lockstep: "lockstep (commit_and_emit bus t site body)"
  by (rule lockstepI, rule conjI, erule (1) commit_not_listener, erule (1) buffered)

end

lemma lockstep_writes:
  "lockstep (insertRow s bus t rd site)" "lockstep (updateRow s bus t i u site)"
  "lockstep (updateRowIf s bus t i c u site)" "lockstep (softDelete s bus t i site)"
  by (simp_all add: insertRow_def updateRow_def updateRowIf_def softDelete_def lockstep_throw
      lockstep_and_then lockstep_validate lockstep_return
      ins.commit_lockstep upd.commit_lockstep cas.commit_lockstep del.commit_lockstep)

section \<open>Nested and outermost transactions\<close>

text \<open>What the body of a transaction does under its own fresh scope.\<close>

lemma transaction_scope:
  assumes "lockstep fn" and "in_transaction fn (st\<lparr>scopes := [] # scopes st\<rparr>) = (r, st2)"
  obtains (failed) e evs where "r = Inl e" and "e \<noteq> Listener_Failed" and "tables st2 = tables st"
      and "change_log st2 = change_log st" and "scopes st2 = evs # scopes st" and "emitted st2 = emitted st"
  | (committed) a es where "r = Inr a" and "change_log st2 = change_log st @ es"
      and "scopes st2 = map event_of es # scopes st" and "emitted st2 = emitted st"
  using assms(2)
proof (cases rule: in_transactionE)
  case (ok a)
  then show ?thesis
    using lockstepE [OF assms(1) ok(2), of "[]" "scopes st"] that(2) by auto
next
  case (failed e st1)
  then show ?thesis
    using lockstepE [OF assms(1) failed(2), of "[]" "scopes st"] that(1) [of e] by auto
qed

lemma drain_run:
  "snd (drainChangeLogEvents bus evs st) =
     (if bus = None then st else st\<lparr>emitted := emitted st @ evs\<rparr>)"
  "fst (drainChangeLogEvents bus evs st) = Inl e \<Longrightarrow> e = Listener_Failed"
  by (induction bus evs st arbitrary: e rule: drainChangeLogEvents.induct)
    (auto simp: deliver_def Let_def case_prod_unfold split: option.splits if_splits)

lemma withTx_nested: "lockstep fn \<Longrightarrow> lockstep (withTx bus fn)"
proof (rule lockstepI)
  fix st r st' scope outer
  assume fn: "lockstep fn" and run: "withTx bus fn st = (r, st')" and sc: "scopes st = scope # outer"
  obtain q st2 where q: "in_transaction fn (st\<lparr>scopes := [] # scopes st\<rparr>) = (q, st2)"
    by (cases "in_transaction fn (st\<lparr>scopes := [] # scopes st\<rparr>)")
  from fn q show "r \<noteq> Inl Listener_Failed \<and> (\<exists>es. change_log st' = change_log st @ es \<and>
          scopes st' = (scope @ map event_of es) # outer \<and> emitted st' = emitted st)"
  proof (cases rule: transaction_scope)
    case (failed e evs)
    then show ?thesis using run q sc by (auto simp: withTx_def intro!: exI [of _ "[]"])
  next
    case (committed a es)
    then show ?thesis using run q sc by (auto simp: withTx_def intro!: exI [of _ es])
  qed
qed

lemma run_lockstep: "lockstep (run_write s bus site w)" "lockstep (run_writes s bus site ws)"
  by (induction s bus site w and s bus site ws rule: run_write_run_writes.induct)
    (simp_all add: lockstep_writes lockstep_ignore lockstep_attempt withTx_nested lockstep_return lockstep_and_then)

section \<open>The log stays ordered\<close>

text \<open>A log that is strictly ordered and has room for \<open>m\<close> more local stamps.\<close>

definition log_ready :: "nat \<Rightarrow> store \<Rightarrow> bool" where
  "log_ready m st \<longleftrightarrow>
     sorted_wrt (<) (map hlc (change_log st)) \<and> m \<le> 65535 \<and> (\<forall>k. wall_wf (now_at st k)) \<and>
     (\<forall>e \<in> set (change_log st). hlc_wf (hlc e) \<and> hlc_number (hlc e) + m \<le> 65535)"

lemma log_ready_mono: "log_ready n st \<Longrightarrow> m \<le> n \<Longrightarrow> log_ready m st"
  by (force simp: log_ready_def)

lemma log_ready_append:
  assumes "log_ready (Suc m) st" and "site_wf site"
    and "hlc e = generateHlc (now_at st k) (latest (map hlc (change_log st))) site"
    and "change_log st' = change_log st @ [e]" and "now_at st' = now_at st"
  shows "log_ready m st'"
proof -
  let ?hs = "map hlc (change_log st)"
  have w: "wall_wf (now_at st k)" and m: "m \<le> 65535"
    and room: "\<forall>h \<in> set ?hs. hlc_wf h \<and> hlc_number h + Suc m \<le> 65535"
    using assms(1) by (auto simp: log_ready_def)
  then have r: "\<forall>h \<in> set ?hs. hlc_wf h \<and> hlc_room h" by (force simp: hlc_room_def)
  have "hlc_wf (hlc e)" "\<forall>h \<in> set ?hs. h < hlc e"
    using hlc.tick_log [OF w assms(2) r] assms(3) by simp_all
  moreover have "hlc_number (hlc e) + m \<le> 65535"
    using generateHlc_number [OF w assms(2) room m] assms(3) by simp
  ultimately show ?thesis
    using assms(1,4,5) by (auto simp: log_ready_def sorted_wrt_append)
qed

definition orderly :: "nat \<Rightarrow> 'a action \<Rightarrow> bool" where
  "orderly n act \<longleftrightarrow> (\<forall>m st. log_ready (n + m) st \<longrightarrow> log_ready m (snd (act st)))"

lemma orderly_mono: "orderly n act \<Longrightarrow> n \<le> k \<Longrightarrow> orderly k act"
  unfolding orderly_def by (meson add_le_mono1 log_ready_mono)

lemma orderly_and_then:
  assumes "orderly n f" and "\<And>a. orderly k (g a)"
  shows "orderly (n + k) (and_then f g)"
  unfolding orderly_def
proof (intro allI impI)
  fix m st
  assume ready: "log_ready (n + k + m) st"
  obtain q st1 where f: "f st = (q, st1)" by (cases "f st")
  have r1: "log_ready (k + m) st1"
    using assms(1) ready f unfolding orderly_def by (metis add.assoc snd_conv)
  show "log_ready m (snd (and_then f g st))"
  proof (cases q)
    case (Inl e)
    then show ?thesis using log_ready_mono [OF r1, of m] f by (simp add: and_then_def)
  next
    case (Inr a)
    then show ?thesis using assms(2) [of a] r1 f by (simp add: and_then_def orderly_def)
  qed
qed

lemma orderly_0: "(\<And>st. change_log (snd (act st)) = change_log st \<and> now_at (snd (act st)) = now_at st) \<Longrightarrow> orderly 0 act"
  by (simp add: orderly_def log_ready_def)

lemma orderly_return: "orderly 0 (return a)"
  by (rule orderly_0) (simp add: return_def)

lemma orderly_emit: "orderly 0 (emitWrittenChangeLogEvent bus t site h)"
  by (rule orderly_0)
    (auto simp: emitWrittenChangeLogEvent_def emitChangeLogEvent_def deliver_def return_def split: option.splits list.splits)

lemma orderly_transaction:
  assumes "orderly n fn"
  shows "orderly n (in_transaction fn)"
  unfolding orderly_def
proof (intro allI impI)
  fix m st
  assume ready: "log_ready (n + m) st"
  obtain q st1 where fn: "fn st = (q, st1)" by (cases "fn st")
  have r1: "log_ready m st1" using assms ready fn unfolding orderly_def by (metis snd_conv)
  show "log_ready m (snd (in_transaction fn st))"
  proof (cases q)
    case (Inl e)
    then show ?thesis using r1 log_ready_mono [OF ready, of m] fn
      by (simp add: in_transaction_def log_ready_def)
  next
    case (Inr a)
    then show ?thesis using r1 fn by (simp add: in_transaction_def)
  qed
qed

context logged_body
begin

lemma body_orderly:
  assumes "site_wf site"
  shows "orderly 1 (in_transaction body)"
  unfolding orderly_def
proof (intro allI impI)
  fix m st
  assume ready: "log_ready (1 + m) st"
  obtain r st' where run: "in_transaction body st = (r, st')" by (cases "in_transaction body st")
  have now: "now_at st' = now_at st" using transaction_log(1) [OF run] by (simp add: same_env_def)
  show "log_ready m (snd (in_transaction body st))"
  proof (cases "\<exists>h. r = Inr (Some h)")
    case False
    then have "change_log st' = change_log st"
      using transaction_log(2,3) [OF run] by (metis not_None_eq sum.exhaust)
    then show ?thesis using log_ready_mono [OF ready, of m] now run by (simp add: log_ready_def)
  next
    case True
    then obtain h where h: "r = Inr (Some h)" by blast
    then have b: "body st = (Inr (Some h), st')" using run by (auto elim: in_transactionE)
    obtain e where e: "change_log st' = change_log st @ [e]" "hlc e = h"
      using body_some [OF b] by blast
    obtain k where k: "h = generateHlc (now_at st k) (latest (map hlc (change_log st))) site"
      using body_stamp [OF b] by blast
    have "log_ready m st'"
      using log_ready_append [OF _ assms, of m st e k st'] ready e k now by simp
    then show ?thesis using run by simp
  qed
qed

lemma commit_orderly: "site_wf site \<Longrightarrow> orderly 1 (commit_and_emit bus t site body)"
  unfolding commit_and_emit_def
  using orderly_and_then [OF body_orderly orderly_and_then [OF orderly_emit orderly_return]] by simp

end

lemma orderly_validate: "orderly 0 (validate_columns cs)"
  by (rule orderly_0) (simp add: validate_columns_run)

lemma orderly_throw: "orderly n (throw e)"
  by (rule orderly_mono [OF orderly_0]) (simp_all add: throw_def)

lemma orderly_writes:
  assumes "site_wf site"
  shows "orderly 1 (insertRow s bus t rd site)" and "orderly 1 (updateRow s bus t i u site)"
    and "orderly 1 (updateRowIf s bus t i c u site)" and "orderly 1 (softDelete s bus t i site)"
proof -
  have "orderly (0 + 1) (and_then (validate_columns (map fst rd))
          (\<lambda>_. commit_and_emit bus t site (insert_body s t rd site)))"
    by (rule orderly_and_then [OF orderly_validate ins.commit_orderly [OF assms]])
  then show "orderly 1 (insertRow s bus t rd site)"
    by (simp add: insertRow_def orderly_throw)
  show "orderly 1 (updateRow s bus t i u site)" and "orderly 1 (softDelete s bus t i site)"
    unfolding updateRow_def softDelete_def
    by (rule upd.commit_orderly [OF assms], rule del.commit_orderly [OF assms])
  show "orderly 1 (updateRowIf s bus t i c u site)"
    using orderly_and_then [OF cas.commit_orderly [OF assms] orderly_return]
    by (simp add: updateRowIf_def)
qed

lemma orderly_withTx:
  assumes "orderly n fn"
  shows "orderly n (withTx bus fn)"
  unfolding orderly_def
proof (intro allI impI)
  fix m st
  assume "log_ready (n + m) st"
  then have ready: "log_ready (n + m) (st\<lparr>scopes := [] # scopes st\<rparr>)" by (simp add: log_ready_def)
  obtain q st2 where q: "in_transaction fn (st\<lparr>scopes := [] # scopes st\<rparr>) = (q, st2)"
    by (cases "in_transaction fn (st\<lparr>scopes := [] # scopes st\<rparr>)")
  have "log_ready m st2"
    using orderly_transaction [OF assms] ready q unfolding orderly_def by (metis snd_conv)
  moreover have "change_log (snd (withTx bus fn st)) = change_log st2 \<and> now_at (snd (withTx bus fn st)) = now_at st2"
    using q drain_run(1) [of bus _ st2]
    by (auto simp: withTx_def case_prod_unfold Let_def split: sum.split list.split)
  ultimately show "log_ready m (snd (withTx bus fn st))" by (simp add: log_ready_def)
qed

lemma orderly_ignore: "orderly n act \<Longrightarrow> orderly n (ignore_result act)"
  using orderly_and_then [OF _ orderly_return, of n act "\<lambda>_. ()"] by (simp add: ignore_result_def)

lemma orderly_attempt: "orderly n act \<Longrightarrow> orderly n (attempt act)"
  by (simp add: orderly_def attempt_def)

lemma run_orderly:
  assumes "site_wf site"
  shows "orderly (write_count w) (run_write s bus site w)"
    and "orderly (sum_list (map write_count ws)) (run_writes s bus site ws)"
  using assms
  by (induction s bus site w and s bus site ws rule: run_write_run_writes.induct)
    (simp_all add: orderly_writes [simplified] orderly_ignore orderly_attempt orderly_withTx
      orderly_return orderly_and_then)

section \<open>Properties\<close>

text \<open>C14: an outermost transaction over any program of writes, nested transactions and caught
  errors included, is atomic, and its notifications are exactly its committed entries. If the
  program throws, tables, change log and delivered events are as before. Otherwise the log has
  grown by some entries and the bus has been given exactly their events, in log order; a
  throwing listener is reported only after every event has been delivered.\<close>

theorem withTx_atomic:
  assumes "scopes st = []" and "withTx (Some throws) (run_writes s (Some throws) site ws) st = (r, st')"
  shows "scopes st' = [] \<and>
    (r = Inl e \<and> e \<noteq> Listener_Failed \<longrightarrow>
       tables st' = tables st \<and> change_log st' = change_log st \<and> emitted st' = emitted st) \<and>
    (r = Inr () \<or> r = Inl Listener_Failed \<longrightarrow>
       (\<exists>es. change_log st' = change_log st @ es \<and> emitted st' = emitted st @ map event_of es))"
proof -
  let ?fn = "run_writes s (Some throws) site ws"
  obtain q st2 where q: "in_transaction ?fn (st\<lparr>scopes := [] # scopes st\<rparr>) = (q, st2)"
    by (cases "in_transaction ?fn (st\<lparr>scopes := [] # scopes st\<rparr>)")
  from run_lockstep(2) q show ?thesis
  proof (cases rule: transaction_scope)
    case (failed e evs)
    then show ?thesis using assms q by (auto simp: withTx_def)
  next
    case (committed a es)
    obtain d st3 where d: "drainChangeLogEvents (Some throws) (map event_of es) st2 = (d, st3)"
      by (cases "drainChangeLogEvents (Some throws) (map event_of es) st2")
    have "st3 = st2\<lparr>emitted := emitted st2 @ map event_of es\<rparr>" "\<And>e. d = Inl e \<Longrightarrow> e = Listener_Failed"
      using drain_run [of "Some throws" "map event_of es" st2] d by simp_all
    then show ?thesis using assms q d committed
      by (cases d) (auto simp: withTx_def intro!: exI [of _ es])
  qed
qed

theorem withTx_atomic_witness:
  "emitted (snd (withTx (Some (\<lambda>_. False))
     (run_writes plain_schema (Some (\<lambda>_. False)) ''ab12''
        [Insert ''users'' [(''id'', JStr ''u1'')], Nested [Update ''users'' ''u1'' [(''status'', JStr ''x'')]],
         Delete ''users'' ''u2'']) empty_store)) = []"
proof -
  let ?run = "withTx (Some (\<lambda>_. False))
     (run_writes plain_schema (Some (\<lambda>_. False)) ''ab12''
        [Insert ''users'' [(''id'', JStr ''u1'')], Nested [Update ''users'' ''u1'' [(''status'', JStr ''x'')]],
         Delete ''users'' ''u2'']) empty_store"
  have res: "fst ?run = Inl Row_Disappeared" by code_simp
  have "scopes empty_store = []" by (simp add: empty_store_def)
  from withTx_atomic [OF this surjective_pairing] res have "emitted (snd ?run) = emitted empty_store" by blast
  then show ?thesis by (simp only: empty_store_def store.simps)
qed

text \<open>writes keep the change log strictly ordered by its stamps in the order they were made,
  so replaying by \<open>hlc\<close> is replaying in commit order: after any program of writes from a
  well-formed, strictly ordered log whose counters leave room for the program, the log is again
  strictly ordered and well-formed, whatever the wall clock does.\<close>

theorem writes_ordered:
  assumes "sorted_wrt (<) (map hlc (change_log st))"
    and "\<forall>e \<in> set (change_log st). hlc_wf (hlc e) \<and> hlc_number (hlc e) + sum_list (map write_count ws) \<le> 65535"
    and "sum_list (map write_count ws) \<le> 65535"
    and "\<forall>k. length (now_at st k) = 24" and "CHR ''_'' \<notin> set site"
  shows "sorted_wrt (<) (map hlc (change_log (snd (run_writes s bus site ws st)))) \<and>
         (\<forall>e \<in> set (change_log (snd (run_writes s bus site ws st))). hlc_wf (hlc e))"
proof -
  have "site_wf site" using assms(5) by (simp add: site_wf_def)
  then have "orderly (sum_list (map write_count ws)) (run_writes s bus site ws)" by (rule run_orderly(2))
  moreover have "log_ready (sum_list (map write_count ws) + 0) st"
    using assms by (simp add: log_ready_def wall_wf_def)
  ultimately have "log_ready 0 (snd (run_writes s bus site ws st))" unfolding orderly_def by blast
  then show ?thesis by (simp add: log_ready_def)
qed

theorem writes_ordered_witness:
  "sorted_wrt (<) (map hlc (change_log (snd
     (run_writes plain_schema None ''ab12'' [Insert ''users'' [(''id'', JStr ''u1'')], Delete ''users'' ''u1'']
        empty_store))))"
proof -
  let ?ws = "[Insert ''users'' [(''id'', JStr ''u1'')], Delete ''users'' ''u1'']"
  have n: "sum_list (map write_count ?ws) = 2" by simp
  have log: "change_log empty_store = []" and now: "now_at empty_store k = ''2026-01-02T03:04:05.678Z''" for k
    by (simp_all add: empty_store_def)
  show ?thesis
    using writes_ordered [of empty_store ?ws "''ab12''" plain_schema None, THEN conjunct1]
    unfolding n log now by simp
qed

end
