(* ===== verification/Memory_Relations.thy ===== *)
theory Memory_Relations
  imports Write_Transactions
begin

text \<open>
  The canonical relations of memory edges (\<open>packages/core/src/memory-relations.ts\<close>) and the
  startup pass that rewrites stored edges (\<open>packages/core/src/normalize-edge-relations.ts\<close>).
\<close>

section \<open>Relations\<close>

definition CANONICAL_RELATIONS :: "string list" where
  "CANONICAL_RELATIONS =
     [''related_to'', ''informs'', ''supports'', ''extends'', ''complements'', ''contrasts-with'',
      ''competes-with'', ''cites'', ''summarizes'', ''synthesizes'']"

definition isCanonicalRelation :: "string \<Rightarrow> bool" where
  "isCanonicalRelation rel \<longleftrightarrow> rel \<in> set CANONICAL_RELATIONS"

definition SPELLING_VARIANTS :: "(string \<times> string) list" where
  "SPELLING_VARIANTS =
     [(''related-to'', ''related_to''), (''relates_to'', ''related_to''), (''relates'', ''related_to''),
      (''related'', ''related_to''), (''relates-to'', ''related_to''), (''relate'', ''related_to''),
      (''inform'', ''informs''), (''informed_by'', ''informs''), (''informed-by'', ''informs''),
      (''support'', ''supports''), (''supported_by'', ''supports''), (''supported-by'', ''supports''),
      (''extend'', ''extends''), (''extended_by'', ''extends''), (''extended-by'', ''extends''),
      (''complement'', ''complements''), (''complementary'', ''complements''),
      (''complementary-to'', ''complements''),
      (''contrasts'', ''contrasts-with''), (''contrasts_with'', ''contrasts-with''),
      (''contrast'', ''contrasts-with''),
      (''competes'', ''competes-with''), (''competes_with'', ''competes-with''),
      (''compete'', ''competes-with''),
      (''cite'', ''cites''), (''cited_by'', ''cites''), (''cited-by'', ''cites''),
      (''references'', ''cites''), (''reference'', ''cites''),
      (''summarize'', ''summarizes''), (''summary_of'', ''summarizes''), (''summary-of'', ''summarizes''),
      (''summarizes-to'', ''summarizes''),
      (''synthesize'', ''synthesizes''), (''synthesis_of'', ''synthesizes''),
      (''synthesis-of'', ''synthesizes'')]"

definition FALLBACK_RELATION :: string where
  "FALLBACK_RELATION = ''related_to''"

text \<open>\<open>toLowerCase\<close> on ASCII.\<close>

definition lower_char :: "char \<Rightarrow> char" where
  "lower_char c = (let n = of_char c :: nat in if 65 \<le> n \<and> n \<le> 90 then char_of (n + 32) else c)"

definition to_lower :: "string \<Rightarrow> string" where
  "to_lower s = map lower_char s"

text \<open>The property read \<open>SPELLING_VARIANTS[key]\<close> on an object literal: an own key, or one of
  the two all-lower-case members every object inherits, which are objects (written \<open>JObj []\<close>),
  or undefined.\<close>

definition variant_of :: "string \<Rightarrow> json option" where
  "variant_of key =
     (case map_of SPELLING_VARIANTS key of
        Some v \<Rightarrow> Some (JStr v)
      | None \<Rightarrow> if key = ''constructor'' \<or> key = ''__proto__'' then Some (JObj []) else None)"

definition join_parts :: "string list \<Rightarrow> string" where
  "join_parts parts = concat (case parts of [] \<Rightarrow> [] | p # ps \<Rightarrow> p # map (\<lambda>q. '' | '' @ q) ps)"

definition present :: "string option \<Rightarrow> string list" where
  "present c = (case c of Some t \<Rightarrow> if t = [] then [] else [t] | None \<Rightarrow> [])"

definition normalizeRelationValue :: "string \<Rightarrow> string option \<Rightarrow> json \<times> string option \<times> bool" where
  "normalizeRelationValue relation context0 =
     (if isCanonicalRelation relation then (JStr relation, context0, False)
      else case variant_of (to_lower relation) of
             Some variant \<Rightarrow> (variant, context0, True)
           | None \<Rightarrow> (JStr FALLBACK_RELATION, Some (join_parts (relation # present context0)), True))"

section \<open>The startup pass over stored edges\<close>

record summary =
  variants_mapped :: nat
  moved_to_context :: nat
  collisions_merged :: nat
  tombstones_normalized :: nat
  total_scanned :: nat

text \<open>Typed reads of the selected columns.\<close>

definition text_of :: "json \<Rightarrow> string" where
  "text_of v = (case v of JStr t \<Rightarrow> t | _ \<Rightarrow> [])"

definition text_or_null :: "json \<Rightarrow> string option" where
  "text_or_null v = (case v of JStr t \<Rightarrow> Some t | _ \<Rightarrow> None)"

definition number_of :: "json \<Rightarrow> rat" where
  "number_of v = (case v of JNum n \<Rightarrow> n | _ \<Rightarrow> 0)"

definition non_canonical :: "row \<Rightarrow> bool" where
  "non_canonical r \<longleftrightarrow> (case r ''relation'' of JStr rel \<Rightarrow> \<not> isCanonicalRelation rel | JNull \<Rightarrow> False | _ \<Rightarrow> True)"

text \<open>\<open>[...new Set(parts)]\<close>.\<close>

definition distinct_parts :: "string list \<Rightarrow> string list" where
  "distinct_parts parts = rev (remdups (rev parts))"

definition find_collision :: "row \<Rightarrow> json \<Rightarrow> row list \<Rightarrow> row option" where
  "find_collision row targetRelation rows =
     find (\<lambda>r. sql_eq (r ''source_key'') (row ''source_key'') \<and> sql_eq (r ''target_key'') (row ''target_key'') \<and>
               sql_eq (r ''relation'') targetRelation \<and> r ''deleted'' = JNum 0 \<and>
               r ''id'' \<noteq> JNull \<and> r ''id'' \<noteq> row ''id'') rows"

definition normalize_edge :: "schema \<Rightarrow> bus \<Rightarrow> string \<Rightarrow> row \<Rightarrow> summary \<Rightarrow> summary action" where
  "normalize_edge s bus siteId row sm st =
     (let rel = text_of (row ''relation'');
          ctx = text_or_null (row ''context'');
          i = text_of (row ''id'');
          (targetRelation, newContext, _) = normalizeRelationValue rel ctx;
          preserveInContext = (targetRelation \<noteq> JStr rel \<and> newContext \<noteq> ctx)
      in if row ''deleted'' = JNum 1 then
           and_then
             (updateRow s bus ''memory_edges'' i
                ((''relation'', targetRelation) # (if newContext \<noteq> ctx then [(''context'', opt_str newContext)] else []))
                siteId)
             (\<lambda>_. return (sm\<lparr>tombstones_normalized := tombstones_normalized sm + 1\<rparr>)) st
         else case find_collision row targetRelation (tables st ''memory_edges'') of
           Some survivor \<Rightarrow>
             (let mergedWeight = max (number_of (survivor ''weight'')) (number_of (row ''weight''));
                  contextParts = present (text_or_null (survivor ''context'')) @
                    (if preserveInContext \<and> rel \<noteq> [] then [rel] else []) @ present ctx;
                  distinctParts = distinct_parts contextParts
              in and_then
                   (updateRow s bus ''memory_edges'' (text_of (survivor ''id''))
                      ((''weight'', JNum mergedWeight) #
                       (if distinctParts = [] then [] else [(''context'', JStr (join_parts distinctParts))]))
                      siteId)
                   (\<lambda>_. and_then (softDelete s bus ''memory_edges'' i siteId)
                     (\<lambda>_. return (sm\<lparr>collisions_merged := collisions_merged sm + 1\<rparr>))) st)
         | None \<Rightarrow>
             and_then
               (updateRow s bus ''memory_edges'' i
                  ((''relation'', targetRelation) #
                   (if preserveInContext then [(''context'', JStr (join_parts (rel # present ctx)))] else []))
                  siteId)
               (\<lambda>_. return (if preserveInContext then sm\<lparr>moved_to_context := moved_to_context sm + 1\<rparr>
                            else sm\<lparr>variants_mapped := variants_mapped sm + 1\<rparr>)) st)"

fun normalize_edges :: "schema \<Rightarrow> bus \<Rightarrow> string \<Rightarrow> row list \<Rightarrow> summary \<Rightarrow> summary action" where
  "normalize_edges s bus siteId [] sm = return sm"
| "normalize_edges s bus siteId (row # rows) sm =
     and_then (normalize_edge s bus siteId row sm) (normalize_edges s bus siteId rows)"

definition normalizeEdgeRelations :: "schema \<Rightarrow> bus \<Rightarrow> string \<Rightarrow> summary action" where
  "normalizeEdgeRelations s bus siteId st =
     (let rows = filter non_canonical (tables st ''memory_edges'')
      in normalize_edges s bus siteId rows
           \<lparr>variants_mapped = 0, moved_to_context = 0, collisions_merged = 0, tombstones_normalized = 0,
            total_scanned = length rows\<rparr> st)"

section \<open>Facts about normalization\<close>

lemma variants_canonical: "(k, v) \<in> set SPELLING_VARIANTS \<Longrightarrow> isCanonicalRelation v"
proof -
  have "list_all (\<lambda>(k, v). isCanonicalRelation v) SPELLING_VARIANTS" by code_simp
  then show "(k, v) \<in> set SPELLING_VARIANTS \<Longrightarrow> isCanonicalRelation v"
    by (auto simp: list_all_iff)
qed

lemma fallback_canonical: "isCanonicalRelation FALLBACK_RELATION"
  by (simp add: isCanonicalRelation_def CANONICAL_RELATIONS_def FALLBACK_RELATION_def)

lemma normalized_relation:
  assumes "normalizeRelationValue relation ctx = (JStr rel, ctx', changed)"
  shows "isCanonicalRelation rel"
proof (cases "isCanonicalRelation relation")
  case True
  then show ?thesis using assms by (simp add: normalizeRelationValue_def)
next
  case nc: False
  show ?thesis
  proof (cases "map_of SPELLING_VARIANTS (to_lower relation)")
    case (Some v)
    then have "isCanonicalRelation v" by (blast dest: map_of_SomeD intro: variants_canonical)
    then show ?thesis using assms nc Some by (simp add: normalizeRelationValue_def variant_of_def)
  next
    case None
    then show ?thesis using assms nc fallback_canonical
      by (auto simp: normalizeRelationValue_def variant_of_def split: if_splits)
  qed
qed

lemma normalized_shape: "\<exists>rel ctx' ch. normalizeRelationValue r c = (JStr rel, ctx', ch) \<or> normalizeRelationValue r c = (JObj [], ctx', ch)"
  by (auto simp: normalizeRelationValue_def variant_of_def split: option.splits)

text \<open>What the schema of the edges contributes: relations are stored as the text they are, an
  object is not a bindable relation, and the tombstone flag is stored as it is.\<close>

definition edge_schema_ok :: "schema \<Rightarrow> bool" where
  "edge_schema_ok s \<longleftrightarrow>
     (\<forall>t. bind_value s ''memory_edges'' ''relation'' (JStr t) = Some (JStr t)) \<and>
     bind_value s ''memory_edges'' ''relation'' (JObj []) = None \<and>
     bind_value s ''memory_edges'' ''deleted'' (JNum 1) = Some (JNum 1)"

text \<open>The rows that still need work have the id of a row the loop has not reached yet.\<close>

definition pending_edges :: "row list \<Rightarrow> row list \<Rightarrow> bool" where
  "pending_edges rows todo \<longleftrightarrow>
     (\<forall>r \<in> set rows. (\<exists>i. r ''id'' = JStr i) \<and>
        (non_canonical r \<and> r ''deleted'' \<noteq> JNum 1 \<longrightarrow> (\<exists>q \<in> set todo. q ''id'' = r ''id'')))"

lemma pending_step:
  assumes "pending_edges rows (row # todo)" and "row ''id'' = JStr i"
    and "\<And>r. f r ''id'' = r ''id''"
    and "\<And>r. r \<in> set rows \<Longrightarrow> r ''id'' = JStr i \<Longrightarrow> \<not> non_canonical (f r) \<or> f r ''deleted'' = JNum 1"
  shows "pending_edges (update_where (has_id ''memory_edges'' i) f rows) todo"
  unfolding pending_edges_def
proof
  fix r
  assume r: "r \<in> set (update_where (has_id ''memory_edges'' i) f rows)"
  have id: "has_id ''memory_edges'' i x \<longleftrightarrow> x ''id'' = JStr i" for x
    by (auto simp: has_id_def getPkColumn_def sql_eq_def)
  from r show "(\<exists>i. r ''id'' = JStr i) \<and>
      (non_canonical r \<and> r ''deleted'' \<noteq> JNum 1 \<longrightarrow> (\<exists>q \<in> set todo. q ''id'' = r ''id''))"
  proof (cases rule: in_update_whereE)
    case 1
    then show ?thesis using assms(1,2) id unfolding pending_edges_def by fastforce
  next
    case (2 x)
    then have "x ''id'' = JStr i" by (simp add: id)
    then show ?thesis using 2 assms(3,4) by auto
  qed
qed

lemma pending_keep:
  assumes "pending_edges rows todo"
    and "\<And>r. f r ''id'' = r ''id'' \<and> f r ''relation'' = r ''relation'' \<and> f r ''deleted'' = r ''deleted''"
  shows "pending_edges (update_where p f rows) todo"
  unfolding pending_edges_def
proof
  fix r
  assume "r \<in> set (update_where p f rows)"
  then show "(\<exists>i. r ''id'' = JStr i) \<and>
      (non_canonical r \<and> r ''deleted'' \<noteq> JNum 1 \<longrightarrow> (\<exists>q \<in> set todo. q ''id'' = r ''id''))"
  proof (cases rule: in_update_whereE)
    case 1
    then show ?thesis using assms(1) by (simp add: pending_edges_def)
  next
    case (2 x)
    then have "non_canonical r = non_canonical x" using assms(2) by (simp add: non_canonical_def)
    then show ?thesis using 2 assms unfolding pending_edges_def by metis
  qed
qed

lemma edge_updated:
  assumes "edge_schema_ok s" and "pending_edges (tables st ''memory_edges'') (row # todo)" and "row ''id'' = JStr i"
    and "updateRow s bus ''memory_edges'' i ((''relation'', rel') # rest) site st = (Inr h, st')"
    and "rest = [] \<or> (\<exists>v. rest = [(''context'', v)])"
    and "normalizeRelationValue rel ctx = (rel', ctx', ch)"
  shows "pending_edges (tables st' ''memory_edges'') todo"
proof -
  let ?t = "''memory_edges''"
  from assms(4) obtain bound where bd:
      "bind_all s ?t (obj_set ((''relation'', rel') # rest) ''modified_at'' (JStr (now_at st (reads st)))) = Some bound"
    and t': "tables st' = (tables st)(?t := update_where (has_id ?t i) (row_with bound) (tables st ?t))"
    by (rule updateRow_rows)
  have look: "map_of bound ''relation'' = bind_value s ?t ''relation'' rel'"
    using bind_all_lookup [OF bd, of "''relation''"] by simp
  have "bind_value s ?t ''relation'' rel' \<noteq> None" using bd by (auto split: if_splits option.splits)
  then obtain rl where rl: "rel' = JStr rl"
    using normalized_shape [of rel ctx] assms(1,6) by (auto simp: edge_schema_ok_def)
  then have canon: "isCanonicalRelation rl" using normalized_relation assms(6) by blast
  have m: "map_of bound ''relation'' = Some (JStr rl)" using look rl assms(1) by (simp add: edge_schema_ok_def)
  have keep: "row_with bound r ''id'' = r ''id''" for r
    using bind_all_keys [OF bd] assms(5) by (intro row_with_miss) auto
  have "\<not> non_canonical (row_with bound r)" for r
    using row_with_hit [OF m] canon by (simp add: non_canonical_def)
  then show ?thesis
    using pending_step [OF assms(2,3), of "row_with bound"] keep t' by simp
qed

lemma edge_merged:
  assumes "edge_schema_ok s" and "pending_edges (tables st ''memory_edges'') (row # todo)" and "row ''id'' = JStr i"
    and "updateRow s bus ''memory_edges'' j ((''weight'', w) # rest) site st = (Inr h, st1)"
    and "rest = [] \<or> (\<exists>v. rest = [(''context'', v)])"
    and "softDelete s bus ''memory_edges'' i site st1 = (Inr h', st')"
  shows "pending_edges (tables st' ''memory_edges'') todo"
proof -
  let ?t = "''memory_edges''"
  from assms(4) obtain b1 where b1:
      "bind_all s ?t (obj_set ((''weight'', w) # rest) ''modified_at'' (JStr (now_at st (reads st)))) = Some b1"
    and t1: "tables st1 = (tables st)(?t := update_where (has_id ?t j) (row_with b1) (tables st ?t))"
    by (rule updateRow_rows)
  from assms(6) obtain b2 where b2:
      "bind_all s ?t [(''deleted'', JNum 1), (''modified_at'', JStr (now_at st1 (reads st1)))] = Some b2"
    and t': "tables st' = (tables st1)(?t := update_where (has_id ?t i) (row_with b2) (tables st1 ?t))"
    by (rule softDelete_rows)
  have k1: "row_with b1 r c = r c" if "c = ''id'' \<or> c = ''relation'' \<or> c = ''deleted''" for r c
    using bind_all_keys [OF b1] assms(5) that by (intro row_with_miss) auto
  have k2: "row_with b2 r ''id'' = r ''id''" for r
    using bind_all_keys [OF b2] by (intro row_with_miss) simp
  have "map_of b2 ''deleted'' = Some (JNum 1)"
    using bind_all_lookup [OF b2, of "''deleted''"] assms(1) by (simp add: edge_schema_ok_def)
  then have d: "row_with b2 r ''deleted'' = JNum 1" for r by (rule row_with_hit)
  have "pending_edges (tables st1 ?t) (row # todo)"
    using pending_keep [OF assms(2), of "row_with b1"] k1 t1 by simp
  then show ?thesis
    using pending_step [of "tables st1 ?t" row todo i "row_with b2"] assms(3) k2 d t' by simp
qed

lemma and_then_Inr:
  assumes "and_then f g st = (Inr b, st')"
  obtains a st1 where "f st = (Inr a, st1)" and "g a st1 = (Inr b, st')"
  using assms by (auto simp: and_then_def split: prod.splits sum.splits)

lemma edge_normalized:
  assumes "edge_schema_ok s" and "pending_edges (tables st ''memory_edges'') (row # todo)" and "row ''id'' = JStr i"
    and "normalize_edge s bus site row sm st = (Inr sm', st')"
  shows "pending_edges (tables st' ''memory_edges'') todo"
proof -
  let ?rel = "text_of (row ''relation'')" and ?ctx = "text_or_null (row ''context'')"
  have i: "text_of (row ''id'') = i" using assms(3) by (simp add: text_of_def)
  obtain tr nc ch where n: "normalizeRelationValue ?rel ?ctx = (tr, nc, ch)"
    by (cases "normalizeRelationValue ?rel ?ctx") auto
  note defs = normalize_edge_def Let_def i n prod.case
  consider (tomb) "row ''deleted'' = JNum 1"
    | (merge) x where "row ''deleted'' \<noteq> JNum 1" "find_collision row tr (tables st ''memory_edges'') = Some x"
    | (plain) "row ''deleted'' \<noteq> JNum 1" "find_collision row tr (tables st ''memory_edges'') = None"
    by (cases "find_collision row tr (tables st ''memory_edges'')") auto
  then show ?thesis
  proof cases
    case tomb
    from assms(4)[unfolded defs] tomb show ?thesis
      by (auto elim!: and_then_Inr simp: return_def intro: edge_updated [OF assms(1-3) _ _ n] split: if_splits)
  next
    case plain
    from assms(4)[unfolded defs] plain show ?thesis
      by (auto elim!: and_then_Inr simp: return_def intro: edge_updated [OF assms(1-3) _ _ n] split: if_splits)
  next
    case merge
    from assms(4)[unfolded defs] merge show ?thesis
      by (auto elim!: and_then_Inr simp: return_def intro: edge_merged [OF assms(1-3)] split: if_splits)
  qed
qed

lemma edges_normalized:
  assumes "edge_schema_ok s" and "pending_edges (tables st ''memory_edges'') todo"
    and "\<forall>q \<in> set todo. \<exists>i. q ''id'' = JStr i"
    and "normalize_edges s bus site todo sm st = (Inr sm', st')"
  shows "pending_edges (tables st' ''memory_edges'') []"
  using assms
proof (induction todo arbitrary: sm st)
  case Nil
  then show ?case by (simp add: return_def)
next
  case (Cons row todo)
  from Cons.prems(4) obtain sm1 st1 where st1: "normalize_edge s bus site row sm st = (Inr sm1, st1)"
    "normalize_edges s bus site todo sm1 st1 = (Inr sm', st')"
    by (auto elim: and_then_Inr)
  obtain i where "row ''id'' = JStr i" using Cons.prems(3) by auto
  then have "pending_edges (tables st1 ''memory_edges'') todo"
    using edge_normalized [OF Cons.prems(1,2) _ st1(1)] by blast
  then show ?case using Cons.IH [OF Cons.prems(1) _ _ st1(2)] Cons.prems(3) by simp
qed

section \<open>Properties\<close>

text \<open>relation healing lands in the canonical set and is idempotent. For every relation text
  that is not, in lower case, one of the two names every JavaScript object inherits, the result
  is a canonical relation, the flag says exactly whether the input was not canonical, a second
  pass changes nothing, and a bespoke phrase is kept: the new context starts with it.\<close>

theorem normalizeRelationValue_canonical:
  assumes "to_lower relation \<noteq> ''constructor''" and "to_lower relation \<noteq> ''__proto__''"
    and "normalizeRelationValue relation ctx = (rel', ctx', changed)"
  shows "\<exists>rel. rel' = JStr rel \<and> isCanonicalRelation rel \<and>
           (changed \<longleftrightarrow> \<not> isCanonicalRelation relation) \<and>
           normalizeRelationValue rel ctx' = (JStr rel, ctx', False) \<and>
           (ctx' = ctx \<or> (\<exists>rest. ctx' = Some (relation @ rest)))"
proof (cases "isCanonicalRelation relation")
  case True
  then show ?thesis using assms(3) by (auto simp: normalizeRelationValue_def)
next
  case nc: False
  show ?thesis
  proof (cases "map_of SPELLING_VARIANTS (to_lower relation)")
    case (Some v)
    then have "isCanonicalRelation v" by (blast dest: map_of_SomeD intro: variants_canonical)
    then show ?thesis using assms(3) nc Some
      by (auto simp: normalizeRelationValue_def variant_of_def)
  next
    case None
    then show ?thesis using assms nc fallback_canonical
      by (auto simp: normalizeRelationValue_def variant_of_def join_parts_def)
  qed
qed

theorem normalizeRelationValue_canonical_witness:
  "\<exists>rel. fst (normalizeRelationValue ''Cited-By'' None) = JStr rel \<and> isCanonicalRelation rel"
proof -
  have "to_lower ''Cited-By'' \<noteq> ''constructor''" "to_lower ''Cited-By'' \<noteq> ''__proto__''"
    by (simp_all add: to_lower_def)
  then show ?thesis
    using normalizeRelationValue_canonical [of "''Cited-By''" None] by (metis prod.collapse)
qed

text \<open>after a successful startup pass over the edges, every edge whose relation is still not
  canonical is a tombstone: all live edges have canonical relations.\<close>

theorem normalizeEdgeRelations_live_canonical:
  assumes "edge_schema_ok s" and "\<forall>r \<in> set (tables st ''memory_edges''). \<exists>i. r ''id'' = JStr i"
    and "normalizeEdgeRelations s bus site st = (Inr sm, st')"
    and "r \<in> set (tables st' ''memory_edges'')" and "r ''deleted'' \<noteq> JNum 1"
  shows "\<not> non_canonical r"
proof -
  let ?todo = "filter non_canonical (tables st ''memory_edges'')"
  have "pending_edges (tables st ''memory_edges'') ?todo"
    using assms(2) by (auto simp: pending_edges_def)
  then have "pending_edges (tables st' ''memory_edges'') []"
    using edges_normalized [OF assms(1)] assms(2,3) by (simp add: normalizeEdgeRelations_def Let_def)
  then show ?thesis using assms(4,5) by (auto simp: pending_edges_def)
qed

text \<open>Two edges between the same keys, one of the main agent and one of another agent, the second
  with a spelling variant of the first one's relation.\<close>

definition edge_schema :: schema where
  "edge_schema =
     plain_schema\<lparr>table_columns := (\<lambda>t. [''id'', ''source_key'', ''target_key'', ''relation'', ''weight'',
        ''context'', ''agent_id'', ''deleted'', ''modified_at'']),
       bind_value := (\<lambda>t c v. if c = ''relation'' \<and> v = JObj [] then None else Some v)\<rparr>"

definition edge_row :: "string \<Rightarrow> string \<Rightarrow> json \<Rightarrow> row" where
  "edge_row i rel agent =
     (\<lambda>c. JNull)(''id'' := JStr i, ''source_key'' := JStr ''k1'', ''target_key'' := JStr ''k2'',
       ''relation'' := JStr rel, ''weight'' := JNum 1, ''agent_id'' := agent, ''deleted'' := JNum 0)"

definition edge_store :: store where
  "edge_store = set_table ''memory_edges''
     [edge_row ''e1'' ''related_to'' JNull, edge_row ''e2'' ''relates'' (JStr ''agent2'')] empty_store"

theorem normalizeEdgeRelations_live_canonical_witness:
  "filter (\<lambda>r. non_canonical r \<and> r ''deleted'' \<noteq> JNum 1)
     (tables (snd (normalizeEdgeRelations edge_schema None ''ab12'' edge_store)) ''memory_edges'') = []"
proof -
  let ?run = "normalizeEdgeRelations edge_schema None ''ab12'' edge_store"
  have "\<not> isl (fst ?run)" by code_simp
  then obtain sm where "fst ?run = Inr sm" by (cases "fst ?run") auto
  then have run: "?run = (Inr sm, snd ?run)" by (metis prod.collapse)
  have ok: "edge_schema_ok edge_schema" by (simp add: edge_schema_ok_def edge_schema_def)
  have ids: "\<forall>r \<in> set (tables edge_store ''memory_edges''). \<exists>i. r ''id'' = JStr i"
    by (simp add: edge_store_def edge_row_def)
  show ?thesis using normalizeEdgeRelations_live_canonical [OF ok ids run] by (auto simp: filter_empty_conv)
qed

text \<open>the collision test of the startup pass ignores \<open>agent_id\<close>. An edge of another
  agent's namespace counts as the same edge: the other agent's edge is soft-deleted and folded
  into the main agent's, although the unique index lets both live side by side.\<close>

theorem normalizeEdgeRelations_crosses_namespaces:
  "map (\<lambda>r. (r ''id'', r ''agent_id'', r ''deleted''))
     (tables (snd (normalizeEdgeRelations edge_schema None ''ab12'' edge_store)) ''memory_edges'') =
   [(JStr ''e1'', JNull, JNum 0), (JStr ''e2'', JStr ''agent2'', JNum 1)]"
  by code_simp

end
