(* ===== verification/Reducers.thy ===== *)
theory Reducers
  imports Memory_Relations "HOL-Library.Multiset"
begin

text \<open>
  Applying a peer's changes (\<open>packages/sync/src/reducers.ts\<close>): the append-only and
  last-writer-wins reducers, replay of a batch of change-log events, bulk application of
  snapshot rows and reassembly of oversized columns. An event is a change-log entry of the
  sending host. Row data are the JSON objects of the entries; their values are the scalars a
  SQLite binding accepts (\<open>RowData\<close>), so arrays and objects only meet a failing bind.
  Loggers and the warning samples have no effect on the data and are left out.
\<close>

section \<open>JavaScript's comparison\<close>

datatype jsnum = NaN | NegInf | Fin rat | PosInf

fun jsnum_le :: "jsnum \<Rightarrow> jsnum \<Rightarrow> bool" where
  "jsnum_le NaN y = False"
| "jsnum_le x NaN = False"
| "jsnum_le NegInf y = True"
| "jsnum_le x PosInf = True"
| "jsnum_le (Fin a) (Fin b) = (a \<le> b)"
| "jsnum_le x y = False"

definition is_digit :: "char \<Rightarrow> bool" where
  "is_digit c = (let n = of_char c :: nat in 48 \<le> n \<and> n \<le> 57)"

definition digits_value :: "string \<Rightarrow> nat" where
  "digits_value ds = foldl (\<lambda>a c. a * 10 + (of_char c - 48)) 0 ds"

definition pow10 :: "int \<Rightarrow> rat" where
  "pow10 e = (if 0 \<le> e then 10 ^ nat e else 1 / 10 ^ nat (- e))"

text \<open>A decimal literal without sign: digits, an optional fraction, an optional exponent.\<close>

definition unsigned_decimal :: "string \<Rightarrow> rat option" where
  "unsigned_decimal s =
     (let ip = takeWhile is_digit s; r1 = dropWhile is_digit s;
          (fp, r2) = (case r1 of
             c # cs \<Rightarrow> if c = CHR ''.'' then (takeWhile is_digit cs, dropWhile is_digit cs) else ([], r1)
           | [] \<Rightarrow> ([], []));
          mant = (of_nat (digits_value (ip @ fp)) :: rat) * pow10 (- int (length fp))
      in if ip = [] \<and> fp = [] then None
         else case r2 of
           [] \<Rightarrow> Some mant
         | c # cs \<Rightarrow>
             if c = CHR ''e'' \<or> c = CHR ''E'' then
               (let (neg, ds) = (case cs of
                   d # ds' \<Rightarrow> if d = CHR ''-'' then (True, ds') else if d = CHR ''+'' then (False, ds') else (False, cs)
                 | [] \<Rightarrow> (False, []))
                in if ds = [] \<or> \<not> list_all is_digit ds then None
                   else Some (mant * pow10 (if neg then - int (digits_value ds) else int (digits_value ds))))
             else None)"

definition radix_literal :: "nat \<Rightarrow> string \<Rightarrow> rat option" where
  "radix_literal b ds =
     (if ds = [] \<or> \<not> list_all (\<lambda>c. case hex_value c of Some d \<Rightarrow> d < b | None \<Rightarrow> False) ds then None
      else Some (of_nat (foldl (\<lambda>a c. a * b + the (hex_value c)) 0 ds)))"

definition finite_number :: "rat option \<Rightarrow> jsnum" where
  "finite_number q = (case q of None \<Rightarrow> NaN | Some x \<Rightarrow> Fin x)"

definition string_to_number :: "string \<Rightarrow> jsnum" where
  "string_to_number s =
     (let t = rev (dropWhile is_space (rev (dropWhile is_space s)))
      in if t = [] then Fin 0
         else if take 2 t = ''0x'' \<or> take 2 t = ''0X'' then finite_number (radix_literal 16 (drop 2 t))
         else if take 2 t = ''0o'' \<or> take 2 t = ''0O'' then finite_number (radix_literal 8 (drop 2 t))
         else if take 2 t = ''0b'' \<or> take 2 t = ''0B'' then finite_number (radix_literal 2 (drop 2 t))
         else let neg = (hd t = CHR ''-'');
                  u = (if hd t = CHR ''-'' \<or> hd t = CHR ''+'' then tl t else t)
              in if u = ''Infinity'' then (if neg then NegInf else PosInf)
                 else finite_number (map_option (\<lambda>q. if neg then - q else q) (unsigned_decimal u)))"

definition to_number :: "json \<Rightarrow> jsnum" where
  "to_number v =
     (case v of
        JNull \<Rightarrow> Fin 0 | JBool b \<Rightarrow> Fin (if b then 1 else 0) | JNum n \<Rightarrow> Fin n
      | JStr s \<Rightarrow> string_to_number s | _ \<Rightarrow> NaN)"

text \<open>\<open>a <= b\<close>: by code units on two strings, numerically otherwise.\<close>

definition js_le :: "json \<Rightarrow> json \<Rightarrow> bool" where
  "js_le a b =
     (case (a, b) of (JStr s, JStr t) \<Rightarrow> s \<le> t | _ \<Rightarrow> jsnum_le (to_number a) (to_number b))"

text \<open>SQLite's \<open><\<close> on stored values: NULL compares to nothing, numbers sort before text.\<close>

fun sql_less :: "json \<Rightarrow> json \<Rightarrow> bool" where
  "sql_less (JNum a) (JNum b) = (a < b)"
| "sql_less (JNum a) (JStr t) = True"
| "sql_less (JStr s) (JStr t) = (s < t)"
| "sql_less a b = False"

section \<open>Tables and row data\<close>

datatype reducer_type = Append_Only | Lww

definition TABLE_REDUCER_MAP :: "(string \<times> reducer_type) list" where
  "TABLE_REDUCER_MAP =
     [(''users'', Lww), (''threads'', Lww), (''messages'', Append_Only), (''semantic_memory'', Lww),
      (''tasks'', Lww), (''files'', Lww), (''hosts'', Lww), (''cluster_config'', Lww), (''advisories'', Lww),
      (''skills'', Lww), (''agents'', Lww), (''memory_edges'', Lww), (''connector_handles'', Lww),
      (''webhooks'', Lww), (''rss_feeds'', Lww), (''client_sessions'', Lww), (''mcp_auth_challenges'', Lww),
      (''turns'', Append_Only)]"

definition validateTableName :: "string \<Rightarrow> bool" where
  "validateTableName t \<longleftrightarrow> t \<in> set (map fst TABLE_REDUCER_MAP)"

definition violatesMessageRoleInvariant :: "string \<Rightarrow> jobject \<Rightarrow> bool" where
  "violatesMessageRoleInvariant t rowData \<longleftrightarrow>
     t = ''messages'' \<and> obj_get rowData ''role'' = Some (JStr ''system'')"

definition parseReducerRowData :: "log_entry \<Rightarrow> jobject option" where
  "parseReducerRowData event =
     (if \<not> validateTableName (table_name event) then None
      else case json_parse (row_data event) of Some (JObj ob) \<Rightarrow> Some ob | _ \<Rightarrow> None)"

text \<open>\<open>rowData[k]\<close> as a bound value: undefined binds as NULL.\<close>

definition field :: "jobject \<Rightarrow> string \<Rightarrow> json" where
  "field ob k = (case obj_get ob k of None \<Rightarrow> JNull | Some v \<Rightarrow> v)"

text \<open>The staleness test: the incoming \<open>modified_at\<close> is not newer than the stored one.\<close>

definition not_newer :: "schema \<Rightarrow> string \<Rightarrow> jobject \<Rightarrow> row \<Rightarrow> bool" where
  "not_newer s t rowData existing \<longleftrightarrow>
     (let stored = field (row_object s t existing) ''modified_at''; incoming = field rowData ''modified_at''
      in js_truthy stored \<and> js_truthy incoming \<and> js_le incoming stored)"

section \<open>The reducers\<close>

text \<open>A statement of a reducer: the new rows go into the table; the answer is whether rows
  changed.\<close>

definition run_statement :: "string \<Rightarrow> (row list \<times> nat) option \<Rightarrow> bool action" where
  "run_statement t res st =
     (case res of None \<Rightarrow> (Inl Sql_Error, st) | Some (rows', n) \<Rightarrow> (Inr (n > 0), set_table t rows' st))"

definition applyAppendOnlyReducer :: "schema \<Rightarrow> log_entry \<Rightarrow> bool action" where
  "applyAppendOnlyReducer s event st =
     (let t = table_name event; rows = tables st t in
      case parseReducerRowData event of
        None \<Rightarrow> (Inr False, st)
      | Some rowData \<Rightarrow>
          if violatesMessageRoleInvariant t rowData then (Inr False, st)
          else if \<not> list_all valid_column_name (map fst rowData) then (Inr False, st)
          else if field rowData ''modified_at'' = JNull
          then run_statement t (sql_insert s t ''id'' Do_Nothing rowData rows) st
          else case select_pk ''id'' (field rowData ''id'') rows of
                 None \<Rightarrow> run_statement t (sql_insert s t ''id'' Do_Nothing rowData rows) st
               | Some existing \<Rightarrow>
                   if not_newer s t rowData existing then (Inr False, st)
                   else run_statement t
                          (sql_update s t ''id'' (filter (\<lambda>(k, v). k \<noteq> ''id'') rowData)
                             (\<lambda>r. sql_eq (r ''id'') (field rowData ''id'')) rows) st)"

text \<open>Healing the relation of a received edge.\<close>

definition heal_edge :: "string \<Rightarrow> jobject \<Rightarrow> jobject" where
  "heal_edge t rowData =
     (case (t = ''memory_edges'', obj_get rowData ''relation'') of
        (True, Some (JStr rel)) \<Rightarrow>
          (let (rel', ctx', changed) = normalizeRelationValue rel (text_or_null (field rowData ''context''))
           in if changed then obj_set (obj_set rowData ''relation'' rel') ''context'' (opt_str ctx') else rowData)
      | _ \<Rightarrow> rowData)"

definition known_column :: "schema \<Rightarrow> string \<Rightarrow> string \<Rightarrow> bool" where
  "known_column s t col \<longleftrightarrow> valid_column_name col \<and> col \<in> set (table_columns s t)"

definition pk_value :: "string \<Rightarrow> jobject \<Rightarrow> string \<Rightarrow> json" where
  "pk_value pk rowData rowId = (if field rowData pk = JNull then JStr rowId else field rowData pk)"

definition applyLWWReducer :: "schema \<Rightarrow> log_entry \<Rightarrow> bool action" where
  "applyLWWReducer s event st =
     (let t = table_name event; rows = tables st t; pkColumn = getPkColumn t in
      case map_option (heal_edge t) (parseReducerRowData event) of
        None \<Rightarrow> (Inr False, st)
      | Some rowData \<Rightarrow>
          if violatesMessageRoleInvariant t rowData then (Inr False, st)
          else
            let pkValue = pk_value pkColumn rowData (row_id event) in
            case select_pk pkColumn pkValue rows of
              None \<Rightarrow>
                (case sql_insert s t pkColumn Abort (filter (\<lambda>(k, v). known_column s t k) rowData) rows of
                   None \<Rightarrow> (Inr False, st)
                 | Some (rows', n) \<Rightarrow> (Inr (n > 0), set_table t rows' st))
            | Some existing \<Rightarrow>
                if field rowData ''modified_at'' \<noteq> JNull \<and> not_newer s t rowData existing
                then (Inr False, st)
                else
                  let cols = filter (\<lambda>(k, v). known_column s t k \<and> k \<noteq> pkColumn) rowData in
                  if cols = [] then (Inr False, st)
                  else run_statement t
                         (sql_update s t pkColumn cols (\<lambda>r. sql_eq (r pkColumn) pkValue) rows) st)"

definition applyEvent :: "schema \<Rightarrow> log_entry \<Rightarrow> bool action" where
  "applyEvent s event =
     (if map_of TABLE_REDUCER_MAP (table_name event) = Some Append_Only
      then applyAppendOnlyReducer s event
      else applyLWWReducer s event)"

section \<open>Replaying a batch\<close>

record replay_result =
  applied :: nat
  skipped :: nat
  applied_events :: "log_entry list"
  log_events :: "change_event list"

fun replay_loop :: "schema \<Rightarrow> log_entry list \<Rightarrow> replay_result \<Rightarrow> replay_result action" where
  "replay_loop s [] acc = return acc"
| "replay_loop s (event # events) acc =
     (case parseReducerRowData event of
        None \<Rightarrow> replay_loop s events (acc\<lparr>skipped := skipped acc + 1\<rparr>)
      | Some rowData \<Rightarrow>
          and_then (applyEvent s event)
            (\<lambda>ok. if ok
               then and_then
                      (createChangeLogEntry (table_name event) (row_id event) (site_id event) rowData
                         (Some (hlc event)))
                      (\<lambda>h. replay_loop s events
                         (acc\<lparr>applied := applied acc + 1,
                              applied_events := applied_events acc @ [event],
                              log_events := log_events acc @
                                [\<lparr>ev_hlc = h, ev_table = table_name event, ev_site = site_id event\<rparr>]\<rparr>))
               else replay_loop s events (acc\<lparr>skipped := skipped acc + 1\<rparr>)))"

text \<open>After the commit the bus of the caller is told about the new log entries; listener
  failures are swallowed. \<open>applied_events\<close> are the ones passed to \<open>onApplied\<close>.\<close>

definition replayEvents :: "schema \<Rightarrow> bool \<Rightarrow> log_entry list \<Rightarrow> replay_result action" where
  "replayEvents s eventBus events =
     and_then
       (in_transaction (replay_loop s events
          \<lparr>applied = 0, skipped = 0, applied_events = [], log_events = []\<rparr>))
       (\<lambda>res st. (Inr res, if eventBus then st\<lparr>emitted := emitted st @ log_events res\<rparr> else st))"

section \<open>Snapshots\<close>

definition coerce_value :: "(json \<Rightarrow> string) \<Rightarrow> json \<Rightarrow> json" where
  "coerce_value stringify v =
     (case v of JArr _ \<Rightarrow> JStr (stringify v) | JObj _ \<Rightarrow> JStr (stringify v) | _ \<Rightarrow> v)"

definition coerceRowValues :: "(json \<Rightarrow> string) \<Rightarrow> string list \<Rightarrow> jobject \<Rightarrow> jobject" where
  "coerceRowValues stringify columns row =
     map (\<lambda>k. (k, coerce_value stringify (field row k))) columns"

definition newer_excluded :: "string list \<Rightarrow> row \<Rightarrow> row \<Rightarrow> bool" where
  "newer_excluded columns new old \<longleftrightarrow>
     (if ''modified_at'' \<in> set columns then sql_less (old ''modified_at'') (new ''modified_at'') else True)"

definition snapshot_clause :: "string \<Rightarrow> string list \<Rightarrow> on_conflict" where
  "snapshot_clause pkColumn columns =
     (let updateColumns = filter (\<lambda>c. c \<noteq> pkColumn) columns
      in if updateColumns = [] then Do_Nothing else Do_Update (newer_excluded columns) updateColumns)"

fun apply_all :: "(jobject \<Rightarrow> row list \<Rightarrow> (row list \<times> nat) option) \<Rightarrow> jobject list \<Rightarrow> row list \<Rightarrow> row list option" where
  "apply_all upsert [] rows = Some rows"
| "apply_all upsert (row # todo) rows =
     (case upsert row rows of None \<Rightarrow> None | Some (rows', _) \<Rightarrow> apply_all upsert todo rows')"

fun apply_each ::
  "(jobject \<Rightarrow> row list \<Rightarrow> (row list \<times> nat) option) \<Rightarrow> jobject list \<Rightarrow> row list \<Rightarrow> row list \<times> nat" where
  "apply_each upsert [] rows = (rows, 0)"
| "apply_each upsert (row # todo) rows =
     (case upsert row rows of
        None \<Rightarrow> apply_each upsert todo rows
      | Some (rows', _) \<Rightarrow> (let (rows'', n) = apply_each upsert todo rows' in (rows'', n + 1)))"

definition applySnapshotRows ::
  "schema \<Rightarrow> (json \<Rightarrow> string) \<Rightarrow> string \<Rightarrow> jobject list \<Rightarrow> store \<Rightarrow> nat \<times> store" where
  "applySnapshotRows s stringify t rows st =
     (if \<not> validateTableName t \<or> rows = [] then (0, st)
      else
        let kept = (if t = ''messages''
                    then filter (\<lambda>r. obj_get r ''role'' \<noteq> Some (JStr ''system'')) rows else rows);
            applicable = map (heal_edge t) kept
        in if applicable = [] then (0, st)
           else
             let columns = map fst (hd applicable) in
             if \<not> list_all valid_column_name columns then (0, st)
             else
               let pkColumn = getPkColumn t;
                   upsert = (\<lambda>row. sql_insert s t pkColumn (snapshot_clause pkColumn columns)
                                     (coerceRowValues stringify columns row))
               in case apply_all upsert applicable (tables st t) of
                    Some rows' \<Rightarrow> (length applicable, set_table t rows' st)
                  | None \<Rightarrow>
                      (let (rows', n) = apply_each upsert applicable (tables st t)
                       in (n, set_table t rows' st)))"

text \<open>SQL's \<open>||\<close> on a text column: NULL stays NULL. A number, which a text column never
  holds, makes the statement fail here.\<close>

definition sql_concat :: "json \<Rightarrow> string \<Rightarrow> json option" where
  "sql_concat v d = (case v of JNull \<Rightarrow> Some JNull | JStr t \<Rightarrow> Some (JStr (t @ d)) | _ \<Rightarrow> None)"

definition append_column :: "string \<Rightarrow> string \<Rightarrow> row \<Rightarrow> row" where
  "append_column col d r = (case sql_concat (r col) d of None \<Rightarrow> r | Some v \<Rightarrow> r(col := v))"

definition applyColumnChunk :: "schema \<Rightarrow> string \<Rightarrow> string \<Rightarrow> string \<Rightarrow> nat \<Rightarrow> string \<Rightarrow> unit action" where
  "applyColumnChunk s t pkValue columnName chunkIndex chunkData st =
     (if \<not> validateTableName t \<or> \<not> valid_column_name columnName then (Inr (), st)
      else
        let rows = tables st t; p = has_id t pkValue in
        if chunkIndex = 0
        then (case sql_update s t (getPkColumn t) [(columnName, JStr chunkData)] p rows of
                None \<Rightarrow> (Inl Sql_Error, st)
              | Some (rows', _) \<Rightarrow> (Inr (), set_table t rows' st))
        else if columnName \<notin> set (table_columns s t) \<or>
                \<not> list_all (\<lambda>r. p r \<longrightarrow> sql_concat (r columnName) chunkData \<noteq> None \<and>
                     update_ok s t (filter (\<lambda>r. \<not> p r) rows) [columnName] r
                       (append_column columnName chunkData r)) rows
        then (Inl Sql_Error, st)
        else (Inr (), set_table t (update_where p (append_column columnName chunkData) rows) st))"

section \<open>Last writer wins converges\<close>

text \<open>
  A replica whose steps refine commuting steps on an abstract view: whatever order a multiset
  of events is delivered in, the view ends up the same.
\<close>

locale commuting_replica =
  fixes step :: "'e \<Rightarrow> 's \<Rightarrow> 's" and E :: "'e set" and abs :: "'s \<Rightarrow> 'v"
    and astep :: "'e \<Rightarrow> 'v \<Rightarrow> 'v" and inv :: "'s \<Rightarrow> bool"
  assumes inv_step: "inv s \<Longrightarrow> e \<in> E \<Longrightarrow> inv (step e s)"
    and abs_step: "inv s \<Longrightarrow> e \<in> E \<Longrightarrow> abs (step e s) = astep e (abs s)"
    and commute: "e \<in> E \<Longrightarrow> e' \<in> E \<Longrightarrow> astep e (astep e' v) = astep e' (astep e v)"
begin

lemma abs_fold: "inv s \<Longrightarrow> set es \<subseteq> E \<Longrightarrow> abs (fold step es s) = fold astep es (abs s)"
  by (induction es arbitrary: s) (simp_all add: inv_step abs_step)

lemma convergence:
  assumes "inv s" and "set es \<subseteq> E" and "mset es = mset es'"
  shows "abs (fold step es s) = abs (fold step es' s)"
proof -
  have "set es' \<subseteq> E" using assms(2,3) by (metis set_mset_mset)
  moreover have "fold astep es = fold astep es'"
  proof (rule fold_multiset_equiv [OF _ assms(3)])
    fix x y
    assume "x \<in> set es" "y \<in> set es"
    then have "x \<in> E" "y \<in> E" using assms(2) by blast+
    then show "astep x \<circ> astep y = astep y \<circ> astep x" by (simp add: fun_eq_iff commute [of x y])
  qed
  ultimately show ?thesis using assms(1,2) by (simp add: abs_fold)
qed

end

text \<open>The view of a table: the row stored under each id.\<close>

definition view :: "string \<Rightarrow> row list \<Rightarrow> string \<Rightarrow> row option" where
  "view pk rows i = select_pk pk (JStr i) rows"

definition stamp :: "row \<Rightarrow> string" where
  "stamp r = text_of (r ''modified_at'')"

text \<open>What an event says: the row's id, its \<open>modified_at\<close> and the bound values.\<close>

definition image_of :: "schema \<Rightarrow> log_entry \<Rightarrow> string \<times> string \<times> jobject" where
  "image_of s e =
     (let t = table_name e; rd = heal_edge t (the (parseReducerRowData e))
      in (text_of (field rd (getPkColumn t)), text_of (field rd ''modified_at''), the (bind_all s t rd)))"

definition without_pk :: "string \<Rightarrow> jobject \<Rightarrow> jobject" where
  "without_pk t bound = filter (\<lambda>(k, v). k \<noteq> getPkColumn t) bound"

text \<open>The abstract register: keep the image with the greatest \<open>modified_at\<close>.\<close>

definition merge_image ::
  "schema \<Rightarrow> string \<Rightarrow> string \<times> string \<times> jobject \<Rightarrow> (string \<Rightarrow> row option) \<Rightarrow> (string \<Rightarrow> row option)" where
  "merge_image s t im v =
     (case im of (i, m, bound) \<Rightarrow>
        (case v i of
           None \<Rightarrow> v(i \<mapsto> fresh s t bound)
         | Some old \<Rightarrow> if m \<le> stamp old then v else v(i \<mapsto> row_with (without_pk t bound) old)))"

text \<open>A full image of a row of \<open>t\<close>: it parses, has exactly the columns \<open>cols\<close>, names
  its row and time, its values are stored as they are, and no constraint rejects it.\<close>

definition full_image :: "schema \<Rightarrow> string \<Rightarrow> string set \<Rightarrow> log_entry \<Rightarrow> bool" where
  "full_image s t cols e \<longleftrightarrow>
     table_name e = t \<and>
     (\<exists>rd i m bound. parseReducerRowData e = Some rd \<and> image_of s e = (i, m, bound) \<and>
        bind_all s t (heal_edge t rd) = Some bound \<and> fst ` set (heal_edge t rd) = cols \<and>
        obj_get (heal_edge t rd) (getPkColumn t) = Some (JStr i) \<and>
        obj_get (heal_edge t rd) ''modified_at'' = Some (JStr m) \<and> m \<noteq> [] \<and>
        map_of bound (getPkColumn t) = Some (JStr i) \<and> map_of bound ''modified_at'' = Some (JStr m) \<and>
        (\<forall>others. insert_ok s t others (fresh s t bound)) \<and>
        (\<forall>others old. update_ok s t others (map fst (without_pk t bound)) old
                        (row_with (without_pk t bound) old)))"

definition lww_columns :: "schema \<Rightarrow> string \<Rightarrow> string set \<Rightarrow> bool" where
  "lww_columns s t cols \<longleftrightarrow>
     map_of TABLE_REDUCER_MAP t = Some Lww \<and> (\<forall>c \<in> cols. known_column s t c) \<and>
     getPkColumn t \<in> cols \<and> ''modified_at'' \<in> cols"

text \<open>Full images of one table in which no two different images of a row have the same time.\<close>

definition compatible :: "schema \<Rightarrow> string \<Rightarrow> string set \<Rightarrow> log_entry set \<Rightarrow> log_entry set" where
  "compatible s t cols D =
     (if lww_columns s t cols
      then {e \<in> D. full_image s t cols e \<and>
             (\<forall>e' \<in> D. full_image s t cols e' \<longrightarrow> fst (image_of s e) = fst (image_of s e') \<longrightarrow>
                fst (snd (image_of s e)) = fst (snd (image_of s e')) \<longrightarrow> image_of s e = image_of s e')}
      else {})"

definition table_ok :: "schema \<Rightarrow> string \<Rightarrow> row list \<Rightarrow> bool" where
  "table_ok s t rows \<longleftrightarrow>
     keyed (getPkColumn t) rows \<and>
     (\<forall>r \<in> set rows. (\<exists>i. r (getPkColumn t) = JStr i) \<and> (\<exists>m. r ''modified_at'' = JStr m \<and> m \<noteq> []))"

lemma pk_not_modified [simp]: "getPkColumn t \<noteq> ''modified_at''"
  by (simp add: getPkColumn_def)

lemma map_of_without_pk:
  "map_of (without_pk t bound) c = (if c = getPkColumn t then None else map_of bound c)"
  by (induction bound) (auto simp: without_pk_def)

lemma keys_without_pk: "fst ` set (without_pk t bound) = fst ` set bound - {getPkColumn t}"
  by (auto simp: without_pk_def)

lemma bind_all_filter:
  "bind_all s t cvs = Some bound \<Longrightarrow> bind_all s t (filter (\<lambda>(k, v). P k) cvs) = Some (filter (\<lambda>(k, v). P k) bound)"
  by (induction s t cvs arbitrary: bound rule: bind_all.induct) (auto split: if_splits option.splits)

lemma map_of_columns: "map_of (map (\<lambda>c. (c, f c)) cs) c = (if c \<in> set cs then Some (f c) else None)"
  by (induction cs) auto

lemma view_append:
  assumes "\<not> key_taken pk new rows" and "new pk = JStr i"
  shows "view pk (rows @ [new]) = (view pk rows)(i \<mapsto> new)"
proof
  fix j
  show "view pk (rows @ [new]) j = ((view pk rows)(i \<mapsto> new)) j"
    using assms by (induction rows) (auto simp: view_def select_pk_def key_taken_def sql_eq_def)
qed

lemma view_update:
  assumes "\<And>r. f r pk = r pk"
  shows "view pk (update_where (\<lambda>r. sql_eq (r pk) (JStr i)) f rows) =
         (case view pk rows i of None \<Rightarrow> view pk rows | Some r \<Rightarrow> (view pk rows)(i \<mapsto> f r))"
proof
  fix j
  show "view pk (update_where (\<lambda>r. sql_eq (r pk) (JStr i)) f rows) j =
         (case view pk rows i of None \<Rightarrow> view pk rows | Some r \<Rightarrow> (view pk rows)(i \<mapsto> f r)) j"
    using assms
    by (induction rows) (auto simp: view_def select_pk_def update_where_def sql_eq_def split: option.splits)
qed

lemma merge_commute:
  assumes "set (map fst b1) = cols" and "set (map fst b2) = cols" and "''modified_at'' \<in> cols"
    and "map_of b1 (getPkColumn t) = Some (JStr i1)" and "map_of b2 (getPkColumn t) = Some (JStr i2)"
    and "map_of b1 ''modified_at'' = Some (JStr m1)" and "map_of b2 ''modified_at'' = Some (JStr m2)"
    and "i1 = i2 \<Longrightarrow> m1 < m2"
  shows "merge_image s t (i1, m1, b1) (merge_image s t (i2, m2, b2) v) =
         merge_image s t (i2, m2, b2) (merge_image s t (i1, m1, b1) v)"
proof (cases "i1 = i2")
  case False
  then show ?thesis by (auto simp: merge_image_def fun_upd_twist split: option.splits)
next
  case True
  with assms(8) have less: "m1 < m2" by blast
  then have nle: "\<not> m2 \<le> m1" "m1 \<le> m2" by auto
  have st: "stamp (fresh s t b1) = m1" "stamp (fresh s t b2) = m2"
    "stamp (row_with (without_pk t b1) r) = m1" "stamp (row_with (without_pk t b2) r) = m2" for r
    using assms(6,7) pk_not_modified [of t, symmetric]
    by (simp_all add: stamp_def fresh_def row_with_def text_of_def map_of_without_pk)
  have k: "map_of b1 c = None \<longleftrightarrow> map_of b2 c = None" for c
    using assms(1,2) by (metis list.set_map map_of_eq_None_iff)
  have "row_with (without_pk t b2) (fresh s t b1) = fresh s t b2"
  proof
    fix c
    show "row_with (without_pk t b2) (fresh s t b1) c = fresh s t b2 c"
      using k [of c] assms(4,5) True
      by (auto simp: row_with_def fresh_def map_of_without_pk split: option.splits)
  qed
  moreover have "row_with (without_pk t b2) (row_with (without_pk t b1) r) = row_with (without_pk t b2) r" for r
    using assms(1,2) by (intro row_with_same_columns) (simp add: keys_without_pk)
  ultimately show ?thesis
    using True nle less st
    by (cases "v i2") (auto simp: merge_image_def)
qed

lemma full_imageE:
  assumes "full_image s t cols e" and "lww_columns s t cols"
  obtains i m bound where "image_of s e = (i, m, bound)" and "set (map fst bound) = cols" and "m \<noteq> []"
    and "map_of bound (getPkColumn t) = Some (JStr i)" and "map_of bound ''modified_at'' = Some (JStr m)"
proof -
  from assms(1) obtain rd i m bound where
      "image_of s e = (i, m, bound)" "bind_all s t (heal_edge t rd) = Some bound" "fst ` set (heal_edge t rd) = cols"
      "m \<noteq> []" "map_of bound (getPkColumn t) = Some (JStr i)" "map_of bound ''modified_at'' = Some (JStr m)"
    by (auto simp: full_image_def)
  moreover from this have "set (map fst bound) = cols" by (metis bind_all_keys set_map)
  ultimately show ?thesis using that by blast
qed

lemma compatible_commute:
  assumes "e \<in> compatible s t cols D" and "e' \<in> compatible s t cols D"
  shows "merge_image s t (image_of s e) (merge_image s t (image_of s e') v) =
         merge_image s t (image_of s e') (merge_image s t (image_of s e) v)"
proof -
  have c: "lww_columns s t cols" "full_image s t cols e" "full_image s t cols e'" "e' \<in> D"
    and one: "\<And>x. x \<in> D \<Longrightarrow> full_image s t cols x \<Longrightarrow> fst (image_of s e) = fst (image_of s x) \<Longrightarrow>
       fst (snd (image_of s e)) = fst (snd (image_of s x)) \<Longrightarrow> image_of s e = image_of s x"
    using assms by (auto simp: compatible_def split: if_splits)
  obtain i m b where im: "image_of s e = (i, m, b)" "set (map fst b) = cols"
      "map_of b (getPkColumn t) = Some (JStr i)" "map_of b ''modified_at'' = Some (JStr m)"
    using full_imageE [OF c(2,1)] by metis
  obtain i' m' b' where im': "image_of s e' = (i', m', b')" "set (map fst b') = cols"
      "map_of b' (getPkColumn t) = Some (JStr i')" "map_of b' ''modified_at'' = Some (JStr m')"
    using full_imageE [OF c(3,1)] by metis
  have cm: "''modified_at'' \<in> cols" using c(1) by (simp add: lww_columns_def)
  consider "image_of s e = image_of s e'" | "i \<noteq> i'" | "i = i'" "m < m'" | "i = i'" "m' < m"
    using one [OF c(4,3)] im(1) im'(1) by (metis fst_conv linorder_neqE snd_conv)
  then show ?thesis
  proof cases
    case 1
    then show ?thesis by simp
  next
    case 2
    then show ?thesis unfolding im(1) im'(1)
      by (intro merge_commute [OF im(2) im'(2) cm im(3) im'(3) im(4) im'(4)]) simp
  next
    case 3
    then show ?thesis unfolding im(1) im'(1)
      by (intro merge_commute [OF im(2) im'(2) cm im(3) im'(3) im(4) im'(4)]) simp
  next
    case 4
    then show ?thesis unfolding im(1) im'(1)
      by (intro merge_commute [OF im'(2) im(2) cm im'(3) im(3) im'(4) im(4), symmetric]) simp
  qed
qed

text \<open>Applying a full image to a well-formed table is the abstract merge.\<close>

lemma applyEvent_refines:
  assumes "table_ok s t (tables st t)" and "full_image s t cols e" and "lww_columns s t cols"
  shows "table_ok s t (tables (snd (applyEvent s e st)) t)"
    and "view (getPkColumn t) (tables (snd (applyEvent s e st)) t) =
         merge_image s t (image_of s e) (view (getPkColumn t) (tables st t))"
    and "\<exists>b. fst (applyEvent s e st) = Inr b"
proof -
  let ?pk = "getPkColumn t" and ?rows = "tables st t"
  from assms(2) obtain rd0 i m bound where te: "table_name e = t" and rd0: "parseReducerRowData e = Some rd0"
    and im: "image_of s e = (i, m, bound)" and bd: "bind_all s t (heal_edge t rd0) = Some bound"
    and cols: "fst ` set (heal_edge t rd0) = cols" and fi: "obj_get (heal_edge t rd0) ?pk = Some (JStr i)"
    and fm: "obj_get (heal_edge t rd0) ''modified_at'' = Some (JStr m)" and m: "m \<noteq> []"
    and bi: "map_of bound ?pk = Some (JStr i)" and bm: "map_of bound ''modified_at'' = Some (JStr m)"
    and ok_i: "\<And>others. insert_ok s t others (fresh s t bound)"
    and ok_u: "\<And>others old. update_ok s t others (map fst (without_pk t bound)) old (row_with (without_pk t bound) old)"
    by (auto simp: full_image_def)
  define rd where "rd = heal_edge t rd0"
  note rds = bd cols fi fm
  note rds = rds [folded rd_def]
  have lww: "map_of TABLE_REDUCER_MAP t = Some Lww" and known: "\<And>c. c \<in> cols \<Longrightarrow> known_column s t c"
    and mc: "''modified_at'' \<in> cols" and pc: "?pk \<in> cols"
    using assms(3) by (auto simp: lww_columns_def)
  have nm: "t \<noteq> ''messages''" using lww by (auto simp: TABLE_REDUCER_MAP_def)
  have all: "filter (\<lambda>(k, v). known_column s t k) rd = rd"
    using rds(2) known by (intro filter_True) force
  have upd: "filter (\<lambda>(k, v). known_column s t k \<and> k \<noteq> ?pk) rd = filter (\<lambda>(k, v). k \<noteq> ?pk) rd"
    using rds(2) known by (intro filter_cong) force+
  have updb: "bind_all s t (filter (\<lambda>(k, v). k \<noteq> ?pk) rd) = Some (without_pk t bound)"
    using bind_all_filter [OF rds(1)] by (simp add: without_pk_def)
  have ne: "filter (\<lambda>(k, v). k \<noteq> ?pk) rd \<noteq> []"
  proof -
    have "(''modified_at'', JStr m) \<in> set rd" using rds(4) by (auto simp: obj_get_def dest: map_of_SomeD)
    then have "(''modified_at'', JStr m) \<in> set (filter (\<lambda>(k, v). k \<noteq> ?pk) rd)"
      using pk_not_modified [of t, symmetric] by simp
    then show ?thesis by (metis empty_iff empty_set)
  qed
  have pkv: "pk_value ?pk rd (row_id e) = JStr i" using rds(3) by (simp add: pk_value_def field_def)
  have keep: "row_with (without_pk t bound) r ?pk = r ?pk" for r by (simp add: row_with_def map_of_without_pk)
  have stored: "row_with (without_pk t bound) r ''modified_at'' = JStr m" for r
    using bm pk_not_modified [of t, symmetric] by (simp add: row_with_def map_of_without_pk)
  have new_pk: "fresh s t bound ?pk = JStr i" and new_m: "fresh s t bound ''modified_at'' = JStr m"
    using bi bm by (simp_all add: fresh_def row_with_def)
  have run: "applyEvent s e st =
      (case select_pk ?pk (JStr i) ?rows of
         None \<Rightarrow>
           (case sql_insert s t ?pk Abort rd ?rows of
              None \<Rightarrow> (Inr False, st) | Some (rows', n) \<Rightarrow> (Inr (n > 0), set_table t rows' st))
       | Some existing \<Rightarrow>
           if not_newer s t rd existing then (Inr False, st)
           else run_statement t (sql_update s t ?pk (filter (\<lambda>(k, v). k \<noteq> ?pk) rd)
                  (\<lambda>r. sql_eq (r ?pk) (JStr i)) ?rows) st)"
  proof -
    have nv: "\<not> violatesMessageRoleInvariant t rd" using nm by (simp add: violatesMessageRoleInvariant_def)
    have fne: "field rd ''modified_at'' \<noteq> JNull" using rds(4) by (simp add: field_def)
    have "applyEvent s e st = applyLWWReducer s e st" using lww te by (simp add: applyEvent_def)
    then show ?thesis
      unfolding applyLWWReducer_def te Let_def rd0 option.map option.case rd_def [symmetric]
      by (simp only: nv pkv all upd ne fne if_False simp_thms not_False_eq_True)
  qed
  have "table_ok s t (tables (snd (applyEvent s e st)) t) \<and>
    view ?pk (tables (snd (applyEvent s e st)) t) = merge_image s t (i, m, bound) (view ?pk ?rows) \<and>
    (\<exists>b. fst (applyEvent s e st) = Inr b)"
  proof (cases "select_pk ?pk (JStr i) ?rows")
    case None
    then have nt: "\<not> key_taken ?pk (fresh s t bound) ?rows"
      by (auto simp: select_pk_None key_taken_def list_ex_iff new_pk)
    have "rd \<noteq> []" using rds(2) mc by auto
    then have "sql_insert s t ?pk Abort rd ?rows = Some (?rows @ [fresh s t bound], 1)"
      using nt ok_i rds(1) by (simp add: sql_insert_def)
    then have r: "applyEvent s e st = (Inr True, set_table t (?rows @ [fresh s t bound]) st)"
      using run None by simp
    have "table_ok s t (?rows @ [fresh s t bound])"
      using assms(1) nt new_pk new_m m by (auto simp: table_ok_def keyed_append)
    then show ?thesis
      using r view_append [OF nt new_pk] None by (auto simp: merge_image_def view_def)
  next
    case (Some old)
    then have o: "old \<in> set ?rows" "old ?pk = JStr i"
      by (auto dest!: select_pk_Some simp: sql_eq_def)
    obtain m0 where m0: "old ''modified_at'' = JStr m0" "m0 \<noteq> []"
      using assms(1) o(1) by (auto simp: table_ok_def)
    have "''modified_at'' \<in> set (table_columns s t)" using known [OF mc] by (simp add: known_column_def)
    then have "field (row_object s t old) ''modified_at'' = JStr m0"
      using m0 by (simp add: field_def obj_get_def row_object_def map_of_columns)
    then have nn: "not_newer s t rd old \<longleftrightarrow> m \<le> stamp old"
      using rds(4) m m0 by (simp add: not_newer_def field_def js_le_def stamp_def text_of_def Let_def)
    show ?thesis
    proof (cases "m \<le> stamp old")
      case True
      then show ?thesis using run Some nn assms(1) by (auto simp: merge_image_def view_def)
    next
      case False
      let ?rows' = "update_where (\<lambda>r. sql_eq (r ?pk) (JStr i)) (row_with (without_pk t bound)) ?rows"
      have k: "keyed ?pk ?rows'" using assms(1) keep by (simp add: keyed_update table_ok_def)
      have "sql_update s t ?pk (filter (\<lambda>(k, v). k \<noteq> ?pk) rd) (\<lambda>r. sql_eq (r ?pk) (JStr i)) ?rows =
          Some (?rows', count_where (\<lambda>r. sql_eq (r ?pk) (JStr i)) ?rows)"
        using ne updb ok_u k by (simp add: sql_update_def keyed_def list_all_iff)
      then obtain b where r: "applyEvent s e st = (Inr b, set_table t ?rows' st)"
        using run Some nn False by (simp add: run_statement_def)
      have "table_ok s t ?rows'"
        using assms(1) k keep stored m
        by (auto simp: table_ok_def elim!: in_update_whereE)
      then show ?thesis
        using r view_update [of "row_with (without_pk t bound)" ?pk i ?rows] keep Some False
        by (auto simp: merge_image_def view_def)
    qed
  qed
  then show "table_ok s t (tables (snd (applyEvent s e st)) t)"
    and "view ?pk (tables (snd (applyEvent s e st)) t) = merge_image s t (image_of s e) (view ?pk ?rows)"
    and "\<exists>b. fst (applyEvent s e st) = Inr b"
    unfolding im by blast+
qed

interpretation lww: commuting_replica "\<lambda>e st. snd (applyEvent s e st)" "compatible s t cols D"
  "\<lambda>st. view (getPkColumn t) (tables st t)" "\<lambda>e. merge_image s t (image_of s e)"
  "\<lambda>st. table_ok s t (tables st t)" for s t cols D
proof
  fix st :: store and e :: log_entry
  assume "table_ok s t (tables st t)" and "e \<in> compatible s t cols D"
  then show "table_ok s t (tables (snd (applyEvent s e st)) t)"
    and "view (getPkColumn t) (tables (snd (applyEvent s e st)) t) =
         merge_image s t (image_of s e) (view (getPkColumn t) (tables st t))"
    using applyEvent_refines by (auto simp: compatible_def split: if_splits)
qed (rule compatible_commute)

section \<open>Properties\<close>

text \<open>C2: last-writer-wins replication converges. Take any events that are full images of rows of
  one last-writer-wins table and in which two different images of the same row never carry the
  same \<open>modified_at\<close>. Applying them in any two delivery orders, with any repetition kept,
  leaves the same row under every id.\<close>

theorem lww_convergence:
  assumes "table_ok s t (tables st t)" and "lww_columns s t cols"
    and "\<forall>e \<in> set es. full_image s t cols e"
    and "\<forall>e \<in> set es. \<forall>e' \<in> set es. fst (image_of s e) = fst (image_of s e') \<longrightarrow>
           fst (snd (image_of s e)) = fst (snd (image_of s e')) \<longrightarrow> image_of s e = image_of s e'"
    and "mset es = mset es'"
  shows "view (getPkColumn t) (tables (fold (\<lambda>e st. snd (applyEvent s e st)) es st) t) =
         view (getPkColumn t) (tables (fold (\<lambda>e st. snd (applyEvent s e st)) es' st) t)"
proof -
  have "set es \<subseteq> compatible s t cols (set es)"
    using assms(2-4) by (auto simp: compatible_def)
  then show ?thesis using lww.convergence [of s t st es cols "set es" es'] assms(1,5) by blast
qed

definition status_event :: "string \<Rightarrow> string \<Rightarrow> string \<Rightarrow> log_entry" where
  "status_event h status m =
     \<lparr>hlc = h, table_name = ''users'', row_id = ''u1'', site_id = ''cd34'', timestamp = m,
      row_data = Json (JObj [(''id'', JStr ''u1''), (''status'', JStr status), (''modified_at'', JStr m)])\<rparr>"

lemma status_event_image:
  "image_of plain_schema (status_event h status m) =
     (''u1'', m, [(''id'', JStr ''u1''), (''status'', JStr status), (''modified_at'', JStr m)])"
  "m \<noteq> [] \<Longrightarrow> full_image plain_schema ''users'' {''id'', ''status'', ''modified_at''} (status_event h status m)"
  by (simp_all add: full_image_def image_of_def status_event_def parseReducerRowData_def validateTableName_def
      TABLE_REDUCER_MAP_def heal_edge_def plain_schema_def getPkColumn_def field_def obj_get_def text_of_def)

lemma users_ready:
  "table_ok plain_schema ''users'' (tables empty_store ''users'')"
  "lww_columns plain_schema ''users'' {''id'', ''status'', ''modified_at''}"
  by (simp_all add: table_ok_def keyed_def empty_store_def lww_columns_def known_column_def plain_schema_def
      TABLE_REDUCER_MAP_def getPkColumn_def valid_column_name_def)

theorem lww_convergence_witness:
  "view ''id'' (tables (fold (\<lambda>e st. snd (applyEvent plain_schema e st))
      [status_event ''h1'' ''a'' ''2026-01-01'', status_event ''h2'' ''b'' ''2026-01-02''] empty_store) ''users'') =
   view ''id'' (tables (fold (\<lambda>e st. snd (applyEvent plain_schema e st))
      [status_event ''h2'' ''b'' ''2026-01-02'', status_event ''h1'' ''a'' ''2026-01-01''] empty_store) ''users'')"
proof -
  let ?e1 = "status_event ''h1'' ''a'' ''2026-01-01''" and ?e2 = "status_event ''h2'' ''b'' ''2026-01-02''"
  note ok = users_ready(1) and cols = users_ready(2)
  have full: "\<forall>e \<in> set [?e1, ?e2]. full_image plain_schema ''users'' {''id'', ''status'', ''modified_at''} e"
    using status_event_image(2) by simp
  have "mset [?e1, ?e2] = mset [?e2, ?e1]" by simp
  then show ?thesis
    using lww_convergence [OF ok cols full _, of "[?e2, ?e1]"]
    by (simp add: status_event_image(1) getPkColumn_def)
qed

text \<open>on a tie last-writer-wins does not converge. Two hosts that receive two different images
  of a row with the same \<open>modified_at\<close> in opposite orders keep different rows, and
  receiving both again changes nothing on either host.\<close>

theorem lww_tie_diverges:
  assumes "m \<noteq> []" and "a \<noteq> b"
    and "st1 = fold (\<lambda>e st. snd (applyEvent plain_schema e st)) [status_event h a m, status_event h' b m] empty_store"
    and "st2 = fold (\<lambda>e st. snd (applyEvent plain_schema e st)) [status_event h' b m, status_event h a m] empty_store"
  shows "view ''id'' (tables st1 ''users'') ''u1'' \<noteq> view ''id'' (tables st2 ''users'') ''u1'' \<and>
         view ''id'' (tables (fold (\<lambda>e st. snd (applyEvent plain_schema e st))
            [status_event h a m, status_event h' b m] st2) ''users'') = view ''id'' (tables st2 ''users'')"
proof -
  let ?im = "\<lambda>x. (''u1'', m, [(''id'', JStr ''u1''), (''status'', JStr x), (''modified_at'', JStr m)])"
  note ok = users_ready(1) and cols = users_ready(2)
  note step = applyEvent_refines [OF _ status_event_image(2) [OF assms(1)] cols]
  have pk: "getPkColumn ''users'' = ''id''" by (simp add: getPkColumn_def)
  have "table_ok plain_schema ''users'' (tables st2 ''users'')"
    unfolding assms(4) using step(1) ok by simp
  then have v3: "view ''id'' (tables (fold (\<lambda>e st. snd (applyEvent plain_schema e st))
      [status_event h a m, status_event h' b m] st2) ''users'') =
      merge_image plain_schema ''users'' (?im b) (merge_image plain_schema ''users'' (?im a) (view ''id'' (tables st2 ''users'')))"
    using step pk by (simp add: status_event_image(1))
  have v1: "view ''id'' (tables st1 ''users'') =
      merge_image plain_schema ''users'' (?im b) (merge_image plain_schema ''users'' (?im a) (\<lambda>i. None))"
    and v2: "view ''id'' (tables st2 ''users'') =
      merge_image plain_schema ''users'' (?im a) (merge_image plain_schema ''users'' (?im b) (\<lambda>i. None))"
    unfolding assms(3,4) using step ok pk
    by (simp_all add: status_event_image(1)) (simp_all add: view_def [abs_def] empty_store_def select_pk_def)
  have st: "stamp (fresh plain_schema ''users'' [(''id'', JStr ''u1''), (''status'', JStr x), (''modified_at'', JStr m)]) = m" for x
    by (simp add: stamp_def fresh_def row_with_def text_of_def)
  have "fresh plain_schema ''users'' [(''id'', JStr ''u1''), (''status'', JStr a), (''modified_at'', JStr m)] ''status'' \<noteq>
        fresh plain_schema ''users'' [(''id'', JStr ''u1''), (''status'', JStr b), (''modified_at'', JStr m)] ''status''"
    using assms(2) by (simp add: fresh_def row_with_def)
  then show ?thesis unfolding v3 v1 v2 by (auto simp: merge_image_def st)
qed

theorem lww_tie_diverges_witness:
  "view ''id'' (tables (fold (\<lambda>e st. snd (applyEvent plain_schema e st))
      [status_event ''h1'' ''a'' ''2026-01-01'', status_event ''h2'' ''b'' ''2026-01-01''] empty_store) ''users'') ''u1'' \<noteq>
   view ''id'' (tables (fold (\<lambda>e st. snd (applyEvent plain_schema e st))
      [status_event ''h2'' ''b'' ''2026-01-01'', status_event ''h1'' ''a'' ''2026-01-01''] empty_store) ''users'') ''u1''"
proof -
  have "''2026-01-01'' \<noteq> []" and "''a'' \<noteq> ''b''" by simp_all
  from lww_tie_diverges [OF this refl refl, of "''h1''" "''h2''"] show ?thesis by (rule conjunct1)
qed

end
