(* ===== verification/Replication.thy ===== *)
theory Replication
  imports Reducers "HOL-Library.Sublist"
begin

text \<open>
  What replay, snapshots and column chunks guarantee: a batch is applied as a whole with exact
  counts and one log entry per applied event, a received event is logged after its cause,
  system-role messages never get in, snapshots never bring back an older row, and chunks
  reassemble the column they came from.
\<close>

section \<open>Reducers only touch their table\<close>

definition only_table :: "string \<Rightarrow> store \<Rightarrow> store \<Rightarrow> bool" where
  "only_table t st st' \<longleftrightarrow>
     same_env st st' \<and> change_log st' = change_log st \<and> (\<exists>rows'. tables st' = (tables st)(t := rows'))"

lemma only_table_refl [simp]: "only_table t st st"
  by (auto simp: only_table_def intro: exI [of _ "tables st t"])

lemma only_table_set [simp]: "only_table t st (set_table t rows st)"
  by (auto simp: only_table_def same_env_def set_table_def)

lemma run_statementE:
  assumes "run_statement t res st = (r, st')"
  obtains (failed) "r = Inl Sql_Error" and "st' = st" and "res = None"
  | (ran) rows' n where "r = Inr (n > 0)" and "res = Some (rows', n)" and "st' = set_table t rows' st"
  using assms by (auto simp: run_statement_def split: option.splits)

lemma applyEvent_only_table:
  assumes "applyEvent s e st = (r, st')"
  shows "only_table (table_name e) st st'"
  using assms
  by (auto simp: applyEvent_def applyAppendOnlyReducer_def applyLWWReducer_def Let_def
      elim!: run_statementE split: if_splits option.splits)

section \<open>The replay loop\<close>

definition entry_key :: "log_entry \<Rightarrow> string \<times> string \<times> string" where
  "entry_key e = (table_name e, row_id e, site_id e)"

lemma replay_loop_spec:
  assumes "replay_loop s events acc st = (r, st')"
  shows "same_env st st' \<and>
    (\<forall>res. r = Inr res \<longrightarrow>
      (\<exists>evs new. subseq evs events \<and> applied_events res = applied_events acc @ evs \<and>
         change_log st' = change_log st @ new \<and> map entry_key new = map entry_key evs \<and>
         log_events res = log_events acc @ map event_of new \<and>
         applied res = applied acc + length evs \<and>
         applied res + skipped res = applied acc + skipped acc + length events))"
  using assms
proof (induction events arbitrary: acc st)
  case Nil
  then show ?case by (auto simp: return_def)
next
  case (Cons event events)
  show ?case
  proof (cases "parseReducerRowData event")
    case None
    then show ?thesis using Cons.IH [of "acc\<lparr>skipped := skipped acc + 1\<rparr>" st] Cons.prems
      by (fastforce intro: list_emb_Cons)
  next
    case (Some rd)
    obtain q st1 where ap: "applyEvent s event st = (q, st1)" by (cases "applyEvent s event st")
    have e1: "same_env st st1" "change_log st1 = change_log st"
      using applyEvent_only_table [OF ap] by (simp_all add: only_table_def)
    consider (err) err where "q = Inl err" | (no) "q = Inr False" | (yes) "q = Inr True"
      by (metis (full_types) sum.exhaust)
    then show ?thesis
    proof cases
      case err
      then show ?thesis using Cons.prems Some ap e1 by (auto simp: and_then_def)
    next
      case no
      then show ?thesis
        using Cons.IH [of "acc\<lparr>skipped := skipped acc + 1\<rparr>" st1] Cons.prems Some ap e1
        by (fastforce simp: and_then_def same_env_def intro: list_emb_Cons)
    next
      case yes
      obtain c st2 where cr: "createChangeLogEntry (table_name event) (row_id event) (site_id event) rd
          (Some (hlc event)) st1 = (c, st2)" by force
      from cr show ?thesis
      proof (cases rule: createChangeLogEntryE)
        case dup
        then show ?thesis using Cons.prems Some ap e1 yes cr by (auto simp: and_then_def same_env_def)
      next
        case (logged h e)
        let ?acc = "acc\<lparr>applied := applied acc + 1, applied_events := applied_events acc @ [event],
            log_events := log_events acc @
              [\<lparr>ev_hlc = h, ev_table = table_name event, ev_site = site_id event\<rparr>]\<rparr>"
        have run: "replay_loop s events ?acc st2 = (r, st')"
          using Cons.prems Some ap yes cr logged(1) by (simp add: and_then_def)
        have ev: "event_of e = \<lparr>ev_hlc = h, ev_table = table_name event, ev_site = site_id event\<rparr>"
          and key: "entry_key e = entry_key event"
          using logged by (simp_all add: event_of_def entry_key_def)
        have env: "same_env st st2" using e1 logged(3) by (simp add: same_env_def)
        note ih = Cons.IH [OF run]
        show ?thesis
        proof (intro conjI allI impI)
          show "same_env st st'" using ih env by (simp add: same_env_def)
          fix res
          assume "r = Inr res"
          then obtain evs new where *: "subseq evs events" "applied_events res = applied_events ?acc @ evs"
              "change_log st' = change_log st2 @ new" "map entry_key new = map entry_key evs"
              "log_events res = log_events ?acc @ map event_of new"
              "applied res = applied ?acc + length evs"
              "applied res + skipped res = applied ?acc + skipped ?acc + length events"
            using ih by blast
          then show "\<exists>evs new. subseq evs (event # events) \<and>
              applied_events res = applied_events acc @ evs \<and>
              change_log st' = change_log st @ new \<and> map entry_key new = map entry_key evs \<and>
              log_events res = log_events acc @ map event_of new \<and>
              applied res = applied acc + length evs \<and>
              applied res + skipped res = applied acc + skipped acc + length (event # events)"
            using logged(4) e1(2) ev key
            by (intro exI [of _ "event # evs"] exI [of _ "e # new"]) simp
        qed
      qed
    qed
  qed
qed

section \<open>Roles\<close>

text \<open>No text is stored as the role \<open>system\<close> unless it is that text.\<close>

definition role_schema :: "schema \<Rightarrow> bool" where
  "role_schema s \<longleftrightarrow>
     (\<forall>v. bind_value s ''messages'' ''role'' v = Some (JStr ''system'') \<longrightarrow> v = JStr ''system'') \<and>
     column_default s ''messages'' ''role'' \<noteq> JStr ''system''"

definition no_system :: "row list \<Rightarrow> bool" where
  "no_system rows \<longleftrightarrow> (\<forall>r \<in> set rows. r ''role'' \<noteq> JStr ''system'')"

lemma bound_role:
  assumes "role_schema s" and "bind_all s ''messages'' cvs = Some bound"
    and "map_of cvs ''role'' \<noteq> Some (JStr ''system'')"
  shows "map_of bound ''role'' \<noteq> Some (JStr ''system'')"
  using bind_all_lookup [OF assms(2), of "''role''"] assms(1,3)
  by (auto simp: role_schema_def split: option.splits)

lemma row_with_role:
  "r ''role'' \<noteq> JStr ''system'' \<Longrightarrow> map_of bound ''role'' \<noteq> Some (JStr ''system'') \<Longrightarrow>
   row_with bound r ''role'' \<noteq> JStr ''system''"
  by (auto simp: row_with_def split: option.splits)

lemma no_system_update:
  assumes "no_system rows" and "\<And>r. r ''role'' \<noteq> JStr ''system'' \<Longrightarrow> f r ''role'' \<noteq> JStr ''system''"
  shows "no_system (update_where p f rows)"
  unfolding no_system_def
proof
  fix r
  assume "r \<in> set (update_where p f rows)"
  then show "r ''role'' \<noteq> JStr ''system''"
    by (cases rule: in_update_whereE) (use assms in \<open>auto simp: no_system_def\<close>)
qed

lemma sql_update_no_system:
  assumes "role_schema s" and "no_system rows" and "map_of cvs ''role'' \<noteq> Some (JStr ''system'')"
    and "sql_update s ''messages'' pk cvs p rows = Some (rows', n)"
  shows "no_system rows'"
proof -
  from assms(4) obtain bound where "bind_all s ''messages'' cvs = Some bound"
    "rows' = update_where p (row_with bound) rows" by (rule sql_updateE)
  then show ?thesis
    using no_system_update [OF assms(2)] row_with_role bound_role [OF assms(1) _ assms(3)] by simp
qed

lemma sql_insert_no_system:
  assumes "role_schema s" and "no_system rows" and "map_of cvs ''role'' \<noteq> Some (JStr ''system'')"
    and "sql_insert s ''messages'' pk clause cvs rows = Some (rows', n)"
  shows "no_system rows'"
proof -
  have fresh_role: "fresh s ''messages'' bound ''role'' \<noteq> JStr ''system''"
    if "bind_all s ''messages'' cvs = Some bound" for bound
    using row_with_role [of "column_default s ''messages''" bound] bound_role [OF assms(1) that assms(3)] assms(1)
    by (simp add: fresh_def role_schema_def)
  from assms(4) show ?thesis
  proof (cases rule: sql_insertE)
    case (new bound)
    then show ?thesis using assms(2) fresh_role [OF new(1)] by (auto simp: no_system_def)
  next
    case (kept bound)
    then show ?thesis using assms(2) by simp
  next
    case (upd bound cond cols)
    have "map_of (map (\<lambda>c. (c, fresh s ''messages'' bound c)) cols) ''role'' \<noteq> Some (JStr ''system'')"
      using fresh_role [OF upd(1)] by (simp add: map_of_columns)
    then show ?thesis unfolding upd(4)
      by (intro no_system_update [OF assms(2)] row_with_role)
  qed
qed

lemma map_of_filter_key:
  "map_of (filter (\<lambda>(k, v). P k) cvs) c = (if P c then map_of cvs c else None)"
  by (induction cvs) auto

lemma applyEvent_no_system:
  assumes "role_schema s" and "no_system (tables st ''messages'')" and "applyEvent s e st = (r, st')"
  shows "no_system (tables st' ''messages'')"
proof (cases "table_name e = ''messages''")
  case False
  then show ?thesis
    using assms(2) applyEvent_only_table [OF assms(3)] by (auto simp: only_table_def)
next
  case True
  then have run: "applyAppendOnlyReducer s e st = (r, st')"
    using assms(3) by (simp add: applyEvent_def TABLE_REDUCER_MAP_def)
  have ins: "no_system rows'" if "sql_insert s ''messages'' ''id'' Do_Nothing rd (tables st ''messages'') = Some (rows', n)"
      "\<not> violatesMessageRoleInvariant ''messages'' rd" for rd rows' n
    using sql_insert_no_system [OF assms(1,2) _ that(1)] that(2)
    by (simp add: violatesMessageRoleInvariant_def obj_get_def)
  have upd: "no_system rows'" if "sql_update s ''messages'' ''id'' (filter (\<lambda>(k, v). k \<noteq> ''id'') rd) p
        (tables st ''messages'') = Some (rows', n)"
      "\<not> violatesMessageRoleInvariant ''messages'' rd" for rd rows' n p
    using sql_update_no_system [OF assms(1,2) _ that(1)] that(2)
    by (simp add: violatesMessageRoleInvariant_def obj_get_def map_of_filter_key)
  show ?thesis using run True assms(2) ins upd
    by (auto simp: applyAppendOnlyReducer_def Let_def elim!: run_statementE split: if_splits option.splits)
qed

lemma replay_loop_no_system:
  assumes "role_schema s" and "no_system (tables st ''messages'')" and "replay_loop s events acc st = (Inr res, st')"
  shows "no_system (tables st' ''messages'')"
  using assms(2,3)
proof (induction events arbitrary: acc st)
  case Nil
  then show ?case by (simp add: return_def)
next
  case (Cons event events)
  show ?case
  proof (cases "parseReducerRowData event")
    case None
    then show ?thesis using Cons by auto
  next
    case (Some rd)
    from Cons.prems(2) Some obtain ok st1 where ap: "applyEvent s event st = (Inr ok, st1)"
      by (auto elim: and_then_Inr)
    have n1: "no_system (tables st1 ''messages'')" using applyEvent_no_system [OF assms(1) Cons.prems(1) ap] .
    show ?thesis
    proof (cases ok)
      case False
      then show ?thesis using Cons.IH [OF n1] Cons.prems(2) Some ap by (auto simp: and_then_def)
    next
      case True
      with Cons.prems(2) Some ap obtain h st2 where
          c: "createChangeLogEntry (table_name event) (row_id event) (site_id event) rd (Some (hlc event)) st1 = (Inr h, st2)"
        and rest: "\<exists>acc'. replay_loop s events acc' st2 = (Inr res, st')"
        by (auto simp: and_then_def split: prod.splits sum.splits)
      from c have "tables st2 = tables st1" by (rule createChangeLogEntryE) auto
      then show ?thesis using rest Cons.IH n1 by metis
    qed
  qed
qed

section \<open>Snapshot upserts\<close>

text \<open>What holds of a table after each single upsert holds after the batch and after the
  row-by-row fallback.\<close>

lemma apply_all_induct:
  assumes "apply_all upsert todo rows = Some rows'" and "R rows rows"
    and "\<And>row a b c n. R a b \<Longrightarrow> row \<in> set todo \<Longrightarrow> upsert row b = Some (c, n) \<Longrightarrow> R a c"
  shows "R rows rows'"
proof -
  have "R a b \<Longrightarrow> apply_all upsert xs b = Some c \<Longrightarrow> set xs \<subseteq> set todo \<Longrightarrow> R a c" for a b c xs
    by (induction xs arbitrary: b) (auto split: option.splits intro: assms(3))
  then show ?thesis using assms(1,2) by blast
qed

lemma apply_each_induct:
  assumes "apply_each upsert todo rows = (rows', k)" and "R rows rows"
    and "\<And>row a b c n. R a b \<Longrightarrow> row \<in> set todo \<Longrightarrow> upsert row b = Some (c, n) \<Longrightarrow> R a c"
  shows "R rows rows'"
proof -
  have "R a b \<Longrightarrow> apply_each upsert xs b = (c, j) \<Longrightarrow> set xs \<subseteq> set todo \<Longrightarrow> R a c" for a b c j xs
    by (induction xs arbitrary: b j) (auto split: option.splits prod.splits intro: assms(3))
  then show ?thesis using assms(1,2) by blast
qed

definition snapshot_rows :: "string \<Rightarrow> jobject list \<Rightarrow> jobject list" where
  "snapshot_rows t rows =
     map (heal_edge t)
       (if t = ''messages'' then filter (\<lambda>r. obj_get r ''role'' \<noteq> Some (JStr ''system'')) rows else rows)"

lemma applySnapshotRows_induct:
  assumes "applySnapshotRows s stringify t rows st = (k, st')"
    and "R (tables st t) (tables st t)"
    and "\<And>row columns a b c n. R a b \<Longrightarrow> row \<in> set (snapshot_rows t rows) \<Longrightarrow>
           columns = map fst (hd (snapshot_rows t rows)) \<Longrightarrow> snapshot_rows t rows \<noteq> [] \<Longrightarrow>
           sql_insert s t (getPkColumn t) (snapshot_clause (getPkColumn t) columns)
             (coerceRowValues stringify columns row) b = Some (c, n) \<Longrightarrow> R a c"
  shows "R (tables st t) (tables st' t) \<and> only_table t st st'"
proof -
  let ?app = "snapshot_rows t rows" and ?cols = "map fst (hd (snapshot_rows t rows))"
  let ?up = "\<lambda>row. sql_insert s t (getPkColumn t) (snapshot_clause (getPkColumn t) ?cols)
               (coerceRowValues stringify ?cols row)"
  have run: "applySnapshotRows s stringify t rows st =
      (if \<not> validateTableName t \<or> rows = [] \<or> ?app = [] \<or> \<not> list_all valid_column_name ?cols then (0, st)
       else case apply_all ?up ?app (tables st t) of
              Some rows' \<Rightarrow> (length ?app, set_table t rows' st)
            | None \<Rightarrow> (snd (apply_each ?up ?app (tables st t)), set_table t (fst (apply_each ?up ?app (tables st t))) st))"
    unfolding applySnapshotRows_def Let_def snapshot_rows_def [symmetric] case_prod_unfold
    by (cases "validateTableName t"; cases "rows = []"; cases "?app = []"; cases "list_all valid_column_name ?cols")
      (simp_all only: simp_thms if_True if_False)
  show ?thesis
  proof (cases "\<not> validateTableName t \<or> rows = [] \<or> ?app = [] \<or> \<not> list_all valid_column_name ?cols")
    case True
    then have "st' = st" using assms(1) run by simp
    then show ?thesis using assms(2) by simp
  next
    case False
    then have ne: "?app \<noteq> []" by blast
    have up: "R a c" if "R a b" "row \<in> set ?app" "?up row b = Some (c, n)" for row a b c n
      using assms(3) [OF that(1,2) refl ne that(3)] .
    show ?thesis
    proof (cases "apply_all ?up ?app (tables st t)")
      case (Some rows')
      then have "R (tables st t) rows'" using assms(2) up by (rule apply_all_induct [where R = R])
      moreover have "st' = set_table t rows' st" using assms(1) run False Some by simp
      ultimately show ?thesis by simp
    next
      case None
      obtain rows' j where each: "apply_each ?up ?app (tables st t) = (rows', j)"
        by (cases "apply_each ?up ?app (tables st t)")
      then have "R (tables st t) rows'" using assms(2) up by (rule apply_each_induct [where R = R])
      moreover have "st' = set_table t rows' st" using assms(1) run False None each by simp
      ultimately show ?thesis by simp
    qed
  qed
qed

lemma coerce_lookup:
  "map_of (coerceRowValues stringify columns row) c =
     (if c \<in> set columns then Some (coerce_value stringify (field row c)) else None)"
  by (simp add: coerceRowValues_def map_of_columns)

lemma heal_edge_keys: "fst ` set row \<subseteq> fst ` set (heal_edge t row)"
proof (cases "t = ''memory_edges'' \<and> (\<exists>rel. obj_get row ''relation'' = Some (JStr rel))")
  case True
  then have "heal_edge t row = row \<or> (\<exists>a b. heal_edge t row = obj_set (obj_set row ''relation'' a) ''context'' b)"
    by (auto simp: heal_edge_def case_prod_unfold Let_def) blast+
  then show ?thesis by (elim disjE exE; simp only: obj_keys_set) blast+
next
  case False
  then have "heal_edge t row = row"
    by (auto simp: heal_edge_def split: option.splits json.splits bool.splits)
  then show ?thesis by simp
qed

text \<open>An upsert moves a stored row only forward in \<open>modified_at\<close>.\<close>

lemma sql_less_trans: "sql_less a b \<Longrightarrow> sql_less b c \<Longrightarrow> sql_less a c"
  by (cases "(a, b)" rule: sql_less.cases; cases "(b, c)" rule: sql_less.cases) auto

definition moved_forward :: "string \<Rightarrow> row list \<Rightarrow> row list \<Rightarrow> bool" where
  "moved_forward pk rows rows' \<longleftrightarrow>
     (\<forall>r \<in> set rows. \<exists>r' \<in> set rows'. r' pk = r pk \<and>
        (r' = r \<or> sql_less (r ''modified_at'') (r' ''modified_at'')))"

lemma upsert_forward:
  assumes "sql_insert s t pk (snapshot_clause pk columns) cvs b = Some (c, n)"
    and "''modified_at'' \<in> set columns" and "pk \<noteq> ''modified_at''" and "moved_forward pk a b"
  shows "moved_forward pk a c"
proof -
  have step: "\<exists>r' \<in> set c. r' pk = r pk \<and> (r' = r \<or> sql_less (r ''modified_at'') (r' ''modified_at''))"
    if r: "r \<in> set b" for r
    using assms(1)
  proof (cases rule: sql_insertE)
    case (new bound)
    then show ?thesis using r by auto
  next
    case (kept bound)
    then show ?thesis using r by auto
  next
    case (upd bound cond cols)
    let ?new = "fresh s t bound"
    let ?f = "row_with (map (\<lambda>c. (c, ?new c)) cols)"
    let ?p = "\<lambda>r. sql_eq (r pk) (?new pk) \<and> cond ?new r"
    have cl: "cols = filter (\<lambda>c. c \<noteq> pk) columns" "cond = newer_excluded columns"
      using upd(3) by (auto simp: snapshot_clause_def Let_def split: if_splits)
    have m: "?f x ''modified_at'' = ?new ''modified_at''" for x
      using assms(2,3) by (simp add: row_with_def map_of_columns cl)
    have k: "?f x pk = x pk" for x by (simp add: row_with_def map_of_columns cl)
    show ?thesis
    proof (cases "?p r")
      case False
      then have "r \<in> set c" unfolding upd(4) using r by (intro update_where_miss)
      then show ?thesis by blast
    next
      case True
      then have "?f r \<in> set c" unfolding upd(4) using r by (intro update_where_hit)
      moreover have "sql_less (r ''modified_at'') (?f r ''modified_at'')"
        using True m assms(2) by (simp add: cl newer_excluded_def)
      ultimately show ?thesis using k by blast
    qed
  qed
  show ?thesis
    unfolding moved_forward_def
  proof
    fix r
    assume "r \<in> set a"
    then obtain x where x: "x \<in> set b" "x pk = r pk" "x = r \<or> sql_less (r ''modified_at'') (x ''modified_at'')"
      using assms(4) unfolding moved_forward_def by blast
    obtain y where y: "y \<in> set c" "y pk = x pk" "y = x \<or> sql_less (x ''modified_at'') (y ''modified_at'')"
      using step [OF x(1)] by blast
    then show "\<exists>r' \<in> set c. r' pk = r pk \<and> (r' = r \<or> sql_less (r ''modified_at'') (r' ''modified_at''))"
      using x by (intro bexI [of _ y]) (auto intro: sql_less_trans)
  qed
qed

section \<open>Chunks\<close>

text \<open>The chunks of one column in the order of their indices.\<close>

fun apply_chunks :: "schema \<Rightarrow> string \<Rightarrow> string \<Rightarrow> string \<Rightarrow> nat \<Rightarrow> string list \<Rightarrow> unit action" where
  "apply_chunks s t i col k [] = return ()"
| "apply_chunks s t i col k (d # ds) =
     and_then (applyColumnChunk s t i col k d) (\<lambda>_. apply_chunks s t i col (Suc k) ds)"

definition set_column :: "string \<Rightarrow> string \<Rightarrow> row \<Rightarrow> row" where
  "set_column col v r = r(col := JStr v)"

definition chunk_ready :: "schema \<Rightarrow> string \<Rightarrow> string \<Rightarrow> bool" where
  "chunk_ready s t col \<longleftrightarrow>
     validateTableName t \<and> valid_column_name col \<and> col \<in> set (table_columns s t) \<and> col \<noteq> getPkColumn t \<and>
     (\<forall>v. bind_value s t col (JStr v) = Some (JStr v)) \<and>
     (\<forall>others r r'. update_ok s t others [col] r r')"

lemma set_column_keyed: "col \<noteq> pk \<Longrightarrow> keyed pk (update_where p (set_column col v) rows) = keyed pk rows"
  by (rule keyed_update) (simp add: set_column_def)

lemma first_chunk:
  assumes "chunk_ready s t col" and "keyed (getPkColumn t) (tables st t)"
  shows "applyColumnChunk s t i col 0 d st =
     (Inr (), set_table t (update_where (has_id t i) (set_column col d) (tables st t)) st)"
proof -
  have e: "row_with [(col, JStr d)] = set_column col d"
    by (auto simp: fun_eq_iff row_with_def set_column_def)
  have "keyed (getPkColumn t) (update_where (has_id t i) (set_column col d) (tables st t))"
    using assms by (simp add: set_column_keyed chunk_ready_def)
  then show ?thesis using assms(1)
    by (simp add: applyColumnChunk_def chunk_ready_def sql_update_def Let_def e list_all_iff keyed_def)
qed

lemma later_chunk:
  assumes "chunk_ready s t col" and "tables st t = update_where (has_id t i) (set_column col v) rows"
  shows "applyColumnChunk s t i col (Suc k) d st =
     (Inr (), set_table t (update_where (has_id t i) (set_column col (v @ d)) rows) st)"
proof -
  have id: "has_id t i (set_column col w r) = has_id t i r" for w r
    using assms(1) by (auto simp: has_id_def set_column_def chunk_ready_def)
  have app: "append_column col d (set_column col v r) = set_column col (v @ d) r" for r
    by (simp add: append_column_def sql_concat_def set_column_def)
  have "update_where (has_id t i) (append_column col d) (update_where (has_id t i) (set_column col v) rows)
      = update_where (has_id t i) (set_column col (v @ d)) rows"
    by (simp add: update_where_def id app)
  moreover have "sql_concat (r col) d \<noteq> None" if "r \<in> set (tables st t)" "has_id t i r" for r
    using that unfolding assms(2)
    by (auto simp: sql_concat_def set_column_def id elim!: in_update_whereE)
  ultimately show ?thesis using assms
    by (simp add: applyColumnChunk_def chunk_ready_def Let_def list_all_iff)
qed

lemma later_chunks:
  assumes "chunk_ready s t col" and "tables st t = update_where (has_id t i) (set_column col v) rows"
  shows "fst (apply_chunks s t i col (Suc k) ds st) = Inr () \<and>
         tables (snd (apply_chunks s t i col (Suc k) ds st)) =
           (tables st)(t := update_where (has_id t i) (set_column col (v @ concat ds)) rows)"
  using assms(2)
proof (induction ds arbitrary: k v st)
  case Nil
  then show ?case by (simp add: return_def fun_upd_idem)
next
  case (Cons d ds)
  let ?st = "set_table t (update_where (has_id t i) (set_column col (v @ d)) rows) st"
  have "tables ?st t = update_where (has_id t i) (set_column col (v @ d)) rows" by simp
  from Cons.IH [OF this, of "Suc k"] show ?case
    using later_chunk [OF assms(1) Cons.prems, of k d] by (auto simp: and_then_def)
qed

section \<open>Properties\<close>

text \<open>a batch of received events is applied as a whole. If replay throws, tables, log and
  delivered events are unchanged. Otherwise every event is counted once as applied or skipped,
  the applied ones are a subsequence of the batch, the log grows by exactly one entry per
  applied event with the event's own table, row and site, and the bus gets exactly the events
  of these entries.\<close>

theorem replayEvents_atomic:
  assumes "replayEvents s True events st = (r, st')"
  shows "case r of
      Inl e \<Rightarrow> tables st' = tables st \<and> change_log st' = change_log st \<and> emitted st' = emitted st
    | Inr res \<Rightarrow>
        applied res + skipped res = length events \<and> applied res = length (applied_events res) \<and>
        subseq (applied_events res) events \<and>
        (\<exists>new. change_log st' = change_log st @ new \<and> emitted st' = emitted st @ map event_of new \<and>
           map (\<lambda>e. (table_name e, row_id e, site_id e)) new =
           map (\<lambda>e. (table_name e, row_id e, site_id e)) (applied_events res))"
proof -
  let ?acc = "\<lparr>applied = 0, skipped = 0, applied_events = [], log_events = []\<rparr>"
  obtain q st1 where q: "replay_loop s events ?acc st = (q, st1)" by (cases "replay_loop s events ?acc st")
  note loop = replay_loop_spec [OF q]
  show ?thesis
  proof (cases q)
    case (Inl e)
    then show ?thesis using assms q loop
      by (auto simp: replayEvents_def and_then_def in_transaction_def same_env_def)
  next
    case (Inr res)
    then obtain evs new where new: "subseq evs events" "applied_events res = evs"
        "change_log st1 = change_log st @ new" "map entry_key new = map entry_key evs"
        "log_events res = map event_of new" "applied res = length evs"
        "applied res + skipped res = length events"
      using loop by auto
    have "r = Inr res" "st' = st1\<lparr>emitted := emitted st1 @ log_events res\<rparr>"
      using assms q Inr by (simp_all add: replayEvents_def and_then_def in_transaction_def)
    moreover have "emitted st1 = emitted st" using loop by (simp add: same_env_def)
    moreover have "map (\<lambda>e. (table_name e, row_id e, site_id e)) new =
        map (\<lambda>e. (table_name e, row_id e, site_id e)) evs"
      using new(4) by (simp add: entry_key_def [abs_def])
    ultimately show ?thesis using new by simp
  qed
qed

theorem replayEvents_atomic_witness:
  "change_log (snd (replayEvents plain_schema True
     [status_event ''2026-01-01T00:00:00.000Z_0000_cd34'' ''a'' ''2026-01-01'',
      (status_event ''h'' ''a'' ''2026-01-01'')\<lparr>row_data := NotJson ''{''\<rparr>] empty_store)) \<noteq> []"
proof -
  let ?run = "replayEvents plain_schema True
     [status_event ''2026-01-01T00:00:00.000Z_0000_cd34'' ''a'' ''2026-01-01'',
      (status_event ''h'' ''a'' ''2026-01-01'')\<lparr>row_data := NotJson ''{''\<rparr>] empty_store"
  have "map_sum id (\<lambda>r. applied r) (fst ?run) = Inr 1" by code_simp
  then obtain res where res: "fst ?run = Inr res" "applied res = 1" by (cases "fst ?run") auto
  then have "?run = (Inr res, snd ?run)" by (metis prod.collapse)
  from replayEvents_atomic [OF this] have
    len: "applied res = length (applied_events res)" and
    ex: "\<exists>new. change_log (snd ?run) = change_log empty_store @ new \<and>
       emitted (snd ?run) = emitted empty_store @ map event_of new \<and>
       map (\<lambda>e. (table_name e, row_id e, site_id e)) new =
       map (\<lambda>e. (table_name e, row_id e, site_id e)) (applied_events res)"
    unfolding sum.case by blast+
  from ex obtain new where new: "change_log (snd ?run) = change_log empty_store @ new"
    "map (\<lambda>e. (table_name e, row_id e, site_id e)) new =
     map (\<lambda>e. (table_name e, row_id e, site_id e)) (applied_events res)" by blast
  from arg_cong [OF new(2), of length] have "length new = 1" using len res(2) by simp
  then have "new \<noteq> []" by auto
  then show ?thesis unfolding new(1) by simp
qed

text \<open>a received event is logged after its cause. While the local stamps and the remote one
  have counters below \<open>ffff\<close>, logging a received event never collides and gives a stamp
  strictly greater than the remote stamp and than every local stamp.\<close>

theorem received_after_cause:
  assumes "\<forall>e \<in> set (change_log st). hlc_wf (hlc e) \<and> hlc_number (hlc e) < 65535"
    and "hlc_wf remote" and "hlc_number remote < 65535"
    and "\<forall>k. length (now_at st k) = 24" and "CHR ''_'' \<notin> set site"
  shows "\<exists>h. fst (createChangeLogEntry t i site rd (Some remote) st) = Inr h \<and> remote < h \<and>
           (\<forall>e \<in> set (change_log st). hlc e < h)"
proof -
  let ?hs = "map hlc (change_log st)" and ?h = "next_hlc st site (Some remote)"
  have m: "merges (Some remote)" using hlc_wfD(5) [OF assms(2)] by (simp add: merges_def)
  have w: "wall_wf (now_at st (reads st + 1))" "site_wf site" "\<forall>h \<in> set ?hs. hlc_wf h \<and> hlc_room h"
      "hlc_room remote"
    using assms by (auto simp: wall_wf_def site_wf_def hlc_room_def)
  note lt = hlc.merge_log [OF w(1-3) assms(2) w(4) refl]
  have "?h = mergeHlc (now_at st (reads st + 1)) (case latest ?hs of None \<Rightarrow> HLC_ZERO | Some l \<Rightarrow> l) remote site"
    using m by (simp add: next_hlc_def Let_def)
  then have "remote < ?h" "\<forall>h \<in> set ?hs. h < ?h" using lt by simp_all
  then show ?thesis by (auto simp: createChangeLogEntry_run Let_def)
qed

theorem received_after_cause_witness:
  "\<exists>h. fst (createChangeLogEntry ''users'' ''u1'' ''ab12'' [] (Some HLC_ZERO) empty_store) = Inr h \<and> HLC_ZERO < h"
  using received_after_cause [of empty_store HLC_ZERO "''ab12''" "''users''" "''u1''" "[]"]
    HLC_ZERO_wf HLC_ZERO_room
  by (auto simp: empty_store_def hlc_room_def)

text \<open>no write path for messages lets the role \<open>system\<close> in. If no stored message has it,
  then none has it after a local insert, after replaying any batch of received events, and
  after applying any snapshot rows to any table.\<close>

theorem system_role_rejected:
  assumes "role_schema s" and "no_system (tables st ''messages'')"
    and "\<And>xs. stringify (JArr xs) \<noteq> ''system''" and "\<And>ob. stringify (JObj ob) \<noteq> ''system''"
  shows "no_system (tables (snd (insertRow s bus t rd site st)) ''messages'') \<and>
         no_system (tables (snd (replayEvents s eb events st)) ''messages'') \<and>
         no_system (tables (snd (applySnapshotRows s stringify t' rows st)) ''messages'')"
proof (intro conjI)
  let ?tx = "in_transaction (insert_body s t rd site)"
  have body: "no_system (tables st' ''messages'')" if "?tx st = (r, st')"
      "t = ''messages'' \<Longrightarrow> obj_get rd ''role'' \<noteq> Some (JStr ''system'')" for r st'
    using that(1)
  proof (cases rule: in_transactionE)
    case (ok a)
    from ok(2) show ?thesis
    proof (cases rule: insert_bodyE)
      case (logged h e rows' n i)
      then show ?thesis
        using assms(2) sql_insert_no_system [OF assms(1,2)] that(2)
        by (cases "t = ''messages''") (auto simp: obj_get_def)
    qed auto
  next
    case (failed e st1)
    then show ?thesis using assms(2) by simp
  qed
  have emit: "tables (snd (and_then (emitWrittenChangeLogEvent bus t site h) (\<lambda>_. return h) st')) = tables st'" for h st'
    by (auto simp: emitWrittenChangeLogEvent_def emitChangeLogEvent_def deliver_def action_defs
        split: option.splits list.splits)
  show "no_system (tables (snd (insertRow s bus t rd site st)) ''messages'')"
  proof (cases "t = ''messages'' \<and> obj_get rd ''role'' = Some (JStr ''system'')")
    case True
    then show ?thesis using assms(2) by (simp add: insertRow_def throw_def)
  next
    case False
    obtain r st' where run: "?tx st = (r, st')" by (cases "?tx st")
    then have "no_system (tables st' ''messages'')" using body False by blast
    then show ?thesis using False run assms(2) emit
      by (auto simp: insertRow_def and_then_def [of "validate_columns _"] and_then_def [of "in_transaction _"]
          commit_and_emit_def validate_columns_run split: option.splits sum.splits)
  qed
  obtain q st1 where q: "replay_loop s events \<lparr>applied = 0, skipped = 0, applied_events = [], log_events = []\<rparr> st = (q, st1)"
    by force
  then show "no_system (tables (snd (replayEvents s eb events st)) ''messages'')"
    using assms(2) replay_loop_no_system [OF assms(1,2)]
    by (cases q) (auto simp: replayEvents_def and_then_def in_transaction_def)
  obtain k st2 where sn: "applySnapshotRows s stringify t' rows st = (k, st2)" by force
  show "no_system (tables (snd (applySnapshotRows s stringify t' rows st)) ''messages'')"
  proof (cases "t' = ''messages''")
    case False
    have "only_table t' st st2"
      using applySnapshotRows_induct [OF sn, of "\<lambda>a b. True"] by blast
    then show ?thesis using sn False assms(2) by (auto simp: only_table_def)
  next
    case True
    have role: "map_of (coerceRowValues stringify columns row) ''role'' \<noteq> Some (JStr ''system'')"
      if "row \<in> set (snapshot_rows ''messages'' rows)" for row columns
    proof -
      from that have "obj_get row ''role'' \<noteq> Some (JStr ''system'')"
        by (auto simp: snapshot_rows_def heal_edge_def)
      then show ?thesis using assms(3,4)
        by (auto simp: coerce_lookup coerce_value_def field_def split: json.splits option.splits)
    qed
    have "no_system (tables st ''messages'') \<longrightarrow> no_system (tables st2 ''messages'')"
      using applySnapshotRows_induct [OF sn [unfolded True], of "\<lambda>a b. no_system a \<longrightarrow> no_system b"]
        sql_insert_no_system [OF assms(1) _ role]
      by blast
    then show ?thesis using sn True assms(2) by simp
  qed
qed

theorem system_role_rejected_witness:
  "no_system (tables (snd (applySnapshotRows plain_schema (\<lambda>_. ''[]'') ''messages''
     [[(''id'', JStr ''m1''), (''role'', JStr ''system'')], [(''id'', JStr ''m2''), (''role'', JStr ''user'')]]
     empty_store)) ''messages'')"
proof -
  have "role_schema plain_schema" by (simp add: role_schema_def plain_schema_def)
  moreover have "no_system (tables empty_store ''messages'')" by (simp add: no_system_def empty_store_def)
  ultimately show ?thesis using system_role_rejected [of plain_schema empty_store "\<lambda>_. ''[]''"] by simp
qed

text \<open>C27: a snapshot never brings back an older row. When the snapshot's rows carry
  \<open>modified_at\<close>, every row stored before is, under the same key, either exactly as it was
  or replaced by one with a strictly later \<open>modified_at\<close>; other tables, the log and the
  events are untouched.\<close>

theorem snapshot_never_regresses:
  assumes "applySnapshotRows s stringify t rows st = (n, st')"
    and "\<forall>row \<in> set rows. ''modified_at'' \<in> fst ` set row"
    and "r \<in> set (tables st t)"
  shows "(\<exists>r' \<in> set (tables st' t). r' (getPkColumn t) = r (getPkColumn t) \<and>
            (r' = r \<or> sql_less (r ''modified_at'') (r' ''modified_at''))) \<and>
         (\<forall>u. u \<noteq> t \<longrightarrow> tables st' u = tables st u) \<and> change_log st' = change_log st \<and> emitted st' = emitted st"
proof -
  have cols: "''modified_at'' \<in> set (map fst (hd (snapshot_rows t rows)))" if "snapshot_rows t rows \<noteq> []"
  proof -
    have "hd (snapshot_rows t rows) \<in> set (snapshot_rows t rows)" using that by simp
    then obtain row where row: "row \<in> set rows" "hd (snapshot_rows t rows) = heal_edge t row"
      by (auto simp: snapshot_rows_def split: if_splits)
    have "fst ` set row \<subseteq> fst ` set (heal_edge t row)"
      by (rule heal_edge_keys)
    then show ?thesis using assms(2) row by auto
  qed
  have "moved_forward (getPkColumn t) (tables st t) (tables st' t) \<and> only_table t st st'"
  proof (rule applySnapshotRows_induct [OF assms(1)])
    show "moved_forward (getPkColumn t) (tables st t) (tables st t)" by (auto simp: moved_forward_def)
    show "moved_forward (getPkColumn t) a c"
      if "moved_forward (getPkColumn t) a b" "columns = map fst (hd (snapshot_rows t rows))" "snapshot_rows t rows \<noteq> []"
        "sql_insert s t (getPkColumn t) (snapshot_clause (getPkColumn t) columns)
          (coerceRowValues stringify columns row) b = Some (c, k)" for row columns a b c k
      using upsert_forward [OF that(4) _ pk_not_modified that(1)] cols that(2,3) by blast
  qed
  then show ?thesis using assms(3) by (auto simp: moved_forward_def only_table_def same_env_def)
qed

theorem snapshot_never_regresses_witness:
  "\<exists>r' \<in> set (tables (snd (applySnapshotRows plain_schema (\<lambda>_. ''[]'') ''users''
       [[(''id'', JStr ''u1''), (''status'', JStr ''x''), (''modified_at'', JStr ''2025'')]]
       (set_table ''users'' [user_row(''modified_at'' := JStr ''2026'')] empty_store))) ''users'').
     r' ''id'' = JStr ''u1''"
  using snapshot_never_regresses [OF surjective_pairing, of
      "[[(''id'', JStr ''u1''), (''status'', JStr ''x''), (''modified_at'', JStr ''2025'')]]"
      "user_row(''modified_at'' := JStr ''2026'')"
      "set_table ''users'' [user_row(''modified_at'' := JStr ''2026'')] empty_store" "''users''"
      plain_schema "\<lambda>_. ''[]''"]
  by (auto simp: getPkColumn_def user_row_def)

text \<open>an oversized column survives being sent in chunks. Applying its chunks in order to a
  table of rows leaves exactly the addressed row changed, in exactly that column, which then
  holds the concatenation of the chunks.\<close>

theorem chunks_reassemble:
  assumes "chunk_ready s t col" and "keyed (getPkColumn t) (tables st t)"
  shows "fst (apply_chunks s t i col 0 (d # ds) st) = Inr () \<and>
         tables (snd (apply_chunks s t i col 0 (d # ds) st)) =
           (tables st)(t := update_where (\<lambda>r. sql_eq (r (getPkColumn t)) (JStr i))
                              (\<lambda>r. r(col := JStr (concat (d # ds)))) (tables st t))"
proof -
  let ?st = "set_table t (update_where (has_id t i) (set_column col d) (tables st t)) st"
  have "tables ?st t = update_where (has_id t i) (set_column col d) (tables st t)" by simp
  from later_chunks [OF assms(1) this, of 0 ds] first_chunk [OF assms, of i d]
  have "fst (apply_chunks s t i col 0 (d # ds) st) = Inr () \<and>
        tables (snd (apply_chunks s t i col 0 (d # ds) st)) =
          (tables st)(t := update_where (has_id t i) (set_column col (d @ concat ds)) (tables st t))"
    by (auto simp: and_then_def)
  then show ?thesis by (simp add: has_id_def [abs_def] set_column_def [abs_def])
qed

theorem chunks_reassemble_witness:
  "fst (apply_chunks plain_schema ''users'' ''u1'' ''context'' 0 [''ab'', ''cd'', ''ef''] user_store) = Inr ()"
proof -
  have "chunk_ready plain_schema ''users'' ''context''"
    by (simp add: chunk_ready_def plain_schema_def validateTableName_def TABLE_REDUCER_MAP_def
        valid_column_name_def getPkColumn_def)
  moreover have "keyed (getPkColumn ''users'') (tables user_store ''users'')"
    by (simp add: keyed_def user_store_def)
  ultimately show ?thesis using chunks_reassemble by blast
qed

end
