(* ===== verification/Connection.thy ===== *)
theory Connection
  imports Prelude
begin

text \<open>
  The transport's view of a peer connection (\<open>PeerConnection\<close> in
  \<open>packages/sync/src/ws-transport.ts\<close>): frames of any type \<open>'f\<close> are handed to
  \<open>sendFrame\<close>, which takes or refuses each of them.
\<close>

text \<open>A connection: the frames it took, and whether it takes the next one.\<close>

record 'f link =
  link_peer :: string
  outbox :: "'f list"
  attempts :: nat
  accepts :: "nat \<Rightarrow> bool"

definition sendFrame :: "'f \<Rightarrow> 'f link \<Rightarrow> bool \<times> 'f link" where
  "sendFrame f l =
     (if accepts l (attempts l) then (True, l\<lparr>outbox := outbox l @ [f], attempts := attempts l + 1\<rparr>)
      else (False, l\<lparr>attempts := attempts l + 1\<rparr>))"

text \<open>Sending frames until one is refused.\<close>

fun send_frames :: "'f list \<Rightarrow> 'f link \<Rightarrow> bool \<times> 'f link" where
  "send_frames [] l = (True, l)"
| "send_frames (f # fs) l =
     (let (ok, l') = sendFrame f l in if ok then send_frames fs l' else (False, l'))"

lemma send_all:
  assumes "\<And>n. accepts l n"
  shows "send_frames fs l = (True, l\<lparr>outbox := outbox l @ fs, attempts := attempts l + length fs\<rparr>)"
  using assms by (induction fs arbitrary: l) (simp_all add: sendFrame_def)

lemma send_frames_link: "link_peer (snd (send_frames fs l)) = link_peer l"
  by (induction fs arbitrary: l) (simp_all add: sendFrame_def case_prod_unfold Let_def)

end
