(* ===== verification/Changelog_Sync.thy ===== *)
theory Changelog_Sync
  imports Replication Connection
begin

text \<open>
  Change-log exchange between hosts: the per-peer cursors (\<open>packages/sync/src/peer-cursor.ts\<close>,
  \<open>core/src/repositories/sync-state.ts\<close>, \<open>core/src/repositories/change-log.ts\<close>), the
  changesets (\<open>sync/src/changeset.ts\<close>), pruning (\<open>sync/src/pruning.ts\<close>) and the change-log
  part of the WebSocket transport (\<open>sync/src/ws-transport.ts\<close>). The byte length of an encoded
  frame or of a JSON text is a function argument; a connection accepts or refuses each frame it
  is handed.
\<close>

section \<open>Cursors\<close>

record sync_state =
  peer_site_id :: string
  last_received :: string
  last_sent :: string
  last_confirmed :: string
  last_sync_at :: "string option"
  sync_errors :: int

definition getPeerCursor :: "sync_state list \<Rightarrow> string \<Rightarrow> sync_state option" where
  "getPeerCursor peers p = find (\<lambda>c. peer_site_id c = p) peers"

definition getSyncStateByPeer :: "sync_state list \<Rightarrow> string \<Rightarrow> sync_state option" where
  "getSyncStateByPeer peers p = find (\<lambda>c. peer_site_id c = p) peers"

definition getPeerSiteId :: "sync_state list \<Rightarrow> string option" where
  "getPeerSiteId peers = (case peers of [] \<Rightarrow> None | c # _ \<Rightarrow> Some (peer_site_id c))"

text \<open>A partial update: an absent key, a key whose value is undefined, or a value.\<close>

record cursor_updates =
  u_received :: "string option option"
  u_sent :: "string option option"
  u_confirmed :: "string option option"
  u_errors :: "int option option"

definition no_updates :: cursor_updates where
  "no_updates = \<lparr>u_received = None, u_sent = None, u_confirmed = None, u_errors = None\<rparr>"

definition or_zero :: "string option option \<Rightarrow> string" where
  "or_zero u = (case u of Some (Some h) \<Rightarrow> h | _ \<Rightarrow> HLC_ZERO)"

definition keep_or :: "'a option option \<Rightarrow> 'a \<Rightarrow> 'a \<Rightarrow> 'a" where
  "keep_or u dflt old = (case u of None \<Rightarrow> old | Some None \<Rightarrow> dflt | Some (Some v) \<Rightarrow> v)"

definition updatePeerCursor :: "string \<Rightarrow> sync_state list \<Rightarrow> string \<Rightarrow> cursor_updates \<Rightarrow> sync_state list" where
  "updatePeerCursor now peers p u =
     (if getPeerCursor peers p = None
      then peers @ [\<lparr>peer_site_id = p, last_received = or_zero (u_received u), last_sent = or_zero (u_sent u),
                     last_confirmed = or_zero (u_confirmed u), last_sync_at = Some now,
                     sync_errors = (case u_errors u of Some (Some n) \<Rightarrow> n | _ \<Rightarrow> 0)\<rparr>]
      else update_where (\<lambda>c. peer_site_id c = p)
             (\<lambda>c. c\<lparr>last_received := keep_or (u_received u) HLC_ZERO (last_received c),
                    last_sent := keep_or (u_sent u) HLC_ZERO (last_sent c),
                    last_confirmed := keep_or (u_confirmed u) HLC_ZERO (last_confirmed c),
                    sync_errors := keep_or (u_errors u) 0 (sync_errors c),
                    last_sync_at := Some now\<rparr>) peers)"

definition resetSyncErrors :: "sync_state list \<Rightarrow> string \<Rightarrow> sync_state list" where
  "resetSyncErrors peers p = update_where (\<lambda>c. peer_site_id c = p) (\<lambda>c. c\<lparr>sync_errors := 0\<rparr>) peers"

definition incrementSyncErrors :: "sync_state list \<Rightarrow> string \<Rightarrow> sync_state list" where
  "incrementSyncErrors peers p =
     (if getPeerCursor peers p = None
      then peers @ [\<lparr>peer_site_id = p, last_received = HLC_ZERO, last_sent = HLC_ZERO,
                     last_confirmed = HLC_ZERO, last_sync_at = None, sync_errors = 1\<rparr>]
      else update_where (\<lambda>c. peer_site_id c = p) (\<lambda>c. c\<lparr>sync_errors := sync_errors c + 1\<rparr>) peers)"

definition getConfirmedSyncWatermark :: "sync_state list \<Rightarrow> string \<Rightarrow> string" where
  "getConfirmedSyncWatermark peers p =
     (case getPeerCursor peers p of None \<Rightarrow> HLC_ZERO | Some c \<Rightarrow> last_confirmed c)"

definition countSyncStatePeers :: "sync_state list \<Rightarrow> nat" where
  "countSyncStatePeers peers = length peers"

definition getMinSyncReceivedHlc :: "sync_state list \<Rightarrow> string" where
  "getMinSyncReceivedHlc peers = (if peers = [] then HLC_ZERO else Min (set (map last_received peers)))"

definition getMinConfirmedHlc :: "sync_state list \<Rightarrow> string" where
  "getMinConfirmedHlc peers = getMinSyncReceivedHlc peers"

section \<open>Reading the log\<close>

definition getChangeLogHorizon :: "log_entry list \<Rightarrow> string option" where
  "getChangeLogHorizon clog = (if clog = [] then None else Some (Min (set (map timestamp clog))))"

definition countChangeLogEntries :: "log_entry list \<Rightarrow> nat" where
  "countChangeLogEntries clog = length clog"

definition getChangeLogHlcAtOffset :: "log_entry list \<Rightarrow> nat \<Rightarrow> string option" where
  "getChangeLogHlcAtOffset clog n =
     (let hs = rev (sort (map hlc clog)) in if n < length hs then Some (hs ! n) else None)"

definition listChangeLogRowsAffectedAfter :: "log_entry list \<Rightarrow> string \<Rightarrow> (string \<times> string) list" where
  "listChangeLogRowsAffectedAfter clog ts =
     order_by fst (order_by snd (remdups (map (\<lambda>e. (table_name e, row_id e)) (filter (\<lambda>e. ts < timestamp e) clog))))"

definition findLatestChangeLogRowAtOrBefore ::
  "log_entry list \<Rightarrow> string \<Rightarrow> string \<Rightarrow> string \<Rightarrow> log_entry option" where
  "findLatestChangeLogRowAtOrBefore clog t i ts =
     (case rev (order_by hlc (filter (\<lambda>e. table_name e = t \<and> row_id e = i \<and> timestamp e \<le> ts) clog)) of
        [] \<Rightarrow> None | e # _ \<Rightarrow> Some e)"

definition findChangeLogEntryByHlc :: "log_entry list \<Rightarrow> string \<Rightarrow> log_entry option" where
  "findChangeLogEntryByHlc clog h = find (\<lambda>e. hlc e = h) clog"

section \<open>Changesets\<close>

record changeset =
  events :: "log_entry list"
  source_site_id :: string
  source_hlc_start :: string
  source_hlc_end :: string

definition createChangeset :: "log_entry list \<Rightarrow> string \<Rightarrow> string \<Rightarrow> changeset" where
  "createChangeset evs fallbackHlc sourceSiteId =
     \<lparr>events = evs, source_site_id = sourceSiteId,
      source_hlc_start = (if evs = [] then fallbackHlc else hlc (hd evs)),
      source_hlc_end = (if evs = [] then fallbackHlc else hlc (last evs))\<rparr>"

text \<open>\<open>WHERE hlc > ? ... ORDER BY hlc ASC\<close>.\<close>

definition entries_after :: "log_entry list \<Rightarrow> string \<Rightarrow> (log_entry \<Rightarrow> bool) \<Rightarrow> log_entry list" where
  "entries_after clog since p = order_by hlc (filter (\<lambda>e. since < hlc e \<and> p e) clog)"

definition fetchOutboundChangeset :: "log_entry list \<Rightarrow> sync_state list \<Rightarrow> string \<Rightarrow> string \<Rightarrow> changeset" where
  "fetchOutboundChangeset clog peers p siteId =
     (let lastSent = (case getPeerCursor peers p of None \<Rightarrow> HLC_ZERO | Some c \<Rightarrow> last_sent c)
      in createChangeset (entries_after clog lastSent (\<lambda>e. True)) lastSent siteId)"

definition fetchInboundChangeset :: "log_entry list \<Rightarrow> string \<Rightarrow> string \<Rightarrow> changeset" where
  "fetchInboundChangeset clog requesterSiteId sinceHlc =
     createChangeset (entries_after clog sinceHlc (\<lambda>e. site_id e \<noteq> requesterSiteId)) sinceHlc []"

definition DEFAULT_MAX_CHUNK_BYTES :: int where
  "DEFAULT_MAX_CHUNK_BYTES = 10 * 1024 * 1024"

definition chunk_of :: "changeset \<Rightarrow> log_entry list \<Rightarrow> changeset" where
  "chunk_of cs evs =
     \<lparr>events = evs, source_site_id = source_site_id cs,
      source_hlc_start = hlc (hd evs), source_hlc_end = hlc (last evs)\<rparr>"

text \<open>The packing loop: the chunk being filled and its size so far. \<open>bytes\<close> is the encoded
  size of one event.\<close>

fun pack_events ::
  "(log_entry \<Rightarrow> nat) \<Rightarrow> int \<Rightarrow> log_entry list \<Rightarrow> log_entry list \<Rightarrow> nat \<Rightarrow> log_entry list list" where
  "pack_events bytes budget [] current used = (if current = [] then [] else [current])"
| "pack_events bytes budget (e # es) current used =
     (let eventSize = bytes e + 1 in
      if current \<noteq> [] \<and> budget < int (used + eventSize)
      then current # pack_events bytes budget es [e] eventSize
      else pack_events bytes budget es (current @ [e]) (used + eventSize))"

definition chunkChangeset ::
  "(changeset \<Rightarrow> nat) \<Rightarrow> (log_entry \<Rightarrow> nat) \<Rightarrow> changeset \<Rightarrow> int \<Rightarrow> changeset list" where
  "chunkChangeset fullBytes bytes cs maxBytes =
     (if events cs = [] \<or> int (fullBytes cs) \<le> maxBytes then [cs]
      else map (chunk_of cs) (pack_events bytes (maxBytes - 256) (events cs) [] 0))"

section \<open>Pruning\<close>

datatype pruning_mode = Multi_Host | Single_Host

definition determinePruningMode :: "sync_state list \<Rightarrow> pruning_mode" where
  "determinePruningMode peers = (if countSyncStatePeers peers = 0 then Single_Host else Multi_Host)"

definition MAX_SINGLE_HOST_ENTRIES :: nat where
  "MAX_SINGLE_HOST_ENTRIES = 100000"

definition delete_through :: "string \<Rightarrow> log_entry list \<Rightarrow> log_entry list \<times> nat" where
  "delete_through h clog = (delete_where (\<lambda>e. hlc e \<le> h) clog, count_where (\<lambda>e. hlc e \<le> h) clog)"

definition pruneChangeLog :: "sync_state list \<Rightarrow> pruning_mode \<Rightarrow> log_entry list \<Rightarrow> log_entry list \<times> nat" where
  "pruneChangeLog peers mode clog =
     (case mode of
        Single_Host \<Rightarrow>
          if countChangeLogEntries clog \<le> MAX_SINGLE_HOST_ENTRIES then (clog, 0)
          else (case getChangeLogHlcAtOffset clog MAX_SINGLE_HOST_ENTRIES of
                  None \<Rightarrow> (clog, 0)
                | Some cutoff \<Rightarrow> if cutoff = [] then (clog, 0) else delete_through cutoff clog)
      | Multi_Host \<Rightarrow>
          let minHlc = getMinConfirmedHlc peers in
          if minHlc = HLC_ZERO then (clog, 0) else delete_through minHlc clog)"

section \<open>The change-log part of the transport\<close>

record wire_entry =
  w_hlc :: string
  w_table :: string
  w_row :: string
  w_site :: string
  w_time :: string
  w_data :: json

definition to_wire :: "log_entry \<Rightarrow> wire_entry option" where
  "to_wire e = map_option (\<lambda>v. \<lparr>w_hlc = hlc e, w_table = table_name e, w_row = row_id e, w_site = site_id e,
       w_time = timestamp e, w_data = v\<rparr>) (json_parse (row_data e))"

text \<open>\<open>None\<close> when \<open>JSON.parse\<close> throws on an entry.\<close>

fun toChangelogWireEntries :: "log_entry list \<Rightarrow> wire_entry list option" where
  "toChangelogWireEntries [] = Some []"
| "toChangelogWireEntries (e # es) =
     (case to_wire e of
        None \<Rightarrow> None
      | Some w \<Rightarrow> map_option (\<lambda>ws. w # ws) (toChangelogWireEntries es))"

definition from_wire :: "wire_entry \<Rightarrow> log_entry" where
  "from_wire w = \<lparr>hlc = w_hlc w, table_name = w_table w, row_id = w_row w, site_id = w_site w,
     timestamp = w_time w, row_data = json_stringify (w_data w)\<rparr>"

text \<open>Frames as the entries they carry; an oversized frame of several entries is halved.\<close>

function encodeChangelogFrames :: "(wire_entry list \<Rightarrow> nat) \<Rightarrow> nat \<Rightarrow> wire_entry list \<Rightarrow> wire_entry list list" where
  "encodeChangelogFrames frameBytes maxBytes entries =
     (if entries = [] then []
      else if frameBytes entries \<le> maxBytes then [entries]
      else if length entries = 1 then [entries]
      else encodeChangelogFrames frameBytes maxBytes (take (length entries div 2) entries) @
           encodeChangelogFrames frameBytes maxBytes (drop (length entries div 2) entries))"
  by pat_completeness auto
termination
proof (relation "measure (\<lambda>(f, m, es). length es)", simp, goal_cases)
  case (1 frameBytes maxBytes entries)
  then have "2 \<le> length entries" by (cases entries) (auto simp: Suc_le_eq)
  then show ?case by auto
next
  case (2 frameBytes maxBytes entries)
  then have "2 \<le> length entries" by (cases entries) (auto simp: Suc_le_eq)
  then show ?case by auto
qed

declare encodeChangelogFrames.simps [simp del]

datatype frame = Changelog_Push "wire_entry list" | Changelog_Ack string | Drain_Complete

definition sent_cursor :: "string \<Rightarrow> cursor_updates" where
  "sent_cursor h = no_updates\<lparr>u_sent := Some (Some h)\<rparr>"

record transport =
  db :: store
  sync_peers :: "sync_state list"
  links :: "frame link list"
  seeding :: "string list"

record frame_limits =
  frame_bytes :: "wire_entry list \<Rightarrow> nat"
  max_frame :: nat

text \<open>One peer's turn of \<open>flushChangelogEntries\<close>. A JSON text in the log that does not parse
  throws (\<open>None\<close>).\<close>

definition flush_peer ::
  "frame_limits \<Rightarrow> string \<Rightarrow> log_entry list \<Rightarrow> string list \<Rightarrow> sync_state list \<times> frame link \<Rightarrow> (sync_state list \<times> frame link) option"
where
  "flush_peer limits now entries seeds pl =
     (case pl of (peers, l) \<Rightarrow>
        let p = link_peer l; entriesToSend = filter (\<lambda>e. site_id e \<noteq> p) entries in
        if p \<in> set seeds \<or> entriesToSend = [] then Some (peers, l)
        else case toChangelogWireEntries entriesToSend of
               None \<Rightarrow> None
             | Some wire \<Rightarrow>
                 let (allSent, l') = send_frames
                       (map Changelog_Push (encodeChangelogFrames (frame_bytes limits) (max_frame limits) wire)) l
                 in Some (if allSent then updatePeerCursor now peers p (sent_cursor (hlc (last entriesToSend)))
                          else peers, l'))"

fun flush_links ::
  "frame_limits \<Rightarrow> string \<Rightarrow> log_entry list \<Rightarrow> string list \<Rightarrow> sync_state list \<Rightarrow> frame link list \<Rightarrow> (sync_state list \<times> frame link list) option"
where
  "flush_links limits now entries seeds peers [] = Some (peers, [])"
| "flush_links limits now entries seeds peers (l # ls) =
     (case flush_peer limits now entries seeds (peers, l) of
        None \<Rightarrow> None
      | Some (peers', l') \<Rightarrow>
          map_option (\<lambda>(peers'', ls'). (peers'', l' # ls')) (flush_links limits now entries seeds peers' ls))"

definition flushChangelogEntries :: "frame_limits \<Rightarrow> string \<Rightarrow> log_entry list \<Rightarrow> transport \<Rightarrow> transport option" where
  "flushChangelogEntries limits now entries tr =
     map_option (\<lambda>(peers, ls). tr\<lparr>sync_peers := peers, links := ls\<rparr>)
       (flush_links limits now entries (seeding tr) (sync_peers tr) (links tr))"

text \<open>The batches of a drain: 100 entries each, the cursor moved after each batch that was
  taken as a whole; the flag says whether every batch was.\<close>

fun drain_batches ::
  "frame_limits \<Rightarrow> string \<Rightarrow> nat \<Rightarrow> log_entry list \<Rightarrow> sync_state list \<Rightarrow> frame link \<Rightarrow> (bool \<times> sync_state list \<times> frame link) option"
where
  "drain_batches limits now 0 entries peers l = Some (True, peers, l)"
| "drain_batches limits now (Suc n) entries peers l =
     (if entries = [] then Some (True, peers, l)
      else
        let batch = take 100 entries in
        case toChangelogWireEntries batch of
          None \<Rightarrow> None
        | Some wire \<Rightarrow>
            let (ok, l') = send_frames
                  (map Changelog_Push (encodeChangelogFrames (frame_bytes limits) (max_frame limits) wire)) l
            in if ok
               then drain_batches limits now n (drop 100 entries)
                      (updatePeerCursor now peers (link_peer l) (sent_cursor (hlc (last batch)))) l'
               else Some (False, peers, l'))"

definition drain_peer :: "frame_limits \<Rightarrow> string \<Rightarrow> log_entry list \<Rightarrow> sync_state list \<times> frame link \<Rightarrow> (sync_state list \<times> frame link) option" where
  "drain_peer limits now clog pl =
     (case pl of (peers, l) \<Rightarrow>
        let p = link_peer l;
            lastSent = (case getPeerCursor peers p of None \<Rightarrow> HLC_ZERO | Some c \<Rightarrow> last_sent c);
            allEntries = entries_after clog lastSent (\<lambda>e. site_id e \<noteq> p)
        in if allEntries = [] then Some (peers, l)
           else map_option
                  (\<lambda>(ok, peers', l'). (peers', if ok then snd (sendFrame Drain_Complete l') else l'))
                  (drain_batches limits now (length allEntries) allEntries peers l))"

definition drainChangelog :: "frame_limits \<Rightarrow> string \<Rightarrow> string \<Rightarrow> transport \<Rightarrow> transport option" where
  "drainChangelog limits now p tr =
     (case find (\<lambda>l. link_peer l = p) (links tr) of
        None \<Rightarrow> Some tr
      | Some l \<Rightarrow>
          if p \<in> set (seeding tr) then Some tr
          else map_option
                 (\<lambda>(peers, l'). tr\<lparr>sync_peers := peers,
                    links := update_where (\<lambda>x. link_peer x = p) (\<lambda>_. l') (links tr)\<rparr>)
                 (drain_peer limits now (change_log (db tr)) (sync_peers tr, l)))"

text \<open>An incoming push: replay, move \<open>last_received\<close>, acknowledge. An ack is sent on a
  connection if there is one.\<close>

definition sendChangelogAck :: "string \<Rightarrow> string \<Rightarrow> transport \<Rightarrow> transport" where
  "sendChangelogAck p cursor tr =
     tr\<lparr>links := update_where (\<lambda>l. link_peer l = p) (\<lambda>l. snd (sendFrame (Changelog_Ack cursor) l)) (links tr)\<rparr>"

definition handleChangelogPush :: "schema \<Rightarrow> string \<Rightarrow> string \<Rightarrow> wire_entry list \<Rightarrow> transport \<Rightarrow> db_error + transport" where
  "handleChangelogPush s now p entries tr =
     (if entries = [] then Inr tr
      else
        let evs = map from_wire entries in
        case replayEvents s True evs (db tr) of
          (Inl e, _) \<Rightarrow> Inl e
        | (Inr _, st') \<Rightarrow>
            let highestHlc = hlc (last evs) in
            Inr (sendChangelogAck p highestHlc
                   (tr\<lparr>db := st',
                       sync_peers := updatePeerCursor now (sync_peers tr) p
                         (no_updates\<lparr>u_received := Some (Some highestHlc)\<rparr>)\<rparr>)))"

definition handleChangelogAck :: "string \<Rightarrow> string \<Rightarrow> string \<Rightarrow> transport \<Rightarrow> transport" where
  "handleChangelogAck now p cursor tr =
     tr\<lparr>sync_peers := updatePeerCursor now (sync_peers tr) p
          (no_updates\<lparr>u_sent := Some (Some cursor), u_confirmed := Some (Some cursor)\<rparr>)\<rparr>"

section \<open>Facts about cursors, frames and batches\<close>

lemma find_update_where:
  assumes "\<And>x. peer_site_id (f x) = peer_site_id x"
  shows "getPeerCursor (update_where (\<lambda>c. peer_site_id c = p) f peers) q =
         map_option (\<lambda>c. if q = p then f c else c) (getPeerCursor peers q)"
  using assms by (induction peers) (auto simp: getPeerCursor_def update_where_def)

lemma getPeerCursor_append:
  "getPeerCursor (peers @ [c]) q =
     (case getPeerCursor peers q of None \<Rightarrow> if peer_site_id c = q then Some c else None | Some x \<Rightarrow> Some x)"
  by (induction peers) (auto simp: getPeerCursor_def)

lemma cursor_after_update:
  "\<exists>c'. getPeerCursor (updatePeerCursor now peers p u) p = Some c' \<and>
     last_sent c' = (case getPeerCursor peers p of None \<Rightarrow> or_zero (u_sent u)
                     | Some c \<Rightarrow> keep_or (u_sent u) HLC_ZERO (last_sent c)) \<and>
     last_confirmed c' = (case getPeerCursor peers p of None \<Rightarrow> or_zero (u_confirmed u)
                          | Some c \<Rightarrow> keep_or (u_confirmed u) HLC_ZERO (last_confirmed c))"
  by (auto simp: updatePeerCursor_def getPeerCursor_append find_update_where split: option.splits)

lemma cursor_other_peer:
  "q \<noteq> p \<Longrightarrow> getPeerCursor (updatePeerCursor now peers p u) q = getPeerCursor peers q"
  by (auto simp: updatePeerCursor_def getPeerCursor_append find_update_where split: option.splits)

lemma watermark_update:
  "getConfirmedSyncWatermark (updatePeerCursor now peers p u) q =
     (if q = p then (case u_confirmed u of None \<Rightarrow> getConfirmedSyncWatermark peers p | Some (Some h) \<Rightarrow> h
                     | Some None \<Rightarrow> HLC_ZERO)
      else getConfirmedSyncWatermark peers q)"
  using cursor_after_update [of now peers p u] cursor_other_peer [of q p now peers u]
  by (auto simp: getConfirmedSyncWatermark_def or_zero_def keep_or_def split: option.splits)

lemma sent_after_update:
  "\<exists>c. getPeerCursor (updatePeerCursor now peers p (sent_cursor h)) p = Some c \<and> last_sent c = h"
  using cursor_after_update [of now peers p "sent_cursor h"]
  by (auto simp: sent_cursor_def no_updates_def or_zero_def keep_or_def split: option.splits)

lemma frames_concat: "concat (encodeChangelogFrames fb mx ws) = ws"
proof (induction fb mx ws rule: encodeChangelogFrames.induct)
  case (1 fb mx ws)
  then show ?case
    by (subst encodeChangelogFrames.simps) (auto simp: append_take_drop_id)
qed

lemma frames_fit: "f \<in> set (encodeChangelogFrames fb mx ws) \<Longrightarrow> f \<noteq> [] \<and> (fb f \<le> mx \<or> length f = 1)"
proof (induction fb mx ws arbitrary: f rule: encodeChangelogFrames.induct)
  case (1 fb mx ws)
  from "1.prems" show ?case
    by (subst (asm) encodeChangelogFrames.simps) (auto split: if_splits dest: "1.IH")
qed

lemma wire_roundtrip: "toChangelogWireEntries es = Some ws \<Longrightarrow> map from_wire ws = es"
proof (induction es arbitrary: ws)
  case (Cons e es)
  have "from_wire w = e" if "to_wire e = Some w" for w
    using that by (cases "row_data e") (auto simp: to_wire_def from_wire_def json_stringify_def)
  then show ?case using Cons by (auto split: option.splits)
qed simp

text \<open>The entries a connection has been pushed.\<close>

fun pushed :: "frame list \<Rightarrow> wire_entry list" where
  "pushed [] = []"
| "pushed (Changelog_Push ws # fs) = ws @ pushed fs"
| "pushed (f # fs) = pushed fs"

lemma pushed_append: "pushed (a @ b) = pushed a @ pushed b"
  by (induction a rule: pushed.induct) simp_all

lemma pushed_map: "pushed (map Changelog_Push fs) = concat fs"
  by (induction fs) simp_all

lemma wire_append:
  "toChangelogWireEntries (a @ b) =
     (case toChangelogWireEntries a of None \<Rightarrow> None
      | Some ws \<Rightarrow> map_option (\<lambda>vs. ws @ vs) (toChangelogWireEntries b))"
  by (induction a; cases "toChangelogWireEntries b") (auto split: option.splits)

lemma drain_batches_all:
  assumes "\<And>n. accepts l n" and "toChangelogWireEntries es = Some ws" and "length es \<le> n" and "es \<noteq> []"
  shows "\<exists>peers' l'. drain_batches limits now n es peers l = Some (True, peers', l') \<and>
     link_peer l' = link_peer l \<and> accepts l' = accepts l \<and>
     pushed (outbox l') = pushed (outbox l) @ ws \<and>
     (\<exists>c. getPeerCursor peers' (link_peer l) = Some c \<and> last_sent c = hlc (last es))"
  using assms
proof (induction n arbitrary: es ws peers l)
  case (Suc n)
  let ?b = "take 100 es" and ?r = "drop 100 es"
  have "toChangelogWireEntries (?b @ ?r) = Some ws" using Suc.prems(2) by simp
  then obtain wb wr where w: "toChangelogWireEntries ?b = Some wb" "toChangelogWireEntries ?r = Some wr" "ws = wb @ wr"
    by (simp only: wire_append) (auto split: option.splits)
  let ?fs = "map Changelog_Push (encodeChangelogFrames (frame_bytes limits) (max_frame limits) wb)"
  let ?l = "l\<lparr>outbox := outbox l @ ?fs, attempts := attempts l + length ?fs\<rparr>"
  let ?p = "updatePeerCursor now peers (link_peer l) (sent_cursor (hlc (last ?b)))"
  have run: "drain_batches limits now (Suc n) es peers l = drain_batches limits now n ?r ?p ?l"
    using Suc.prems(4) w(1) send_all [OF Suc.prems(1), of ?fs] by (simp add: Let_def)
  have pb: "pushed (outbox ?l) = pushed (outbox l) @ wb"
    by (simp add: pushed_append pushed_map frames_concat)
  show ?case
  proof (cases "?r = []")
    case True
    then have "last ?b = last es" by (simp add: min_def)
    moreover have "drain_batches limits now n ?r ?p ?l = Some (True, ?p, ?l)" using True by (cases n) simp_all
    moreover have "wr = []" using w(2) True by simp
    ultimately show ?thesis
      using run pb w(3) sent_after_update [of now peers "link_peer l" "hlc (last ?b)"] by simp
  next
    case False
    then have "last ?r = last es" by (simp add: last_drop)
    moreover have "length ?r \<le> n" using Suc.prems(3,4) by (cases es) simp_all
    moreover have "accepts ?l k" for k using Suc.prems(1) by simp
    ultimately show ?thesis
      using Suc.IH [of ?l ?r wr ?p] w(2,3) False run pb by simp
  qed
qed simp

lemma entries_after_last:
  assumes "e \<in> set (entries_after clog since p)"
  shows "hlc e \<le> hlc (last (entries_after clog since p))"
proof -
  let ?es = "entries_after clog since p"
  have s: "sorted (map hlc ?es)" by (simp add: entries_after_def sorted_order_by)
  have ne: "?es \<noteq> []" using assms by auto
  obtain i where i: "i < length ?es" "?es ! i = e" using assms by (auto simp: in_set_conv_nth)
  then have "i \<le> length ?es - 1" by simp
  then have "map hlc ?es ! i \<le> map hlc ?es ! (length ?es - 1)"
    using s ne by (intro sorted_nth_mono) simp_all
  then show ?thesis using i ne by (simp add: last_conv_nth)
qed

lemma drain_peer_all:
  assumes "\<And>n. accepts l n" and "getPeerCursor peers (link_peer l) = Some c"
    and "entries_after clog (last_sent c) (\<lambda>e. site_id e \<noteq> link_peer l) = es" and "es \<noteq> []"
    and "toChangelogWireEntries es = Some ws"
  shows "\<exists>peers' l' c'. drain_peer limits now clog (peers, l) = Some (peers', l') \<and>
     link_peer l' = link_peer l \<and> accepts l' = accepts l \<and> pushed (outbox l') = pushed (outbox l) @ ws \<and>
     getPeerCursor peers' (link_peer l) = Some c' \<and> last_sent c' = hlc (last es)"
proof -
  obtain peers' l' c' where d: "drain_batches limits now (length es) es peers l = Some (True, peers', l')"
      "link_peer l' = link_peer l" "accepts l' = accepts l" "pushed (outbox l') = pushed (outbox l) @ ws"
      "getPeerCursor peers' (link_peer l) = Some c'" "last_sent c' = hlc (last es)"
    using drain_batches_all [OF assms(1,5) order_refl assms(4), of limits now peers] by blast
  have "drain_peer limits now clog (peers, l) = Some (peers', snd (sendFrame Drain_Complete l'))"
    using assms(2-4) d(1) by (simp add: drain_peer_def Let_def)
  moreover have "pushed (outbox (snd (sendFrame Drain_Complete l'))) = pushed (outbox l')"
    "link_peer (snd (sendFrame Drain_Complete l')) = link_peer l'"
    "accepts (snd (sendFrame Drain_Complete l')) = accepts l'"
    using d(3) assms(1) by (simp_all add: sendFrame_def pushed_append)
  ultimately show ?thesis using d by auto
qed

section \<open>Properties\<close>

text \<open>the change log crosses the wire unchanged. The frames of a batch, taken in order and
  decoded by the receiver, give back exactly the batch, and every frame is non-empty and within
  the frame limit unless it carries a single oversized entry.\<close>

theorem frames_faithful:
  assumes "toChangelogWireEntries es = Some ws"
  shows "map from_wire (concat (encodeChangelogFrames frameBytes maxBytes ws)) = es \<and>
         (\<forall>f \<in> set (encodeChangelogFrames frameBytes maxBytes ws).
            f \<noteq> [] \<and> (frameBytes f \<le> maxBytes \<or> length f = 1))"
  using wire_roundtrip [OF assms] frames_fit by (simp add: frames_concat)

definition demo_entry :: "string \<Rightarrow> string \<Rightarrow> log_entry" where
  "demo_entry h site = \<lparr>hlc = h, table_name = ''users'', row_id = ''u1'', site_id = site,
     timestamp = ''2026'', row_data = Json (JObj [])\<rparr>"

theorem frames_faithful_witness:
  "map from_wire (concat (encodeChangelogFrames length 1
     (the (toChangelogWireEntries [demo_entry ''h1'' ''s1'', demo_entry ''h2'' ''s1''])))) =
   [demo_entry ''h1'' ''s1'', demo_entry ''h2'' ''s1'']"
proof -
  let ?es = "[demo_entry ''h1'' ''s1'', demo_entry ''h2'' ''s1'']"
  have "toChangelogWireEntries ?es = Some (the (toChangelogWireEntries ?es))"
    by (simp add: demo_entry_def to_wire_def)
  from frames_faithful [OF this] show ?thesis by blast
qed

text \<open>C36: a drain over a connection that takes every frame is complete and final. It pushes
  exactly the entries after the peer's cursor that are not the peer's own, in stamp order, moves
  the cursor to the last of them, and draining again pushes nothing.\<close>

theorem drain_complete:
  assumes "\<And>n. accepts l n" and "getPeerCursor peers (link_peer l) = Some c"
    and "entries_after clog (last_sent c) (\<lambda>e. site_id e \<noteq> link_peer l) = es" and "es \<noteq> []"
    and "toChangelogWireEntries es = Some ws"
  shows "\<exists>peers' l'. drain_peer limits now clog (peers, l) = Some (peers', l') \<and>
     map from_wire (pushed (outbox l')) = map from_wire (pushed (outbox l)) @ es \<and>
     sorted (map hlc es) \<and> drain_peer limits now clog (peers', l') = Some (peers', l')"
proof -
  obtain peers' l' c' where d: "drain_peer limits now clog (peers, l) = Some (peers', l')"
      "link_peer l' = link_peer l" "pushed (outbox l') = pushed (outbox l) @ ws"
      "getPeerCursor peers' (link_peer l) = Some c'" "last_sent c' = hlc (last es)"
    using drain_peer_all [OF assms, of limits now] by blast
  have "entries_after clog (hlc (last es)) (\<lambda>e. site_id e \<noteq> link_peer l) = []"
  proof (rule ccontr)
    assume "entries_after clog (hlc (last es)) (\<lambda>e. site_id e \<noteq> link_peer l) \<noteq> []"
    then obtain e where e: "e \<in> set clog" "hlc (last es) < hlc e" "site_id e \<noteq> link_peer l"
      by (auto simp: entries_after_def dest!: last_in_set)
    have "last es \<in> set es" using assms(4) by simp
    then have "last_sent c < hlc (last es)" using assms(3) by (auto simp: entries_after_def)
    then have "e \<in> set es" using e assms(3) by (auto simp: entries_after_def)
    then show False using entries_after_last [of e clog "last_sent c"] assms(3) e(2) by fastforce
  qed
  then have "drain_peer limits now clog (peers', l') = Some (peers', l')"
    using d(2,4,5) by (simp add: drain_peer_def Let_def)
  moreover have "sorted (map hlc es)"
    using assms(3) by (auto simp: entries_after_def sorted_order_by)
  ultimately show ?thesis using d(1,3) wire_roundtrip [OF assms(5)] by auto
qed

definition demo_cursor :: sync_state where
  "demo_cursor = \<lparr>peer_site_id = ''p'', last_received = ''h0'', last_sent = ''h0'', last_confirmed = ''h0'',
     last_sync_at = None, sync_errors = 0\<rparr>"

definition demo_link :: "(nat \<Rightarrow> bool) \<Rightarrow> frame link" where
  "demo_link acc = \<lparr>link_peer = ''p'', outbox = [], attempts = 0, accepts = acc\<rparr>"

definition demo_limits :: frame_limits where
  "demo_limits = \<lparr>frame_bytes = length, max_frame = 1\<rparr>"

theorem drain_complete_witness:
  "\<exists>peers' l'. drain_peer demo_limits ''now'' [demo_entry ''h1'' ''s1'', demo_entry ''h2'' ''s1'']
       ([demo_cursor], demo_link (\<lambda>_. True)) = Some (peers', l') \<and>
     map from_wire (pushed (outbox l')) = [demo_entry ''h1'' ''s1'', demo_entry ''h2'' ''s1'']"
proof -
  let ?es = "[demo_entry ''h1'' ''s1'', demo_entry ''h2'' ''s1'']"
  have acc: "accepts (demo_link (\<lambda>_. True)) n" for n by (simp add: demo_link_def)
  have cur: "getPeerCursor [demo_cursor] (link_peer (demo_link (\<lambda>_. True))) = Some demo_cursor"
    by (simp add: getPeerCursor_def demo_cursor_def demo_link_def)
  have es: "entries_after ?es (last_sent demo_cursor) (\<lambda>e. site_id e \<noteq> link_peer (demo_link (\<lambda>_. True))) = ?es"
    by (simp add: entries_after_def order_by_def demo_entry_def demo_cursor_def demo_link_def)
  have ws: "toChangelogWireEntries ?es = Some (the (toChangelogWireEntries ?es))"
    by (simp add: demo_entry_def to_wire_def)
  have out: "pushed (outbox (demo_link (\<lambda>_. True))) = []" by (simp add: demo_link_def)
  from drain_complete [OF acc cur es _ ws, of demo_limits "''now''"] show ?thesis unfolding out by auto
qed

text \<open>a refused flush leaves a hole behind the cursor. When the connection refuses the frame
  of one flush and takes the frame of the next, the cursor jumps past the refused entry: it was
  not pushed, and no later drain of the same log will push it.\<close>

theorem flush_backpressure_gap:
  assumes "toChangelogWireEntries [e1] = Some [w1]" and "toChangelogWireEntries [e2] = Some [w2]"
    and "site_id e1 \<noteq> link_peer l" and "site_id e2 \<noteq> link_peer l" and "hlc e1 \<le> hlc e2"
    and "\<not> accepts l (attempts l)" and "accepts l (Suc (attempts l))"
    and "flush_peer limits now [e1] [] (peers, l) = Some (peers1, l1)"
    and "flush_peer limits now [e2] [] (peers1, l1) = Some (peers2, l2)"
  shows "pushed (outbox l2) = pushed (outbox l) @ [w2] \<and>
         (\<exists>c. getPeerCursor peers2 (link_peer l) = Some c \<and>
            e1 \<notin> set (entries_after clog (last_sent c) (\<lambda>e. site_id e \<noteq> link_peer l)))"
proof -
  have one: "encodeChangelogFrames fb mx [w] = [[w]]" for fb mx w
    by (simp add: encodeChangelogFrames.simps)
  have s1: "peers1 = peers \<and> l1 = l\<lparr>attempts := attempts l + 1\<rparr>"
    using assms(1,3,6,8) by (auto simp: flush_peer_def Let_def one sendFrame_def)
  have s2: "l2 = l\<lparr>attempts := attempts l + 2, outbox := outbox l @ [Changelog_Push [w2]]\<rparr>"
    "peers2 = updatePeerCursor now peers (link_peer l) (sent_cursor (hlc e2))"
    using assms(2,4,7,9) s1 by (auto simp: flush_peer_def Let_def one sendFrame_def)
  obtain c where "getPeerCursor peers2 (link_peer l) = Some c" "last_sent c = hlc e2"
    using sent_after_update [of now peers "link_peer l" "hlc e2"] s2(2) by auto
  moreover have "e1 \<notin> set (entries_after clog (hlc e2) (\<lambda>e. site_id e \<noteq> link_peer l))"
    using assms(5) by (auto simp: entries_after_def)
  ultimately show ?thesis using s2(1) by (auto simp: pushed_append)
qed

lemma flush_peer_one:
  assumes "to_wire e = Some w"
  shows "\<exists>peers' l'. flush_peer limits now [e] seeds (peers, l) = Some (peers', l')"
  using assms by (cases "site_id e = link_peer l") (simp_all add: flush_peer_def Let_def case_prod_unfold)

theorem flush_backpressure_gap_witness:
  "\<exists>peers1 l1 peers2 l2 c.
     flush_peer demo_limits ''now'' [demo_entry ''h1'' ''s1''] [] ([demo_cursor], demo_link (\<lambda>n. n = 1)) = Some (peers1, l1) \<and>
     flush_peer demo_limits ''now'' [demo_entry ''h2'' ''s1''] [] (peers1, l1) = Some (peers2, l2) \<and>
     getPeerCursor peers2 ''p'' = Some c \<and>
     demo_entry ''h1'' ''s1'' \<notin> set (entries_after [demo_entry ''h1'' ''s1'', demo_entry ''h2'' ''s1''] (last_sent c)
        (\<lambda>e. site_id e \<noteq> ''p''))"
proof -
  let ?l = "demo_link (\<lambda>n. n = 1)" and ?e1 = "demo_entry ''h1'' ''s1''" and ?e2 = "demo_entry ''h2'' ''s1''"
  obtain w1 w2 where w1: "to_wire ?e1 = Some w1" and w2: "to_wire ?e2 = Some w2"
    by (simp add: demo_entry_def to_wire_def)
  then have w: "toChangelogWireEntries [?e1] = Some [w1]" "toChangelogWireEntries [?e2] = Some [w2]" by simp_all
  obtain peers1 l1 where f1: "flush_peer demo_limits ''now'' [?e1] [] ([demo_cursor], ?l) = Some (peers1, l1)"
    using flush_peer_one w1 by blast
  obtain peers2 l2 where f2: "flush_peer demo_limits ''now'' [?e2] [] (peers1, l1) = Some (peers2, l2)"
    using flush_peer_one w2 by blast
  have "link_peer ?l = ''p''" by (simp add: demo_link_def)
  moreover have "site_id ?e1 \<noteq> ''p''" "site_id ?e2 \<noteq> ''p''" "hlc ?e1 \<le> hlc ?e2"
    "\<not> accepts ?l (attempts ?l)" "accepts ?l (Suc (attempts ?l))"
    by (simp_all add: demo_entry_def demo_link_def)
  ultimately show ?thesis
    using flush_backpressure_gap [OF w, of ?l demo_limits "''now''" "[demo_cursor]" peers1 l1 peers2 l2 "[?e1, ?e2]"] f1 f2
    by auto
qed

lemma watermark_sent [simp]:
  "getConfirmedSyncWatermark (updatePeerCursor now peers p (sent_cursor h)) q = getConfirmedSyncWatermark peers q"
  by (simp add: watermark_update sent_cursor_def no_updates_def)

lemma flush_links_watermark:
  "flush_links limits now entries seeds peers ls = Some (peers', ls') \<Longrightarrow>
   getConfirmedSyncWatermark peers' q = getConfirmedSyncWatermark peers q"
  by (induction limits now entries seeds peers ls arbitrary: ls' rule: flush_links.induct)
    (fastforce simp: flush_peer_def Let_def case_prod_unfold split: option.splits if_splits)+

lemma drain_batches_watermark:
  "drain_batches limits now n es peers l = Some (ok, peers', l') \<Longrightarrow>
   getConfirmedSyncWatermark peers' q = getConfirmedSyncWatermark peers q"
  by (induction limits now n es peers l rule: drain_batches.induct)
    (auto simp: Let_def split: option.splits if_splits prod.splits)

lemma drain_peer_watermark:
  "drain_peer limits now clog (peers, l) = Some (peers', l') \<Longrightarrow>
   getConfirmedSyncWatermark peers' q = getConfirmedSyncWatermark peers q"
  by (auto simp: drain_peer_def Let_def dest: drain_batches_watermark split: if_splits)

text \<open>only an acknowledgement moves the confirmed watermark. Flushing, draining and receiving
  pushes leave every peer's watermark as it is; a change-log ack sets that peer's watermark to
  the acknowledged cursor and no other's.\<close>

theorem confirmed_only_by_ack:
  "(flushChangelogEntries limits now entries tr = Some tr1 \<longrightarrow>
      getConfirmedSyncWatermark (sync_peers tr1) q = getConfirmedSyncWatermark (sync_peers tr) q) \<and>
   (drainChangelog limits now p tr = Some tr2 \<longrightarrow>
      getConfirmedSyncWatermark (sync_peers tr2) q = getConfirmedSyncWatermark (sync_peers tr) q) \<and>
   (handleChangelogPush s now p ws tr = Inr tr3 \<longrightarrow>
      getConfirmedSyncWatermark (sync_peers tr3) q = getConfirmedSyncWatermark (sync_peers tr) q) \<and>
   getConfirmedSyncWatermark (sync_peers (handleChangelogAck now p cursor tr)) q =
     (if q = p then cursor else getConfirmedSyncWatermark (sync_peers tr) q)"
proof (intro conjI impI)
  assume "flushChangelogEntries limits now entries tr = Some tr1"
  then show "getConfirmedSyncWatermark (sync_peers tr1) q = getConfirmedSyncWatermark (sync_peers tr) q"
    by (auto simp: flushChangelogEntries_def dest: flush_links_watermark)
next
  assume "drainChangelog limits now p tr = Some tr2"
  then show "getConfirmedSyncWatermark (sync_peers tr2) q = getConfirmedSyncWatermark (sync_peers tr) q"
    by (auto simp: drainChangelog_def dest: drain_peer_watermark split: option.splits if_splits)
next
  assume "handleChangelogPush s now p ws tr = Inr tr3"
  then show "getConfirmedSyncWatermark (sync_peers tr3) q = getConfirmedSyncWatermark (sync_peers tr) q"
    by (auto simp: handleChangelogPush_def Let_def sendChangelogAck_def watermark_update no_updates_def
        split: if_splits prod.splits sum.splits)
next
  show "getConfirmedSyncWatermark (sync_peers (handleChangelogAck now p cursor tr)) q =
     (if q = p then cursor else getConfirmedSyncWatermark (sync_peers tr) q)"
    by (simp add: handleChangelogAck_def watermark_update no_updates_def)
qed

theorem confirmed_only_by_ack_witness:
  "\<exists>tr2. drainChangelog demo_limits ''now'' ''p''
       \<lparr>db = empty_store, sync_peers = [demo_cursor], links = [demo_link (\<lambda>_. True)], seeding = []\<rparr> = Some tr2 \<and>
     getConfirmedSyncWatermark (sync_peers tr2) ''p'' = ''h0''"
proof -
  let ?tr = "\<lparr>db = empty_store, sync_peers = [demo_cursor], links = [demo_link (\<lambda>_. True)], seeding = []\<rparr>"
  obtain tr2 where d: "drainChangelog demo_limits ''now'' ''p'' ?tr = Some tr2"
    by (simp add: drainChangelog_def drain_peer_def Let_def demo_link_def empty_store_def entries_after_def
        order_by_def getPeerCursor_def demo_cursor_def)
  moreover have "getConfirmedSyncWatermark (sync_peers ?tr) ''p'' = ''h0''"
    by (simp add: getConfirmedSyncWatermark_def getPeerCursor_def demo_cursor_def)
  ultimately show ?thesis
    using confirmed_only_by_ack [of demo_limits "''now''" "[]" ?tr ?tr "''p''" "''p''" tr2 plain_schema "[]" ?tr "[]"] by auto
qed

text \<open>multi-host pruning is bounded by what was received, not by what was acknowledged. If
  every peer has sent this host stamps up to an entry's stamp, the entry is deleted, even when
  some peer has acknowledged nothing near it; the peer's next drain can no longer push it.\<close>

theorem prune_drops_unacknowledged:
  assumes "e \<in> set clog" and "peers \<noteq> []" and "\<forall>c \<in> set peers. hlc e \<le> last_received c"
    and "HLC_ZERO < hlc e"
    and "c \<in> set peers" and "last_confirmed c < hlc e" and "last_sent c < hlc e" and "site_id e \<noteq> peer_site_id c"
  shows "e \<in> set (entries_after clog (last_sent c) (\<lambda>x. site_id x \<noteq> peer_site_id c)) \<and>
         e \<notin> set (entries_after (fst (pruneChangeLog peers (determinePruningMode peers) clog)) (last_sent c)
              (\<lambda>x. site_id x \<noteq> peer_site_id c))"
proof -
  have min: "hlc e \<le> getMinConfirmedHlc peers"
    using assms(2,3) by (simp add: getMinConfirmedHlc_def getMinSyncReceivedHlc_def)
  then have "getMinConfirmedHlc peers \<noteq> HLC_ZERO" using assms(4) by (metis leD)
  then have "fst (pruneChangeLog peers (determinePruningMode peers) clog) =
      delete_where (\<lambda>x. hlc x \<le> getMinConfirmedHlc peers) clog"
    using assms(2)
    by (simp add: pruneChangeLog_def determinePruningMode_def countSyncStatePeers_def delete_through_def Let_def)
  then show ?thesis
    using min assms(1,7,8) by (auto simp: entries_after_def delete_where_def)
qed

theorem prune_drops_unacknowledged_witness:
  "demo_entry ''2026'' ''s1'' \<notin> set (entries_after (fst (pruneChangeLog
       [demo_cursor\<lparr>last_received := ''2027'', last_sent := ''2025'', last_confirmed := ''2025''\<rparr>] Multi_Host
       [demo_entry ''2026'' ''s1''])) ''2025'' (\<lambda>x. site_id x \<noteq> ''p''))"
proof -
  let ?c = "demo_cursor\<lparr>last_received := ''2027'', last_sent := ''2025'', last_confirmed := ''2025''\<rparr>"
  have "determinePruningMode [?c] = Multi_Host" by (simp add: determinePruningMode_def countSyncStatePeers_def)
  then show ?thesis
    using prune_drops_unacknowledged [of "demo_entry ''2026'' ''s1''" "[demo_entry ''2026'' ''s1'']" "[?c]" ?c]
    by (simp add: demo_entry_def demo_cursor_def HLC_ZERO_def)
qed

lemma pack_concat: "concat (pack_events bytes budget es current used) = current @ es"
  by (induction bytes budget es current used rule: pack_events.induct) (auto simp: Let_def)

lemma pack_fits:
  assumes "used = sum_list (map (\<lambda>e. bytes e + 1) current)"
    and "length current \<le> 1 \<or> int used \<le> budget"
    and "c \<in> set (pack_events bytes budget es current used)"
  shows "c \<noteq> [] \<and> (length c = 1 \<or> int (sum_list (map (\<lambda>e. bytes e + 1) c)) \<le> budget)"
  using assms
proof (induction bytes budget es current used rule: pack_events.induct)
  case (1 bytes budget current used)
  then show ?case by (cases current) (auto split: if_splits)
next
  case (2 bytes budget e es current used)
  show ?case
  proof (cases "current \<noteq> [] \<and> budget < int (used + (bytes e + 1))")
    case True
    then have "c = current \<or> c \<in> set (pack_events bytes budget es [e] (bytes e + 1))"
      using "2.prems"(3) by (simp add: Let_def)
    then show ?thesis using "2.IH"(1) [OF refl] True "2.prems"(1,2) by (cases current) auto
  next
    case False
    then have "c \<in> set (pack_events bytes budget es (current @ [e]) (used + (bytes e + 1)))"
      using "2.prems"(3) by (auto simp: Let_def split: if_splits)
    moreover have "length (current @ [e]) \<le> 1 \<or> int (used + (bytes e + 1)) \<le> budget"
      using False by (cases current) auto
    ultimately show ?thesis using "2.IH"(2) [OF refl] False "2.prems"(1) by simp
  qed
qed

text \<open>packing a changeset into chunks loses, repeats and reorders nothing, and each chunk's
  events fit the byte budget unless a single event exceeds it by itself.\<close>

theorem chunkChangeset_faithful:
  "concat (map events (chunkChangeset fullBytes bytes cs maxBytes)) = events cs \<and>
   (\<forall>c \<in> set (chunkChangeset fullBytes bytes cs maxBytes).
      c = cs \<or>
      events c \<noteq> [] \<and> source_site_id c = source_site_id cs \<and>
      source_hlc_start c = hlc (hd (events c)) \<and> source_hlc_end c = hlc (last (events c)) \<and>
      (length (events c) = 1 \<or> int (sum_list (map (\<lambda>e. bytes e + 1) (events c))) \<le> maxBytes - 256))"
proof (cases "events cs = [] \<or> int (fullBytes cs) \<le> maxBytes")
  case True
  then show ?thesis by (simp add: chunkChangeset_def)
next
  case False
  have "map events (map (chunk_of cs) xss) = xss" for xss by (induction xss) (simp_all add: chunk_of_def)
  moreover have "c \<noteq> [] \<and> (length c = 1 \<or> int (sum_list (map (\<lambda>e. bytes e + 1) c)) \<le> maxBytes - 256)"
    if "c \<in> set (pack_events bytes (maxBytes - 256) (events cs) [] 0)" for c
    using pack_fits [OF _ _ that] by simp
  ultimately show ?thesis using False
    by (auto simp: chunkChangeset_def pack_concat chunk_of_def)
qed

theorem chunkChangeset_faithful_witness:
  "concat (map events (chunkChangeset (\<lambda>_. 1000) (\<lambda>_. 10)
     (createChangeset [demo_entry ''h1'' ''s1'', demo_entry ''h2'' ''s1''] ''h0'' ''s1'') 270)) =
   [demo_entry ''h1'' ''s1'', demo_entry ''h2'' ''s1'']"
  using chunkChangeset_faithful [of "\<lambda>_. 1000" "\<lambda>_. 10"
      "createChangeset [demo_entry ''h1'' ''s1'', demo_entry ''h2'' ''s1''] ''h0'' ''s1''" 270]
  by (simp add: createChangeset_def)

lemma above_cutoff:
  assumes "sorted_wrt (>) hs" and "n < length (hs :: 'a::linorder list)"
  shows "filter (\<lambda>h. \<not> h \<le> hs ! n) hs = take n hs"
proof -
  have "\<not> h \<le> hs ! n" if "h \<in> set (take n hs)" for h
    using that assms by (auto simp: in_set_conv_nth sorted_wrt_iff_nth_less not_le)
  moreover have "h \<le> hs ! n" if "h \<in> set (drop n hs)" for h
  proof -
    obtain j where j: "h = hs ! (n + j)" "n + j < length hs"
      using \<open>h \<in> set (drop n hs)\<close> assms(2) by (auto simp: in_set_conv_nth)
    show ?thesis
    proof (cases j)
      case 0
      then show ?thesis using j by simp
    next
      case (Suc k)
      then have "hs ! (n + j) < hs ! n" using assms j(2) by (auto simp: sorted_wrt_iff_nth_less)
      then show ?thesis using j(1) by simp
    qed
  qed
  ultimately have "filter (\<lambda>h. \<not> h \<le> hs ! n) (take n hs @ drop n hs) = take n hs"
    unfolding filter_append by (simp add: filter_True filter_False)
  then show ?thesis by simp
qed

lemma sorted_desc: "distinct xs \<Longrightarrow> sorted_wrt (>) (rev (sort (xs :: 'a::linorder list)))"
  by (simp add: sorted_wrt_rev strict_sorted_iff)

text \<open>single-host pruning keeps exactly the newest hundred thousand entries. On a log whose
  stamps are all different and that has grown past the cap, the number deleted is the excess,
  the cap's worth of entries remains, and every entry kept is newer than every entry deleted.\<close>

theorem single_host_prune:
  assumes "distinct (map hlc clog)" and "MAX_SINGLE_HOST_ENTRIES < length clog"
    and "\<forall>e \<in> set clog. hlc e \<noteq> []"
    and "pruneChangeLog peers Single_Host clog = (kept, n)"
  shows "length kept = MAX_SINGLE_HOST_ENTRIES \<and> n = length clog - MAX_SINGLE_HOST_ENTRIES \<and>
         set kept \<subseteq> set clog \<and>
         (\<forall>e \<in> set kept. \<forall>d \<in> set clog. d \<notin> set kept \<longrightarrow> hlc d < hlc e)"
proof -
  let ?N = MAX_SINGLE_HOST_ENTRIES and ?hs = "rev (sort (map hlc clog))"
  let ?cut = "?hs ! ?N"
  have len: "?N < length ?hs" using assms(2) by simp
  then have "?cut \<in> set ?hs" by (rule nth_mem)
  then have "?cut \<noteq> []" using assms(3) by auto
  then have k: "kept = delete_where (\<lambda>e. hlc e \<le> ?cut) clog" "n = count_where (\<lambda>e. hlc e \<le> ?cut) clog"
    using assms(2,4) len
    by (auto simp: pruneChangeLog_def countChangeLogEntries_def getChangeLogHlcAtOffset_def Let_def delete_through_def)
  have "length kept = length (filter (\<lambda>h. \<not> h \<le> ?cut) (map hlc clog))"
    unfolding k(1) by (simp add: delete_where_def filter_map o_def)
  also have "\<dots> = size (filter_mset (\<lambda>h. \<not> h \<le> ?cut) (mset (map hlc clog)))"
    by (metis mset_filter size_mset)
  also have "\<dots> = length (filter (\<lambda>h. \<not> h \<le> ?cut) ?hs)"
    by (metis mset_filter mset_rev mset_sort size_mset)
  also have "\<dots> = ?N"
    using above_cutoff [OF sorted_desc [OF assms(1)] len] len by simp
  finally have lk: "length kept = ?N" .
  have "length kept + n = length clog"
    unfolding k by (simp add: delete_where_def count_where_def sum_length_filter_compl add.commute)
  then show ?thesis using lk unfolding k(1) by (auto simp: delete_where_def)
qed

definition long_log :: "log_entry list" where
  "long_log = map (\<lambda>n. demo_entry (replicate (Suc n) CHR ''a'') ''s1'') [0..<100001]"

theorem single_host_prune_witness:
  "length (fst (pruneChangeLog [] Single_Host long_log)) = MAX_SINGLE_HOST_ENTRIES"
proof -
  have "inj_on (\<lambda>n. replicate (Suc n) CHR ''a'') S" for S
    by (rule inj_onI) (metis length_replicate nat.inject)
  then have d: "distinct (map hlc long_log)"
    by (simp add: long_log_def distinct_map o_def demo_entry_def del: replicate_Suc)
  have l: "MAX_SINGLE_HOST_ENTRIES < length long_log" by (simp add: long_log_def MAX_SINGLE_HOST_ENTRIES_def)
  have "\<forall>e \<in> set long_log. hlc e \<noteq> []" by (auto simp: long_log_def demo_entry_def)
  from single_host_prune [OF d l this surjective_pairing] show ?thesis by blast
qed

end
