(* ===== verification/Spool_Transfer.thy ===== *)
theory Spool_Transfer
  imports Durable_Work Connection
begin

text \<open>
  Host-to-host transfer of durable work: the spool half of
  \<open>packages/sync/src/ws-transport.ts\<close> over the spool operations of \<open>Durable_Work\<close> and the
  connections of \<open>Connection\<close>. A host is its spool, its connections in the order they were
  opened, what the \<open>hosts\<close> table says of each peer's spool support, and the \<open>relay:inbox\<close>
  events it emitted. Frames carry the entries themselves; encryption and encoding are not
  modelled. Logging changes nothing. An operation that can throw says so with a flag.
\<close>

section \<open>Frames and hosts\<close>

record transfer_entry =
  te_id :: string
  te_target :: string
  te_source :: "string option"
  te_kind :: string
  te_payload :: "json option"
  te_key :: string
  te_ref :: "string option"
  te_stream :: "string option"
  te_expires :: "time option"
  te_received :: "time option"
  te_trace :: "string option"
  te_token :: string

datatype spool_frame = Spool_Transfer "transfer_entry list" | Spool_Transfer_Ack "(string \<times> string) list"

record spool_host =
  is_hub :: bool
  own_site :: string
  host_rows :: spool
  spool_links :: "spool_frame link list"
  capable :: "string \<Rightarrow> bool"
  inbox_events :: "(string option \<times> string option \<times> string) list"

definition peer_link :: "string \<Rightarrow> spool_host \<Rightarrow> spool_frame link option" where
  "peer_link p h = find (\<lambda>l. link_peer l = p) (spool_links h)"

definition set_link :: "string \<Rightarrow> spool_frame link \<Rightarrow> spool_host \<Rightarrow> spool_host" where
  "set_link p l h = h\<lparr>spool_links := update_where (\<lambda>x. link_peer x = p) (\<lambda>_. l) (spool_links h)\<rparr>"

section \<open>Sending\<close>

text \<open>A spoke sends everything to its first connection; a hub only to the row's destination.\<close>

definition resolveSpoolNextHop :: "spool_host \<Rightarrow> string \<Rightarrow> string option" where
  "resolveSpoolNextHop h targetSiteId =
     (if \<not> is_hub h then map_option link_peer (find (\<lambda>l. link_peer l \<noteq> own_site h) (spool_links h))
      else if peer_link targetSiteId h \<noteq> None then Some targetSiteId else None)"

definition to_transfer :: "work_row \<Rightarrow> transfer_entry option" where
  "to_transfer row =
     map_option (\<lambda>v. \<lparr>te_id = wid row, te_target = target_site_id row, te_source = source_site row,
         te_kind = kind row, te_payload = Some v, te_key = idempotency_key row, te_ref = ref_id row,
         te_stream = stream_id row, te_expires = expires_at row, te_received = received_at row,
         te_trace = trace_context row, te_token = (case claim_token row of None \<Rightarrow> [] | Some t \<Rightarrow> t)\<rparr>)
       (json_parse (payload row))"

fun transfer_entries :: "work_row list \<Rightarrow> transfer_entry list option" where
  "transfer_entries [] = Some []"
| "transfer_entries (r # rs) =
     (case to_transfer r of None \<Rightarrow> None | Some e \<Rightarrow> map_option (\<lambda>es. e # es) (transfer_entries rs))"

text \<open>\<open>None\<close> when \<open>JSON.parse\<close> throws on a stored payload, else whether the frame was taken.\<close>

definition sendSpoolTransfer :: "string \<Rightarrow> work_row list \<Rightarrow> spool_host \<Rightarrow> bool option \<times> spool_host" where
  "sendSpoolTransfer peerSiteId rows h =
     (case peer_link peerSiteId h of
        None \<Rightarrow> (Some False, h)
      | Some l \<Rightarrow>
          (case transfer_entries rows of
             None \<Rightarrow> (None, h)
           | Some es \<Rightarrow>
               (let (sent, l') = sendFrame (Spool_Transfer es) l in (Some sent, set_link peerSiteId l' h))))"

definition as_transferring :: "string \<Rightarrow> work_row \<Rightarrow> work_row" where
  "as_transferring token row = row\<lparr>claim_state := Transferring, claim_token := Some token\<rparr>"

definition with_rows :: "spool \<Rightarrow> spool_host \<Rightarrow> spool_host" where
  "with_rows rows h = h\<lparr>host_rows := rows\<rparr>"

text \<open>The push of one row. The flag is false when the send threw.\<close>

definition sendDurableWorkToPeer :: "time \<Rightarrow> string \<Rightarrow> string \<Rightarrow> string \<Rightarrow> spool_host \<Rightarrow> bool \<times> spool_host" where
  "sendDurableWorkToPeer now tok targetSiteId i h =
     (if targetSiteId = LOCAL_WORK_TARGET then (True, h)
      else case resolveSpoolNextHop h targetSiteId of
        None \<Rightarrow> (True, h)
      | Some nextHop \<Rightarrow>
          if nextHop = [] \<or> \<not> capable h nextHop then (True, h)
          else case find (\<lambda>r. wid r = i \<and> claim_state r = Pending \<and> target_site_id r = targetSiteId) (host_rows h) of
            None \<Rightarrow> (True, h)
          | Some row \<Rightarrow>
              (case beginDurableWorkTransfer (host_rows h) (wid row) tok now of
                 (rows', None) \<Rightarrow> (True, with_rows rows' h)
               | (rows', Some token) \<Rightarrow>
                   if token = [] then (True, with_rows rows' h)
                   else (case sendSpoolTransfer nextHop [as_transferring token row] (with_rows rows' h) of
                           (None, h') \<Rightarrow> (False, h')
                         | (Some True, h') \<Rightarrow> (True, h')
                         | (Some False, h') \<Rightarrow>
                             (True, with_rows (fst (rollbackUnsentDurableWorkTransfer (host_rows h') (wid row) token)) h'))))"

text \<open>The \<open>durable_work:written\<close> listener.\<close>

definition durableWorkWrittenListener :: "time \<Rightarrow> string \<Rightarrow> string \<times> string \<Rightarrow> spool_host \<Rightarrow> bool \<times> spool_host" where
  "durableWorkWrittenListener now tok ev h =
     (case ev of (i, target) \<Rightarrow>
        if target = own_site h \<or> target = LOCAL_WORK_TARGET then (True, h)
        else sendDurableWorkToPeer now tok target i h)"

section \<open>Draining\<close>

definition DEAD_SOCKET_REDRIVE_WINDOW_MS :: int where
  "DEAD_SOCKET_REDRIVE_WINDOW_MS = 15 * 60 * 1000"

fun begin_each :: "(nat \<Rightarrow> string) \<Rightarrow> time \<Rightarrow> nat \<Rightarrow> work_row list \<Rightarrow> spool \<Rightarrow> spool \<times> work_row list" where
  "begin_each tok now n [] rows = (rows, [])"
| "begin_each tok now n (r # rs) rows =
     (case beginDurableWorkTransfer rows (wid r) (tok n) now of
        (rows1, t) \<Rightarrow>
          (let (rows2, begun) = begin_each tok now (Suc n) rs rows1
           in (rows2, case t of None \<Rightarrow> begun
                      | Some token \<Rightarrow> if token = [] then begun else as_transferring token r # begun)))"

fun rollback_begun :: "string list \<Rightarrow> work_row list \<Rightarrow> spool \<Rightarrow> spool" where
  "rollback_begun begunIds [] rows = rows"
| "rollback_begun begunIds (r # rs) rows =
     rollback_begun begunIds rs
       (case claim_token r of
          Some token \<Rightarrow>
            if wid r \<in> set begunIds \<and> token \<noteq> []
            then fst (rollbackUnsentDurableWorkTransfer rows (wid r) token) else rows
        | None \<Rightarrow> rows)"

text \<open>Batches of a hundred rows; the first refused batch ends the drain.\<close>

function send_batches :: "string \<Rightarrow> string list \<Rightarrow> work_row list \<Rightarrow> spool_host \<Rightarrow> bool \<times> spool_host" where
  "send_batches peerSiteId begunIds rows h =
     (if rows = [] then (True, h)
      else case sendSpoolTransfer peerSiteId (take 100 rows) h of
             (None, h') \<Rightarrow> (False, h')
           | (Some True, h') \<Rightarrow> send_batches peerSiteId begunIds (drop 100 rows) h'
           | (Some False, h') \<Rightarrow>
               (True, with_rows (rollback_begun begunIds (take 100 rows) (host_rows h')) h'))"
  by pat_completeness auto
termination
  by (relation "measure (\<lambda>(p, b, rows, h). length rows)") auto

declare send_batches.simps [simp del]

definition drainDurableWorkSpool ::
  "(nat \<Rightarrow> string) \<Rightarrow> time \<Rightarrow> string \<Rightarrow> bool \<Rightarrow> spool_host \<Rightarrow> bool \<times> spool_host" where
  "drainDurableWorkSpool tok now peerSiteId reconnect h =
     (if peer_link peerSiteId h = None \<or> \<not> capable h peerSiteId then (True, h)
      else
        let rows0 = (if reconnect
                     then fst (reclassifyTransferExhaustedDeadLetters (host_rows h) peerSiteId DEAD_SOCKET_REDRIVE_WINDOW_MS now)
                     else host_rows h);
            hop = (\<lambda>r. resolveSpoolNextHop h (target_site_id r) = Some peerSiteId);
            transferring = filter hop (readTransferringDurableWork rows0 None);
            pending = filter hop (readPendingPeerTargetedDurableWork rows0 (own_site h) None);
            (rows1, begun) = begin_each tok now 0 pending rows0
        in send_batches peerSiteId (map wid begun) (transferring @ begun) (with_rows rows1 h))"

fun drain_peers :: "(nat \<Rightarrow> nat \<Rightarrow> string) \<Rightarrow> time \<Rightarrow> nat \<Rightarrow> string list \<Rightarrow> spool_host \<Rightarrow> bool \<times> spool_host" where
  "drain_peers tok now n [] h = (True, h)"
| "drain_peers tok now n (p # ps) h =
     (if p = own_site h then drain_peers tok now (Suc n) ps h
      else case drainDurableWorkSpool (tok n) now p False h of
             (False, h') \<Rightarrow> (False, h')
           | (True, h') \<Rightarrow> drain_peers tok now (Suc n) ps h')"

definition sweepAndRedriveStaleDurableWork :: "(nat \<Rightarrow> nat \<Rightarrow> string) \<Rightarrow> time \<Rightarrow> spool_host \<Rightarrow> bool \<times> spool_host" where
  "sweepAndRedriveStaleDurableWork tok now h =
     (let (rows1, _) = deadLetterExpiredDurableWork (host_rows h) now;
          (rows2, reclaimed) = sweepStaleTransferringDurableWork rows1 DURABLE_WORK_MAX_ATTEMPTS now
      in if reclaimed = 0 then (True, with_rows rows2 h)
         else drain_peers tok now 0 (map link_peer (spool_links h)) (with_rows rows2 h))"

section \<open>Receiving\<close>

definition received_work :: "string \<Rightarrow> bool \<Rightarrow> transfer_entry \<Rightarrow> new_work" where
  "received_work sourceSiteId senderIsOriginator e =
     \<lparr>new_id = te_id e, new_target = te_target e, new_kind = te_kind e,
      new_payload = (case te_payload e of None \<Rightarrow> NotJson [] | Some v \<Rightarrow> json_stringify v),
      new_key = te_key e, new_expires_at = te_expires e, new_ref_id = te_ref e,
      new_source_site = (if senderIsOriginator \<and> (te_source e = None \<or> te_source e = Some [])
                         then Some sourceSiteId else te_source e),
      new_received_at = te_received e, new_stream_id = te_stream e, new_trace_context = te_trace e\<rparr>"

text \<open>One entry: a malformed one is skipped without an acknowledgement; any other is
  acknowledged, new or not. A new row is announced to the written-listener, which may forward
  it at once.\<close>

definition receive_entry ::
  "bool \<Rightarrow> time \<Rightarrow> string \<Rightarrow> string \<Rightarrow> bool \<Rightarrow> transfer_entry \<Rightarrow> spool_host \<Rightarrow> bool \<times> (string \<times> string) list \<times> spool_host" where
  "receive_entry bus now tok sourceSiteId senderIsOriginator e h =
     (case insertDurableWork bus False (host_rows h) (received_work sourceSiteId senderIsOriginator e) now of
        Inl _ \<Rightarrow> (True, [], h)
      | Inr (rows', _, written) \<Rightarrow>
          (let (ok, h1) = (case written of [] \<Rightarrow> (True, with_rows rows' h)
                           | ev # _ \<Rightarrow> durableWorkWrittenListener now tok ev (with_rows rows' h))
           in if \<not> ok then (False, [], h1)
              else (True, [(te_id e, te_token e)],
                    if te_target e = own_site h1
                    then h1\<lparr>inbox_events := inbox_events h1 @ [(te_ref e, te_stream e, te_kind e)]\<rparr> else h1)))"

fun receive_entries ::
  "bool \<Rightarrow> time \<Rightarrow> (nat \<Rightarrow> string) \<Rightarrow> nat \<Rightarrow> string \<Rightarrow> bool \<Rightarrow> transfer_entry list \<Rightarrow> spool_host \<Rightarrow>
     bool \<times> (string \<times> string) list \<times> spool_host" where
  "receive_entries bus now tok n src orig [] h = (True, [], h)"
| "receive_entries bus now tok n src orig (e # es) h =
     (case receive_entry bus now (tok n) src orig e h of
        (False, a, h1) \<Rightarrow> (False, a, h1)
      | (True, a, h1) \<Rightarrow>
          (let (ok, as, h2) = receive_entries bus now tok (Suc n) src orig es h1 in (ok, a @ as, h2)))"

definition sendSpoolTransferAck :: "string \<Rightarrow> (string \<times> string) list \<Rightarrow> spool_host \<Rightarrow> spool_host" where
  "sendSpoolTransferAck peerSiteId entries h =
     (case peer_link peerSiteId h of
        None \<Rightarrow> h
      | Some l \<Rightarrow> if entries = [] then h else set_link peerSiteId (snd (sendFrame (Spool_Transfer_Ack entries) l)) h)"

definition handleSpoolTransfer ::
  "bool \<Rightarrow> time \<Rightarrow> (nat \<Rightarrow> string) \<Rightarrow> string \<Rightarrow> transfer_entry list \<Rightarrow> bool \<Rightarrow> spool_host \<Rightarrow> bool \<times> spool_host" where
  "handleSpoolTransfer bus now tok sourceSiteId entries senderIsOriginator h =
     (if entries = [] then (True, h)
      else case receive_entries bus now tok 0 sourceSiteId senderIsOriginator entries h of
             (False, _, h1) \<Rightarrow> (False, h1)
           | (True, acked, h1) \<Rightarrow> (True, sendSpoolTransferAck sourceSiteId acked h1))"

fun retire_acked :: "(string \<times> string) list \<Rightarrow> spool \<Rightarrow> spool" where
  "retire_acked [] rows = rows"
| "retire_acked ((i, token) # as) rows =
     retire_acked as (if token = [] then rows else fst (acknowledgeDurableWorkTransfer rows i token))"

definition handleSpoolTransferAck :: "(string \<times> string) list \<Rightarrow> spool_host \<Rightarrow> spool_host" where
  "handleSpoolTransferAck entries h = with_rows (retire_acked entries (host_rows h)) h"

section \<open>What a host keeps\<close>

text \<open>
  Custody is stated over two assignments that the producers of work respect: \<open>key_of\<close> gives
  the fence of a row id (an id is never reused for other work) and \<open>dest\<close> the destination of
  a fence (a fence is never used for two destinations).
\<close>

definition agrees :: "(string \<Rightarrow> string \<times> string) \<Rightarrow> (string \<times> string \<Rightarrow> string) \<Rightarrow> work_row \<Rightarrow> bool" where
  "agrees key_of dest r \<longleftrightarrow> fence_key r = key_of (wid r) \<and> target_site_id r = dest (fence_key r)"

definition rows_ok ::
  "(string \<Rightarrow> string \<times> string) \<Rightarrow> (string \<times> string \<Rightarrow> string) \<Rightarrow> string \<Rightarrow> spool \<Rightarrow> bool" where
  "rows_ok key_of dest own rows \<longleftrightarrow>
     spool_ok rows \<and> (\<forall>r \<in> set rows. agrees key_of dest r \<and> (claim_state r = Transferring \<longrightarrow> target_site_id r \<noteq> own))"

definition held_keys :: "spool \<Rightarrow> (string \<times> string) set" where
  "held_keys rows = fence_key ` set rows"

lemma update_keeps:
  assumes "row_transition g s" and "rows_ok key_of dest own rows"
    and "\<And>r. target_site_id (s r) = target_site_id r"
    and "\<And>r. r \<in> set rows \<Longrightarrow> g r \<Longrightarrow> claim_state (s r) = Transferring \<Longrightarrow> target_site_id r \<noteq> own"
  shows "rows_ok key_of dest own (update_where g s rows)" and "held_keys (update_where g s rows) = held_keys rows"
proof -
  note id = row_transition.same_id [OF assms(1)] and fence = row_transition.same_fence [OF assms(1)]
  have "agrees key_of dest (s r) = agrees key_of dest r" for r
    by (simp add: agrees_def id fence assms(3))
  with assms(2,3,4) show "rows_ok key_of dest own (update_where g s rows)"
    using row_transition.update_ok [OF assms(1)]
    by (auto simp: rows_ok_def elim!: in_update_whereE) blast
  show "held_keys (update_where g s rows) = held_keys rows"
    using map_update_where_key [of fence_key s g rows, OF fence] by (metis held_keys_def set_map)
qed

lemma target_transitions [simp]:
  "target_site_id (to_pending r) = target_site_id r" "target_site_id (charge r) = target_site_id r"
  "target_site_id (to_dead_letter now e k r) = target_site_id r"
  "claim_state (to_pending r) = Pending" "claim_state (charge r) = Pending"
  "claim_state (to_dead_letter now e k r) = Dead_Letter"
  by (simp_all add: transition_defs)

lemma rollback_keeps:
  assumes "rows_ok key_of dest own rows"
  shows "rows_ok key_of dest own (fst (rollbackUnsentDurableWorkTransfer rows i tok))"
    and "held_keys (fst (rollbackUnsentDurableWorkTransfer rows i tok)) = held_keys rows"
  using update_keeps [OF rollback.row_transition_axioms assms] by (simp_all add: rollbackUnsentDurableWorkTransfer_def)

lemma rollback_begun_keeps:
  assumes "rows_ok key_of dest own rows"
  shows "rows_ok key_of dest own (rollback_begun ids rs rows) \<and> held_keys (rollback_begun ids rs rows) = held_keys rows"
  using assms
proof (induction rs arbitrary: rows)
  case (Cons r rs)
  note rb = rollback_keeps [OF Cons.prems]
  show ?case
  proof (cases "claim_token r")
    case None
    with Cons show ?thesis by simp
  next
    case (Some t)
    show ?thesis
      using Cons.IH [OF Cons.prems] Cons.IH [OF rb(1) [of "wid r" t]] rb(2) [of "wid r" t] Some by auto
  qed
qed simp

lemma begin_keeps:
  assumes "rows_ok key_of dest own rows"
    and "\<And>r. r \<in> set rows \<Longrightarrow> wid r = i \<Longrightarrow> target_site_id r \<noteq> own"
  shows "rows_ok key_of dest own (fst (beginDurableWorkTransfer rows i tok now))"
    and "held_keys (fst (beginDurableWorkTransfer rows i tok now)) = held_keys rows"
  using update_keeps [OF begin_transfer.row_transition_axioms assms(1)] assms(2)
  by (simp_all add: beginDurableWorkTransfer_def)

lemma begin_ids: "(\<lambda>r. (wid r, target_site_id r)) ` set (fst (beginDurableWorkTransfer rows i tok now)) =
    (\<lambda>r. (wid r, target_site_id r)) ` set rows"
proof -
  have "map (\<lambda>r. (wid r, target_site_id r)) (fst (beginDurableWorkTransfer rows i tok now)) =
      map (\<lambda>r. (wid r, target_site_id r)) rows"
    unfolding beginDurableWorkTransfer_def fst_conv by (rule map_update_where_key) simp
  then show ?thesis by (metis set_map)
qed

lemma begin_each_keeps:
  assumes "rows_ok key_of dest own rows"
    and "\<And>r x. r \<in> set rs \<Longrightarrow> x \<in> set rows \<Longrightarrow> wid x = wid r \<Longrightarrow> target_site_id x \<noteq> own"
  shows "rows_ok key_of dest own (fst (begin_each tok now n rs rows)) \<and>
         held_keys (fst (begin_each tok now n rs rows)) = held_keys rows"
  using assms
proof (induction rs arbitrary: n rows)
  case (Cons r rs)
  let ?rows = "fst (beginDurableWorkTransfer rows (wid r) (tok n) now)"
  have "target_site_id x \<noteq> own" if "x \<in> set rows" "wid x = wid r" for x
    using Cons.prems(2) [of r] that by simp
  note b = begin_keeps [OF Cons.prems(1) this, where tok = "tok n" and now = now]
  have "target_site_id x \<noteq> own" if "q \<in> set rs" "x \<in> set ?rows" "wid x = wid q" for q x
  proof -
    have "(wid x, target_site_id x) \<in> (\<lambda>r. (wid r, target_site_id r)) ` set rows"
      using begin_ids [of rows "wid r" "tok n" now] that(2) by blast
    then obtain y where y: "y \<in> set rows" "wid y = wid x" "target_site_id y = target_site_id x" by auto
    then show ?thesis using Cons.prems(2) [of q y] that by simp
  qed
  from Cons.IH [OF b(1) this, where n = "Suc n"] b(2) show ?case
    by (simp add: case_prod_unfold Let_def)
qed simp

lemma begin_each_begun:
  "r \<in> set (snd (begin_each tok now n rs rows)) \<Longrightarrow> \<exists>q \<in> set rs. \<exists>t. r = as_transferring t q"
  by (induction rs arbitrary: n rows)
    (auto simp: case_prod_unfold Let_def split: option.splits if_splits)

section \<open>What a host sends\<close>

definition entry_agrees ::
  "(string \<Rightarrow> string \<times> string) \<Rightarrow> (string \<times> string \<Rightarrow> string) \<Rightarrow> bool \<Rightarrow> string \<Rightarrow> string \<Rightarrow> transfer_entry \<Rightarrow> bool" where
  "entry_agrees key_of dest hub own p e \<longleftrightarrow>
     (te_kind e, te_key e) = key_of (te_id e) \<and> te_target e = dest (key_of (te_id e)) \<and>
     te_target e \<noteq> own \<and> (hub \<longrightarrow> te_target e = p)"

fun frame_entries :: "spool_frame \<Rightarrow> transfer_entry list" where
  "frame_entries (Spool_Transfer es) = es"
| "frame_entries (Spool_Transfer_Ack as) = []"

fun frame_acks :: "spool_frame \<Rightarrow> (string \<times> string) list" where
  "frame_acks (Spool_Transfer es) = []"
| "frame_acks (Spool_Transfer_Ack as) = as"

definition sent_to :: "spool_host \<Rightarrow> string \<Rightarrow> spool_frame set" where
  "sent_to h p = \<Union> ((\<lambda>l. set (outbox l)) ` {l \<in> set (spool_links h). link_peer l = p})"

lemma sent_toI: "l \<in> set (spool_links h) \<Longrightarrow> link_peer l = p \<Longrightarrow> f \<in> set (outbox l) \<Longrightarrow> f \<in> sent_to h p"
  by (auto simp: sent_to_def)

definition acks_to :: "spool_host \<Rightarrow> string \<Rightarrow> (string \<times> string) set" where
  "acks_to h p = \<Union> ((\<lambda>f. set (frame_acks f)) ` sent_to h p)"

definition sends_ok ::
  "(string \<Rightarrow> string \<times> string) \<Rightarrow> (string \<times> string \<Rightarrow> string) \<Rightarrow> spool_host \<Rightarrow> bool" where
  "sends_ok key_of dest h \<longleftrightarrow>
     (\<forall>p. \<forall>f \<in> sent_to h p. \<forall>e \<in> set (frame_entries f). entry_agrees key_of dest (is_hub h) (own_site h) p e)"

definition host_ok ::
  "(string \<Rightarrow> string \<times> string) \<Rightarrow> (string \<times> string \<Rightarrow> string) \<Rightarrow> spool_host \<Rightarrow> bool" where
  "host_ok key_of dest h \<longleftrightarrow> rows_ok key_of dest (own_site h) (host_rows h) \<and> sends_ok key_of dest h"

text \<open>What no operation of the transport changes.\<close>

definition same_place :: "spool_host \<Rightarrow> spool_host \<Rightarrow> bool" where
  "same_place h h' \<longleftrightarrow> is_hub h' = is_hub h \<and> own_site h' = own_site h \<and>
     map link_peer (spool_links h') = map link_peer (spool_links h)"

lemma same_place_refl [simp]: "same_place h h"
  by (simp add: same_place_def)

lemma same_place_trans: "same_place a b \<Longrightarrow> same_place b c \<Longrightarrow> same_place a c"
  by (simp add: same_place_def)

lemma same_place_with_rows [simp]: "same_place h (with_rows rows h)" "same_place (with_rows rows h) h"
  by (simp_all add: same_place_def with_rows_def)

lemma with_rows_simps [simp]:
  "host_rows (with_rows rows h) = rows" "own_site (with_rows rows h) = own_site h"
  "is_hub (with_rows rows h) = is_hub h" "spool_links (with_rows rows h) = spool_links h"
  "sent_to (with_rows rows h) p = sent_to h p" "acks_to (with_rows rows h) p = acks_to h p"
  "sends_ok key_of dest (with_rows rows h) = sends_ok key_of dest h"
  "peer_link p (with_rows rows h) = peer_link p h" "capable (with_rows rows h) = capable h"
  by (simp_all add: with_rows_def sent_to_def acks_to_def sends_ok_def peer_link_def)

lemma peer_link_Some: "peer_link p h = Some l \<Longrightarrow> l \<in> set (spool_links h) \<and> link_peer l = p"
  by (auto simp: peer_link_def find_Some_iff)

lemma sent_to_set_link:
  assumes "peer_link p h = Some l" and "link_peer l' = p" and "set (outbox l') \<subseteq> insert f (set (outbox l))"
    and "x \<in> sent_to (set_link p l' h) q"
  shows "x \<in> sent_to h q \<or> (q = p \<and> x = f)"
proof -
  from assms(4) obtain m where m: "m \<in> set (update_where (\<lambda>x. link_peer x = p) (\<lambda>_. l') (spool_links h))"
      "link_peer m = q" "x \<in> set (outbox m)"
    by (auto simp: sent_to_def set_link_def)
  from m(1) show ?thesis
  proof (cases rule: in_update_whereE)
    case 1
    with m show ?thesis by (auto simp: sent_to_def)
  next
    case (2 y)
    with m assms peer_link_Some [OF assms(1)] show ?thesis by (auto simp: sent_to_def)
  qed
qed

lemma same_place_set_link: "link_peer l' = p \<Longrightarrow> same_place h (set_link p l' h)"
  by (simp add: same_place_def set_link_def map_update_where_key update_where_def)

lemma sendFrame_outbox: "set (outbox (snd (sendFrame f l))) \<subseteq> insert f (set (outbox l))"
  "link_peer (snd (sendFrame f l)) = link_peer l"
  by (auto simp: sendFrame_def)

lemma transfer_entries_in:
  "transfer_entries rs = Some es \<Longrightarrow> e \<in> set es \<Longrightarrow> \<exists>r \<in> set rs. to_transfer r = Some e"
  by (induction rs arbitrary: es) (auto split: option.splits)

lemma to_transfer_agrees:
  assumes "to_transfer r = Some e" and "agrees key_of dest r" and "target_site_id r \<noteq> own"
    and "hub \<longrightarrow> target_site_id r = p"
  shows "entry_agrees key_of dest hub own p e"
  using assms by (auto simp: to_transfer_def agrees_def entry_agrees_def fence_key_def)

text \<open>What a transport operation may do to a host: it keeps the invariant and the place, keeps
  every held key, and sends no acknowledgement.\<close>

definition keeps ::
  "(string \<Rightarrow> string \<times> string) \<Rightarrow> (string \<times> string \<Rightarrow> string) \<Rightarrow> spool_host \<Rightarrow> spool_host \<Rightarrow> bool" where
  "keeps key_of dest h h' \<longleftrightarrow>
     host_ok key_of dest h' \<and> same_place h h' \<and> held_keys (host_rows h) \<subseteq> held_keys (host_rows h') \<and>
     (\<forall>p. acks_to h' p \<subseteq> acks_to h p)"

lemma keeps_refl: "host_ok key_of dest h \<Longrightarrow> keeps key_of dest h h"
  by (simp add: keeps_def)

lemma keeps_trans: "keeps key_of dest a b \<Longrightarrow> keeps key_of dest b c \<Longrightarrow> keeps key_of dest a c"
  unfolding keeps_def using same_place_trans by blast

lemma keeps_ok: "keeps key_of dest h h' \<Longrightarrow> host_ok key_of dest h'"
  by (simp add: keeps_def)

lemma keeps_rows:
  assumes "host_ok key_of dest h" and "rows_ok key_of dest (own_site h) rows"
    and "held_keys (host_rows h) \<subseteq> held_keys rows"
  shows "keeps key_of dest h (with_rows rows h)"
  using assms by (simp add: keeps_def host_ok_def)

lemma send_keeps:
  assumes "host_ok key_of dest h"
    and "\<And>r. r \<in> set rs \<Longrightarrow> agrees key_of dest r \<and> target_site_id r \<noteq> own_site h \<and> (is_hub h \<longrightarrow> target_site_id r = p)"
    and "sendSpoolTransfer p rs h = (sent, h')"
  shows "keeps key_of dest h h'" and "host_rows h' = host_rows h" and "own_site h' = own_site h" and "is_hub h' = is_hub h"
proof -
  have "keeps key_of dest h h' \<and> host_rows h' = host_rows h"
  proof (cases "peer_link p h = None \<or> transfer_entries rs = None")
    case True
    with assms(1,3) show ?thesis
      by (auto simp: sendSpoolTransfer_def keeps_refl split: option.splits)
  next
    case False
    then obtain l es where l: "peer_link p h = Some l" "transfer_entries rs = Some es" by auto
    let ?l = "snd (sendFrame (Spool_Transfer es) l)"
    have h': "h' = set_link p ?l h" using assms(3) l by (simp add: sendSpoolTransfer_def case_prod_unfold Let_def)
    have lp: "link_peer ?l = p" using peer_link_Some [OF l(1)] by (simp add: sendFrame_outbox)
    note sub = sent_to_set_link [OF l(1) lp sendFrame_outbox(1), folded h']
    have rows: "host_rows h' = host_rows h" and place: "same_place h h'"
      by (simp add: h' set_link_def) (simp add: h' same_place_set_link lp)
    have hub: "is_hub h' = is_hub h" "own_site h' = own_site h" using place by (simp_all add: same_place_def)
    have "entry_agrees key_of dest (is_hub h) (own_site h) p e" if "e \<in> set es" for e
      using transfer_entries_in [OF l(2) that] assms(2) to_transfer_agrees by blast
    then have "sends_ok key_of dest h'"
      using assms(1) sub unfolding sends_ok_def host_ok_def hub by fastforce
    moreover have "acks_to h' q \<subseteq> acks_to h q" for q
      using sub unfolding acks_to_def by fastforce
    ultimately show ?thesis
      using assms(1) rows place hub by (simp add: keeps_def host_ok_def)
  qed
  then show "keeps key_of dest h h'" "host_rows h' = host_rows h" "own_site h' = own_site h" "is_hub h' = is_hub h"
    by (simp_all add: keeps_def same_place_def)
qed

lemma rows_ok_agrees: "rows_ok key_of dest own rows \<Longrightarrow> r \<in> set rows \<Longrightarrow> agrees key_of dest r"
  by (simp add: rows_ok_def)

lemma as_transferring_simps [simp]:
  "agrees key_of dest (as_transferring t r) = agrees key_of dest r"
  "target_site_id (as_transferring t r) = target_site_id r" "wid (as_transferring t r) = wid r"
  by (simp_all add: as_transferring_def agrees_def fence_key_def)

lemma hub_next_hop: "is_hub h \<Longrightarrow> resolveSpoolNextHop h target = Some p \<Longrightarrow> target = p"
  by (simp add: resolveSpoolNextHop_def split: if_splits)

lemma push_keeps:
  assumes ok: "host_ok key_of dest h" and target: "target \<noteq> own_site h"
  shows "keeps key_of dest h (snd (sendDurableWorkToPeer now tok target i h))"
proof (cases "snd (sendDurableWorkToPeer now tok target i h) = h")
  case True
  with ok show ?thesis by (simp add: keeps_refl)
next
  case False
  then obtain p row where p: "resolveSpoolNextHop h target = Some p"
      "find (\<lambda>r. wid r = i \<and> claim_state r = Pending \<and> target_site_id r = target) (host_rows h) = Some row"
    and go: "\<not> (p = [] \<or> \<not> capable h p)" "target \<noteq> LOCAL_WORK_TARGET"
    by (auto simp: sendDurableWorkToPeer_def split: if_splits option.splits)
  have row: "row \<in> set (host_rows h)" "wid row = i" "target_site_id row = target"
    using p(2) by (auto simp: find_Some_iff)
  have rows: "rows_ok key_of dest (own_site h) (host_rows h)" using ok by (simp add: host_ok_def)
  obtain rows' t where b: "beginDurableWorkTransfer (host_rows h) (wid row) tok now = (rows', t)"
    by (cases "beginDurableWorkTransfer (host_rows h) (wid row) tok now")
  have "target_site_id x \<noteq> own_site h" if "x \<in> set (host_rows h)" "wid x = wid row" for x
  proof -
    have "x = row" using rows spool_ok_unique that row(1) by (auto simp: rows_ok_def)
    with target row show ?thesis by simp
  qed
  note beg = begin_keeps [where i = "wid row" and tok = tok and now = now, OF rows this, unfolded b fst_conv]
  have k1: "keeps key_of dest h (with_rows rows' h)" using keeps_rows [OF ok beg(1)] beg(2) by simp
  show ?thesis
  proof (cases "t = None \<or> t = Some []")
    case True
    then show ?thesis using p go b k1 by (auto simp: sendDurableWorkToPeer_def)
  next
    case False
    then obtain token where t: "t = Some token" "token \<noteq> []" by auto
    obtain sent h2 where s: "sendSpoolTransfer p [as_transferring token row] (with_rows rows' h) = (sent, h2)"
      by (cases "sendSpoolTransfer p [as_transferring token row] (with_rows rows' h)")
    have "keeps key_of dest (with_rows rows' h) h2" and r2: "host_rows h2 = rows'" "own_site h2 = own_site h"
      using send_keeps [OF _ _ s] k1 rows_ok_agrees [OF rows row(1)] row target hub_next_hop [OF _ p(1)]
      by (auto simp: keeps_def)
    with k1 have k2: "keeps key_of dest h h2" by (blast intro: keeps_trans)
    have "keeps key_of dest h2 (with_rows (fst (rollbackUnsentDurableWorkTransfer (host_rows h2) (wid row) token)) h2)"
      using rollback_keeps [OF beg(1)] k2 by (intro keeps_rows) (simp_all add: r2 keeps_def)
    with k2 show ?thesis
      using p go b t s by (auto simp: sendDurableWorkToPeer_def intro: keeps_trans split: option.split bool.split)
  qed
qed

lemma written_keeps:
  "host_ok key_of dest h \<Longrightarrow> keeps key_of dest h (snd (durableWorkWrittenListener now tok ev h))"
  by (auto simp: durableWorkWrittenListener_def keeps_refl push_keeps split: prod.split)

lemma send_batches_keeps:
  assumes "host_ok key_of dest h"
    and "\<And>r. r \<in> set rs \<Longrightarrow> agrees key_of dest r \<and> target_site_id r \<noteq> own_site h \<and> (is_hub h \<longrightarrow> target_site_id r = p)"
  shows "keeps key_of dest h (snd (send_batches p ids rs h))"
  using assms
proof (induction p ids rs h rule: send_batches.induct)
  case (1 p ids rs h)
  obtain sent h2 where s: "sendSpoolTransfer p (take 100 rs) h = (sent, h2)"
    by (cases "sendSpoolTransfer p (take 100 rs) h")
  have "\<And>r. r \<in> set (take 100 rs) \<Longrightarrow>
      agrees key_of dest r \<and> target_site_id r \<noteq> own_site h \<and> (is_hub h \<longrightarrow> target_site_id r = p)"
    by (rule "1.prems"(2)) (rule in_set_takeD)
  note k = send_keeps [OF "1.prems"(1) this s]
  have ok2: "host_ok key_of dest h2" using k(1) by (simp add: keeps_def)
  show ?case
  proof (cases "rs = []")
    case True
    then show ?thesis using "1.prems"(1) by (simp add: send_batches.simps keeps_refl)
  next
    case False
    consider "sent = None" | "sent = Some True" | "sent = Some False" by (cases sent) auto
    then show ?thesis
    proof cases
      case 2
      have "keeps key_of dest h2 (snd (send_batches p ids (drop 100 rs) h2))"
        using "1.IH" [OF False _ refl refl] s 2 ok2 "1.prems"(2) k(3,4) by (auto dest: in_set_dropD)
      with k(1) False s 2 show ?thesis by (subst send_batches.simps) (auto intro: keeps_trans)
    next
      case 3
      have "keeps key_of dest h2 (with_rows (rollback_begun ids (take 100 rs) (host_rows h2)) h2)"
        using rollback_begun_keeps [of key_of dest "own_site h2" "host_rows h2" ids "take 100 rs"] ok2
        by (intro keeps_rows) (simp_all add: host_ok_def)
      with k(1) False s 3 show ?thesis by (subst send_batches.simps) (auto intro: keeps_trans)
    qed (use k(1) False s in \<open>subst send_batches.simps, simp\<close>)
  qed
qed

lemma reclassify_keeps:
  assumes "rows_ok key_of dest own rows"
  shows "rows_ok key_of dest own (fst (reclassifyTransferExhaustedDeadLetters rows peer w now))"
    and "held_keys (fst (reclassifyTransferExhaustedDeadLetters rows peer w now)) = held_keys rows"
  using update_keeps [OF reclassify.row_transition_axioms assms]
  by (simp_all add: reclassifyTransferExhaustedDeadLetters_def Let_def)

lemma drain_keeps:
  assumes ok: "host_ok key_of dest h"
  shows "keeps key_of dest h (snd (drainDurableWorkSpool tok now p reconnect h))"
proof (cases "peer_link p h = None \<or> \<not> capable h p")
  case True
  with ok show ?thesis by (auto simp: drainDurableWorkSpool_def keeps_refl)
next
  case False
  let ?rows0 = "if reconnect then fst (reclassifyTransferExhaustedDeadLetters (host_rows h) p DEAD_SOCKET_REDRIVE_WINDOW_MS now)
      else host_rows h"
  let ?hop = "\<lambda>r. resolveSpoolNextHop h (target_site_id r) = Some p"
  let ?tr = "filter ?hop (readTransferringDurableWork ?rows0 None)"
  let ?pe = "filter ?hop (readPendingPeerTargetedDurableWork ?rows0 (own_site h) None)"
  obtain rows1 begun where b: "begin_each tok now 0 ?pe ?rows0 = (rows1, begun)"
    by (cases "begin_each tok now 0 ?pe ?rows0")
  have rows: "rows_ok key_of dest (own_site h) (host_rows h)" using ok by (simp add: host_ok_def)
  then have rows0: "rows_ok key_of dest (own_site h) ?rows0" "held_keys ?rows0 = held_keys (host_rows h)"
    by (simp_all add: reclassify_keeps)
  have pend: "r \<in> set ?rows0" "target_site_id r \<noteq> own_site h" "?hop r" if "r \<in> set ?pe" for r
    using that by (auto simp: readPendingPeerTargetedDurableWork_def)
  have "target_site_id x \<noteq> own_site h" if "r \<in> set ?pe" "x \<in> set ?rows0" "wid x = wid r" for r x
    using pend [OF that(1)] spool_ok_unique that(2,3) rows0(1) unfolding rows_ok_def by blast
  from begin_each_keeps [where rs = ?pe and n = 0 and tok = tok and now = now, OF rows0(1) this, unfolded b fst_conv]
  have rows1: "rows_ok key_of dest (own_site h) rows1" "held_keys rows1 = held_keys (host_rows h)"
    using rows0(2) by simp_all
  have k1: "keeps key_of dest h (with_rows rows1 h)" using keeps_rows [OF ok rows1(1)] rows1(2) by simp
  have "keeps key_of dest (with_rows rows1 h) (snd (send_batches p (map wid begun) (?tr @ begun) (with_rows rows1 h)))"
  proof (rule send_batches_keeps)
    show "host_ok key_of dest (with_rows rows1 h)" using k1 by (simp add: keeps_def)
    fix r assume "r \<in> set (?tr @ begun)"
    then consider "r \<in> set ?tr" | q t where "q \<in> set ?pe" "r = as_transferring t q"
      using begin_each_begun [of r tok now 0 ?pe ?rows0] b by auto
    then have "agrees key_of dest r \<and> target_site_id r \<noteq> own_site h \<and> ?hop r"
    proof cases
      case 1
      then have "r \<in> set ?rows0" "claim_state r = Transferring" "?hop r"
        by (auto simp: readTransferringDurableWork_def)
      with rows0(1) show ?thesis unfolding rows_ok_def by blast
    next
      case 2
      with pend [OF 2(1)] rows_ok_agrees [OF rows0(1)] show ?thesis by simp
    qed
    then show "agrees key_of dest r \<and> target_site_id r \<noteq> own_site (with_rows rows1 h) \<and>
        (is_hub (with_rows rows1 h) \<longrightarrow> target_site_id r = p)"
      using hub_next_hop by simp
  qed
  with k1 have "keeps key_of dest h (snd (send_batches p (map wid begun) (?tr @ begun) (with_rows rows1 h)))"
    by (rule keeps_trans)
  moreover have "drainDurableWorkSpool tok now p reconnect h =
      send_batches p (map wid begun) (?tr @ begun) (with_rows rows1 h)"
    unfolding drainDurableWorkSpool_def Let_def if_not_P [OF False] b by simp
  ultimately show ?thesis by simp
qed

lemma drain_peers_keeps:
  "host_ok key_of dest h \<Longrightarrow> keeps key_of dest h (snd (drain_peers tok now n ps h))"
proof (induction ps arbitrary: n h)
  case (Cons p ps)
  obtain ok h2 where d: "drainDurableWorkSpool (tok n) now p False h = (ok, h2)"
    by (cases "drainDurableWorkSpool (tok n) now p False h")
  have k: "keeps key_of dest h h2" using drain_keeps [OF Cons.prems, of "tok n" now p False] d by simp
  then have "keeps key_of dest h (snd (drain_peers tok now (Suc n) ps h2))"
    by (rule keeps_trans) (rule Cons.IH [OF keeps_ok [OF k]])
  with k Cons d show ?case by (auto split: bool.split)
qed (simp add: keeps_refl)

lemma dead_letter_keeps:
  assumes "rows_ok key_of dest own rows"
  shows "rows_ok key_of dest own (fst (deadLetterDurableWorkRows rows now e p k))"
    and "held_keys (fst (deadLetterDurableWorkRows rows now e p k)) = held_keys rows"
  using update_keeps [OF dead_letter.row_transition_axioms assms] by (simp_all add: deadLetterDurableWorkRows_def)

lemma sweep_keeps:
  assumes "host_ok key_of dest h"
  shows "keeps key_of dest h (snd (sweepAndRedriveStaleDurableWork tok now h))"
proof -
  obtain rows1 n1 where a: "deadLetterExpiredDurableWork (host_rows h) now = (rows1, n1)"
    by (cases "deadLetterExpiredDurableWork (host_rows h) now")
  obtain rows2 n2 where b: "sweepStaleTransferringDurableWork rows1 DURABLE_WORK_MAX_ATTEMPTS now = (rows2, n2)"
    by (cases "sweepStaleTransferringDurableWork rows1 DURABLE_WORK_MAX_ATTEMPTS now")
  have rows: "rows_ok key_of dest (own_site h) (host_rows h)" using assms by (simp add: host_ok_def)
  have e: "rows1 = fst (deadLetterExpiredDurableWork (host_rows h) now)" by (simp add: a)
  have r1: "rows_ok key_of dest (own_site h) rows1" "held_keys rows1 = held_keys (host_rows h)"
    unfolding e deadLetterExpiredDurableWork_def by (rule dead_letter_keeps [OF rows])+
  note dl = dead_letter_keeps [OF r1(1)]
  have r2: "rows_ok key_of dest (own_site h) rows2" "held_keys rows2 = held_keys (host_rows h)"
    using b update_keeps [OF charge_stale.row_transition_axioms dl(1)] dl(2) r1(2)
    by (auto simp: sweepStaleTransferringDurableWork_def Let_def case_prod_unfold)
  then have k: "keeps key_of dest h (with_rows rows2 h)" using keeps_rows [OF assms] by simp
  then have "keeps key_of dest h (snd (drain_peers tok now 0 (map link_peer (spool_links h)) (with_rows rows2 h)))"
    by (rule keeps_trans) (rule drain_peers_keeps [OF keeps_ok [OF k]])
  with k show ?thesis by (simp add: sweepAndRedriveStaleDurableWork_def a b)
qed

section \<open>What a host receives\<close>

lemma received_work_fence:
  "new_id (received_work src orig e) = te_id e" "new_kind (received_work src orig e) = te_kind e"
  "new_key (received_work src orig e) = te_key e" "new_target (received_work src orig e) = te_target e"
  by (simp_all add: received_work_def)

lemma insert_keeps:
  assumes rows: "rows_ok key_of dest own rows" and ins: "insertDurableWork bus tx rows w now = Inr (rows', b, ev)"
    and w: "(new_kind w, new_key w) = key_of (new_id w)" "new_target w = dest (key_of (new_id w))"
  shows "rows_ok key_of dest own rows'" and "held_keys rows \<subseteq> held_keys rows'" and "key_of (new_id w) \<in> held_keys rows'"
proof -
  have ok: "spool_ok rows'" using rows ins insert_ok by (auto simp: rows_ok_def)
  have cases: "rows' = rows \<and> fenced rows w \<or> rows' = rows @ [fresh_row w now]"
    using ins by (auto simp: insertDurableWork_def split: option.splits if_splits)
  have fresh: "agrees key_of dest (fresh_row w now)" "claim_state (fresh_row w now) = Pending"
      "fence_key (fresh_row w now) = key_of (new_id w)"
    using w by (simp_all add: agrees_def fresh_row_def fence_key_def)
  show "rows_ok key_of dest own rows'"
    using cases ok rows fresh by (auto simp: rows_ok_def)
  show "held_keys rows \<subseteq> held_keys rows'" using cases by (auto simp: held_keys_def)
  show "key_of (new_id w) \<in> held_keys rows'"
  proof (cases "rows' = rows @ [fresh_row w now]")
    case True
    with fresh(3) show ?thesis by (simp add: held_keys_def)
  next
    case False
    with cases obtain r where r: "rows' = rows" "r \<in> set rows"
        "wid r = new_id w \<or> (kind r = new_kind w \<and> idempotency_key r = new_key w)"
      by (auto simp: fenced_def list_ex_iff)
    then have "fence_key r = key_of (new_id w)"
      using rows w(1) by (auto simp: rows_ok_def agrees_def fence_key_def)
    with r(1,2) show ?thesis unfolding held_keys_def by (metis image_eqI)
  qed
qed

lemma receive_entry_keeps:
  assumes ok: "host_ok key_of dest h"
    and e: "(te_kind e, te_key e) = key_of (te_id e)" "te_target e = dest (key_of (te_id e))"
    and rec: "receive_entry bus now tok src orig e h = (b, as, h')"
  shows "keeps key_of dest h h'"
    and "(i, t) \<in> set as \<Longrightarrow> i = te_id e \<and> key_of i \<in> held_keys (host_rows h')"
proof -
  let ?w = "received_work src orig e"
  have "keeps key_of dest h h' \<and> (\<forall>(i, t) \<in> set as. i = te_id e \<and> key_of i \<in> held_keys (host_rows h'))"
  proof (cases "insertDurableWork bus False (host_rows h) ?w now")
    case (Inl x)
    with rec ok show ?thesis by (simp add: receive_entry_def keeps_refl)
  next
    case (Inr y)
    obtain rows' ins ev where y: "y = (rows', ins, ev)" by (cases y)
    have rows: "rows_ok key_of dest (own_site h) (host_rows h)" using ok by (simp add: host_ok_def)
    note k = insert_keeps [OF rows Inr [unfolded y], unfolded received_work_fence, OF e]
    have k1: "keeps key_of dest h (with_rows rows' h)" using keeps_rows [OF ok k(1,2)] .
    define r where "r = (case ev of [] \<Rightarrow> (True, with_rows rows' h)
        | x # _ \<Rightarrow> durableWorkWrittenListener now tok x (with_rows rows' h))"
    obtain g h1 where r1: "r = (g, h1)" by (cases r)
    have "keeps key_of dest (with_rows rows' h) (snd r)"
      using keeps_refl [OF keeps_ok [OF k1]] written_keeps [OF keeps_ok [OF k1]]
      by (cases ev) (simp_all add: r_def)
    with r1 have k2: "keeps key_of dest (with_rows rows' h) h1" by simp
    have held: "key_of (te_id e) \<in> held_keys (host_rows h1)" using k(3) k2 by (auto simp: keeps_def)
    have inbox: "keeps key_of dest h1 (h1\<lparr>inbox_events := evs\<rparr>)" for evs
      using keeps_ok [OF k2] by (auto simp: keeps_def host_ok_def same_place_def sends_ok_def sent_to_def acks_to_def)
    have out: "(b, as, h') = (if \<not> g then (False, [], h1) else (True, [(te_id e, te_token e)],
        if te_target e = own_site h1
        then h1\<lparr>inbox_events := inbox_events h1 @ [(te_ref e, te_stream e, te_kind e)]\<rparr> else h1))"
      using rec by (simp add: receive_entry_def Inr y r_def [symmetric] r1)
    have k3: "keeps key_of dest h1 h'"
      using out inbox keeps_refl [OF keeps_ok [OF k2]] by (auto split: if_splits)
    have "host_rows h' = host_rows h1" using out by (auto split: if_splits)
    with out held have "\<forall>(i, t) \<in> set as. i = te_id e \<and> key_of i \<in> held_keys (host_rows h')"
      by (cases g) auto
    with keeps_trans [OF keeps_trans [OF k1 k2] k3] show ?thesis by blast
  qed
  then show "keeps key_of dest h h'" "(i, t) \<in> set as \<Longrightarrow> i = te_id e \<and> key_of i \<in> held_keys (host_rows h')"
    by auto
qed

lemma receive_entries_keeps:
  assumes "host_ok key_of dest h"
    and "\<And>e. e \<in> set es \<Longrightarrow> (te_kind e, te_key e) = key_of (te_id e) \<and> te_target e = dest (key_of (te_id e))"
    and "receive_entries bus now tok n src orig es h = (b, as, h')"
  shows "keeps key_of dest h h' \<and> (\<forall>(i, t) \<in> set as. i \<in> te_id ` set es \<and> key_of i \<in> held_keys (host_rows h'))"
  using assms
proof (induction es arbitrary: n h b as h')
  case Nil
  then show ?case by (simp add: keeps_refl)
next
  case (Cons e es)
  obtain b1 a1 h1 where r: "receive_entry bus now (tok n) src orig e h = (b1, a1, h1)"
    by (cases "receive_entry bus now (tok n) src orig e h")
  obtain b2 a2 h2 where rs: "receive_entries bus now tok (Suc n) src orig es h1 = (b2, a2, h2)"
    by (cases "receive_entries bus now tok (Suc n) src orig es h1")
  note k1 = receive_entry_keeps [OF Cons.prems(1) _ _ r]
  have k: "keeps key_of dest h h1" "\<forall>(i, t) \<in> set a1. i = te_id e \<and> key_of i \<in> held_keys (host_rows h1)"
    using k1 Cons.prems(2) [of e] by auto
  have IH: "keeps key_of dest h1 h2 \<and> (\<forall>(i, t) \<in> set a2. i \<in> te_id ` set es \<and> key_of i \<in> held_keys (host_rows h2))"
    by (rule Cons.IH [OF keeps_ok [OF k(1)] _ rs]) (use Cons.prems(2) in simp)
  then have mono: "held_keys (host_rows h1) \<subseteq> held_keys (host_rows h2)" by (simp add: keeps_def)
  show ?case
  proof (cases b1)
    case False
    with Cons.prems(3) r have "as = a1" "h' = h1" by simp_all
    with k show ?thesis by auto
  next
    case True
    with Cons.prems(3) r rs have "as = a1 @ a2" "h' = h2" by simp_all
    moreover have "keeps key_of dest h h2" using k(1) IH keeps_trans by blast
    ultimately show ?thesis using k(2) IH mono by auto
  qed
qed

lemma ack_frame_sends:
  assumes "host_ok key_of dest h"
  shows "host_ok key_of dest (sendSpoolTransferAck p as h)" and "same_place h (sendSpoolTransferAck p as h)"
    and "host_rows (sendSpoolTransferAck p as h) = host_rows h"
    and "acks_to (sendSpoolTransferAck p as h) q \<subseteq> acks_to h q \<union> (if q = p then set as else {})"
proof -
  let ?h = "sendSpoolTransferAck p as h"
  have "host_ok key_of dest ?h \<and> same_place h ?h \<and> host_rows ?h = host_rows h \<and>
      acks_to ?h q \<subseteq> acks_to h q \<union> (if q = p then set as else {})"
  proof (cases "?h = h")
    case True
    with assms show ?thesis by simp
  next
    case False
    then obtain l where l: "peer_link p h = Some l"
        "?h = set_link p (snd (sendFrame (Spool_Transfer_Ack as) l)) h"
      by (auto simp: sendSpoolTransferAck_def split: option.splits if_splits)
    have lp: "link_peer (snd (sendFrame (Spool_Transfer_Ack as) l)) = p"
      using peer_link_Some [OF l(1)] by (simp add: sendFrame_outbox)
    note sub = sent_to_set_link [OF l(1) lp sendFrame_outbox(1), folded l(2)]
    have place: "same_place h ?h" unfolding l(2) by (rule same_place_set_link [OF lp])
    have rows: "host_rows ?h = host_rows h" unfolding l(2) by (simp add: set_link_def)
    have "sends_ok key_of dest ?h"
      using assms sub place unfolding sends_ok_def host_ok_def same_place_def by fastforce
    moreover have "acks_to ?h q \<subseteq> acks_to h q \<union> (if q = p then set as else {})"
      using sub unfolding acks_to_def by fastforce
    ultimately show ?thesis using place rows assms by (simp add: host_ok_def same_place_def)
  qed
  then show "host_ok key_of dest ?h" "same_place h ?h" "host_rows ?h = host_rows h"
      "acks_to ?h q \<subseteq> acks_to h q \<union> (if q = p then set as else {})" by simp_all
qed

lemma retire_acked_rows:
  "retire_acked as rows = filter (\<lambda>r. \<not> (\<exists>(i, t) \<in> set as. t \<noteq> [] \<and> transfer_matches i t r)) rows"
  by (induction as rows rule: retire_acked.induct)
    (auto simp: acknowledgeDurableWorkTransfer_def delete_where_def intro!: filter_cong)

section \<open>The network of spools\<close>

text \<open>
  Every host is reached under its own site id. A frame that a connection took stays in its
  outbox, so the two delivery steps may happen late, in any order, several times or never. A
  local step is any spool operation that deletes no fence; the transport owns the
  transferring state.
\<close>

type_synonym network = "string \<Rightarrow> spool_host"

inductive net_step ::
  "(string \<Rightarrow> string \<times> string) \<Rightarrow> (string \<times> string \<Rightarrow> string) \<Rightarrow> network \<Rightarrow> network \<Rightarrow> bool"
  for key_of dest where
  written: "net_step key_of dest net (net(s := snd (durableWorkWrittenListener now tok ev (net s))))"
| drain: "net_step key_of dest net (net(s := snd (drainDurableWorkSpool toks now p reconnect (net s))))"
| sweep: "net_step key_of dest net (net(s := snd (sweepAndRedriveStaleDurableWork tokss now (net s))))"
| deliver: "Spool_Transfer es \<in> sent_to (net a) b \<Longrightarrow>
    net_step key_of dest net (net(b := snd (handleSpoolTransfer bus now toks a es orig (net b))))"
| deliver_ack: "Spool_Transfer_Ack as \<in> sent_to (net b) a \<Longrightarrow>
    net_step key_of dest net (net(a := handleSpoolTransferAck as (net a)))"
| local: "spool_step (host_rows (net s)) rows \<Longrightarrow> rows_ok key_of dest s rows \<Longrightarrow>
    held_keys (host_rows (net s)) \<subseteq> held_keys rows \<Longrightarrow>
    net_step key_of dest net (net(s := with_rows rows (net s)))"

definition holds :: "network \<Rightarrow> string \<Rightarrow> string \<times> string \<Rightarrow> bool" where
  "holds net s k \<longleftrightarrow> k \<in> held_keys (host_rows (net s))"

definition in_custody :: "network \<Rightarrow> string \<times> string \<Rightarrow> bool" where
  "in_custody net k \<longleftrightarrow> (\<exists>s. holds net s k)"

definition ack_ok ::
  "(string \<Rightarrow> string \<times> string) \<Rightarrow> (string \<times> string \<Rightarrow> string) \<Rightarrow> network \<Rightarrow> string \<Rightarrow> string \<Rightarrow> string \<Rightarrow> bool" where
  "ack_ok key_of dest net b a i \<longleftrightarrow>
     (holds net (dest (key_of i)) (key_of i) \<or> is_hub (net b) \<and> holds net b (key_of i)) \<and>
     (if is_hub (net a) then b = dest (key_of i) else is_hub (net b))"

definition net_ok ::
  "(string \<Rightarrow> string \<times> string) \<Rightarrow> (string \<times> string \<Rightarrow> string) \<Rightarrow> network \<Rightarrow> bool" where
  "net_ok key_of dest net \<longleftrightarrow>
     (\<forall>s. own_site (net s) = s \<and> host_ok key_of dest (net s)) \<and>
     (\<forall>s l. l \<in> set (spool_links (net s)) \<and> \<not> is_hub (net s) \<longrightarrow> is_hub (net (link_peer l))) \<and>
     (\<forall>b a i t. (i, t) \<in> acks_to (net b) a \<longrightarrow> ack_ok key_of dest net b a i)"

lemma net_ok_host:
  assumes "net_ok key_of dest net"
  shows "host_ok key_of dest (net s)" and "own_site (net s) = s" and "rows_ok key_of dest s (host_rows (net s))"
proof -
  show "host_ok key_of dest (net s)" and own: "own_site (net s) = s" using assms by (simp_all add: net_ok_def)
  then show "rows_ok key_of dest s (host_rows (net s))" by (simp add: host_ok_def)
qed

lemma same_place_links:
  assumes "same_place h h'" and "l' \<in> set (spool_links h')"
  obtains l where "l \<in> set (spool_links h)" "link_peer l = link_peer l'"
proof -
  have "link_peer l' \<in> set (map link_peer (spool_links h))"
    using assms by (simp add: same_place_def) (metis image_eqI set_map)
  then show ?thesis using that by auto
qed

text \<open>Replacing one host by another at the same place keeps the shape of the network; what is
  left to show is about the acknowledgements.\<close>

lemma net_ok_upd:
  assumes ok: "net_ok key_of dest net" and place: "same_place (net s) h" and h: "host_ok key_of dest h"
    and acks: "\<And>b a i t. (i, t) \<in> acks_to ((net(s := h)) b) a \<Longrightarrow> ack_ok key_of dest (net(s := h)) b a i"
  shows "net_ok key_of dest (net(s := h))"
proof -
  have hub: "is_hub ((net(s := h)) x) = is_hub (net x)" for x using place by (simp add: same_place_def)
  have "is_hub (net (link_peer l))" if "l \<in> set (spool_links ((net(s := h)) x))" "\<not> is_hub (net x)" for x l
  proof -
    have "same_place (net x) ((net(s := h)) x)" using place by simp
    from this that(1) obtain l0 where "l0 \<in> set (spool_links (net x))" "link_peer l0 = link_peer l"
      by (rule same_place_links)
    with ok that(2) show ?thesis unfolding net_ok_def by metis
  qed
  moreover have "own_site ((net(s := h)) x) = x \<and> host_ok key_of dest ((net(s := h)) x)" for x
    using ok place h by (auto simp: net_ok_def same_place_def)
  ultimately show ?thesis unfolding net_ok_def using acks hub by blast
qed

lemma holds_upd:
  "held_keys (host_rows (net s)) \<subseteq> held_keys (host_rows h) \<Longrightarrow> holds net x k \<Longrightarrow> holds (net(s := h)) x k"
  by (auto simp: holds_def)

lemma ack_ok_upd:
  assumes "ack_ok key_of dest net b a i" and "same_place (net s) h"
    and "held_keys (host_rows (net s)) \<subseteq> held_keys (host_rows h)"
  shows "ack_ok key_of dest (net(s := h)) b a i"
proof -
  have "is_hub ((net(s := h)) x) = is_hub (net x)" for x using assms(2) by (simp add: same_place_def)
  with assms(1) holds_upd [where net = net and s = s, OF assms(3)] show ?thesis unfolding ack_ok_def by metis
qed

lemma keeps_step:
  assumes "net_ok key_of dest net" and "keeps key_of dest (net s) h"
  shows "net_ok key_of dest (net(s := h))" and "in_custody net k \<Longrightarrow> in_custody (net(s := h)) k"
proof -
  have k: "same_place (net s) h" "host_ok key_of dest h" "held_keys (host_rows (net s)) \<subseteq> held_keys (host_rows h)"
      "acks_to h p \<subseteq> acks_to (net s) p" for p
    using assms(2) by (simp_all add: keeps_def)
  show "net_ok key_of dest (net(s := h))"
  proof (rule net_ok_upd [OF assms(1) k(1,2)])
    fix b a i t assume "(i, t) \<in> acks_to ((net(s := h)) b) a"
    then have "(i, t) \<in> acks_to (net b) a" using k(4) by (auto split: if_splits)
    then have "ack_ok key_of dest net b a i" using assms(1) unfolding net_ok_def by blast
    then show "ack_ok key_of dest (net(s := h)) b a i" using k by (intro ack_ok_upd)
  qed
  show "in_custody net k \<Longrightarrow> in_custody (net(s := h)) k"
    unfolding in_custody_def using holds_upd [where net = net and s = s, OF k(3)] by blast
qed

lemma transfer_step:
  assumes ok: "net_ok key_of dest net" and sent: "Spool_Transfer es \<in> sent_to (net a) b"
  shows "net_ok key_of dest (net(b := snd (handleSpoolTransfer bus now toks a es orig (net b))))"
    and "in_custody net k \<Longrightarrow> in_custody (net(b := snd (handleSpoolTransfer bus now toks a es orig (net b)))) k"
proof -
  have hb: "host_ok key_of dest (net b)" and ha: "host_ok key_of dest (net a)" using ok by (simp_all add: net_ok_def)
  have e: "entry_agrees key_of dest (is_hub (net a)) a b e" if "e \<in> set es" for e
    using ha sent that ok unfolding host_ok_def sends_ok_def net_ok_def by (metis frame_entries.simps(1))
  obtain f as h1 where r: "receive_entries bus now toks 0 a orig es (net b) = (f, as, h1)"
    by (cases "receive_entries bus now toks 0 a orig es (net b)")
  have k: "keeps key_of dest (net b) h1"
      "\<forall>(i, t) \<in> set as. i \<in> te_id ` set es \<and> key_of i \<in> held_keys (host_rows h1)"
    using receive_entries_keeps [OF hb _ r] e unfolding entry_agrees_def by blast+
  note af = ack_frame_sends [OF keeps_ok [OF k(1)], of a as]
  have "net_ok key_of dest (net(b := sendSpoolTransferAck a as h1)) \<and>
      (in_custody net k \<longrightarrow> in_custody (net(b := sendSpoolTransferAck a as h1)) k)"
  proof
    let ?h = "sendSpoolTransferAck a as h1"
    have place: "same_place (net b) ?h" using k(1) af(2) same_place_trans by (auto simp: keeps_def)
    have mono: "held_keys (host_rows (net b)) \<subseteq> held_keys (host_rows ?h)" using k(1) af(3) by (simp add: keeps_def)
    show "in_custody net k \<longrightarrow> in_custody (net(b := ?h)) k"
      unfolding in_custody_def using holds_upd [where net = net and s = b, OF mono] by blast
    show "net_ok key_of dest (net(b := ?h))"
    proof (rule net_ok_upd [OF ok place af(1)])
      fix b' a' i t assume "(i, t) \<in> acks_to ((net(b := ?h)) b') a'"
      then consider "(i, t) \<in> acks_to (net b') a'" | "b' = b" "a' = a" "(i, t) \<in> set as"
        using af(4) [of a'] k(1) by (auto simp: keeps_def split: if_splits)
      then show "ack_ok key_of dest (net(b := ?h)) b' a' i"
      proof cases
        case 1
        then have "ack_ok key_of dest net b' a' i" using ok unfolding net_ok_def by blast
        then show ?thesis using place mono by (rule ack_ok_upd)
      next
        case 2
        then obtain x where x: "x \<in> set es" "te_id x = i" "key_of i \<in> held_keys (host_rows ?h)"
          using k(2) af(3) by auto
        have hub: "is_hub ((net(b := ?h)) y) = is_hub (net y)" for y using place by (simp add: same_place_def)
        have held: "holds (net(b := ?h)) b (key_of i)" using x(3) by (simp add: holds_def)
        have "is_hub (net a) \<longrightarrow> b = dest (key_of i)"
          using e [OF x(1)] x(2) by (auto simp: entry_agrees_def)
        moreover have "\<not> is_hub (net a) \<longrightarrow> is_hub (net b)"
          using sent ok unfolding net_ok_def sent_to_def by blast
        ultimately show ?thesis using held 2 hub unfolding ack_ok_def by metis
      qed
    qed
  qed
  moreover have "net_ok key_of dest (net(b := h1)) \<and> (in_custody net k \<longrightarrow> in_custody (net(b := h1)) k)"
    using keeps_step [OF ok k(1)] by blast
  moreover have "snd (handleSpoolTransfer bus now toks a es orig (net b)) \<in> {net b, h1, sendSpoolTransferAck a as h1}"
    using r by (cases f) (auto simp: handleSpoolTransfer_def)
  ultimately show "net_ok key_of dest (net(b := snd (handleSpoolTransfer bus now toks a es orig (net b))))"
    and "in_custody net k \<Longrightarrow> in_custody (net(b := snd (handleSpoolTransfer bus now toks a es orig (net b)))) k"
    using ok by auto
qed

lemma ack_step:
  assumes ok: "net_ok key_of dest net" and sent: "Spool_Transfer_Ack as \<in> sent_to (net b) a"
  shows "net_ok key_of dest (net(a := handleSpoolTransferAck as (net a)))"
    and "in_custody net k \<Longrightarrow> in_custody (net(a := handleSpoolTransferAck as (net a))) k"
proof -
  let ?rows = "host_rows (net a)"
  let ?gone = "\<lambda>r. \<exists>(i, t) \<in> set as. t \<noteq> [] \<and> transfer_matches i t r"
  define h where "h = handleSpoolTransferAck as (net a)"
  have h: "h = with_rows (filter (\<lambda>r. \<not> ?gone r) ?rows) (net a)"
    by (simp add: h_def handleSpoolTransferAck_def retire_acked_rows)
  have rows: "rows_ok key_of dest a ?rows" using ok by (rule net_ok_host)
  have place: "same_place (net a) h" and okh: "host_ok key_of dest h"
  proof -
    show "same_place (net a) h" by (simp add: h)
    have "spool_ok (filter (\<lambda>r. \<not> ?gone r) ?rows)"
      using delete_where_ok [of ?rows ?gone] rows by (simp add: delete_where_def rows_ok_def)
    then have "rows_ok key_of dest a (filter (\<lambda>r. \<not> ?gone r) ?rows)"
      using rows by (auto simp: rows_ok_def)
    then show "host_ok key_of dest h" using ok by (simp add: h host_ok_def net_ok_def)
  qed
  have hub: "is_hub ((net(a := h)) x) = is_hub (net x)" for x using place by (simp add: same_place_def)
  have other: "holds (net(a := h)) x y = holds net x y" if "x \<noteq> a" for x y using that by (simp add: holds_def)
  have gone: "dest y \<noteq> a \<and> (if is_hub (net a) then holds net (dest y) y else \<exists>c. c \<noteq> a \<and> is_hub (net c) \<and> holds net c y \<or> holds net (dest y) y)"
    if y: "holds net a y" "\<not> holds (net(a := h)) a y" for y
  proof -
    obtain r where r: "r \<in> set ?rows" "fence_key r = y" using y(1) by (auto simp: holds_def held_keys_def)
    have "?gone r"
    proof (rule ccontr)
      assume "\<not> ?gone r"
      with r have "holds (net(a := h)) a y" by (auto simp: holds_def held_keys_def h)
      with y(2) show False by simp
    qed
    then obtain i t where i: "(i, t) \<in> set as" "transfer_matches i t r" by auto
    then have y_eq: "y = key_of i" and da: "dest y \<noteq> a"
      using rows r by (auto simp: rows_ok_def agrees_def transfer_matches_def)
    have "(i, t) \<in> acks_to (net b) a" using sent i(1) by (force simp: acks_to_def)
    then have ack: "ack_ok key_of dest net b a i" using ok unfolding net_ok_def by blast
    show ?thesis
    proof (cases "is_hub (net a)")
      case True
      with ack da y_eq show ?thesis by (auto simp: ack_ok_def)
    next
      case False
      with ack have "is_hub (net b)" "holds net (dest y) y \<or> holds net b y" by (auto simp: ack_ok_def y_eq)
      with False da show ?thesis by auto
    qed
  qed
  show "net_ok key_of dest (net(a := handleSpoolTransferAck as (net a)))"
    unfolding h_def [symmetric]
  proof (rule net_ok_upd [OF ok place okh])
    fix b' a' i t assume "(i, t) \<in> acks_to ((net(a := h)) b') a'"
    then have "(i, t) \<in> acks_to (net b') a'" by (auto simp: h split: if_splits)
    then have old: "ack_ok key_of dest net b' a' i" using ok unfolding net_ok_def by blast
    have dest_kept: "holds (net(a := h)) (dest (key_of i)) (key_of i)" if "holds net (dest (key_of i)) (key_of i)"
      using that other [of "dest (key_of i)"] gone [of "key_of i"] by metis
    have "is_hub (net b') \<Longrightarrow> holds net b' (key_of i) \<Longrightarrow>
        holds (net(a := h)) b' (key_of i) \<or> holds net (dest (key_of i)) (key_of i)"
      using other [of b'] gone [of "key_of i"] by metis
    with old dest_kept hub show "ack_ok key_of dest (net(a := h)) b' a' i"
      unfolding ack_ok_def by metis
  qed
  assume "in_custody net k"
  then obtain x where x: "holds net x k" by (auto simp: in_custody_def)
  show "in_custody (net(a := handleSpoolTransferAck as (net a))) k"
    unfolding h_def [symmetric] in_custody_def
    using x other gone [of k] by (cases "x = a") (metis other)+
qed

text \<open>C1: No work is lost between hosts. In a network whose spokes connect only to hubs, whatever
  frames are delivered late, repeatedly, out of order or never, and whatever the sweeps, drains
  and acknowledgements of the hosts do, a fence that some host holds is held by some host after
  every step, no host holds two rows of one fence, and the network stays well formed. Producers
  never reuse a row id for other work and never use one fence for two destinations.\<close>

theorem spool_custody:
  assumes "net_ok key_of dest net" and "(net_step key_of dest)\<^sup>*\<^sup>* net net'" and "in_custody net k"
  shows "net_ok key_of dest net' \<and> in_custody net' k \<and> distinct (map fence_key (host_rows (net' s)))"
proof -
  have step: "net_ok key_of dest b \<and> in_custody b k" if "net_step key_of dest a b" "net_ok key_of dest a" "in_custody a k" for a b
    using that
  proof (cases rule: net_step.cases)
    case (written s now tok ev)
    then show ?thesis using that keeps_step [OF that(2) written_keeps] by (simp add: net_ok_def)
  next
    case (drain s toks now p reconnect)
    then show ?thesis using that keeps_step [OF that(2) drain_keeps] by (simp add: net_ok_def)
  next
    case (sweep s tokss now)
    then show ?thesis using that keeps_step [OF that(2) sweep_keeps] by (simp add: net_ok_def)
  next
    case (deliver es c d bus now toks orig)
    then show ?thesis using that transfer_step [OF that(2) deliver(2)] by simp
  next
    case (deliver_ack as c d)
    then show ?thesis using that ack_step [OF that(2) deliver_ack(2)] by simp
  next
    case (local s rows)
    have "keeps key_of dest (a s) (with_rows rows (a s))"
      using that(2) local by (intro keeps_rows) (simp_all add: net_ok_def)
    then show ?thesis using keeps_step [OF that(2)] that(3) local by simp
  qed
  from assms(2,1,3) have "net_ok key_of dest net' \<and> in_custody net' k"
    by (induction rule: rtranclp_induct) (use step in blast)+
  moreover from this have "rows_ok key_of dest s (host_rows (net' s))" by (blast intro: net_ok_host)
  ultimately show ?thesis by (simp add: rows_ok_def spool_ok_def)
qed

definition example_work :: "string \<Rightarrow> string \<Rightarrow> new_work" where
  "example_work i target =
     \<lparr>new_id = i, new_target = target, new_kind = ''k'', new_payload = Json (JNum 1), new_key = i,
      new_expires_at = None, new_ref_id = None, new_source_site = None, new_received_at = None,
      new_stream_id = None, new_trace_context = None\<rparr>"

definition example_host :: "bool \<Rightarrow> string \<Rightarrow> string list \<Rightarrow> (nat \<Rightarrow> bool) \<Rightarrow> spool \<Rightarrow> spool_host" where
  "example_host hub s peers acc rows =
     \<lparr>is_hub = hub, own_site = s, host_rows = rows,
      spool_links = map (\<lambda>p. \<lparr>link_peer = p, outbox = [], attempts = 0, accepts = acc\<rparr>) peers,
      capable = (\<lambda>_. True), inbox_events = []\<rparr>"

definition example_net :: network where
  "example_net s =
     (if s = ''hub'' then example_host True s [''sp''] (\<lambda>_. True) []
      else if s = ''sp'' then example_host False s [''hub''] (\<lambda>_. True) [fresh_row (example_work ''w'' ''hub'') 0]
      else example_host True s [] (\<lambda>_. True) [])"

lemma example_net_ok: "net_ok (\<lambda>_. (''k'', ''w'')) (\<lambda>_. ''hub'') example_net"
proof -
  have "sent_to (example_net s) p = {}" for s p
    by (auto simp: example_net_def example_host_def sent_to_def)
  moreover have "spool_ok [fresh_row (example_work ''w'' ''hub'') 0]"
    by (simp add: spool_ok_def fresh_row_ok)
  then have "rows_ok (\<lambda>_. (''k'', ''w'')) (\<lambda>_. ''hub'') s (host_rows (example_net s))" for s
    by (simp add: example_net_def example_host_def rows_ok_def spool_ok_def agrees_def fence_key_def fresh_row_def
        example_work_def)
  moreover have "own_site (example_net s) = s" for s by (simp add: example_net_def example_host_def)
  moreover have "is_hub (example_net (link_peer l))"
    if "l \<in> set (spool_links (example_net s))" "\<not> is_hub (example_net s)" for s l
    using that by (auto simp: example_net_def example_host_def split: if_splits)
  ultimately show ?thesis unfolding net_ok_def host_ok_def sends_ok_def acks_to_def by simp blast
qed

theorem spool_custody_witness:
  "in_custody (example_net(''sp'' := snd (drainDurableWorkSpool (\<lambda>n. ''t'') 5 ''hub'' True (example_net ''sp''))))
     (''k'', ''w'')"
proof -
  have "(net_step (\<lambda>_. (''k'', ''w'')) (\<lambda>_. ''hub''))\<^sup>*\<^sup>* example_net
      (example_net(''sp'' := snd (drainDurableWorkSpool (\<lambda>n. ''t'') 5 ''hub'' True (example_net ''sp''))))"
    by (rule r_into_rtranclp) (rule net_step.drain)
  moreover have "in_custody example_net (''k'', ''w'')"
    unfolding in_custody_def
    by (rule exI [of _ "''sp''"])
      (simp add: holds_def held_keys_def example_net_def example_host_def fence_key_def fresh_row_def example_work_def)
  ultimately show ?thesis using spool_custody [OF example_net_ok] by blast
qed

section \<open>One transfer from end to end\<close>

lemma find_unique:
  assumes "r \<in> set rows" and "p r" and "\<And>x. x \<in> set rows \<Longrightarrow> p x \<Longrightarrow> x = r"
  shows "find p rows = Some r"
proof (cases "find p rows")
  case None
  with assms(1,2) show ?thesis by (auto simp: find_None_iff)
next
  case (Some x)
  then have "x \<in> set rows" "p x" by (auto simp: find_Some_iff)
  with assms(3) Some show ?thesis by simp
qed

lemma begin_then_retire:
  assumes "spool_ok rows" and "r \<in> set rows" and "claim_state r = Pending" and "token \<noteq> []"
  shows "retire_acked [(wid r, token)] (fst (beginDurableWorkTransfer rows (wid r) token now)) =
         filter (\<lambda>x. wid x \<noteq> wid r) rows"
proof -
  have "\<not> transfer_matches (wid r) token x \<longleftrightarrow> wid x \<noteq> wid r"
    if "x \<in> set (fst (beginDurableWorkTransfer rows (wid r) token now))" for x
  proof -
    have "wid x = wid r \<Longrightarrow> transfer_matches (wid r) token x"
      using begin_transfer.update_row [OF assms(1,2) that [unfolded beginDurableWorkTransfer_def fst_conv]] assms(3)
      by (simp add: beginDurableWorkTransfer_def transfer_matches_def)
    then show ?thesis by (auto simp: transfer_matches_def)
  qed
  then have "retire_acked [(wid r, token)] (fst (beginDurableWorkTransfer rows (wid r) token now)) =
      filter (\<lambda>x. wid x \<noteq> wid r) (fst (beginDurableWorkTransfer rows (wid r) token now))"
    using assms(4) by (auto simp: acknowledgeDurableWorkTransfer_def delete_where_def intro!: filter_cong)
  also have "\<dots> = filter (\<lambda>x. wid x \<noteq> wid r) rows"
    by (induction rows) (auto simp: beginDurableWorkTransfer_def update_where_def)
  finally show ?thesis .
qed

lemma peer_link_set_link:
  assumes "peer_link p h = Some l" and "link_peer l' = p"
  shows "peer_link p (set_link p l' h) = Some l'"
proof -
  have "find (\<lambda>x. link_peer x = p) (update_where (\<lambda>x. link_peer x = p) (\<lambda>_. l') ls) = Some l'"
    if "find (\<lambda>x. link_peer x = p) ls = Some l" for ls
    using that assms(2) by (induction ls) (auto simp: update_where_def split: if_splits)
  then show ?thesis using assms(1) by (simp add: peer_link_def set_link_def)
qed

text \<open>The sender's half: a pending row goes out in one entry of one new frame under the fresh token.\<close>

lemma push_one:
  assumes "spool_ok (host_rows a)" and "r \<in> set (host_rows a)" and "claim_state r = Pending"
    and "target_site_id r \<noteq> LOCAL_WORK_TARGET" and "resolveSpoolNextHop a (target_site_id r) = Some p"
    and "p \<noteq> []" and "capable a p" and "peer_link p a = Some l" and "accepts l (attempts l)"
    and "to_transfer (as_transferring token r) = Some e" and "token \<noteq> []"
  shows "snd (sendDurableWorkToPeer now token (target_site_id r) (wid r) a) =
           set_link p (l\<lparr>outbox := outbox l @ [Spool_Transfer [e]], attempts := attempts l + 1\<rparr>)
             (with_rows (fst (beginDurableWorkTransfer (host_rows a) (wid r) token now)) a)"
proof -
  have uniq: "x = r" if "x \<in> set (host_rows a)" "wid x = wid r" for x
    using spool_ok_unique assms(1,2) that by blast
  have found: "find (\<lambda>x. wid x = wid r \<and> claim_state x = Pending \<and> target_site_id x = target_site_id r) (host_rows a) = Some r"
    by (rule find_unique) (use assms(2,3) uniq in auto)
  obtain rows where beg: "beginDurableWorkTransfer (host_rows a) (wid r) token now = (rows, Some token)"
  proof -
    have "snd (beginDurableWorkTransfer (host_rows a) (wid r) token now) = Some token"
      using count_pending [OF assms(1)] assms(2,3) by (auto simp: beginDurableWorkTransfer_def)
    then show thesis using that by (metis prod.collapse)
  qed
  have send: "sendSpoolTransfer p [as_transferring token r] (with_rows rows a) = (Some True,
      set_link p (l\<lparr>outbox := outbox l @ [Spool_Transfer [e]], attempts := attempts l + 1\<rparr>) (with_rows rows a))"
    using assms(8-10) by (simp add: sendSpoolTransfer_def sendFrame_def)
  show ?thesis
    unfolding sendDurableWorkToPeer_def beg assms(5) found option.case prod.case send bool.case
    using assms(4,6,7,11) by simp
qed

text \<open>The receiver's half: a valid entry for this host that no row fences adds one row, announces it, and
  answers on the sender's connection with the entry's id and token.\<close>

lemma receive_one:
  assumes "te_target e = own_site b" and "validateDurableWork (received_work src orig e) = None"
    and "\<not> fenced (host_rows b) (received_work src orig e)"
    and "peer_link src b = Some l" and "accepts l (attempts l)"
  shows "snd (handleSpoolTransfer bus now toks src [e] orig b) =
           set_link src (l\<lparr>outbox := outbox l @ [Spool_Transfer_Ack [(te_id e, te_token e)]], attempts := attempts l + 1\<rparr>)
             (b\<lparr>host_rows := host_rows b @ [fresh_row (received_work src orig e) now],
                inbox_events := inbox_events b @ [(te_ref e, te_stream e, te_kind e)]\<rparr>)"
proof -
  have "insertDurableWork bus False (host_rows b) (received_work src orig e) now =
      Inr (host_rows b @ [fresh_row (received_work src orig e) now], True, if bus then [(te_id e, own_site b)] else [])"
    using assms(1-3) by (simp add: insertDurableWork_def received_work_fence)
  then have got: "receive_entry bus now (toks 0) src orig e b = (True, [(te_id e, te_token e)],
      b\<lparr>host_rows := host_rows b @ [fresh_row (received_work src orig e) now],
        inbox_events := inbox_events b @ [(te_ref e, te_stream e, te_kind e)]\<rparr>)"
    using assms(1) by (simp add: receive_entry_def durableWorkWrittenListener_def with_rows_def)
  show ?thesis using assms(4,5)
    by (simp add: handleSpoolTransfer_def got sendSpoolTransferAck_def sendFrame_def peer_link_def)
qed

text \<open>C25: One transfer from end to end. A pending row for a connected peer that advertises spool
  support and takes the frame goes out in one new frame, as its only entry. The peer, connected back
  and holding no row with the row's id or fence, is handed that entry: it stores exactly one more row,
  pending and with the identity, payload and correlation fields of the original, announces it to its
  inbox, and answers with one new acknowledgement frame. Delivering that very frame to the sender
  retires exactly the sender's row.\<close>

theorem transfer_end_to_end:
  assumes "spool_ok (host_rows a)" and "r \<in> set (host_rows a)" and "claim_state r = Pending"
    and "target_site_id r = own_site b" and "own_site b \<noteq> LOCAL_WORK_TARGET"
    and "resolveSpoolNextHop a (own_site b) = Some (own_site b)" and "own_site b \<noteq> []" and "capable a (own_site b)"
    and "peer_link (own_site b) a = Some la" and "accepts la (attempts la)"
    and "peer_link (own_site a) b = Some lb" and "accepts lb (attempts lb)"
    and "payload r = Json v" and "token \<noteq> []" and "wid r \<noteq> []" and "kind r \<noteq> []" and "idempotency_key r \<noteq> []"
    and "\<And>x. x \<in> set (host_rows b) \<Longrightarrow> wid x \<noteq> wid r \<and> fence_key x \<noteq> fence_key r"
  shows "\<exists>a1 la1 e. snd (sendDurableWorkToPeer now token (own_site b) (wid r) a) = a1 \<and>
           peer_link (own_site b) a1 = Some la1 \<and> outbox la1 = outbox la @ [Spool_Transfer [e]] \<and>
           (\<exists>b1 lb1 r1 acks. snd (handleSpoolTransfer bus now2 toks (own_site a) [e] orig b) = b1 \<and>
              host_rows b1 = host_rows b @ [r1] \<and> claim_state r1 = Pending \<and>
              wid r1 = wid r \<and> kind r1 = kind r \<and> idempotency_key r1 = idempotency_key r \<and>
              payload r1 = payload r \<and> target_site_id r1 = own_site b \<and>
              ref_id r1 = ref_id r \<and> stream_id r1 = stream_id r \<and>
              inbox_events b1 = inbox_events b @ [(ref_id r, stream_id r, kind r)] \<and>
              peer_link (own_site a) b1 = Some lb1 \<and> outbox lb1 = outbox lb @ [Spool_Transfer_Ack acks] \<and>
              host_rows (handleSpoolTransferAck acks a1) = filter (\<lambda>x. wid x \<noteq> wid r) (host_rows a))"
proof -
  obtain e where e: "to_transfer (as_transferring token r) = Some e" "te_id e = wid r" "te_token e = token"
      "te_payload e = Some v" "te_kind e = kind r" "te_key e = idempotency_key r" "te_target e = own_site b"
      "te_ref e = ref_id r" "te_stream e = stream_id r"
    using assms(4,13) by (auto simp: to_transfer_def as_transferring_def)
  let ?la = "la\<lparr>outbox := outbox la @ [Spool_Transfer [e]], attempts := attempts la + 1\<rparr>"
  let ?lb = "lb\<lparr>outbox := outbox lb @ [Spool_Transfer_Ack [(wid r, token)]], attempts := attempts lb + 1\<rparr>"
  let ?w = "received_work (own_site a) orig e"
  let ?rows = "fst (beginDurableWorkTransfer (host_rows a) (wid r) token now)"
  define a1 where "a1 = snd (sendDurableWorkToPeer now token (own_site b) (wid r) a)"
  have a1: "a1 = set_link (own_site b) ?la (with_rows ?rows a)"
    unfolding a1_def using push_one [OF assms(1-3) _ _ _ _ assms(9,10) e(1) assms(14)] assms(4-8) by simp
  have link: "peer_link (own_site b) a1 = Some ?la"
    unfolding a1 using assms(9) peer_link_Some [OF assms(9)]
    by (intro peer_link_set_link [where l = la]) (simp_all add: peer_link_def with_rows_def)
  have retired: "host_rows (handleSpoolTransferAck [(wid r, token)] a1) = filter (\<lambda>x. wid x \<noteq> wid r) (host_rows a)"
    using begin_then_retire [OF assms(1-3,14), of now] by (simp add: handleSpoolTransferAck_def a1 set_link_def with_rows_def)
  have "validateDurableWork ?w = None"
    using assms(7,15-17) e by (simp add: validateDurableWork_def received_work_def json_stringify_def)
  moreover have "\<not> fenced (host_rows b) ?w"
    using assms(18) e by (auto simp: fenced_def received_work_fence fence_key_def list_ex_iff)
  ultimately have b1: "snd (handleSpoolTransfer bus now2 toks (own_site a) [e] orig b) = set_link (own_site a) ?lb
      (b\<lparr>host_rows := host_rows b @ [fresh_row ?w now2], inbox_events := inbox_events b @ [(ref_id r, stream_id r, kind r)]\<rparr>)"
    using receive_one [OF e(7) _ _ assms(11,12)] e by simp
  have reply: "peer_link (own_site a) (snd (handleSpoolTransfer bus now2 toks (own_site a) [e] orig b)) = Some ?lb"
    unfolding b1 using assms(11) peer_link_Some [OF assms(11)]
    by (intro peer_link_set_link [where l = lb]) (simp_all add: peer_link_def)
  have r1: "wid (fresh_row ?w now2) = wid r" "kind (fresh_row ?w now2) = kind r"
      "idempotency_key (fresh_row ?w now2) = idempotency_key r"
      "payload (fresh_row ?w now2) = payload r" "target_site_id (fresh_row ?w now2) = own_site b"
      "ref_id (fresh_row ?w now2) = ref_id r" "stream_id (fresh_row ?w now2) = stream_id r"
      "claim_state (fresh_row ?w now2) = Pending"
    using e assms(13) by (simp_all add: fresh_row_def received_work_def json_stringify_def)
  have "host_rows (snd (handleSpoolTransfer bus now2 toks (own_site a) [e] orig b)) = host_rows b @ [fresh_row ?w now2] \<and>
      inbox_events (snd (handleSpoolTransfer bus now2 toks (own_site a) [e] orig b)) = inbox_events b @ [(ref_id r, stream_id r, kind r)]"
    unfolding b1 by (simp add: set_link_def)
  moreover have "outbox ?la = outbox la @ [Spool_Transfer [e]]" "outbox ?lb = outbox lb @ [Spool_Transfer_Ack [(wid r, token)]]"
    by simp_all
  ultimately show ?thesis using a1_def [symmetric] link reply retired r1 by blast
qed

theorem transfer_end_to_end_witness:
  "\<exists>e b1 lb1 acks.
     snd (handleSpoolTransfer True 6 (\<lambda>_. ''x'') ''sp'' [e] False (example_net ''hub'')) = b1 \<and>
     map wid (host_rows b1) = [''w''] \<and>
     peer_link ''sp'' b1 = Some lb1 \<and> outbox lb1 = [Spool_Transfer_Ack acks] \<and>
     host_rows (handleSpoolTransferAck acks (snd (sendDurableWorkToPeer 5 ''t'' ''hub'' ''w'' (example_net ''sp'')))) = []"
proof -
  let ?r = "fresh_row (example_work ''w'' ''hub'') 0" and ?a = "example_net ''sp''" and ?b = "example_net ''hub''"
  let ?l = "\<lambda>p. \<lparr>link_peer = p, outbox = [], attempts = 0, accepts = (\<lambda>_. True)\<rparr> :: spool_frame link"
  have net: "host_rows ?a = [?r]" "host_rows ?b = []" "own_site ?b = ''hub''" "own_site ?a = ''sp''"
      "capable ?a p" "resolveSpoolNextHop ?a ''hub'' = Some ''hub''"
      "peer_link ''hub'' ?a = Some (?l ''hub'')" "peer_link ''sp'' ?b = Some (?l ''sp'')" for p
    by (simp_all add: example_net_def example_host_def resolveSpoolNextHop_def peer_link_def)
  have r: "wid ?r = ''w''" "kind ?r = ''k''" "idempotency_key ?r = ''w''" "payload ?r = Json (JNum 1)"
      "target_site_id ?r = ''hub''" "claim_state ?r = Pending"
    by (simp_all add: fresh_row_def example_work_def)
  have ok: "spool_ok [?r]" and here: "''hub'' \<noteq> LOCAL_WORK_TARGET"
    by (simp_all add: spool_ok_def fresh_row_ok LOCAL_WORK_TARGET_def)
  have p: "spool_ok (host_rows ?a)" "?r \<in> set (host_rows ?a)" "claim_state ?r = Pending" "target_site_id ?r = own_site ?b"
      "own_site ?b \<noteq> LOCAL_WORK_TARGET" "resolveSpoolNextHop ?a (own_site ?b) = Some (own_site ?b)" "own_site ?b \<noteq> []"
      "capable ?a (own_site ?b)" "peer_link (own_site ?b) ?a = Some (?l ''hub'')"
      "accepts (?l ''hub'') (attempts (?l ''hub''))" "peer_link (own_site ?a) ?b = Some (?l ''sp'')"
      "accepts (?l ''sp'') (attempts (?l ''sp''))" "payload ?r = Json (JNum 1)" "''t'' \<noteq> []" "wid ?r \<noteq> []" "kind ?r \<noteq> []"
      "idempotency_key ?r \<noteq> []"
    using ok here by (simp_all add: net r)
  have free: "wid x \<noteq> wid ?r \<and> fence_key x \<noteq> fence_key ?r" if "x \<in> set (host_rows ?b)" for x
    using that by (simp add: net)
  obtain a1 e b1 lb1 r1 acks where "snd (sendDurableWorkToPeer 5 ''t'' ''hub'' (wid ?r) ?a) = a1"
      "snd (handleSpoolTransfer True 6 (\<lambda>_. ''x'') ''sp'' [e] False ?b) = b1" "host_rows b1 = host_rows ?b @ [r1]" "wid r1 = wid ?r"
      "peer_link ''sp'' b1 = Some lb1" "outbox lb1 = outbox (?l ''sp'') @ [Spool_Transfer_Ack acks]"
      "host_rows (handleSpoolTransferAck acks a1) = filter (\<lambda>x. wid x \<noteq> wid ?r) (host_rows ?a)"
    using transfer_end_to_end [OF p free, of 5 True 6 "\<lambda>_. ''x''" False, unfolded net(3,4)] by blast
  then show ?thesis by (intro exI [of _ e] exI [of _ b1] exI [of _ lb1] exI [of _ acks]) (auto simp: net r)
qed

section \<open>A refused drain\<close>

lemma begin_each_rows:
  assumes "spool_ok rows" and "set rs \<subseteq> set rows" and "distinct (map wid rs)"
    and "\<And>r. r \<in> set rs \<Longrightarrow> claim_state r = Pending" and "\<And>n. tok n \<noteq> []"
  shows "map wid (snd (begin_each tok now n rs rows)) = map wid rs \<and>
    (\<forall>r \<in> set rs. \<exists>x \<in> set (fst (begin_each tok now n rs rows)). wid x = wid r \<and> claim_state x = Transferring)"
  using assms(1-4)
proof (induction rs arbitrary: n rows)
  case (Cons a rs)
  let ?rows = "fst (beginDurableWorkTransfer rows (wid a) (tok n) now)"
  have b: "snd (beginDurableWorkTransfer rows (wid a) (tok n) now) = Some (tok n)"
    using count_pending [OF Cons.prems(1), of "wid a"] Cons.prems(2,4) by (auto simp: beginDurableWorkTransfer_def)
  have ok: "spool_ok ?rows"
    using Cons.prems(1) by (simp add: beginDurableWorkTransfer_def begin_transfer.update_ok)
  have rest: "x \<in> set ?rows" if "x \<in> set rows" "wid x \<noteq> wid a" for x
    unfolding beginDurableWorkTransfer_def fst_conv using that by (intro update_where_miss) auto
  have sub: "set rs \<subseteq> set ?rows" using Cons.prems(2,3) rest by (auto intro!: rest) (metis image_eqI)
  have IH: "map wid (snd (begin_each tok now (Suc n) rs ?rows)) = map wid rs"
      "\<forall>r \<in> set rs. \<exists>x \<in> set (fst (begin_each tok now (Suc n) rs ?rows)). wid x = wid r \<and> claim_state x = Transferring"
    using Cons.IH [OF ok sub, of "Suc n"] Cons.prems(3,4) by auto
  have frame: "x \<in> set (fst (begin_each tok now m qs xs))" if "x \<in> set xs" "wid x \<notin> wid ` set qs" for x m qs xs
    using that
  proof (induction qs arbitrary: m xs)
    case (Cons q qs)
    have "x \<in> set (fst (beginDurableWorkTransfer xs (wid q) (tok m) now))"
      unfolding beginDurableWorkTransfer_def fst_conv using Cons.prems by (intro update_where_miss) auto
    with Cons show ?case by (simp add: case_prod_unfold Let_def)
  qed simp
  have "a\<lparr>claim_state := Transferring, claim_token := Some (tok n), claimed_at := Some now\<rparr> \<in> set ?rows"
    unfolding beginDurableWorkTransfer_def fst_conv using Cons.prems(2,4)
    by (intro update_where_hit [where f = "\<lambda>r. r\<lparr>claim_state := Transferring, claim_token := Some (tok n), claimed_at := Some now\<rparr>"])
      auto
  from frame [OF this, of rs "Suc n"] Cons.prems(3)
  have "\<exists>x \<in> set (fst (begin_each tok now (Suc n) rs ?rows)). wid x = wid a \<and> claim_state x = Transferring"
    by (intro bexI) auto
  with IH b assms(5) show ?case by (simp add: case_prod_unfold Let_def)
qed simp

lemma rollback_begun_other:
  "x \<in> set rows \<Longrightarrow> wid x \<notin> wid ` set rs \<Longrightarrow> x \<in> set (rollback_begun ids rs rows)"
proof (induction rs arbitrary: rows)
  case (Cons r rs)
  then have "x \<in> set (fst (rollbackUnsentDurableWorkTransfer rows (wid r) t))" for t
    by (auto simp: rollbackUnsentDurableWorkTransfer_def transfer_matches_def intro: update_where_miss)
  with Cons show ?case by (auto split: option.split)
qed simp

text \<open>A drain whose first batch is refused leaves the later batches stranded. All rows of the
  drain are begun before the first frame, but only those of the refused batch are rolled back:
  every pending row after the first hundred ends up transferring although the connection took
  no frame at all.\<close>

theorem refused_drain_strands:
  assumes "spool_ok (host_rows h)" and "peer_link p h = Some l" and "\<not> accepts l (attempts l)" and "capable h p"
    and "\<And>n. tok n \<noteq> []"
    and "filter (\<lambda>r. resolveSpoolNextHop h (target_site_id r) = Some p) (readTransferringDurableWork (host_rows h) None) = []"
    and "filter (\<lambda>r. resolveSpoolNextHop h (target_site_id r) = Some p)
           (readPendingPeerTargetedDurableWork (host_rows h) (own_site h) None) = pend"
    and "r \<in> set (drop 100 pend)" and "\<And>x. x \<in> set pend \<Longrightarrow> json_parse (payload x) \<noteq> None"
  shows "\<exists>x. x \<in> set (host_rows (snd (drainDurableWorkSpool tok now p False h))) \<and> wid x = wid r \<and>
           claim_state x = Transferring \<and> sent_to (snd (drainDurableWorkSpool tok now p False h)) p \<subseteq> sent_to h p"
proof -
  obtain rows1 begun where b: "begin_each tok now 0 pend (host_rows h) = (rows1, begun)"
    by (cases "begin_each tok now 0 pend (host_rows h)")
  have pend: "set pend \<subseteq> set (host_rows h)" "\<And>x. x \<in> set pend \<Longrightarrow> claim_state x = Pending"
    unfolding assms(7) [symmetric] by (auto simp: readPendingPeerTargetedDurableWork_def)
  have dist: "distinct (map wid pend)"
    using assms(1) unfolding assms(7) [symmetric] readPendingPeerTargetedDurableWork_def
    by (simp add: spool_ok_def distinct_map_filter)
  note br = begin_each_rows [where n = 0 and now = now and tok = tok, OF assms(1) pend(1) dist pend(2) assms(5), unfolded b fst_conv snd_conv]
  have r: "r \<in> set pend" using assms(8) by (rule in_set_dropD)
  with br obtain x where x: "x \<in> set rows1" "wid x = wid r" "claim_state x = Transferring" by blast
  have notin: "wid x \<notin> wid ` set (take 100 begun)"
  proof -
    have "map wid (take 100 begun) = take 100 (map wid pend)" using br by (simp add: take_map [symmetric])
    moreover have "wid r \<in> set (drop 100 (map wid pend))" using assms(8) by (simp add: drop_map)
    ultimately show ?thesis
      using set_take_disj_set_drop_if_distinct [OF dist, of 100 100] x(2) by (metis disjoint_iff image_set order_refl)
  qed
  have "begun \<noteq> []" using br r by auto
  have parse: "\<exists>es. transfer_entries qs = Some es" if "\<And>q. q \<in> set qs \<Longrightarrow> json_parse (payload q) \<noteq> None" for qs
    using that
  proof (induction qs)
    case (Cons q qs)
    then obtain es v where "transfer_entries qs = Some es" "json_parse (payload q) = Some v" by fastforce
    then show ?case by (simp add: to_transfer_def)
  qed simp
  have "json_parse (payload q) \<noteq> None" if "q \<in> set (take 100 begun)" for q
    using begin_each_begun [of q tok now 0 pend "host_rows h"] assms(9) in_set_takeD [OF that]
    by (auto simp: b as_transferring_def)
  from parse [OF this] obtain es where es: "transfer_entries (take 100 begun) = Some es" by blast
  let ?l = "l\<lparr>attempts := attempts l + 1\<rparr>"
  have send: "sendSpoolTransfer p (take 100 begun) (with_rows rows1 h) = (Some False, set_link p ?l (with_rows rows1 h))"
    using assms(2,3) es by (simp add: sendSpoolTransfer_def sendFrame_def)
  have drain: "drainDurableWorkSpool tok now p False h =
      (True, with_rows (rollback_begun (map wid begun) (take 100 begun) rows1) (set_link p ?l (with_rows rows1 h)))"
    using assms(2,4) \<open>begun \<noteq> []\<close> send
    by (simp add: drainDurableWorkSpool_def assms(6,7) b send_batches.simps set_link_def)
  have "set (outbox ?l) \<subseteq> sent_to h p" using peer_link_Some [OF assms(2)] by (auto simp: sent_to_def)
  then have "sent_to (set_link p ?l h) p \<subseteq> sent_to h p"
    unfolding sent_to_def set_link_def by (auto elim!: in_update_whereE)
  then show ?thesis
    using rollback_begun_other [OF x(1) notin, of "map wid begun"] x
    by (intro exI [of _ x]) (simp add: drain set_link_def with_rows_def sent_to_def)
qed

definition backlog :: spool where
  "backlog = map (\<lambda>n. fresh_row (example_work (replicate (Suc n) CHR ''a'') ''hub'') 0) [0..<101]"

lemma backlog_facts:
  shows "spool_ok backlog" and "length backlog = 101"
    and "\<And>r. r \<in> set backlog \<Longrightarrow> claim_state r = Pending \<and> target_site_id r = ''hub'' \<and> payload r = Json (JNum 1) \<and> created_at r = 0"
proof -
  have inj: "inj_on (\<lambda>n. replicate (Suc n) CHR ''a'') A" for A :: "nat set"
    by (rule inj_onI) (metis length_replicate nat.inject)
  have "map wid backlog = map (\<lambda>n. replicate (Suc n) CHR ''a'') [0..<101]"
      "map fence_key backlog = map (\<lambda>n. (''k'', replicate (Suc n) CHR ''a'')) [0..<101]"
    by (simp_all add: backlog_def fresh_row_def example_work_def fence_key_def)
  moreover have "distinct (map (\<lambda>n. replicate (Suc n) CHR ''a'') [0..<101])"
      "distinct (map (\<lambda>n. (''k'', replicate (Suc n) CHR ''a'')) [0..<101])"
    using inj by (auto simp: distinct_map inj_on_def simp del: replicate.simps)
  ultimately show "spool_ok backlog"
    by (simp add: spool_ok_def) (simp add: backlog_def list_all_iff fresh_row_ok)
  show "length backlog = 101" by (simp add: backlog_def)
  show "\<And>r. r \<in> set backlog \<Longrightarrow> claim_state r = Pending \<and> target_site_id r = ''hub'' \<and> payload r = Json (JNum 1) \<and> created_at r = 0"
    by (auto simp: backlog_def fresh_row_def example_work_def)
qed

theorem refused_drain_strands_witness:
  "let h = example_host False ''sp'' [''hub''] (\<lambda>_. False) backlog
   in \<exists>x. x \<in> set (host_rows (snd (drainDurableWorkSpool (\<lambda>n. ''t'') 5 ''hub'' False h))) \<and> claim_state x = Transferring"
proof -
  let ?h = "example_host False ''sp'' [''hub''] (\<lambda>_. False) backlog"
  let ?hop = "\<lambda>r. resolveSpoolNextHop ?h (target_site_id r) = Some ''hub''"
  let ?pend = "filter ?hop (readPendingPeerTargetedDurableWork (host_rows ?h) (own_site ?h) None)"
  note bl = backlog_facts
  have h: "host_rows ?h = backlog" "own_site ?h = ''sp''" "capable ?h ''hub''"
      "peer_link ''hub'' ?h = Some \<lparr>link_peer = ''hub'', outbox = [], attempts = 0, accepts = \<lambda>_. False\<rparr>"
      "resolveSpoolNextHop ?h t = Some ''hub''" for t
    by (simp_all add: example_host_def peer_link_def resolveSpoolNextHop_def)
  have "filter (\<lambda>r. claim_state r = Pending \<and> target_site_id r \<noteq> ''sp'' \<and> target_site_id r \<noteq> LOCAL_WORK_TARGET) backlog = backlog"
    using bl(3) by (auto simp: filter_id_conv LOCAL_WORK_TARGET_def)
  then have p: "set ?pend = set backlog" "length ?pend = 101"
    using bl(2) by (simp_all add: h readPendingPeerTargetedDurableWork_def)
  have "filter ?hop (readTransferringDurableWork (host_rows ?h) None) = []"
    using bl(3) by (auto simp: h readTransferringDurableWork_def filter_empty_conv order_by_def)
  moreover have "?pend ! 100 \<in> set (drop 100 ?pend)"
    using p(2) nth_mem [of 0 "drop 100 ?pend"] by simp
  moreover have "json_parse (payload x) \<noteq> None" if "x \<in> set ?pend" for x
    using bl(3) that unfolding p(1) by simp
  ultimately have "\<exists>x. x \<in> set (host_rows (snd (drainDurableWorkSpool (\<lambda>n. ''t'') 5 ''hub'' False ?h))) \<and>
      wid x = wid (?pend ! 100) \<and> claim_state x = Transferring \<and>
      sent_to (snd (drainDurableWorkSpool (\<lambda>n. ''t'') 5 ''hub'' False ?h)) ''hub'' \<subseteq> sent_to ?h ''hub''"
    using h bl(1) by (intro refused_drain_strands [OF _ h(4) _ h(3) _ _ refl]) simp_all
  then show ?thesis by (auto simp: Let_def)
qed

end
