(* ===== verification/Cron.thy ===== *)
theory Cron
  imports Hlc
begin

text \<open>
  The cron parser of \<open>packages/agent/src/task-resolution.ts\<close>: five fields, read in UTC, and the
  search for the next matching minute within four years. A \<open>Date\<close> is its milliseconds since
  the epoch; the UTC getters are the functions of the ECMAScript time algebra. Thrown errors are
  the left summand of the result. Numbers of any length are integers.
\<close>

section \<open>UTC dates\<close>

definition MS_PER_MINUTE :: int where "MS_PER_MINUTE = 60000"
definition MS_PER_DAY :: int where "MS_PER_DAY = 86400000"

definition day_of :: "int \<Rightarrow> int" where
  "day_of t = t div MS_PER_DAY"

definition day_from_year :: "int \<Rightarrow> int" where
  "day_from_year y = 365 * (y - 1970) + (y - 1969) div 4 - (y - 1901) div 100 + (y - 1601) div 400"

lemma div_step:
  fixes z k :: int
  assumes "0 < k"
  shows "(z + 1) div k = z div k + (if k dvd z + 1 then 1 else 0)"
proof -
  let ?q = "z div k" and ?r = "z mod k"
  have z: "z + 1 = k * ?q + (?r + 1)" by (simp add: algebra_simps)
  have r: "0 \<le> ?r" "?r < k" using assms by simp_all
  show ?thesis
  proof (cases "?r + 1 = k")
    case True
    then have "z + 1 = k * (?q + 1)" using z by (simp add: algebra_simps)
    with assms show ?thesis by simp
  next
    case False
    with r have s: "0 \<le> ?r + 1" "?r + 1 < k" by simp_all
    have "(z + 1) div k = ?q" using int_div_pos_eq [OF z s] .
    moreover have "(z + 1) mod k = ?r + 1" using int_mod_pos_eq [OF z s] .
    then have "\<not> k dvd z + 1" using r by (simp add: dvd_eq_mod_eq_0)
    ultimately show ?thesis by simp
  qed
qed

lemma day_from_year_step: "365 \<le> day_from_year (y + 1) - day_from_year y" "day_from_year (y + 1) - day_from_year y \<le> 366"
proof -
  have s: "(y + 1 - 1969) div 4 = (y - 1969) div 4 + (if 4 dvd y - 1968 then 1 else 0)"
      "(y + 1 - 1901) div 100 = (y - 1901) div 100 + (if 100 dvd y - 1900 then 1 else 0)"
      "(y + 1 - 1601) div 400 = (y - 1601) div 400 + (if 400 dvd y - 1600 then 1 else 0)"
    using div_step [of 4 "y - 1969"] div_step [of 100 "y - 1901"] div_step [of 400 "y - 1601"] by (simp_all add: algebra_simps)
  have "100 dvd y - 1900 \<Longrightarrow> 4 dvd y - 1968" "400 dvd y - 1600 \<Longrightarrow> 100 dvd y - 1900" by presburger+
  then show "365 \<le> day_from_year (y + 1) - day_from_year y" "day_from_year (y + 1) - day_from_year y \<le> 366"
    unfolding day_from_year_def s by auto
qed

lemma day_from_year_bounds:
  "0 \<le> n \<Longrightarrow> day_from_year (y + n) - day_from_year y \<le> 366 * n"
  "0 \<le> n \<Longrightarrow> 365 * n \<le> day_from_year (y + n) - day_from_year y"
proof -
  have up: "day_from_year (y + int k) - day_from_year y \<le> 366 * int k" for k
  proof (induction k)
    case (Suc k)
    then show ?case using day_from_year_step(2) [of "y + int k"] by (simp add: algebra_simps)
  qed simp
  have lo: "365 * int k \<le> day_from_year (y + int k) - day_from_year y" for k
  proof (induction k)
    case (Suc k)
    then show ?case using day_from_year_step(1) [of "y + int k"] by (simp add: algebra_simps)
  qed simp
  assume "0 \<le> n"
  then show "day_from_year (y + n) - day_from_year y \<le> 366 * n" "365 * n \<le> day_from_year (y + n) - day_from_year y"
    using up [of "nat n"] lo [of "nat n"] by simp_all
qed

text \<open>The largest year that starts no later than the day.\<close>

function year_search :: "int \<Rightarrow> int \<Rightarrow> int" where
  "year_search y d = (if day_from_year (y + 1) \<le> d then year_search (y + 1) d else y)"
  by pat_completeness auto
termination
proof (relation "measure (\<lambda>(y, d). nat (d - day_from_year y))", simp, goal_cases)
  case (1 y d)
  then show ?case using day_from_year_step(1) [of y] by simp
qed

declare year_search.simps [simp del]

definition year_of :: "int \<Rightarrow> int" where
  "year_of d = year_search (1970 + d div (if 0 \<le> d then 366 else 365) - 1) d"

definition leap :: "int \<Rightarrow> int" where
  "leap y = (if y mod 4 = 0 \<and> (y mod 100 \<noteq> 0 \<or> y mod 400 = 0) then 1 else 0)"

definition month_lengths :: "int \<Rightarrow> int list" where
  "month_lengths y = [31, 28 + leap y, 31, 30, 31, 30, 31, 31, 30, 31, 30, 31]"

fun month_day :: "int \<Rightarrow> int list \<Rightarrow> int \<Rightarrow> int \<times> int" where
  "month_day m (x # xs) n = (if n < x then (m, n + 1) else month_day (m + 1) xs (n - x))"
| "month_day m [] n = (m, n + 1)"

text \<open>Year, month from one, day of the month from one.\<close>

definition civil :: "int \<Rightarrow> int \<times> int \<times> int" where
  "civil d = (let y = year_of d; (m, n) = month_day 1 (month_lengths y) (d - day_from_year y) in (y, m, n))"

definition utc_minutes :: "int \<Rightarrow> int" where "utc_minutes t = t div MS_PER_MINUTE mod 60"
definition utc_hours :: "int \<Rightarrow> int" where "utc_hours t = t div (60 * MS_PER_MINUTE) mod 24"
definition utc_weekday :: "int \<Rightarrow> int" where "utc_weekday t = (day_of t + 4) mod 7"

text \<open>\<open>setUTCFullYear(getUTCFullYear() + n)\<close>: same month, day and time of day; a 29 February of a
  year without one becomes 1 March.\<close>

definition add_years :: "int \<Rightarrow> int \<Rightarrow> int" where
  "add_years n t =
     (let (y, m, d) = civil (day_of t)
      in (day_from_year (y + n) + sum_list (take (nat (m - 1)) (month_lengths (y + n))) + d - 1) * MS_PER_DAY +
         t mod MS_PER_DAY)"

section \<open>Fields\<close>

datatype cron_error =
    Field_Count nat
  | Bad_Number string
  | Bad_Step string
  | Bad_Range string
  | Out_Of_Range string
  | No_Time_Found

definition is_digit :: "char \<Rightarrow> bool" where
  "is_digit c \<longleftrightarrow> 48 \<le> (of_char c :: nat) \<and> (of_char c :: nat) \<le> 57"

definition decimal :: "string \<Rightarrow> int" where
  "decimal s = foldl (\<lambda>n c. 10 * n + (of_char c - 48)) 0 s"

definition parseCronNumber :: "string \<Rightarrow> cron_error + int" where
  "parseCronNumber token = (if token \<noteq> [] \<and> list_all is_digit token then Inr (decimal token) else Inl (Bad_Number token))"

fun split_on :: "char \<Rightarrow> string \<Rightarrow> string list" where
  "split_on s [] = [[]]"
| "split_on s (c # cs) =
     (if c = s then [] # split_on s cs
      else (case split_on s cs of [] \<Rightarrow> [[c]] | w # ws \<Rightarrow> (c # w) # ws))"

text \<open>\<open>for (i = start; i <= end; i += step) if (min <= i && i <= max) result.add(i)\<close>.\<close>

function range_loop :: "int \<Rightarrow> int \<Rightarrow> int \<Rightarrow> int \<Rightarrow> int \<Rightarrow> int list" where
  "range_loop i e step lo hi =
     (if i \<le> e \<and> 0 < step
      then (if lo \<le> i \<and> i \<le> hi then [i] else []) @ range_loop (i + step) e step lo hi
      else [])"
  by pat_completeness auto
termination by (relation "measure (\<lambda>(i, e, step, lo, hi). nat (e - i + 1))") auto

declare range_loop.simps [simp del]

text \<open>\<open>/^-?\d+$/\<close> and the number it denotes.\<close>

definition parse_step :: "string \<Rightarrow> cron_error + int" where
  "parse_step s =
     (case s of
        CHR ''-'' # ds \<Rightarrow> Inl (Bad_Step s)
      | _ \<Rightarrow> (case parseCronNumber s of
               Inl _ \<Rightarrow> Inl (Bad_Step s)
             | Inr n \<Rightarrow> if n \<le> 0 then Inl (Bad_Step s) else Inr n))"

definition step_field :: "string \<Rightarrow> int \<Rightarrow> int \<Rightarrow> cron_error + int list" where
  "step_field field lo hi =
     (case split_on CHR ''/'' field of
        rangeStr # stepStr # _ \<Rightarrow>
          (case parse_step stepStr of
             Inl e \<Rightarrow> Inl e
           | Inr stepNum \<Rightarrow>
               if rangeStr = ''*'' then Inr (range_loop lo hi stepNum lo hi)
               else (case split_on CHR ''-'' rangeStr of
                       [a] \<Rightarrow> (case parseCronNumber a of Inl e \<Rightarrow> Inl e
                              | Inr start \<Rightarrow> Inr (range_loop start hi stepNum lo hi))
                     | [a, b] \<Rightarrow>
                         (case parseCronNumber a of Inl e \<Rightarrow> Inl e
                          | Inr start \<Rightarrow>
                              if b = [] then Inr (range_loop start hi stepNum lo hi)
                              else (case parseCronNumber b of Inl e \<Rightarrow> Inl e
                                    | Inr end \<Rightarrow> Inr (range_loop start end stepNum lo hi)))
                     | _ \<Rightarrow> Inl (Bad_Range rangeStr)))
      | _ \<Rightarrow> Inr [])"

definition range_field :: "string \<Rightarrow> int \<Rightarrow> int \<Rightarrow> cron_error + int list" where
  "range_field field lo hi =
     (case split_on CHR ''-'' field of
        [a, b] \<Rightarrow>
          (case parseCronNumber a of Inl e \<Rightarrow> Inl e
           | Inr start \<Rightarrow>
               (case parseCronNumber b of Inl e \<Rightarrow> Inl e
                | Inr end \<Rightarrow> Inr (range_loop start end 1 lo hi)))
      | _ \<Rightarrow> Inl (Bad_Range field))"

definition single_field :: "string \<Rightarrow> int \<Rightarrow> int \<Rightarrow> cron_error + int list" where
  "single_field field lo hi =
     (case parseCronNumber field of
        Inl e \<Rightarrow> Inl e
      | Inr num \<Rightarrow> if num < lo \<or> hi < num then Inl (Out_Of_Range field) else Inr [num])"

text \<open>A field without a comma; a list of fields is the union of its parts, which have none.\<close>

definition field_part :: "string \<Rightarrow> int \<Rightarrow> int \<Rightarrow> cron_error + int list" where
  "field_part field lo hi =
     (if field = ''*'' then Inr [lo..hi]
      else if CHR ''/'' \<in> set field then step_field field lo hi
      else if CHR ''-'' \<in> set field then range_field field lo hi
      else single_field field lo hi)"

fun field_parts :: "string list \<Rightarrow> int \<Rightarrow> int \<Rightarrow> cron_error + int list" where
  "field_parts [] lo hi = Inr []"
| "field_parts (f # fs) lo hi =
     (case field_part f lo hi of
        Inl e \<Rightarrow> Inl e
      | Inr vs \<Rightarrow> (case field_parts fs lo hi of Inl e \<Rightarrow> Inl e | Inr ws \<Rightarrow> Inr (vs @ ws)))"

definition parseCronField :: "string \<Rightarrow> int \<Rightarrow> int \<Rightarrow> cron_error + int list" where
  "parseCronField field lo hi = field_parts (split_on CHR '','' field) lo hi"

section \<open>The next run\<close>

record cron_spec =
  cs_minute :: "int list"
  cs_hour :: "int list"
  cs_day :: "int list"
  cs_month :: "int list"
  cs_weekday :: "int list"
  day_wildcard :: bool
  weekday_wildcard :: bool

text \<open>\<open>trim().split(/\s+/)\<close>.\<close>

fun words_of :: "string \<Rightarrow> string \<Rightarrow> string list" where
  "words_of w [] = (if w = [] then [] else [w])"
| "words_of w (c # cs) =
     (if is_space c then (if w = [] then words_of [] cs else w # words_of [] cs) else words_of (w @ [c]) cs)"

definition cron_fields :: "string \<Rightarrow> string list" where
  "cron_fields s = (case words_of [] s of [] \<Rightarrow> [[]] | ws \<Rightarrow> ws)"

definition parse_spec :: "string \<Rightarrow> cron_error + cron_spec" where
  "parse_spec cronExpr =
     (case cron_fields cronExpr of
        [minuteStr, hourStr, dayStr, monthStr, weekdayStr] \<Rightarrow>
          (case parseCronField minuteStr 0 59 of Inl e \<Rightarrow> Inl e | Inr mi \<Rightarrow>
          (case parseCronField hourStr 0 23 of Inl e \<Rightarrow> Inl e | Inr ho \<Rightarrow>
          (case parseCronField dayStr 1 31 of Inl e \<Rightarrow> Inl e | Inr da \<Rightarrow>
          (case parseCronField monthStr 1 12 of Inl e \<Rightarrow> Inl e | Inr mo \<Rightarrow>
          (case parseCronField weekdayStr 0 6 of Inl e \<Rightarrow> Inl e | Inr wd \<Rightarrow>
             Inr \<lparr>cs_minute = mi, cs_hour = ho, cs_day = da, cs_month = mo, cs_weekday = wd,
                  day_wildcard = (dayStr = ''*''), weekday_wildcard = (weekdayStr = ''*'')\<rparr>)))))
      | fs \<Rightarrow> Inl (Field_Count (length fs)))"

definition cron_matches :: "cron_spec \<Rightarrow> int \<Rightarrow> bool" where
  "cron_matches s t \<longleftrightarrow>
     (let (y, mon, d) = civil (day_of t);
          dayMatch = (d \<in> set (cs_day s));
          weekdayMatch = (utc_weekday t \<in> set (cs_weekday s));
          calendarDayMatch = (if day_wildcard s then weekdayMatch
                              else if weekday_wildcard s then dayMatch
                              else dayMatch \<or> weekdayMatch)
      in utc_minutes t \<in> set (cs_minute s) \<and> utc_hours t \<in> set (cs_hour s) \<and>
         calendarDayMatch \<and> mon \<in> set (cs_month s))"

function cron_search :: "cron_spec \<Rightarrow> int \<Rightarrow> int \<Rightarrow> int option" where
  "cron_search s next maxDate =
     (if maxDate < next then None
      else if cron_matches s next then Some next
      else cron_search s (next + MS_PER_MINUTE) maxDate)"
  by pat_completeness auto
termination
  by (relation "measure (\<lambda>(s, n, m). nat (m - n + 1))") (auto simp: MS_PER_MINUTE_def)

declare cron_search.simps [simp del]

definition first_candidate :: "int \<Rightarrow> int" where
  "first_candidate from0 = (from0 div MS_PER_MINUTE + 1) * MS_PER_MINUTE"

definition parseCron :: "string \<Rightarrow> int \<Rightarrow> cron_error + int" where
  "parseCron cronExpr from0 =
     (case parse_spec cronExpr of
        Inl e \<Rightarrow> Inl e
      | Inr s \<Rightarrow>
          (case cron_search s (first_candidate from0) (add_years 4 from0) of
             None \<Rightarrow> Inl No_Time_Found
           | Some t \<Rightarrow> Inr t))"

definition computeNextRunAt :: "string \<Rightarrow> int \<Rightarrow> cron_error + int" where
  "computeNextRunAt cronExpr from0 = parseCron cronExpr from0"

section \<open>Facts about fields and dates\<close>

lemma range_loop_set:
  "0 < step \<Longrightarrow> v \<in> set (range_loop i e step lo hi) \<longleftrightarrow>
     i \<le> v \<and> v \<le> e \<and> lo \<le> v \<and> v \<le> hi \<and> (v - i) mod step = 0"
proof (induction i e step lo hi rule: range_loop.induct)
  case (1 i e step lo hi)
  show ?case
  proof (cases "i \<le> e")
    case False
    then show ?thesis by (subst range_loop.simps) auto
  next
    case True
    have "v - (i + step) = v - i - step" by simp
    then have m: "(v - (i + step)) mod step = (v - i) mod step" by (metis mod_diff_right_eq mod_self diff_zero)
    have "i + step \<le> v \<longleftrightarrow> i < v" if "(v - i) mod step = 0"
    proof -
      from that have "step dvd v - i" by presburger
      then show ?thesis using "1.prems" zdvd_imp_le [of step "v - i"] by auto
    qed
    with "1.IH" [OF _ "1.prems"] True "1.prems" m show ?thesis
      by (subst range_loop.simps) (auto simp: not_le)
  qed
qed

lemma range_loop_bounds: "v \<in> set (range_loop i e step lo hi) \<Longrightarrow> lo \<le> v \<and> v \<le> hi"
proof (cases "0 < step")
  case True
  then show "v \<in> set (range_loop i e step lo hi) \<Longrightarrow> lo \<le> v \<and> v \<le> hi" by (simp add: range_loop_set)
qed (simp add: range_loop.simps)

lemma field_part_bounds: "field_part f lo hi = Inr vs \<Longrightarrow> v \<in> set vs \<Longrightarrow> lo \<le> v \<and> v \<le> hi"
  by (auto simp: field_part_def step_field_def range_field_def single_field_def
      dest: range_loop_bounds split: if_splits sum.splits list.splits)

lemma field_parts_bounds: "field_parts fs lo hi = Inr vs \<Longrightarrow> v \<in> set vs \<Longrightarrow> lo \<le> v \<and> v \<le> hi"
  by (induction fs arbitrary: vs) (auto dest: field_part_bounds split: sum.splits)

lemma parseCronField_bounds: "parseCronField f lo hi = Inr vs \<Longrightarrow> v \<in> set vs \<Longrightarrow> lo \<le> v \<and> v \<le> hi"
  unfolding parseCronField_def by (rule field_parts_bounds)

lemma year_search_spec: "day_from_year y \<le> d \<Longrightarrow>
    day_from_year (year_search y d) \<le> d \<and> d < day_from_year (year_search y d + 1)"
proof (induction y d rule: year_search.induct)
  case (1 y d)
  then show ?case by (subst (1 2) year_search.simps) (auto simp: year_search.simps)
qed

lemma year_of_spec: "day_from_year (year_of d) \<le> d \<and> d < day_from_year (year_of d + 1)"
  unfolding year_of_def
proof (rule year_search_spec)
  show "day_from_year (1970 + d div (if 0 \<le> d then 366 else 365) - 1) \<le> d"
  proof (cases "0 \<le> d")
    case True
    let ?n = "d div 366"
    have n: "0 \<le> ?n" "366 * ?n \<le> d" using True by simp_all
    have "day_from_year (1970 + ?n - 1) \<le> day_from_year (1970 + ?n)"
      using day_from_year_step(1) [of "1970 + ?n - 1"] by simp
    also have "\<dots> \<le> d" using day_from_year_bounds(1) [of ?n 1970] n by (simp add: day_from_year_def)
    finally show ?thesis using True by simp
  next
    case False
    let ?n = "- (d div 365)"
    have n: "0 \<le> ?n" "365 * (d div 365) \<le> d" using False by simp_all
    have "day_from_year (1970 + d div 365 - 1) \<le> day_from_year (1970 + d div 365)"
      using day_from_year_step(1) [of "1970 + d div 365 - 1"] by simp
    also have "\<dots> \<le> d"
      using day_from_year_bounds(2) [of ?n "1970 + d div 365"] n by (simp add: day_from_year_def)
    finally show ?thesis using False by simp
  qed
qed

section \<open>The search\<close>

lemma cron_search_spec:
  "cron_search s nx maxDate = Some t \<longleftrightarrow>
     (\<exists>n. t = nx + int n * MS_PER_MINUTE \<and> t \<le> maxDate \<and> cron_matches s t \<and>
          (\<forall>m < n. \<not> cron_matches s (nx + int m * MS_PER_MINUTE)))"
proof (induction s nx maxDate rule: cron_search.induct)
  case (1 s nx maxDate)
  show ?case
  proof (cases "maxDate < nx \<or> cron_matches s nx")
    case True
    then show ?thesis
    proof
      assume "maxDate < nx"
      then show ?thesis by (subst cron_search.simps) (auto simp: MS_PER_MINUTE_def)
    next
      assume m: "cron_matches s nx"
      have "(\<exists>n. t = nx + int n * MS_PER_MINUTE \<and> t \<le> maxDate \<and> cron_matches s t \<and>
          (\<forall>k < n. \<not> cron_matches s (nx + int k * MS_PER_MINUTE))) \<longleftrightarrow> t = nx \<and> nx \<le> maxDate"
        using m by (auto intro!: exI [of _ 0]) (metis bot_nat_0.not_eq_extremum int_ops(1) mult_zero_left add.right_neutral)+
      with m show ?thesis by (subst cron_search.simps) auto
    qed
  next
    case False
    have shift: "nx + MS_PER_MINUTE + int n * MS_PER_MINUTE = nx + int (Suc n) * MS_PER_MINUTE" for n
      by (simp add: algebra_simps)
    have "cron_search s nx maxDate = Some t \<longleftrightarrow> cron_search s (nx + MS_PER_MINUTE) maxDate = Some t"
      using False by (subst cron_search.simps) simp
    also have "\<dots> \<longleftrightarrow> (\<exists>n. t = nx + int (Suc n) * MS_PER_MINUTE \<and> t \<le> maxDate \<and> cron_matches s t \<and>
          (\<forall>m < n. \<not> cron_matches s (nx + int (Suc m) * MS_PER_MINUTE)))"
      using "1.IH" False unfolding shift by simp
    also have "\<dots> \<longleftrightarrow> (\<exists>n. t = nx + int n * MS_PER_MINUTE \<and> t \<le> maxDate \<and> cron_matches s t \<and>
          (\<forall>m < n. \<not> cron_matches s (nx + int m * MS_PER_MINUTE)))" (is "?L \<longleftrightarrow> ?R")
    proof
      assume ?L
      then obtain n where "t = nx + int (Suc n) * MS_PER_MINUTE" "t \<le> maxDate" "cron_matches s t"
          "\<forall>m < n. \<not> cron_matches s (nx + int (Suc m) * MS_PER_MINUTE)" by blast
      with False show ?R by (intro exI [of _ "Suc n"]) (auto simp: less_Suc_eq_0_disj)
    next
      assume ?R
      then obtain n where n: "t = nx + int n * MS_PER_MINUTE" "t \<le> maxDate" "cron_matches s t"
          "\<forall>m < n. \<not> cron_matches s (nx + int m * MS_PER_MINUTE)" by blast
      with False obtain k where "n = Suc k" by (cases n) auto
      with n show ?L by (intro exI [of _ k]) auto
    qed
    finally show ?thesis .
  qed
qed

lemma minute_grid:
  "u mod MS_PER_MINUTE = 0 \<and> t < u \<longleftrightarrow> (\<exists>n. u = first_candidate t + int n * MS_PER_MINUTE)"
proof
  assume u: "u mod MS_PER_MINUTE = 0 \<and> t < u"
  then obtain q where q: "u = q * MS_PER_MINUTE" by (metis dvd_def dvd_eq_mod_eq_0 mult.commute)
  have "t div MS_PER_MINUTE < q"
  proof (rule ccontr)
    assume "\<not> t div MS_PER_MINUTE < q"
    then have "q * MS_PER_MINUTE \<le> t div MS_PER_MINUTE * MS_PER_MINUTE" by (simp add: MS_PER_MINUTE_def)
    also have "\<dots> \<le> t" by (simp add: MS_PER_MINUTE_def)
    finally show False using u q by simp
  qed
  then have "u = first_candidate t + int (nat (q - t div MS_PER_MINUTE - 1)) * MS_PER_MINUTE"
    by (simp add: q first_candidate_def algebra_simps)
  then show "\<exists>n. u = first_candidate t + int n * MS_PER_MINUTE" ..
next
  assume "\<exists>n. u = first_candidate t + int n * MS_PER_MINUTE"
  then obtain n where n: "u = (t div MS_PER_MINUTE + 1 + int n) * MS_PER_MINUTE"
    by (auto simp: first_candidate_def algebra_simps)
  have "t < (t div MS_PER_MINUTE + 1) * MS_PER_MINUTE" by (simp add: MS_PER_MINUTE_def)
  also have "\<dots> \<le> u" by (simp add: n MS_PER_MINUTE_def)
  finally show "u mod MS_PER_MINUTE = 0 \<and> t < u" by (simp add: n)
qed

lemma grid_less: "first_candidate t + int m * MS_PER_MINUTE < first_candidate t + int n * MS_PER_MINUTE \<longleftrightarrow> m < n"
  by (simp add: MS_PER_MINUTE_def)

text \<open>C16: The cron search returns exactly the first matching minute. For a specification that
  parses, the result is the least whole minute after the reference instant, and no later than
  four years after it, whose UTC fields match; in every other case an error is reported.\<close>

theorem computeNextRunAt_least:
  "computeNextRunAt cronExpr from0 = Inr t \<longleftrightarrow>
     (\<exists>s. parse_spec cronExpr = Inr s \<and> cron_matches s t \<and> from0 < t \<and> t mod MS_PER_MINUTE = 0 \<and>
          t \<le> add_years 4 from0 \<and>
          (\<forall>u. from0 < u \<and> u < t \<and> u mod MS_PER_MINUTE = 0 \<longrightarrow> \<not> cron_matches s u))"
proof (cases "parse_spec cronExpr")
  case (Inl e)
  then show ?thesis by (simp add: computeNextRunAt_def parseCron_def)
next
  case (Inr s)
  have "computeNextRunAt cronExpr from0 = Inr t \<longleftrightarrow> cron_search s (first_candidate from0) (add_years 4 from0) = Some t"
    using Inr by (simp add: computeNextRunAt_def parseCron_def split: option.split)
  also have "\<dots> \<longleftrightarrow> (\<exists>n. t = first_candidate from0 + int n * MS_PER_MINUTE \<and> t \<le> add_years 4 from0 \<and> cron_matches s t \<and>
      (\<forall>u. from0 < u \<and> u < t \<and> u mod MS_PER_MINUTE = 0 \<longrightarrow> \<not> cron_matches s u))"
  proof (unfold cron_search_spec, rule ex_cong1)
    fix n
    have "(\<forall>m < n. \<not> cron_matches s (first_candidate from0 + int m * MS_PER_MINUTE)) \<longleftrightarrow>
        (\<forall>u. from0 < u \<and> u < t \<and> u mod MS_PER_MINUTE = 0 \<longrightarrow> \<not> cron_matches s u)"
      if "t = first_candidate from0 + int n * MS_PER_MINUTE"
      using minute_grid [of _ from0] grid_less unfolding that by metis
    then show "(t = first_candidate from0 + int n * MS_PER_MINUTE \<and> t \<le> add_years 4 from0 \<and> cron_matches s t \<and>
        (\<forall>m < n. \<not> cron_matches s (first_candidate from0 + int m * MS_PER_MINUTE))) \<longleftrightarrow>
      (t = first_candidate from0 + int n * MS_PER_MINUTE \<and> t \<le> add_years 4 from0 \<and> cron_matches s t \<and>
        (\<forall>u. from0 < u \<and> u < t \<and> u mod MS_PER_MINUTE = 0 \<longrightarrow> \<not> cron_matches s u))"
      by (intro conj_cong refl)
  qed
  finally show ?thesis using Inr minute_grid [of t from0] by auto
qed

theorem computeNextRunAt_least_witness:
  "computeNextRunAt ''*/15 9-17 * * 1-5'' 32400000 = Inr 33300000 \<and>
   (case parse_spec ''*/15 9-17 * * 1-5'' of Inl e \<Rightarrow> False | Inr s \<Rightarrow> cron_matches s 33300000 \<and> \<not> cron_matches s 32460000)"
proof -
  have r: "computeNextRunAt ''*/15 9-17 * * 1-5'' 32400000 = Inr 33300000" by code_simp
  from r [unfolded computeNextRunAt_least] obtain s where s: "parse_spec ''*/15 9-17 * * 1-5'' = Inr s"
      "cron_matches s 33300000"
      "\<forall>u. 32400000 < u \<and> u < 33300000 \<and> u mod MS_PER_MINUTE = 0 \<longrightarrow> \<not> cron_matches s u" by blast
  have "\<not> cron_matches s 32460000" using s(3) by (simp add: MS_PER_MINUTE_def)
  with r s(1,2) show ?thesis by simp
qed

end
