(* ===== verification/Task_Resolution.thy ===== *)
theory Task_Resolution
  imports Cron Change_Log "HOL-Library.Word"
begin

unbundle bit_operations_syntax

text \<open>
  Which host runs a scheduled task: \<open>packages/agent/src/task-resolution.ts\<close> (firing keys,
  rendezvous hashing, dependencies, affinity, leases and the seeded system tasks) and the
  deterministic ids of \<open>packages/shared/src/uuid.ts\<close>. SHA-1 (an external library), JSON text
  parsing, the \<open>RegExp\<close> test and the parsing of timestamps are arguments. A string is the list
  of its UTF-8 bytes. Operations that may throw return \<open>None\<close> then.
\<close>

section \<open>Deterministic ids\<close>

type_synonym byte = "8 word"

definition BOUND_NAMESPACE :: string where
  "BOUND_NAMESPACE = ''a1b2c3d4-e5f6-7890-abcd-ef1234567890''"

definition hex2 :: "byte \<Rightarrow> string" where
  "hex2 b = [hex_char (unat b div 16), hex_char (unat b mod 16)]"

definition slice :: "nat \<Rightarrow> nat \<Rightarrow> 'a list \<Rightarrow> 'a list" where
  "slice a b xs = drop a (take b xs)"

definition bytesToUuid :: "byte list \<Rightarrow> string" where
  "bytesToUuid bytes =
     (let hex = concat (map hex2 bytes)
      in slice 0 8 hex @ ''-'' @ slice 8 12 hex @ ''-'' @ slice 12 16 hex @ ''-'' @ slice 16 20 hex @ ''-'' @
         slice 20 32 hex)"

definition encode :: "string \<Rightarrow> byte list" where
  "encode s = map of_char s"

definition deterministicUUID :: "(byte list \<Rightarrow> byte list) \<Rightarrow> string \<Rightarrow> string \<Rightarrow> string" where
  "deterministicUUID sha1 namespace name =
     (let digest = sha1 (encode namespace @ encode name);
          d6 = digest[6 := (digest ! 6 AND 0x0f) OR 0x50];
          d8 = d6[8 := (d6 ! 8 AND 0x3f) OR 0x80]
      in bytesToUuid d8)"

section \<open>Firings\<close>

record task =
  task_id :: string
  next_run_at :: "string option"
  depends_on :: "string option"
  require_success :: bool
  requires :: "string option"

definition falsy :: "string option \<Rightarrow> bool" where
  "falsy s \<longleftrightarrow> s = None \<or> s = Some []"

definition computeFiringKey :: "string \<Rightarrow> string option \<Rightarrow> string option" where
  "computeFiringKey taskId scheduledRunAt =
     (if falsy scheduledRunAt then None else Some (''firing:'' @ taskId @ '':'' @ the scheduledRunAt))"

record firing_wakeup_ids =
  wakeupMessageId :: string
  toolCallMessageId :: string
  toolResultMessageId :: string
  toolUseId :: string

text \<open>\<open>det\<close> is \<open>deterministicUUID\<close> in the namespace of the program.\<close>

definition deriveFiringWakeupIds :: "(string \<Rightarrow> string) \<Rightarrow> string \<Rightarrow> firing_wakeup_ids" where
  "deriveFiringWakeupIds det firingKey =
     \<lparr>wakeupMessageId = det (firingKey @ '':wakeup''),
      toolCallMessageId = det (firingKey @ '':toolcall''),
      toolResultMessageId = det (firingKey @ '':toolresult''),
      toolUseId = ''tooluse_'' @ take 22 (filter (\<lambda>c. c \<noteq> CHR ''-'') (det (firingKey @ '':tooluse'')))\<rparr>"

definition deriveFiringArtifactId :: "(string \<Rightarrow> string) \<Rightarrow> string \<Rightarrow> string \<Rightarrow> string" where
  "deriveFiringArtifactId det firingKey artifact = det (firingKey @ '':'' @ artifact)"

definition score :: "(string \<Rightarrow> string) \<Rightarrow> string \<Rightarrow> string \<Rightarrow> string" where
  "score det firingKey siteId = det (firingKey @ '':'' @ siteId)"

fun select_loop :: "(string \<Rightarrow> string) \<Rightarrow> string \<Rightarrow> string list \<Rightarrow> string option \<times> string \<Rightarrow> string option" where
  "select_loop det key [] w = fst w"
| "select_loop det key (s # ss) w =
     select_loop det key ss
       (case w of
          (None, _) \<Rightarrow> (Some s, score det key s)
        | (Some ws, wscore) \<Rightarrow>
            if wscore < score det key s \<or> (score det key s = wscore \<and> ws < s)
            then (Some s, score det key s) else w)"

definition selectFiringHost :: "(string \<Rightarrow> string) \<Rightarrow> string \<Rightarrow> string list \<Rightarrow> string option" where
  "selectFiringHost det firingKey candidates = select_loop det firingKey candidates (None, [])"

section \<open>Dependencies and affinity\<close>

text \<open>\<open>bind v\<close> is the SQL text value that the driver binds for a dependency id \<open>v\<close>; \<open>None\<close>:
  the driver refuses the value and the call throws.\<close>

fun dep_loop :: "(json \<Rightarrow> json option) \<Rightarrow> bool \<Rightarrow> row list \<Rightarrow> json list \<Rightarrow> bool option" where
  "dep_loop bind success tasks [] = Some True"
| "dep_loop bind success tasks (v # vs) =
     (case bind v of
        None \<Rightarrow> None
      | Some w \<Rightarrow>
          (case find (\<lambda>r. sql_eq (r ''id'') w) tasks of
             None \<Rightarrow> Some False
           | Some r \<Rightarrow>
               if success \<and> r ''status'' = JStr ''failed'' then Some False
               else if r ''status'' \<noteq> JStr ''completed'' then Some False
               else dep_loop bind success tasks vs))"

text \<open>What the functions take from their environment: JSON parsing, parameter binding, the
  \<open>RegExp\<close> test (its constructor throws on a malformed pattern) and the clock of a date text.\<close>

record task_env =
  parse :: "string \<Rightarrow> json option"
  bind_param :: "json \<Rightarrow> json option"
  regex_test :: "string \<Rightarrow> string \<Rightarrow> bool option"
  date_ms :: "string \<Rightarrow> int option"

definition isDependencySatisfied :: "task_env \<Rightarrow> row list \<Rightarrow> task \<Rightarrow> bool option" where
  "isDependencySatisfied env tasks t =
     (if falsy (depends_on t) then Some True
      else case parse env (the (depends_on t)) of
             None \<Rightarrow> dep_loop (bind_param env) (require_success t) tasks [JStr (the (depends_on t))]
           | Some (JArr ids) \<Rightarrow> dep_loop (bind_param env) (require_success t) tasks ids
           | Some _ \<Rightarrow> Some False)"

definition glob_pattern :: "string \<Rightarrow> string" where
  "glob_pattern hostReq = ''^'' @ concat (map (\<lambda>c. if c = CHR ''*'' then ''.*'' else [c]) hostReq) @ ''$''"

datatype verdict = Pass | Reject | Skip

definition host_check :: "task_env \<Rightarrow> json option \<Rightarrow> string \<Rightarrow> verdict" where
  "host_check env hostReq hostName =
     (case hostReq of
        Some (JStr h) \<Rightarrow>
          if CHR ''*'' \<in> set h
          then (case regex_test env (glob_pattern h) hostName of None \<Rightarrow> Skip | Some b \<Rightarrow> if b then Pass else Reject)
          else if h = hostName then Pass else Reject
      | Some (JArr hs) \<Rightarrow> if JStr hostName \<in> set hs then Pass else Reject
      | _ \<Rightarrow> Pass)"

definition affinity :: "task_env \<Rightarrow> task \<Rightarrow> string \<Rightarrow> string \<Rightarrow> bool" where
  "affinity env t hostName siteId =
     (if falsy (requires t) then True
      else case parse env (the (requires t)) of
             Some (JObj ob) \<Rightarrow>
               (case host_check env (obj_get ob ''host'') hostName of
                  Reject \<Rightarrow> False
                | Skip \<Rightarrow> True
                | Pass \<Rightarrow> (case obj_get ob ''site_id'' of Some (JStr s) \<Rightarrow> s = siteId | _ \<Rightarrow> True))
           | _ \<Rightarrow> True)"

definition canRunHere :: "task_env \<Rightarrow> row list \<Rightarrow> task \<Rightarrow> string \<Rightarrow> string \<Rightarrow> bool option" where
  "canRunHere env tasks t hostName siteId =
     (case isDependencySatisfied env tasks t of
        None \<Rightarrow> None
      | Some False \<Rightarrow> Some False
      | Some True \<Rightarrow> Some (affinity env t hostName siteId))"

section \<open>Dispatch\<close>

record host_row =
  h_site :: string
  h_name :: "string option"
  h_online :: "string option"
  h_modified :: "string option"
  h_deleted :: bool

definition listHostsWithLiveness :: "host_row list \<Rightarrow> host_row list" where
  "listHostsWithLiveness hosts = filter (\<lambda>r. \<not> h_deleted r) hosts"

definition FIRING_HOST_STALE_MS :: int where
  "FIRING_HOST_STALE_MS = 5 * 60 * 1000"

definition peer_name :: "host_row \<Rightarrow> string" where
  "peer_name r = (case h_name r of None \<Rightarrow> h_site r | Some n \<Rightarrow> n)"

text \<open>\<open>new Date(ts).getTime() < cutoff\<close> is false for an invalid date.\<close>

definition fresh_host :: "task_env \<Rightarrow> int \<Rightarrow> host_row \<Rightarrow> bool" where
  "fresh_host env cutoff r =
     (let ts = (case h_modified r of None \<Rightarrow> h_online r | Some m \<Rightarrow> Some m)
      in \<not> falsy ts \<and> (case date_ms env (the ts) of None \<Rightarrow> True | Some ms \<Rightarrow> cutoff \<le> ms))"

fun candidate_loop ::
  "(string \<Rightarrow> string \<Rightarrow> bool option) \<Rightarrow> (host_row \<Rightarrow> bool) \<Rightarrow> host_row list \<Rightarrow> string list \<Rightarrow> string list option" where
  "candidate_loop canRun live [] seen = Some seen"
| "candidate_loop canRun live (r # rs) seen =
     (if h_site r \<in> set seen \<or> \<not> live r then candidate_loop canRun live rs seen
      else case canRun (peer_name r) (h_site r) of
             None \<Rightarrow> None
           | Some False \<Rightarrow> candidate_loop canRun live rs seen
           | Some True \<Rightarrow> candidate_loop canRun live rs (seen @ [h_site r]))"

definition shouldDispatchHere ::
  "(string \<Rightarrow> string) \<Rightarrow> task_env \<Rightarrow> int \<Rightarrow> int \<Rightarrow>
     row list \<Rightarrow> host_row list \<Rightarrow> task \<Rightarrow> string \<Rightarrow> string \<Rightarrow> bool option" where
  "shouldDispatchHere det env now staleMs tasks hosts t hostName siteId =
     (case canRunHere env tasks t hostName siteId of
        None \<Rightarrow> None
      | Some False \<Rightarrow> Some False
      | Some True \<Rightarrow>
          (case computeFiringKey (task_id t) (next_run_at t) of
             None \<Rightarrow> Some True
           | Some firingKey \<Rightarrow>
               (case candidate_loop (canRunHere env tasks t) (fresh_host env (now - staleMs))
                       (listHostsWithLiveness hosts) [] of
                  None \<Rightarrow> None
                | Some seen \<Rightarrow>
                    (let candidates = (if siteId \<in> set seen then seen else seen @ [siteId])
                     in if length candidates \<le> 1 then Some True
                        else Some (selectFiringHost det firingKey candidates = Some siteId)))))"

section \<open>Leases\<close>

datatype lease_loss = Row_Missing | Row_Deleted | Claimed_By_Mismatch | Lease_Id_Mismatch | Status_Not_Running

text \<open>\<open>None\<close>: the lease is still held.\<close>

definition verifyLeaseStillHeld :: "row list \<Rightarrow> string \<Rightarrow> string \<Rightarrow> string \<Rightarrow> lease_loss option" where
  "verifyLeaseStillHeld tasks taskId expectedSiteId expectedLeaseId =
     (case find (\<lambda>r. sql_eq (r ''id'') (JStr taskId)) tasks of
        None \<Rightarrow> Some Row_Missing
      | Some r \<Rightarrow>
          if js_truthy (r ''deleted'') then Some Row_Deleted
          else if r ''claimed_by'' \<noteq> JStr expectedSiteId then Some Claimed_By_Mismatch
          else if r ''lease_id'' \<noteq> JStr expectedLeaseId then Some Lease_Id_Mismatch
          else if r ''status'' \<noteq> JStr ''running'' then Some Status_Not_Running
          else None)"

section \<open>Seeded system tasks\<close>

definition DEFAULT_HEARTBEAT_INTERVAL_MS :: int where
  "DEFAULT_HEARTBEAT_INTERVAL_MS = 1800000"

definition DEFAULT_CONSOLIDATION_INTERVAL_MS :: int where
  "DEFAULT_CONSOLIDATION_INTERVAL_MS = 14400000"

text \<open>\<open>Math.ceil(now / interval) * interval\<close>.\<close>

definition next_boundary :: "int \<Rightarrow> int \<Rightarrow> int" where
  "next_boundary intervalMs now = - ((- now) div intervalMs) * intervalMs"

definition seeded_row :: "string \<Rightarrow> string \<Rightarrow> string \<Rightarrow> string \<Rightarrow> string \<Rightarrow> jobject" where
  "seeded_row i taskType triggerSpec now nextRunAt =
     [(''id'', JStr i), (''type'', JStr taskType), (''status'', JStr ''pending''),
      (''trigger_spec'', JStr triggerSpec), (''payload'', JNull), (''created_at'', JStr now),
      (''created_by'', JStr ''system''), (''thread_id'', JNull), (''origin_thread_id'', JNull),
      (''claimed_by'', JNull), (''claimed_at'', JNull), (''lease_id'', JNull), (''next_run_at'', JStr nextRunAt),
      (''last_run_at'', JNull), (''run_count'', JNum 0), (''max_runs'', JNull), (''requires'', JNull),
      (''model_hint'', JNull), (''no_history'', JNum 1), (''inject_mode'', JStr ''status''),
      (''depends_on'', JNull), (''require_success'', JNum 0), (''alert_threshold'', JNum 5),
      (''consecutive_failures'', JNum 0), (''event_depth'', JNum 0), (''no_quiescence'', JNum 0),
      (''system_prompt_addition'', JNull), (''heartbeat_at'', JNull), (''result'', JNull), (''error'', JNull),
      (''modified_at'', JStr now), (''deleted'', JNum 0)]"

text \<open>\<open>UPDATE tasks SET no_history = 1 WHERE type = ? AND no_history = 0\<close>.\<close>

definition clear_history_flag :: "string \<Rightarrow> (string \<Rightarrow> row list) \<Rightarrow> (string \<Rightarrow> row list) option" where
  "clear_history_flag taskType tbs =
     Some (tbs(''tasks'' := update_where (\<lambda>r. r ''type'' = JStr taskType \<and> r ''no_history'' = JNum 0)
                              (\<lambda>r. r(''no_history'' := JNum 1)) (tbs ''tasks'')))"

text \<open>\<open>toISOString\<close> renders a time in milliseconds; \<open>stringify\<close> is \<open>JSON.stringify\<close>.\<close>

definition seed_task ::
  "schema \<Rightarrow> bus \<Rightarrow> (string \<Rightarrow> string) \<Rightarrow> (json \<Rightarrow> string) \<Rightarrow> (int \<Rightarrow> string) \<Rightarrow> string \<Rightarrow> int \<Rightarrow> int \<Rightarrow> string \<Rightarrow> unit action" where
  "seed_task s bus det stringify toISOString taskType intervalMs now siteId st =
     (let i = det taskType;
          nextRunAt = toISOString (next_boundary intervalMs now);
          triggerSpec = stringify (JObj [(''type'', JStr taskType), (''interval_ms'', JNum (of_int intervalMs))]);
          migrate = dangerouslyExecuteRawWrite (clear_history_flag taskType) ''startup migration''
      in case select_pk ''id'' (JStr i) (tables st ''tasks'') of
           Some _ \<Rightarrow> migrate st
         | None \<Rightarrow>
             and_then (insertRow s bus ''tasks'' (seeded_row i taskType triggerSpec (toISOString now) nextRunAt) siteId)
               (\<lambda>_. migrate) st)"

definition seedHeartbeat ::
  "schema \<Rightarrow> bus \<Rightarrow> (string \<Rightarrow> string) \<Rightarrow> (json \<Rightarrow> string) \<Rightarrow> (int \<Rightarrow> string) \<Rightarrow> int \<Rightarrow> string \<Rightarrow> unit action" where
  "seedHeartbeat s bus det stringify toISOString now siteId =
     seed_task s bus det stringify toISOString ''heartbeat'' DEFAULT_HEARTBEAT_INTERVAL_MS now siteId"

definition seedConsolidation ::
  "schema \<Rightarrow> bus \<Rightarrow> (string \<Rightarrow> string) \<Rightarrow> (json \<Rightarrow> string) \<Rightarrow> (int \<Rightarrow> string) \<Rightarrow> int \<Rightarrow> string \<Rightarrow> unit action" where
  "seedConsolidation s bus det stringify toISOString now siteId =
     seed_task s bus det stringify toISOString ''consolidation'' DEFAULT_CONSOLIDATION_INTERVAL_MS now siteId"

section \<open>Rendezvous selection\<close>

text \<open>The weight of a candidate: its score, then its site id, compared lexicographically.\<close>

definition outweighs :: "(string \<Rightarrow> string) \<Rightarrow> string \<Rightarrow> string \<Rightarrow> string \<Rightarrow> bool" where
  "outweighs det key a b \<longleftrightarrow>
     score det key b < score det key a \<or> (score det key a = score det key b \<and> b \<le> a)"

lemma outweighs_refl [simp]: "outweighs det key a a"
  by (simp add: outweighs_def)

lemma outweighs_trans: "outweighs det key a b \<Longrightarrow> outweighs det key b c \<Longrightarrow> outweighs det key a c"
  by (auto simp: outweighs_def)

lemma outweighs_antisym: "outweighs det key a b \<Longrightarrow> outweighs det key b a \<Longrightarrow> a = b"
  by (auto simp: outweighs_def)

lemma outweighs_total: "outweighs det key a b \<or> outweighs det key b a"
  by (auto simp: outweighs_def)

lemma select_loop_max:
  "\<exists>w. select_loop det key ss (Some c, score det key c) = Some w \<and> w \<in> insert c (set ss) \<and>
       (\<forall>s\<in>insert c (set ss). outweighs det key w s)"
proof (induction ss arbitrary: c)
  case Nil
  then show ?case by simp
next
  case (Cons s ss)
  define d where "d = (if score det key c < score det key s \<or> (score det key s = score det key c \<and> c < s) then s else c)"
  have step: "select_loop det key (s # ss) (Some c, score det key c) = select_loop det key ss (Some d, score det key d)"
    by (simp add: d_def)
  have d: "d \<in> {c, s}" "outweighs det key d c" "outweighs det key d s"
    by (auto simp: d_def outweighs_def)
  obtain w where w: "select_loop det key ss (Some d, score det key d) = Some w" "w \<in> insert d (set ss)"
      "\<forall>x\<in>insert d (set ss). outweighs det key w x"
    using Cons.IH [of d] by blast
  have "outweighs det key w c" "outweighs det key w s"
    using w(3) d(2,3) outweighs_trans by blast+
  then show ?case using w d(1) step by auto
qed

lemma selectFiringHost_max:
  "(case selectFiringHost det key cs of
      None \<Rightarrow> cs = []
    | Some w \<Rightarrow> w \<in> set cs \<and> (\<forall>s\<in>set cs. outweighs det key w s))"
proof (cases cs)
  case Nil
  then show ?thesis by (simp add: selectFiringHost_def)
next
  case (Cons c ss)
  then show ?thesis using select_loop_max [of det key ss c] by (auto simp: selectFiringHost_def)
qed

lemma selectFiringHost_iff:
  "selectFiringHost det key cs = Some w \<longleftrightarrow> w \<in> set cs \<and> (\<forall>s\<in>set cs. outweighs det key w s)"
proof (cases "selectFiringHost det key cs")
  case None
  then show ?thesis using selectFiringHost_max [where det = det and key = key and cs = cs] by auto
next
  case (Some a)
  then have a: "a \<in> set cs" "\<forall>s\<in>set cs. outweighs det key a s"
    using selectFiringHost_max [where det = det and key = key and cs = cs] by auto
  then have "w \<in> set cs \<Longrightarrow> \<forall>s\<in>set cs. outweighs det key w s \<Longrightarrow> a = w"
    by (auto intro: outweighs_antisym)
  then show ?thesis using Some a by auto
qed

lemma selectFiringHost_total: "cs \<noteq> [] \<Longrightarrow> \<exists>w. selectFiringHost det key cs = Some w"
  using selectFiringHost_max [where det = det and key = key and cs = cs] by (cases "selectFiringHost det key cs") auto

section \<open>Candidates\<close>

lemma candidate_loop_total:
  assumes "\<forall>n s. canRun n s \<noteq> None"
  shows "\<exists>seen'. candidate_loop canRun live rs seen = Some seen'"
proof (induction rs arbitrary: seen)
  case (Cons r rs)
  obtain b where "canRun (peer_name r) (h_site r) = Some b" using assms by blast
  then show ?case using Cons.IH by (cases b) auto
qed simp

lemma candidate_loop_set:
  assumes "candidate_loop canRun live rs seen = Some seen'"
    and "distinct (map h_site rs)" and "set seen \<inter> h_site ` set rs = {}"
  shows "set seen' = set seen \<union> h_site ` {r \<in> set rs. live r \<and> canRun (peer_name r) (h_site r) = Some True}"
  using assms
proof (induction rs arbitrary: seen)
  case Nil
  then show ?case by simp
next
  case (Cons r rs)
  have new: "h_site r \<notin> set seen" and fresh: "h_site r \<notin> h_site ` set rs"
    using Cons.prems by auto
  show ?case
  proof (cases "live r \<and> canRun (peer_name r) (h_site r) = Some True")
    case True
    then have "candidate_loop canRun live rs (seen @ [h_site r]) = Some seen'"
      using Cons.prems(1) new by simp
    from Cons.IH [OF this] show ?thesis using Cons.prems(2,3) fresh True by auto
  next
    case False
    then have "candidate_loop canRun live rs seen = Some seen'"
      using Cons.prems(1) new by (auto split: option.splits bool.splits if_splits)
    from Cons.IH [OF this] show ?thesis using Cons.prems(2,3) False by auto
  qed
qed

lemma canRunHere_defined:
  "isDependencySatisfied env tasks t \<noteq> None \<Longrightarrow> canRunHere env tasks t n s \<noteq> None"
  by (auto simp: canRunHere_def split: option.splits bool.splits)

definition eligible_hosts :: "task_env \<Rightarrow> int \<Rightarrow> int \<Rightarrow> row list \<Rightarrow> host_row list \<Rightarrow> task \<Rightarrow> host_row set" where
  "eligible_hosts env now staleMs tasks hosts t =
     {r \<in> set hosts. \<not> h_deleted r \<and> fresh_host env (now - staleMs) r \<and>
                     canRunHere env tasks t (peer_name r) (h_site r) = Some True}"

lemma shouldDispatchHere_listed:
  assumes dep: "isDependencySatisfied env tasks t \<noteq> None"
    and pk: "distinct (map h_site hosts)"
    and key: "computeFiringKey (task_id t) (next_run_at t) = Some key"
    and r: "r \<in> eligible_hosts env now staleMs tasks hosts t"
  shows "shouldDispatchHere det env now staleMs tasks hosts t (peer_name r) (h_site r) =
           Some (\<forall>s\<in>h_site ` eligible_hosts env now staleMs tasks hosts t. outweighs det key (h_site r) s)"
proof -
  let ?loop = "candidate_loop (canRunHere env tasks t) (fresh_host env (now - staleMs)) (listHostsWithLiveness hosts) []"
  obtain seen where seen: "?loop = Some seen"
    using candidate_loop_total canRunHere_defined [OF dep] by metis
  have "distinct (map h_site (listHostsWithLiveness hosts))"
    using pk by (simp add: listHostsWithLiveness_def distinct_map_filter)
  from candidate_loop_set [OF seen this]
  have set_seen: "set seen = h_site ` eligible_hosts env now staleMs tasks hosts t"
    by (auto simp: eligible_hosts_def listHostsWithLiveness_def)
  have mem: "h_site r \<in> set seen" using r set_seen by blast
  have win: "selectFiringHost det key seen = Some (h_site r) \<longleftrightarrow> (\<forall>s\<in>set seen. outweighs det key (h_site r) s)"
    using mem by (simp add: selectFiringHost_iff)
  have "length seen \<le> 1 \<Longrightarrow> (\<forall>s\<in>set seen. outweighs det key (h_site r) s)"
    using mem by (cases seen) auto
  moreover have "canRunHere env tasks t (peer_name r) (h_site r) = Some True"
    using r by (simp add: eligible_hosts_def)
  ultimately show ?thesis
    using key seen mem win set_seen by (simp add: shouldDispatchHere_def Let_def)
qed

text \<open>C3: Exactly one dispatcher. For a task with a scheduled instant, all hosts that share a view of the
  \<open>hosts\<close> and \<open>tasks\<close> tables agree: among the live hosts that the task's dependencies and
  affinity admit there is exactly one for which \<open>shouldDispatchHere\<close> answers yes, whatever
  the scores are (equal scores included) and in whatever order the table is read; every other admitted
  host is told no.\<close>

theorem firing_unique_dispatcher:
  assumes "isDependencySatisfied env tasks t \<noteq> None"
    and "distinct (map h_site hosts)"
    and "computeFiringKey (task_id t) (next_run_at t) \<noteq> None"
    and "eligible_hosts env now staleMs tasks hosts t \<noteq> {}"
  shows "\<exists>w\<in>h_site ` eligible_hosts env now staleMs tasks hosts t.
           \<forall>r\<in>eligible_hosts env now staleMs tasks hosts t.
             shouldDispatchHere det env now staleMs tasks hosts t (peer_name r) (h_site r) = Some (h_site r = w)"
proof -
  let ?E = "eligible_hosts env now staleMs tasks hosts t"
  obtain key where key: "computeFiringKey (task_id t) (next_run_at t) = Some key" using assms(3) by blast
  have "finite (h_site ` ?E)" by (simp add: eligible_hosts_def)
  then obtain cs where cs: "set cs = h_site ` ?E" using finite_list by metis
  then have "cs \<noteq> []" using assms(4) by auto
  then obtain w where w: "selectFiringHost det key cs = Some w" using selectFiringHost_total by blast
  have "(\<forall>s\<in>h_site ` ?E. outweighs det key (h_site r) s) \<longleftrightarrow> h_site r = w" if "r \<in> ?E" for r
  proof -
    have w': "w \<in> h_site ` ?E" "\<forall>s\<in>h_site ` ?E. outweighs det key w s"
      using w cs by (auto simp: selectFiringHost_iff)
    have "outweighs det key w (h_site r)" using w'(2) that by blast
    then show ?thesis using w' outweighs_antisym [of det key "h_site r" w] by blast
  qed
  then have "shouldDispatchHere det env now staleMs tasks hosts t (peer_name r) (h_site r) = Some (h_site r = w)"
    if "r \<in> ?E" for r
    using shouldDispatchHere_listed [OF assms(1,2) key that] that by simp
  moreover have "w \<in> h_site ` ?E" using w cs unfolding selectFiringHost_iff by blast
  ultimately show ?thesis by blast
qed

definition demo_env :: task_env where
  "demo_env = \<lparr>parse = (\<lambda>_. None), bind_param = Some, regex_test = (\<lambda>_ _. None), date_ms = (\<lambda>s. Some (int (length s)))\<rparr>"

definition demo_hosts :: "host_row list" where
  "demo_hosts =
     [\<lparr>h_site = ''s1'', h_name = Some ''one'', h_online = None, h_modified = Some ''1234'', h_deleted = False\<rparr>,
      \<lparr>h_site = ''s2'', h_name = None, h_online = Some ''123'', h_modified = None, h_deleted = False\<rparr>,
      \<lparr>h_site = ''s3'', h_name = None, h_online = None, h_modified = Some ''1'', h_deleted = False\<rparr>]"

definition demo_task :: task where
  "demo_task = \<lparr>task_id = ''t'', next_run_at = Some ''noon'', depends_on = None, require_success = False, requires = None\<rparr>"

theorem firing_unique_dispatcher_witness:
  "\<exists>w\<in>h_site ` eligible_hosts demo_env 5 2 [] demo_hosts demo_task.
     \<forall>r\<in>eligible_hosts demo_env 5 2 [] demo_hosts demo_task.
       shouldDispatchHere id demo_env 5 2 [] demo_hosts demo_task (peer_name r) (h_site r) = Some (h_site r = w)"
proof (rule firing_unique_dispatcher)
  show "isDependencySatisfied demo_env [] demo_task \<noteq> None" by code_simp
  show "distinct (map h_site demo_hosts)" by code_simp
  show "computeFiringKey (task_id demo_task) (next_run_at demo_task) \<noteq> None" by code_simp
  have "hd demo_hosts \<in> eligible_hosts demo_env 5 2 [] demo_hosts demo_task"
    by (simp add: eligible_hosts_def demo_env_def demo_hosts_def demo_task_def fresh_host_def canRunHere_def
        isDependencySatisfied_def falsy_def affinity_def)
  then show "eligible_hosts demo_env 5 2 [] demo_hosts demo_task \<noteq> {}" by blast
qed

text \<open>Stability under churn (highest random weight). When candidates leave, or are listed in
  another order or repeatedly, a winner that is still a candidate stays the winner: only the firings
  of the departed host move.\<close>

theorem rendezvous_stable:
  assumes "selectFiringHost det key cs = Some w" and "set cs' \<subseteq> set cs" and "w \<in> set cs'"
  shows "selectFiringHost det key cs' = Some w"
  using assms unfolding selectFiringHost_iff by blast

theorem rendezvous_stable_witness:
  "selectFiringHost id ''k'' [''s2'', ''s1''] = Some ''s2''"
proof (rule rendezvous_stable)
  show "selectFiringHost id ''k'' [''s1'', ''s2'', ''s0''] = Some ''s2''" by code_simp
qed auto

section \<open>Shape of a deterministic id\<close>

lemma length_hex2 [simp]: "length (hex2 b) = 2"
  by (simp add: hex2_def)

lemma length_concat_hex2 [simp]: "length (concat (map hex2 bs)) = 2 * length bs"
  by (induction bs) auto

lemma concat_hex2_nth:
  "i < length bs \<Longrightarrow> concat (map hex2 bs) ! (2 * i) = hex_char (unat (bs ! i) div 16)"
proof (induction bs arbitrary: i)
  case (Cons b bs)
  then show ?case by (cases i) (auto simp: hex2_def)
qed simp

lemma high_nibble: "unat (b::byte) div 16 = unat (drop_bit 4 b)"
  by (simp add: drop_bit_eq_div unat_div_distrib)

lemma byte_version: "drop_bit 4 (((b::byte) AND 0x0f) OR 0x50) = 5"
  by (rule bit_word_eqI) (auto simp: bit_simps numeral_eq_Suc less_Suc_eq)

lemma byte_variant: "drop_bit 2 (drop_bit 4 (((b::byte) AND 0x3f) OR 0x80)) = 2"
  by (rule bit_word_eqI) (auto simp: bit_simps numeral_eq_Suc less_Suc_eq)

lemma uuid_nth:
  assumes "length bs = 20"
  shows "length (bytesToUuid bs) = 36"
    and "bytesToUuid bs ! 14 = hex_char (unat (bs ! 6) div 16)"
    and "bytesToUuid bs ! 19 = hex_char (unat (bs ! 8) div 16)"
  using assms concat_hex2_nth [of 6 bs] concat_hex2_nth [of 8 bs]
  by (simp_all add: bytesToUuid_def slice_def Let_def nth_append)

text \<open>A deterministic id is a version 5 UUID: for a hash with a 20-byte digest it has 36
  characters, the version digit is \<open>5\<close> and the variant digit is one of \<open>8\<close>, \<open>9\<close>, \<open>a\<close>, \<open>b\<close>,
  whatever the digest is.\<close>

theorem deterministicUUID_v5:
  assumes "\<forall>x. length (sha1 x) = 20"
  shows "length (deterministicUUID sha1 ns name) = 36 \<and>
         deterministicUUID sha1 ns name ! 14 = CHR ''5'' \<and>
         deterministicUUID sha1 ns name ! 19 \<in> set ''89ab''"
proof -
  define d where "d = sha1 (encode ns @ encode name)"
  define e where "e = d[6 := (d ! 6 AND 0x0f) OR 0x50, 8 := (d ! 8 AND 0x3f) OR 0x80]"
  have len: "length e = 20" and e6: "e ! 6 = (d ! 6 AND 0x0f) OR 0x50" and e8: "e ! 8 = (d ! 8 AND 0x3f) OR 0x80"
    using assms by (simp_all add: e_def d_def)
  have uuid: "deterministicUUID sha1 ns name = bytesToUuid e"
    by (simp add: deterministicUUID_def Let_def d_def e_def)
  have "unat (drop_bit 4 (e ! 8)) div 4 = 2"
    using arg_cong [OF byte_variant [of "d ! 8"], of unat]
    by (simp add: e8 drop_bit_eq_div unat_div_distrib)
  then have "unat (e ! 8) div 16 \<in> {8, 9, 10, 11}" unfolding high_nibble by auto
  moreover have "unat (e ! 6) div 16 = 5" unfolding high_nibble e6 byte_version by simp
  ultimately show ?thesis using uuid_nth [OF len] by (auto simp: uuid hex_char_def)
qed

theorem deterministicUUID_v5_witness:
  "deterministicUUID (\<lambda>_. replicate 20 0xff) BOUND_NAMESPACE ''heartbeat'' ! 14 = CHR ''5''"
  using deterministicUUID_v5 [of "\<lambda>_. replicate 20 0xff" BOUND_NAMESPACE "''heartbeat''"] by simp

section \<open>Boundary of a cadence\<close>

lemma next_boundary_least:
  assumes "0 < i"
  shows "now \<le> next_boundary i now" and "next_boundary i now < now + i" and "i dvd next_boundary i now"
proof -
  have "(- now) div i * i + (- now) mod i = - now" by simp
  moreover have "0 \<le> (- now) mod i" "(- now) mod i < i" using assms by auto
  moreover have "next_boundary i now = - ((- now) div i * i)" by (simp add: next_boundary_def)
  ultimately show "now \<le> next_boundary i now" "next_boundary i now < now + i" by linarith+
  show "i dvd next_boundary i now" by (simp add: next_boundary_def)
qed

section \<open>Seeding is idempotent\<close>

lemma insertRow_present:
  assumes "insertRow s bus t rd site st = (Inr h, st')"
    and "obj_get rd (getPkColumn t) = Some (JStr i)" and "map_of rd (getPkColumn t) = Some (JStr i)"
    and "bind_value s t (getPkColumn t) (JStr i) = Some (JStr i)"
  shows "\<exists>r\<in>set (tables st' t). has_id t i r"
proof -
  have "commit_and_emit bus t site (insert_body s t rd site) st = (Inr h, st')"
    using assms(1) by (auto simp: insertRow_def action_defs validate_columns_run split: if_splits option.splits)
  then obtain st1 where "insert_body s t rd site st = (Inr h, st1)" and t1: "tables st' = tables st1"
    by (rule ins.committed)
  then show ?thesis
  proof (cases rule: insert_bodyE)
    case (logged h' e rows' n j)
    from logged(3) show ?thesis
    proof (cases rule: sql_insertE)
      case (new bound)
      have "map_of bound (getPkColumn t) = Some (JStr i)"
        using bind_all_lookup [OF new(1), of "getPkColumn t"] assms(3,4) by simp
      then have "has_id t i (fresh s t bound)" by (simp add: has_id_def fresh_def row_with_def sql_eq_def)
      then show ?thesis using new(3) logged(4) t1 by simp
    qed auto
  qed auto
qed

lemma update_where_idem:
  "(\<And>r. \<not> p (f r)) \<Longrightarrow> update_where p f (update_where p f rows) = update_where p f rows"
  by (auto intro!: update_where_none elim!: in_update_whereE)

lemma update_where_keeps:
  "(\<And>r. Q r \<Longrightarrow> Q (f r)) \<Longrightarrow> \<exists>r\<in>set rows. Q r \<Longrightarrow> \<exists>r\<in>set (update_where p f rows). Q r"
  by (induction rows) (auto simp: update_where_def)

lemma clear_history_flag_idem:
  "clear_history_flag ty tbs = Some tbs' \<Longrightarrow> clear_history_flag ty tbs' = Some tbs'"
  by (auto simp: clear_history_flag_def update_where_idem)

lemma clear_history_flag_keeps:
  assumes "clear_history_flag ty tbs = Some tbs'" and "\<exists>r\<in>set (tbs ''tasks''). sql_eq (r ''id'') v"
  shows "\<exists>r\<in>set (tbs' ''tasks''). sql_eq (r ''id'') v"
  using assms(1) update_where_keeps [OF _ assms(2)] by (auto simp: clear_history_flag_def)

text \<open>A system task is seeded once. After a seeding that succeeded, seeding again at any later
  time succeeds and changes nothing: no second row, no log entry, no event.\<close>

theorem seed_idempotent:
  assumes "seed_task s bus det stringify toISOString taskType intervalMs now siteId st = (Inr (), st')"
    and "\<forall>i. bind_value s ''tasks'' ''id'' (JStr i) = Some (JStr i)"
  shows "seed_task s bus det stringify toISOString taskType intervalMs now' siteId st' = (Inr (), st')"
proof -
  let ?has = "\<lambda>tbs. \<exists>r\<in>set (tbs ''tasks''). sql_eq (r ''id'') (JStr (det taskType))"
  let ?mig = "dangerouslyExecuteRawWrite (clear_history_flag taskType) ''startup migration''"
  have pk: "getPkColumn ''tasks'' = ''id''" by (simp add: getPkColumn_def)
  obtain st1 where st1: "?mig st1 = (Inr (), st')" "?has (tables st1)"
  proof (cases "select_pk ''id'' (JStr (det taskType)) (tables st ''tasks'')")
    case (Some r)
    then show ?thesis using assms(1) that [of st] by (auto simp: seed_task_def Let_def dest: select_pk_Some)
  next
    case None
    then obtain h st1 where "insertRow s bus ''tasks''
        (seeded_row (det taskType) taskType
          (stringify (JObj [(''type'', JStr taskType), (''interval_ms'', JNum (of_int intervalMs))]))
          (toISOString now) (toISOString (next_boundary intervalMs now))) siteId st = (Inr h, st1)"
        "?mig st1 = (Inr (), st')"
      using assms(1) by (auto simp: seed_task_def Let_def and_then_def split: prod.splits sum.splits)
    moreover from insertRow_present [OF this(1), of "det taskType"] have "?has (tables st1)"
      using assms(2) by (simp add: pk has_id_def seeded_row_def obj_get_def)
    ultimately show ?thesis using that by blast
  qed
  obtain tbs where tbs: "clear_history_flag taskType (tables st1) = Some tbs" "st' = st1\<lparr>tables := tbs\<rparr>"
    using st1(1) by (auto simp: dangerouslyExecuteRawWrite_def is_space_def split: option.splits if_splits)
  have "?mig st' = (Inr (), st')"
    using clear_history_flag_idem [OF tbs(1)] tbs(2) by (simp add: dangerouslyExecuteRawWrite_def is_space_def)
  moreover have "select_pk ''id'' (JStr (det taskType)) (tables st' ''tasks'') \<noteq> None"
    using clear_history_flag_keeps [OF tbs(1) st1(2)] tbs(2) by (simp add: select_pk_None)
  ultimately show ?thesis by (auto simp: seed_task_def Let_def)
qed

definition task_schema :: schema where
  "task_schema = plain_schema\<lparr>table_columns := (\<lambda>_. map fst (seeded_row [] [] [] [] []))\<rparr>"

definition seeded_store :: store where
  "seeded_store =
     snd (seed_task task_schema None id (\<lambda>_. ''spec'') (\<lambda>_. ''1970'') ''heartbeat'' 1800000 0 ''ab12'' empty_store)"

theorem seed_idempotent_witness:
  "length (tables seeded_store ''tasks'') = 1 \<and>
   seed_task task_schema None id (\<lambda>_. ''spec'') (\<lambda>_. ''1970'') ''heartbeat'' 1800000 99 ''ab12'' seeded_store =
     (Inr (), seeded_store)"
proof -
  let ?run = "seed_task task_schema None id (\<lambda>_. ''spec'') (\<lambda>_. ''1970'') ''heartbeat'' 1800000 0 ''ab12'' empty_store"
  have "\<not> isl (fst ?run)" by code_simp
  then have run: "?run = (Inr (), seeded_store)"
    unfolding seeded_store_def by (cases "fst ?run") (auto simp: prod_eq_iff)
  have "length (tables seeded_store ''tasks'') = 1" by code_simp
  then show ?thesis
    using seed_idempotent [OF run, of 99] by (simp add: task_schema_def plain_schema_def)
qed

end
