(* ===== verification/Tool_Pairs.thy ===== *)
theory Tool_Pairs
  imports Prelude "HOL-Library.Multiset" "HOL-Library.Sublist"
begin

text \<open>
  Tool-pair sanitization of the message stream sent to a model
  (\<open>packages/agent/src/tool-pair-sanitize\<close>): a first pass moves the results of a tool call next
  to it, a second one closes calls without results and declares results without a call. The
  content of a message is a \<open>jtext\<close>; a tool-use id is the JSON value found in the content.
  A JavaScript \<open>Set\<close> is the list of its elements in insertion order. The synthetic call that
  the second pass extends in place after it was pushed is referred to by its index.
\<close>

record message =
  m_id :: string
  m_thread :: string
  m_role :: string
  m_content :: jtext
  m_model :: "string option"
  m_tool_name :: json
  m_created :: string
  m_modified :: "string option"
  m_host :: string
  m_deleted :: int
  m_exit :: "int option"
  m_metadata :: "string option"

abbreviation is_call :: "message \<Rightarrow> bool" where "is_call m \<equiv> m_role m = ''tool_call''"
abbreviation is_result :: "message \<Rightarrow> bool" where "is_result m \<equiv> m_role m = ''tool_result''"

section \<open>Helpers\<close>

definition block_id :: "json \<Rightarrow> json option" where
  "block_id b =
     (case b of
        JObj ob \<Rightarrow>
          (case obj_get ob ''id'' of
             Some v \<Rightarrow> if obj_get ob ''type'' = Some (JStr ''tool_use'') \<and> js_truthy v then Some v else None
           | None \<Rightarrow> None)
      | _ \<Rightarrow> None)"

text \<open>Reading a property of \<open>null\<close> throws, and the function then returns no id at all.\<close>

definition extractToolUseIds :: "jtext \<Rightarrow> json list" where
  "extractToolUseIds content =
     (case json_parse content of
        Some (JArr blocks) \<Rightarrow> if JNull \<in> set blocks then [] else List.map_filter block_id blocks
      | _ \<Rightarrow> [])"

definition set_add :: "'a \<Rightarrow> 'a list \<Rightarrow> 'a list" where
  "set_add x xs = (if x \<in> set xs then xs else xs @ [x])"

definition set_of_list :: "'a list \<Rightarrow> 'a list" where
  "set_of_list xs = fold set_add xs []"

definition set_delete :: "'a \<Rightarrow> 'a list \<Rightarrow> 'a list" where
  "set_delete x xs = filter (\<lambda>y. y \<noteq> x) xs"

fun orphan_scan :: "json set \<Rightarrow> message list \<Rightarrow> bool" where
  "orphan_scan known [] = False"
| "orphan_scan known (m # ms) =
     (if is_call m then orphan_scan (known \<union> set (extractToolUseIds (m_content m))) ms
      else if is_result m \<and> m_tool_name m \<noteq> JNull \<and> m_tool_name m \<notin> known then True
      else orphan_scan known ms)"

definition hasOrphanedToolResult :: "message list \<Rightarrow> bool" where
  "hasOrphanedToolResult ms = orphan_scan {} ms"

fun unclosed_scan :: "json list \<Rightarrow> bool \<Rightarrow> message list \<Rightarrow> bool" where
  "unclosed_scan pending inActiveCall [] = (pending \<noteq> [] \<or> inActiveCall)"
| "unclosed_scan pending inActiveCall (m # ms) =
     (if is_call m then
        (if pending \<noteq> [] \<or> inActiveCall then True
         else let p = set_of_list (extractToolUseIds (m_content m)) in unclosed_scan p (p = []) ms)
      else if is_result m then
        (let p = (if js_truthy (m_tool_name m) then set_delete (m_tool_name m) pending else pending)
         in unclosed_scan p (p \<noteq> [] \<and> inActiveCall) ms)
      else if pending \<noteq> [] \<or> inActiveCall then True
      else unclosed_scan pending inActiveCall ms)"

definition hasUnclosedToolCall :: "message list \<Rightarrow> bool" where
  "hasUnclosedToolCall ms = unclosed_scan [] False ms"

section \<open>Pass 1: reorder\<close>

text \<open>Positions of the results with a name, by name, ascending.\<close>

definition resultIndicesByName :: "message list \<Rightarrow> json \<Rightarrow> nat list" where
  "resultIndicesByName ms name =
     filter (\<lambda>k. is_result (ms ! k) \<and> js_truthy (m_tool_name (ms ! k)) \<and> m_tool_name (ms ! k) = name) [0..<length ms]"

record reorder_state =
  order :: "nat list"
  consumed :: "nat set"
  nameCursor :: "json \<Rightarrow> nat"

fun advance :: "(nat \<Rightarrow> bool) \<Rightarrow> nat list \<Rightarrow> nat \<Rightarrow> nat" where
  "advance skip [] c = c"
| "advance skip (k # ks) c = (if skip k then advance skip ks (Suc c) else c)"

definition claimStraggler :: "message list \<Rightarrow> json \<Rightarrow> nat \<Rightarrow> reorder_state \<Rightarrow> nat option \<times> reorder_state" where
  "claimStraggler ms name afterIndex st =
     (let arr = resultIndicesByName ms name
      in if arr = [] then (None, st)
         else let c = advance (\<lambda>k. k \<le> afterIndex \<or> k \<in> consumed st) (drop (nameCursor st name) arr) (nameCursor st name)
              in (if c < length arr then Some (arr ! c) else None, st\<lparr>nameCursor := (nameCursor st)(name := c)\<rparr>))"

fun claimStragglers :: "message list \<Rightarrow> json list \<Rightarrow> nat \<Rightarrow> reorder_state \<Rightarrow> nat list \<times> reorder_state" where
  "claimStragglers ms [] afterIndex st = ([], st)"
| "claimStragglers ms (i # is) afterIndex st =
     (let (k, st1) = claimStraggler ms i afterIndex st; (ks, st2) = claimStragglers ms is afterIndex st1
      in (case k of None \<Rightarrow> ks | Some j \<Rightarrow> j # ks, st2))"

text \<open>What the scan from a call to the next one found.\<close>

record gap =
  matchIndices :: "nat list"
  nonToolIndices :: "nat list"
  pendingIds :: "json list"
  boundaryIndex :: "nat option"

fun scan_gap :: "message list \<Rightarrow> nat set \<Rightarrow> nat list \<Rightarrow> gap \<Rightarrow> gap" where
  "scan_gap ms cons [] g = g"
| "scan_gap ms cons (j # js) g =
     (let m = ms ! j in
      if j \<in> cons then scan_gap ms cons js g
      else if is_call m then (if pendingIds g = [] then g else g\<lparr>boundaryIndex := Some j\<rparr>)
      else if is_result m then
        scan_gap ms cons js
          (g\<lparr>matchIndices := matchIndices g @ [j],
             pendingIds := (if js_truthy (m_tool_name m) then set_delete (m_tool_name m) (pendingIds g) else pendingIds g)\<rparr>)
      else if matchIndices g \<noteq> [] \<and> pendingIds g = [] then g
      else if m_role m \<noteq> ''assistant'' then scan_gap ms cons js (g\<lparr>nonToolIndices := nonToolIndices g @ [j]\<rparr>)
      else scan_gap ms cons js g)"

definition open_gap :: "message list \<Rightarrow> nat set \<Rightarrow> nat \<Rightarrow> gap" where
  "open_gap ms cons i =
     scan_gap ms cons [Suc i..<length ms]
       \<lparr>matchIndices = [], nonToolIndices = [], pendingIds = set_of_list (extractToolUseIds (m_content (ms ! i))),
        boundaryIndex = None\<rparr>"

definition emit_call :: "nat \<Rightarrow> nat list \<Rightarrow> nat list \<Rightarrow> reorder_state \<Rightarrow> reorder_state" where
  "emit_call i nonTool matched st =
     st\<lparr>order := order st @ nonTool @ [i] @ matched,
        consumed := consumed st \<union> set nonTool \<union> set matched\<rparr>"

definition reorder_step :: "message list \<Rightarrow> nat \<Rightarrow> reorder_state \<Rightarrow> reorder_state" where
  "reorder_step ms i st =
     (if i \<in> consumed st then st
      else if \<not> is_call (ms ! i) then st\<lparr>order := order st @ [i]\<rparr>
      else let g = open_gap ms (consumed st) i;
               (stragglers, st1) =
                 (case boundaryIndex g of
                    Some b \<Rightarrow> if pendingIds g \<noteq> [] then claimStragglers ms (pendingIds g) b st else ([], st)
                  | None \<Rightarrow> ([], st))
           in emit_call i (nonToolIndices g) (matchIndices g @ sort stragglers) st1)"

definition reorder_order :: "message list \<Rightarrow> nat list" where
  "reorder_order ms =
     order (fold (reorder_step ms) [0..<length ms] \<lparr>order = [], consumed = {}, nameCursor = (\<lambda>_. 0)\<rparr>)"

definition reorderPass :: "message list \<Rightarrow> message list" where
  "reorderPass ms = map (\<lambda>i. ms ! i) (reorder_order ms)"

section \<open>Pass 2: repair\<close>

record repair_state =
  sanitized :: "message list"
  activePendingIds :: "json list"
  inActiveToolCall :: bool
  lastToolId :: string
  lastToolUseIds :: "json list"
  prevSanitizedRole :: "string option"
  lastSyntheticToolCall :: "nat option"

fun digits10 :: "nat \<Rightarrow> string" where
  "digits10 n = (if n < 10 then [char_of (48 + n)] else digits10 (n div 10) @ [char_of (48 + n mod 10)])"

declare digits10.simps [simp del]

definition synthetic_result :: "string \<Rightarrow> string \<Rightarrow> string \<Rightarrow> string \<Rightarrow> json \<Rightarrow> message" where
  "synthetic_result threadId nowIso i errContent toolName =
     \<lparr>m_id = i, m_thread = threadId, m_role = ''tool_result'', m_content = NotJson errContent, m_model = None,
      m_tool_name = toolName, m_created = nowIso, m_modified = Some nowIso, m_host = ''local'', m_deleted = 0,
      m_exit = None, m_metadata = None\<rparr>"

definition makeSyntheticResults :: "string \<Rightarrow> string \<Rightarrow> string \<Rightarrow> string \<Rightarrow> json list \<Rightarrow> string \<Rightarrow> message list" where
  "makeSyntheticResults threadId nowIso lastId pre toolUseIds errContent =
     (if toolUseIds = [] then [synthetic_result threadId nowIso (pre @ ''-'' @ lastId) errContent JNull]
      else map (\<lambda>(idx, tuId). synthetic_result threadId nowIso (pre @ ''-'' @ lastId @ ''-'' @ digits10 idx) errContent tuId)
             (enumerate 0 toolUseIds))"

definition push :: "message list \<Rightarrow> repair_state \<Rightarrow> repair_state" where
  "push ms st = st\<lparr>sanitized := sanitized st @ ms\<rparr>"

definition flushPendingIds :: "string \<Rightarrow> string \<Rightarrow> string \<Rightarrow> string \<Rightarrow> repair_state \<Rightarrow> repair_state" where
  "flushPendingIds threadId nowIso pre errContent st =
     (if activePendingIds st \<noteq> []
      then (push (makeSyntheticResults threadId nowIso (lastToolId st) pre (activePendingIds st) errContent) st)
             \<lparr>activePendingIds := []\<rparr>
      else st)"

definition close_call :: "string \<Rightarrow> string \<Rightarrow> string \<Rightarrow> string \<Rightarrow> repair_state \<Rightarrow> repair_state" where
  "close_call threadId nowIso pre errContent st =
     (if inActiveToolCall st
      then (push (makeSyntheticResults threadId nowIso (lastToolId st) pre (lastToolUseIds st) errContent) st)
             \<lparr>activePendingIds := [], inActiveToolCall := False\<rparr>
      else flushPendingIds threadId nowIso pre errContent st)"

definition use_block :: "json \<Rightarrow> json" where
  "use_block i = JObj [(''type'', JStr ''tool_use''), (''id'', i), (''name'', JStr ''unknown''), (''input'', JObj [])]"

definition result_use_id :: "message \<Rightarrow> json" where
  "result_use_id m = (if js_truthy (m_tool_name m) then m_tool_name m else JStr (''synthetic-tc-'' @ m_id m))"

definition has_block :: "json \<Rightarrow> json list \<Rightarrow> bool" where
  "has_block i blocks = list_ex (\<lambda>b. case b of JObj ob \<Rightarrow> obj_get ob ''id'' = Some i | _ \<Rightarrow> False) blocks"

definition extend_synthetic :: "json \<Rightarrow> message \<Rightarrow> message" where
  "extend_synthetic i c =
     (case json_parse (m_content c) of
        Some (JArr blocks) \<Rightarrow>
          if has_block i blocks then c else c\<lparr>m_content := json_stringify (JArr (blocks @ [use_block i]))\<rparr>
      | _ \<Rightarrow> c)"

definition synthetic_call :: "string \<Rightarrow> message \<Rightarrow> message" where
  "synthetic_call threadId m =
     \<lparr>m_id = ''synthetic-'' @ m_id m, m_thread = threadId, m_role = ''tool_call'',
      m_content = json_stringify (JArr [use_block (result_use_id m)]), m_model = None,
      m_tool_name = result_use_id m, m_created = m_created m, m_modified = m_modified m, m_host = m_host m,
      m_deleted = 0, m_exit = None, m_metadata = None\<rparr>"

definition repair_call :: "string \<Rightarrow> string \<Rightarrow> message \<Rightarrow> repair_state \<Rightarrow> repair_state" where
  "repair_call threadId nowIso m st =
     (let st1 = flushPendingIds threadId nowIso ''synthetic'' ''Tool execution was interrupted'' st;
          ids = extractToolUseIds (m_content m)
      in (push [m] st1)
           \<lparr>inActiveToolCall := True, lastToolId := m_id m, lastToolUseIds := ids,
            activePendingIds := set_of_list ids, lastSyntheticToolCall := None,
            prevSanitizedRole := Some ''tool_call''\<rparr>)"

definition repair_result :: "string \<Rightarrow> message \<Rightarrow> repair_state \<Rightarrow> repair_state" where
  "repair_result threadId m st =
     (if activePendingIds st \<noteq> [] \<or> inActiveToolCall st then
        (push [m] st)
          \<lparr>activePendingIds := (if js_truthy (m_tool_name m) then set_delete (m_tool_name m) (activePendingIds st)
                                else activePendingIds st),
           inActiveToolCall := False, prevSanitizedRole := Some ''tool_result''\<rparr>
      else case (prevSanitizedRole st = Some ''tool_result'', lastSyntheticToolCall st) of
             (True, Some k) \<Rightarrow>
               push [m] (st\<lparr>sanitized := (sanitized st)[k := extend_synthetic (result_use_id m) (sanitized st ! k)]\<rparr>)
           | _ \<Rightarrow>
               (push [synthetic_call threadId m, m] st)
                 \<lparr>lastSyntheticToolCall := Some (length (sanitized st)), prevSanitizedRole := Some ''tool_result''\<rparr>)"

definition repair_other :: "string \<Rightarrow> string \<Rightarrow> message \<Rightarrow> repair_state \<Rightarrow> repair_state" where
  "repair_other threadId nowIso m st =
     (push [m] (close_call threadId nowIso ''synthetic'' ''Tool execution was interrupted'' st))
       \<lparr>lastSyntheticToolCall := None, prevSanitizedRole := Some (m_role m)\<rparr>"

definition repair_step :: "string \<Rightarrow> string \<Rightarrow> message \<Rightarrow> repair_state \<Rightarrow> repair_state" where
  "repair_step threadId nowIso m st =
     (if is_call m then repair_call threadId nowIso m st
      else if is_result m then repair_result threadId m st
      else repair_other threadId nowIso m st)"

definition repair_start :: repair_state where
  "repair_start =
     \<lparr>sanitized = [], activePendingIds = [], inActiveToolCall = False, lastToolId = [], lastToolUseIds = [],
      prevSanitizedRole = None, lastSyntheticToolCall = None\<rparr>"

definition repairPass :: "string \<Rightarrow> string \<Rightarrow> message list \<Rightarrow> message list" where
  "repairPass threadId nowIso ms =
     sanitized (close_call threadId nowIso ''synthetic-close'' ''Tool execution completed''
       (fold (repair_step threadId nowIso) ms repair_start))"

definition sanitizeToolPairs :: "string \<Rightarrow> string \<Rightarrow> message list \<Rightarrow> message list" where
  "sanitizeToolPairs threadId nowIso ms = repairPass threadId nowIso (reorderPass ms)"

section \<open>The gap after a call\<close>

lemma scan_gap_spec:
  assumes "boundaryIndex g0 = None"
  obtains js1 js2 where "js = js1 @ js2"
    and "matchIndices (scan_gap ms cons js g0) = matchIndices g0 @ filter (\<lambda>j. j \<notin> cons \<and> is_result (ms ! j)) js1"
    and "nonToolIndices (scan_gap ms cons js g0) =
           nonToolIndices g0 @
           filter (\<lambda>j. j \<notin> cons \<and> \<not> is_call (ms ! j) \<and> \<not> is_result (ms ! j) \<and> m_role (ms ! j) \<noteq> ''assistant'') js1"
    and "\<forall>j\<in>set js1. j \<in> cons \<or> \<not> is_call (ms ! j)"
    and "\<And>b. boundaryIndex (scan_gap ms cons js g0) = Some b \<Longrightarrow>
           \<exists>rest. js2 = b # rest \<and> b \<notin> cons \<and> is_call (ms ! b)"
  using assms
proof (induction js arbitrary: g0 thesis)
  case Nil
  then show ?case by (intro Nil(1) [of "[]" "[]"]) auto
next
  case (Cons j js)
  let ?m = "ms ! j"
  have stop: ?case if "scan_gap ms cons (j # js) g0 = g0 \<or>
      (scan_gap ms cons (j # js) g0 = g0\<lparr>boundaryIndex := Some j\<rparr> \<and> j \<notin> cons \<and> is_call ?m)"
    using that Cons.prems(2) by (intro Cons.prems(1) [of "[]" "j # js"]) (auto simp del: scan_gap.simps)
  have step: ?case if g: "scan_gap ms cons (j # js) g0 = scan_gap ms cons js g" "boundaryIndex g = None"
      and j: "j \<in> cons \<or> \<not> is_call ?m"
      and m: "matchIndices g = matchIndices g0 @ (if j \<notin> cons \<and> is_result ?m then [j] else [])"
      and n: "nonToolIndices g = nonToolIndices g0 @
        (if j \<notin> cons \<and> \<not> is_call ?m \<and> \<not> is_result ?m \<and> m_role ?m \<noteq> ''assistant'' then [j] else [])" for g
  proof (rule Cons.IH [OF _ g(2)], goal_cases)
    case (1 js1 js2)
    then show ?thesis
      by (intro Cons.prems(1) [of "j # js1" js2]) (use g(1) j m n in \<open>auto simp del: scan_gap.simps split: if_splits\<close>)
  qed
  consider "j \<in> cons" | "j \<notin> cons" "is_call ?m" | "j \<notin> cons" "is_result ?m"
    | "j \<notin> cons" "\<not> is_call ?m" "\<not> is_result ?m" by blast
  then show ?case
  proof cases
    case 1
    then show ?thesis by (intro step [of g0]) (use Cons.prems(2) in auto)
  next
    case 2
    then show ?thesis by (intro stop) (simp add: Let_def)
  next
    case 3
    then show ?thesis
      by (intro step [of "g0\<lparr>matchIndices := matchIndices g0 @ [j],
            pendingIds := (if js_truthy (m_tool_name ?m) then set_delete (m_tool_name ?m) (pendingIds g0) else pendingIds g0)\<rparr>"])
        (use Cons.prems(2) in \<open>auto simp: Let_def\<close>)
  next
    case 4
    show ?thesis
    proof (cases "matchIndices g0 \<noteq> [] \<and> pendingIds g0 = []")
      case True
      with 4 show ?thesis by (intro stop) (simp add: Let_def)
    next
      case False
      with 4 Cons.prems(2) show ?thesis
        by (intro step [of "if m_role ?m \<noteq> ''assistant'' then g0\<lparr>nonToolIndices := nonToolIndices g0 @ [j]\<rparr> else g0"])
          (auto simp: Let_def)
    qed
  qed
qed

section \<open>Stragglers by cursor and by scan\<close>

definition named_result :: "message list \<Rightarrow> nat \<Rightarrow> bool" where
  "named_result ms k \<longleftrightarrow> is_result (ms ! k) \<and> js_truthy (m_tool_name (ms ! k))"

text \<open>The scan that the cursors replace: from the boundary to the end, the first free result of
  every pending id.\<close>

fun straggler_scan :: "message list \<Rightarrow> nat set \<Rightarrow> nat list \<Rightarrow> json list \<Rightarrow> nat list" where
  "straggler_scan ms cons [] pending = []"
| "straggler_scan ms cons (j # js) pending =
     (if j \<notin> cons \<and> named_result ms j \<and> m_tool_name (ms ! j) \<in> set pending
      then j # straggler_scan ms cons js (set_delete (m_tool_name (ms ! j)) pending)
      else straggler_scan ms cons js pending)"

lemma set_set_delete [simp]: "set (set_delete x xs) = set xs - {x}"
  by (auto simp: set_delete_def)

lemma set_set_of_list [simp]: "set (set_of_list xs) = set xs"
proof -
  have "set (fold set_add xs acc) = set acc \<union> set xs" for acc :: "'a list"
    by (induction xs arbitrary: acc) (auto simp: set_add_def)
  then show ?thesis by (simp add: set_of_list_def)
qed

lemma distinct_set_of_list [simp]: "distinct (set_of_list xs)"
proof -
  have "distinct acc \<Longrightarrow> distinct (fold set_add xs acc)" for acc :: "'a list"
    by (induction xs arbitrary: acc) (auto simp: set_add_def)
  then show ?thesis by (simp add: set_of_list_def)
qed

lemma straggler_scan_sorted:
  "sorted js \<Longrightarrow> distinct js \<Longrightarrow>
   sorted (straggler_scan ms cons js p) \<and> distinct (straggler_scan ms cons js p) \<and> set (straggler_scan ms cons js p) \<subseteq> set js"
  by (induction ms cons js p rule: straggler_scan.induct) auto

definition free_named :: "message list \<Rightarrow> nat set \<Rightarrow> json \<Rightarrow> nat \<Rightarrow> bool" where
  "free_named ms cons i k \<longleftrightarrow> k \<notin> cons \<and> named_result ms k \<and> m_tool_name (ms ! k) = i"

lemma straggler_scan_set:
  "sorted js \<Longrightarrow> distinct js \<Longrightarrow>
   k \<in> set (straggler_scan ms cons js p) \<longleftrightarrow> (\<exists>i\<in>set p. find (free_named ms cons i) js = Some k)"
proof (induction ms cons js p rule: straggler_scan.induct)
  case (2 ms cons j js p)
  let ?i = "m_tool_name (ms ! j)"
  show ?case
  proof (cases "j \<notin> cons \<and> named_result ms j \<and> ?i \<in> set p")
    case True
    then have hit: "free_named ms cons i j \<longleftrightarrow> i = ?i" for i by (auto simp: free_named_def)
    show ?thesis using 2 True by (auto simp: hit)
  next
    case False
    then have "\<not> free_named ms cons i j" if "i \<in> set p" for i using that by (auto simp: free_named_def)
    then show ?thesis using 2 False by auto
  qed
qed simp

lemma advance_find:
  assumes "\<forall>x\<in>set (take c arr). skip x"
  defines "c' \<equiv> advance skip (drop c arr) c"
  shows "(if c' < length arr then Some (arr ! c') else None) = find (\<lambda>k. \<not> skip k) arr"
    and "\<forall>x\<in>set (take c' arr). skip x"
proof -
  have adv: "advance skip xs n = n + length (takeWhile skip xs)" for xs n
    by (induction xs arbitrary: n) auto
  have find_eq: "find (\<lambda>k. \<not> skip k) xs =
      (if length (takeWhile skip xs) < length xs then Some (xs ! length (takeWhile skip xs)) else None)" for xs
    by (induction xs) auto
  show "(if c' < length arr then Some (arr ! c') else None) = find (\<lambda>k. \<not> skip k) arr"
  proof (cases "c \<le> length arr")
    case True
    have "takeWhile skip arr = take c arr @ takeWhile skip (drop c arr)"
      using assms(1) takeWhile_append2 [of "take c arr" skip "drop c arr"] by simp
    then have "c' = length (takeWhile skip arr)" using True by (simp add: c'_def adv)
    then show ?thesis by (simp add: find_eq)
  next
    case False
    then have "find (\<lambda>k. \<not> skip k) arr = None" using assms(1) by (simp add: find_None_iff)
    with False show ?thesis by (simp add: c'_def)
  qed
  have "set (take c' arr) \<subseteq> set (take c arr) \<union> set (takeWhile skip (drop c arr))"
  proof -
    have "take c' arr = take c arr @ take (length (takeWhile skip (drop c arr))) (drop c arr)"
      by (simp add: c'_def adv take_add)
    also have "take (length (takeWhile skip (drop c arr))) (drop c arr) = takeWhile skip (drop c arr)"
      by (metis takeWhile_eq_take)
    finally show ?thesis by simp
  qed
  then show "\<forall>x\<in>set (take c' arr). skip x" using assms(1) by (auto dest: set_takeWhileD)
qed

text \<open>What the cursors have passed can never be claimed again.\<close>

definition cursors_ok :: "message list \<Rightarrow> nat \<Rightarrow> reorder_state \<Rightarrow> bool" where
  "cursors_ok ms b st \<longleftrightarrow>
     (\<forall>name. \<forall>k\<in>set (take (nameCursor st name) (resultIndicesByName ms name)). k \<le> b \<or> k \<in> consumed st)"

lemma find_filter: "find p (filter q xs) = find (\<lambda>x. q x \<and> p x) xs"
  by (induction xs) auto

lemma find_append: "find f (xs @ ys) = (case find f xs of None \<Rightarrow> find f ys | Some x \<Rightarrow> Some x)"
  by (induction xs) auto

lemma find_upt_drop: "find (\<lambda>k. b < k \<and> p k) [0..<n] = find p [Suc b..<n]"
proof (cases "Suc b \<le> n")
  case True
  have "find (\<lambda>k. b < k \<and> p k) ([0..<Suc b] @ [Suc b..<n]) = find (\<lambda>k. b < k \<and> p k) [Suc b..<n]"
    unfolding find_append by (auto simp: find_None_iff find_Some_iff simp del: upt_Suc split: option.splits)
  also have "\<dots> = find p [Suc b..<n]" by (rule find_cong) auto
  also have "[0..<Suc b] @ [Suc b..<n] = [0..<n]"
    using True by (metis le0 le_add_diff_inverse upt_add_eq_append)
  finally show ?thesis .
next
  case False
  then show ?thesis by (auto simp: find_None_iff)
qed

lemma claimStraggler_find:
  assumes "cursors_ok ms b st" and "claimStraggler ms i b st = (r, st')"
  shows "r = find (free_named ms (consumed st) i) [Suc b..<length ms]"
    and "cursors_ok ms b st'" and "consumed st' = consumed st" and "order st' = order st"
proof -
  let ?arr = "resultIndicesByName ms i" and ?skip = "\<lambda>k. k \<le> b \<or> k \<in> consumed st" and ?c = "nameCursor st i"
  have skip: "\<forall>x\<in>set (take ?c ?arr). ?skip x" using assms(1) by (simp add: cursors_ok_def)
  have "find (\<lambda>k. \<not> ?skip k) ?arr = find (\<lambda>k. b < k \<and> free_named ms (consumed st) i k) [0..<length ms]"
    unfolding resultIndicesByName_def find_filter
    by (rule find_cong) (auto simp: free_named_def named_result_def)
  then have found: "find (\<lambda>k. \<not> ?skip k) ?arr = find (free_named ms (consumed st) i) [Suc b..<length ms]"
    by (simp add: find_upt_drop)
  show "r = find (free_named ms (consumed st) i) [Suc b..<length ms]"
    using assms(2) advance_find(1) [OF skip] found by (auto simp: claimStraggler_def Let_def split: if_splits)
  show "consumed st' = consumed st" "order st' = order st"
    using assms(2) by (auto simp: claimStraggler_def Let_def split: if_splits)
  show "cursors_ok ms b st'"
  proof (cases "?arr = []")
    case True
    then show ?thesis using assms by (simp add: claimStraggler_def)
  next
    case False
    then have st': "st' = st\<lparr>nameCursor := (nameCursor st)(i := advance ?skip (drop ?c ?arr) ?c)\<rparr>"
      using assms(2) by (simp add: claimStraggler_def Let_def)
    show ?thesis unfolding cursors_ok_def
    proof (intro allI)
      fix name
      show "\<forall>k\<in>set (take (nameCursor st' name) (resultIndicesByName ms name)). k \<le> b \<or> k \<in> consumed st'"
      proof (cases "name = i")
        case True
        have "nameCursor st' i = advance ?skip (drop ?c ?arr) ?c" "consumed st' = consumed st" by (simp_all add: st')
        with True show ?thesis using advance_find(2) [OF skip] by metis
      next
        case False
        then have "nameCursor st' name = nameCursor st name" "consumed st' = consumed st" by (simp_all add: st')
        then show ?thesis using assms(1) [unfolded cursors_ok_def, THEN spec, of name] by metis
      qed
    qed
  qed
qed

lemma claimStragglers_find:
  assumes "cursors_ok ms b st" and "claimStragglers ms is b st = (ks, st')"
  shows "ks = List.map_filter (\<lambda>i. find (free_named ms (consumed st) i) [Suc b..<length ms]) is \<and>
         cursors_ok ms b st' \<and> consumed st' = consumed st \<and> order st' = order st"
  using assms
proof (induction "is" arbitrary: st ks st')
  case Nil
  then show ?case by (simp add: List.map_filter_simps)
next
  case (Cons i "is")
  obtain r st1 where r: "claimStraggler ms i b st = (r, st1)" by (cases "claimStraggler ms i b st")
  obtain ks1 st2 where ks1: "claimStragglers ms is b st1 = (ks1, st2)" by (cases "claimStragglers ms is b st1")
  note one = claimStraggler_find [OF Cons.prems(1) r]
  show ?case using Cons.IH [OF one(2) ks1] one Cons.prems(2) r ks1
    by (auto simp: List.map_filter_simps split: option.splits)
qed

lemma stragglers_scan:
  assumes "distinct is"
  shows "sort (List.map_filter (\<lambda>i. find (free_named ms cons i) [Suc b..<n]) is) =
         straggler_scan ms cons [Suc b..<n] is"
proof (rule sorted_distinct_set_unique)
  let ?f = "\<lambda>i. find (free_named ms cons i) [Suc b..<n]"
  have inj: "i = j" if "?f i = Some k" "?f j = Some k" for i j k
    using that by (auto simp: find_Some_iff free_named_def)
  show "distinct (sort (List.map_filter ?f is))"
    using assms inj by (auto simp: map_filter_def distinct_map inj_on_def)
  show "set (sort (List.map_filter ?f is)) = set (straggler_scan ms cons [Suc b..<n] is)"
    by (auto simp: straggler_scan_set map_filter_def image_iff) (metis option.sel)+
qed (auto simp: straggler_scan_sorted)

section \<open>Reordering by scans\<close>

definition late_results :: "message list \<Rightarrow> nat set \<Rightarrow> gap \<Rightarrow> nat list" where
  "late_results ms cons g =
     (case boundaryIndex g of None \<Rightarrow> [] | Some b \<Rightarrow> straggler_scan ms cons [Suc b..<length ms] (pendingIds g))"

fun scan_step :: "message list \<Rightarrow> nat \<Rightarrow> nat list \<times> nat set \<Rightarrow> nat list \<times> nat set" where
  "scan_step ms i (out, cons) =
     (if i \<in> cons then (out, cons)
      else if \<not> is_call (ms ! i) then (out @ [i], cons)
      else let g = open_gap ms cons i; taken = matchIndices g @ late_results ms cons g
           in (out @ nonToolIndices g @ [i] @ taken, cons \<union> set (nonToolIndices g) \<union> set taken))"

definition reorder_by_scan :: "message list \<Rightarrow> message list" where
  "reorder_by_scan ms = map (\<lambda>i. ms ! i) (fst (fold (scan_step ms) [0..<length ms] ([], {})))"

lemma scan_gap_pending: "distinct (pendingIds g) \<Longrightarrow> distinct (pendingIds (scan_gap ms cons js g))"
  by (induction ms cons js g rule: scan_gap.induct) (auto simp: Let_def set_delete_def)

lemma open_gap_parts:
  fixes i :: nat
  assumes "i < length ms" and calls: "\<forall>k\<in>cons. \<not> is_call (ms ! k)"
  defines "g \<equiv> open_gap ms cons i"
  shows "distinct (nonToolIndices g @ [i] @ matchIndices g @ late_results ms cons g)"
    and "set (nonToolIndices g @ matchIndices g @ late_results ms cons g) \<subseteq>
           {k. i < k \<and> k < length ms \<and> k \<notin> cons \<and> \<not> is_call (ms ! k)}"
    and "\<And>b j. boundaryIndex g = Some b \<Longrightarrow> i < j \<Longrightarrow> j < length ms \<Longrightarrow> is_call (ms ! j) \<Longrightarrow> b \<le> j"
    and "\<And>b. boundaryIndex g = Some b \<Longrightarrow> i < b \<and> b < length ms \<and> is_call (ms ! b)"
proof -
  let ?g0 = "\<lparr>matchIndices = [], nonToolIndices = [], pendingIds = set_of_list (extractToolUseIds (m_content (ms ! i))),
        boundaryIndex = None\<rparr>"
  have g: "g = scan_gap ms cons [Suc i..<length ms] ?g0" by (simp add: g_def open_gap_def)
  obtain js1 js2 where js: "[Suc i..<length ms] = js1 @ js2"
    and mat: "matchIndices g = filter (\<lambda>j. j \<notin> cons \<and> is_result (ms ! j)) js1"
    and non: "nonToolIndices g =
      filter (\<lambda>j. j \<notin> cons \<and> \<not> is_call (ms ! j) \<and> \<not> is_result (ms ! j) \<and> m_role (ms ! j) \<noteq> ''assistant'') js1"
    and quiet: "\<forall>j\<in>set js1. j \<in> cons \<or> \<not> is_call (ms ! j)"
    and bnd: "\<And>b. boundaryIndex g = Some b \<Longrightarrow> \<exists>rest. js2 = b # rest \<and> b \<notin> cons \<and> is_call (ms ! b)"
    by (rule scan_gap_spec [of ?g0 "[Suc i..<length ms]" ms cons]) (simp_all add: g)
  have set_js: "set js1 \<union> set js2 = {Suc i..<length ms}" and dist: "distinct js1" "distinct js2" "set js1 \<inter> set js2 = {}"
    and sorted: "sorted (js1 @ js2)"
    using arg_cong [OF js, of set] arg_cong [OF js, of distinct] arg_cong [OF js, of sorted] by auto
  show bound: "i < b \<and> b < length ms \<and> is_call (ms ! b)" if "boundaryIndex g = Some b" for b
  proof -
    have "b \<in> set js2" "is_call (ms ! b)" using bnd [OF that] by auto
    moreover from this(1) have "b \<in> {Suc i..<length ms}" using set_js by blast
    ultimately show ?thesis by simp
  qed
  show "b \<le> j" if "boundaryIndex g = Some b" "i < j" "j < length ms" "is_call (ms ! j)" for b j
  proof -
    have "j \<in> set js1 \<union> set js2" using that(2,3) set_js by auto
    moreover have "j \<notin> set js1" using quiet that(4) calls by blast
    ultimately show ?thesis using bnd [OF that(1)] sorted by (auto simp: sorted_append)
  qed
  have late: "set (late_results ms cons g) \<subseteq> set js2 \<inter> {k. k \<notin> cons \<and> is_result (ms ! k)} \<and> distinct (late_results ms cons g)"
  proof (cases "boundaryIndex g")
    case None
    then show ?thesis by (simp add: late_results_def)
  next
    case (Some b)
    then obtain rest where rest: "js2 = b # rest" using bnd by blast
    have "k \<in> set js2" if "b < k" "k < length ms" for k
    proof -
      have "k \<in> set js1 \<union> set js2" using that bound [OF Some] set_js by auto
      moreover have "k \<notin> set js1" using that sorted rest by (auto simp: sorted_append)
      ultimately show ?thesis by blast
    qed
    then show ?thesis
      using Some straggler_scan_sorted [of "[Suc b..<length ms]" ms cons "pendingIds g"]
      by (auto simp: late_results_def straggler_scan_set find_Some_iff free_named_def named_result_def)
  qed
  have r: "k \<in> set js1 \<union> set js2 \<Longrightarrow> i < k \<and> k < length ms" for k using set_js by auto
  then show "set (nonToolIndices g @ matchIndices g @ late_results ms cons g) \<subseteq>
           {k. i < k \<and> k < length ms \<and> k \<notin> cons \<and> \<not> is_call (ms ! k)}"
    using late by (auto simp: mat non)
  show "distinct (nonToolIndices g @ [i] @ matchIndices g @ late_results ms cons g)"
    using late dist r by (auto simp: mat non)
qed

lemma open_gap_pending [simp]: "distinct (pendingIds (open_gap ms cons i))"
  by (simp add: open_gap_def scan_gap_pending)

definition reorder_ok :: "message list \<Rightarrow> nat \<Rightarrow> reorder_state \<Rightarrow> bool" where
  "reorder_ok ms i st \<longleftrightarrow>
     distinct (order st) \<and> set (order st) = {..<i} \<union> consumed st \<and> consumed st \<subseteq> {..<length ms} \<and>
     (\<forall>k\<in>consumed st. \<not> is_call (ms ! k)) \<and>
     (\<forall>j. i \<le> j \<and> j < length ms \<and> is_call (ms ! j) \<longrightarrow> cursors_ok ms j st)"

lemma cursors_ok_mono:
  "cursors_ok ms b st \<Longrightarrow> b \<le> b' \<Longrightarrow> nameCursor st' = nameCursor st \<Longrightarrow> consumed st \<subseteq> consumed st' \<Longrightarrow>
   cursors_ok ms b' st'"
  unfolding cursors_ok_def by (metis le_trans subsetD)

lemma reorder_step_scan:
  assumes ok: "reorder_ok ms i st" and i: "i < length ms"
  defines "st' \<equiv> reorder_step ms i st"
  shows "reorder_ok ms (Suc i) st'" and "scan_step ms i (order st, consumed st) = (order st', consumed st')"
proof -
  consider "i \<in> consumed st" | "i \<notin> consumed st" "\<not> is_call (ms ! i)" | "i \<notin> consumed st" "is_call (ms ! i)" by blast
  then have "reorder_ok ms (Suc i) st' \<and> scan_step ms i (order st, consumed st) = (order st', consumed st')"
  proof cases
    case 1
    then show ?thesis using ok unfolding reorder_ok_def st'_def reorder_step_def lessThan_Suc by auto
  next
    case 2
    then have st': "st' = st\<lparr>order := order st @ [i]\<rparr>" by (simp add: st'_def reorder_step_def)
    have "cursors_ok ms j st'" if "Suc i \<le> j" "j < length ms" "is_call (ms ! j)" for j
      using ok that unfolding reorder_ok_def st' cursors_ok_def by simp
    then show ?thesis using ok 2 unfolding reorder_ok_def by (auto simp: st' lessThan_Suc)
  next
    case 3
    define g where "g = open_gap ms (consumed st) i"
    have calls: "\<forall>k\<in>consumed st. \<not> is_call (ms ! k)" using ok by (simp add: reorder_ok_def)
    note parts = open_gap_parts [where cons = "consumed st", OF i calls, folded g_def]
    obtain late st1 where late: "late = late_results ms (consumed st) g" "consumed st1 = consumed st" "order st1 = order st"
      and st': "st' = emit_call i (nonToolIndices g) (matchIndices g @ late) st1"
      and cur: "\<And>j. i < j \<Longrightarrow> j < length ms \<Longrightarrow> is_call (ms ! j) \<Longrightarrow> cursors_ok ms j st1"
    proof (cases "\<exists>b. boundaryIndex g = Some b \<and> pendingIds g \<noteq> []")
      case True
      then obtain b where b: "boundaryIndex g = Some b" "pendingIds g \<noteq> []" by blast
      obtain ks st1 where ks: "claimStragglers ms (pendingIds g) b st = (ks, st1)"
        by (cases "claimStragglers ms (pendingIds g) b st")
      have "cursors_ok ms b st" using ok parts(4) [OF b(1)] by (auto simp: reorder_ok_def)
      note found = claimStragglers_find [OF this ks]
      have "sort ks = late_results ms (consumed st) g"
        using found b(1) stragglers_scan [of "pendingIds g"] by (simp add: late_results_def g_def)
      moreover have "cursors_ok ms j st1" if "i < j" "j < length ms" "is_call (ms ! j)" for j
        using found parts(3) [OF b(1) that] by (auto intro: cursors_ok_mono)
      ultimately show ?thesis
        using that [of "sort ks" st1] 3 b ks found by (simp add: st'_def reorder_step_def flip: g_def)
    next
      case False
      have none: "straggler_scan ms cons js [] = []" for cons js by (induction js) auto
      have "late_results ms (consumed st) g = []"
        using False by (auto simp: late_results_def none split: option.splits)
      then show ?thesis
        using that [of "[]" st] 3 False ok
        by (auto simp: st'_def reorder_step_def Let_def reorder_ok_def simp flip: g_def split: option.splits)
    qed
    have cons': "consumed st' = consumed st \<union> set (nonToolIndices g) \<union> set (matchIndices g @ late)"
      and ord': "order st' = order st @ nonToolIndices g @ [i] @ matchIndices g @ late"
      and cur': "nameCursor st' = nameCursor st1"
      using late by (simp_all add: st' emit_call_def Un_assoc)
    have new: "set (nonToolIndices g) \<union> set (matchIndices g @ late) \<subseteq>
        {k. i < k \<and> k < length ms \<and> k \<notin> consumed st \<and> \<not> is_call (ms ! k)}"
      using parts(2) late(1) by auto
    have dist: "distinct (nonToolIndices g @ [i] @ matchIndices g @ late)" using parts(1) late(1) by simp
    have old: "distinct (order st)" "set (order st) = {..<i} \<union> consumed st" "consumed st \<subseteq> {..<length ms}"
      using ok by (auto simp: reorder_ok_def)
    have "cursors_ok ms j st'" if "Suc i \<le> j" "j < length ms" "is_call (ms ! j)" for j
      using cur [of j] that late(2) cons' cur' by (auto intro: cursors_ok_mono [where st = st1])
    moreover have "distinct (order st')" using old(1,2) new dist 3(1) unfolding ord' by auto
    moreover have "set (order st') = {..<Suc i} \<union> consumed st'" unfolding ord' cons' set_append old(2) lessThan_Suc by auto
    ultimately have "reorder_ok ms (Suc i) st'"
      using new old(3) calls unfolding reorder_ok_def cons' by (intro conjI) blast+
    moreover have "scan_step ms i (order st, consumed st) = (order st', consumed st')"
      using 3 late(1) by (simp add: Let_def ord' cons' flip: g_def)
    ultimately show ?thesis ..
  qed
  then show "reorder_ok ms (Suc i) st'" and "scan_step ms i (order st, consumed st) = (order st', consumed st')" by auto
qed

lemma reorder_fold:
  assumes "k \<le> length ms"
  defines "st \<equiv> fold (reorder_step ms) [0..<k] \<lparr>order = [], consumed = {}, nameCursor = (\<lambda>_. 0)\<rparr>"
  shows "reorder_ok ms k st \<and> fold (scan_step ms) [0..<k] ([], {}) = (order st, consumed st)"
  using assms(1) unfolding st_def
proof (induction k)
  case 0
  then show ?case by (simp add: reorder_ok_def cursors_ok_def)
next
  case (Suc k)
  then show ?case using reorder_step_scan [of ms k] by simp
qed

lemma reorder_order_perm: "mset (reorder_order ms) = mset [0..<length ms]"
proof -
  let ?st = "fold (reorder_step ms) [0..<length ms] \<lparr>order = [], consumed = {}, nameCursor = (\<lambda>_. 0)\<rparr>"
  have "reorder_ok ms (length ms) ?st" using reorder_fold [of "length ms" ms] by simp
  then have "distinct (order ?st)" "set (order ?st) = set [0..<length ms]" by (auto simp: reorder_ok_def)
  then show ?thesis
    unfolding reorder_order_def using set_eq_iff_mset_eq_distinct [of "order ?st" "[0..<length ms]"] by simp
qed

lemma reorderPass_mset: "mset (reorderPass ms) = mset ms"
proof -
  have "mset (reorderPass ms) = mset (map (\<lambda>i. ms ! i) [0..<length ms])"
    unfolding reorderPass_def mset_map reorder_order_perm ..
  then show ?thesis by (simp only: map_nth)
qed

text \<open>C21: The optimised reorder pass is the original one. Claiming results beyond the next call
  through per-name cursors yields, message for message, what the rescan of the rest of the stream
  yields, for every stream.\<close>

theorem reorder_equivalent: "reorderPass ms = reorder_by_scan ms"
  using reorder_fold [of "length ms" ms] by (simp add: reorderPass_def reorder_by_scan_def reorder_order_def)

section \<open>What the repair keeps\<close>

lemma nths_update_other: "k \<notin> A \<Longrightarrow> nths (xs[k := v]) A = nths xs A"
proof (induction xs arbitrary: k A)
  case (Cons x xs)
  then show ?case by (cases k) (auto simp: nths_Cons)
qed simp

lemma nths_extend: "A \<subseteq> {..<length xs} \<Longrightarrow> nths (xs @ ys) A = nths xs A"
proof -
  assume "A \<subseteq> {..<length xs}"
  then have "{j. j + length xs \<in> A} = {}" by auto
  then show ?thesis by (simp add: nths_append)
qed

lemma nths_push:
  "A \<subseteq> {..<length xs} \<Longrightarrow> nths (xs @ ys @ [m]) (insert (length xs + length ys) A) = nths xs A @ [m]"
proof -
  assume A: "A \<subseteq> {..<length xs}"
  let ?B = "insert (length xs + length ys) A"
  have "nths (xs @ ys @ [m]) ?B = nths (xs @ ys) ?B @ nths [m] {j. j + length (xs @ ys) \<in> ?B}"
    by (subst append_assoc [symmetric], subst nths_append) simp
  also have "nths [m] {j. j + length (xs @ ys) \<in> ?B} = [m]" by simp
  also have "nths (xs @ ys) ?B = nths (xs @ ys) A"
  proof -
    have "nths (xs @ ys) ?B = map fst (filter (\<lambda>p. snd p \<in> ?B) (zip (xs @ ys) [0..<length (xs @ ys)]))"
      by (simp add: nths_def)
    also have "\<dots> = map fst (filter (\<lambda>p. snd p \<in> A) (zip (xs @ ys) [0..<length (xs @ ys)]))"
      by (intro arg_cong [where f = "map fst"] filter_cong) (auto dest: set_zip_rightD)
    finally show ?thesis by (simp add: nths_def)
  qed
  also have "nths (xs @ ys) A = nths xs A" using A by (rule nths_extend)
  finally show ?thesis .
qed

text \<open>The messages taken so far stand at positions that are never rewritten.\<close>

definition keeps_input :: "message list \<Rightarrow> repair_state \<Rightarrow> bool" where
  "keeps_input taken st \<longleftrightarrow>
     (\<exists>A \<subseteq> {..<length (sanitized st)}. nths (sanitized st) A = taken \<and>
        (\<forall>k. lastSyntheticToolCall st = Some k \<longrightarrow> k < length (sanitized st) \<and> k \<notin> A))"

lemma keeps_input_push:
  assumes "keeps_input taken st" and "sanitized st' = sanitized st @ ys @ [m]"
    and "\<And>k. lastSyntheticToolCall st' = Some k \<Longrightarrow>
           lastSyntheticToolCall st = Some k \<or> (length (sanitized st) \<le> k \<and> k < length (sanitized st) + length ys)"
  shows "keeps_input (taken @ [m]) st'"
proof -
  let ?n = "length (sanitized st) + length ys"
  obtain A where A: "A \<subseteq> {..<length (sanitized st)}" "nths (sanitized st) A = taken"
      "\<And>k. lastSyntheticToolCall st = Some k \<Longrightarrow> k < length (sanitized st) \<and> k \<notin> A"
    using assms(1) unfolding keeps_input_def by metis
  have "nths (sanitized st') (insert ?n A) = taken @ [m]"
    unfolding assms(2) using nths_push [OF A(1)] A(2) by simp
  moreover have "insert ?n A \<subseteq> {..<length (sanitized st')}" using A(1) by (auto simp: assms(2))
  moreover have "k < length (sanitized st') \<and> k \<notin> insert ?n A" if "lastSyntheticToolCall st' = Some k" for k
    using assms(3) [OF that] A(1) A(3) [of k] by (auto simp: assms(2))
  ultimately show ?thesis unfolding keeps_input_def by blast
qed

lemma keeps_input_extend:
  assumes "keeps_input taken st" and "lastSyntheticToolCall st = Some k"
  shows "keeps_input taken (st\<lparr>sanitized := (sanitized st)[k := v]\<rparr>)"
  using assms unfolding keeps_input_def by (auto simp: nths_update_other)

lemma keeps_input_flush:
  "sanitized (close_call t now p e st) = sanitized st \<or>
   (\<exists>ys. sanitized (close_call t now p e st) = sanitized st @ ys)"
  by (auto simp: close_call_def flushPendingIds_def push_def)

lemma repair_step_keeps:
  assumes "keeps_input taken st"
  shows "keeps_input (taken @ [m]) (repair_step t now m st)"
proof -
  consider "is_call m" | "is_result m" | "\<not> is_call m" "\<not> is_result m" by blast
  then show ?thesis
  proof cases
    case 1
    then show ?thesis using assms
      by (cases "activePendingIds st = []")
        (auto intro!: keeps_input_push [OF assms] simp: repair_step_def repair_call_def flushPendingIds_def push_def Let_def)
  next
    case 2
    then have step: "repair_step t now m st = repair_result t m st" by (simp add: repair_step_def)
    show ?thesis
    proof (cases "activePendingIds st = [] \<and> \<not> inActiveToolCall st \<and> prevSanitizedRole st = Some ''tool_result'' \<and>
        lastSyntheticToolCall st \<noteq> None")
      case True
      then obtain k where k: "lastSyntheticToolCall st = Some k" by blast
      show ?thesis unfolding step
        by (rule keeps_input_push [OF keeps_input_extend [OF assms k], where ys = "[]"])
          (use True k in \<open>auto simp: repair_result_def push_def\<close>)
    next
      case False
      show ?thesis
      proof (cases "activePendingIds st \<noteq> [] \<or> inActiveToolCall st")
        case True
        then show ?thesis unfolding step
          by (intro keeps_input_push [OF assms, where ys = "[]"]) (auto simp: repair_result_def push_def)
      next
        case closed: False
        then show ?thesis unfolding step using False
          by (intro keeps_input_push [OF assms, where ys = "[synthetic_call t m]"])
            (auto simp: repair_result_def push_def split: option.splits bool.splits)
      qed
    qed
  next
    case 3
    obtain ys where "sanitized (close_call t now ''synthetic'' ''Tool execution was interrupted'' st) = sanitized st @ ys"
      using keeps_input_flush by (metis append_Nil2)
    with 3 show ?thesis
      by (intro keeps_input_push [OF assms, where ys = ys]) (auto simp: repair_step_def repair_other_def push_def)
  qed
qed

lemma fold_repair_keeps: "keeps_input taken st \<Longrightarrow> keeps_input (taken @ ms) (fold (repair_step t now) ms st)"
proof (induction ms arbitrary: taken st)
  case (Cons m ms)
  from Cons.IH [OF repair_step_keeps [OF Cons.prems]] show ?case by simp
qed simp

lemma repairPass_subseq: "subseq ms (repairPass t now ms)"
proof -
  let ?st = "fold (repair_step t now) ms repair_start"
  have "keeps_input [] repair_start" by (simp add: keeps_input_def repair_start_def)
  from fold_repair_keeps [OF this, of ms t now] have "\<exists>A. nths (sanitized ?st) A = ms"
    by (auto simp: keeps_input_def)
  then have "subseq ms (sanitized ?st)" using subseq_conv_nths by metis
  moreover obtain ys where "repairPass t now ms = sanitized ?st @ ys"
    unfolding repairPass_def using keeps_input_flush by (metis append_Nil2)
  ultimately show ?thesis by (simp add: subseq_rev_drop_many)
qed

section \<open>Results stand next to a call\<close>

fun adjacent_roles :: "bool \<Rightarrow> string list \<Rightarrow> bool" where
  "adjacent_roles tool [] = True"
| "adjacent_roles tool (r # rs) =
     ((r = ''tool_result'' \<longrightarrow> tool) \<and> adjacent_roles (r \<in> {''tool_call'', ''tool_result''}) rs)"

definition results_adjacent :: "message list \<Rightarrow> bool" where
  "results_adjacent ms = adjacent_roles False (map m_role ms)"

definition ends_in_tool :: "message list \<Rightarrow> bool" where
  "ends_in_tool ms \<longleftrightarrow> ms \<noteq> [] \<and> (is_call (last ms) \<or> is_result (last ms))"

lemma results_adjacent_snoc:
  "results_adjacent (ms @ [m]) \<longleftrightarrow> results_adjacent ms \<and> (is_result m \<longrightarrow> ends_in_tool ms)"
proof -
  have "adjacent_roles b (rs @ [r]) \<longleftrightarrow> adjacent_roles b rs \<and>
      (r = ''tool_result'' \<longrightarrow> (if rs = [] then b else last rs \<in> {''tool_call'', ''tool_result''}))" for b rs r
    by (induction rs arbitrary: b) auto
  then show ?thesis by (auto simp: results_adjacent_def ends_in_tool_def last_map)
qed

lemma adjacent_results:
  "results_adjacent ms \<Longrightarrow> ends_in_tool ms \<Longrightarrow> \<forall>r\<in>set rs. is_result r \<Longrightarrow>
   results_adjacent (ms @ rs) \<and> ends_in_tool (ms @ rs)"
proof (induction rs arbitrary: ms)
  case (Cons r rs)
  then have "results_adjacent (ms @ [r])" "ends_in_tool (ms @ [r])"
    by (simp_all add: results_adjacent_snoc ends_in_tool_def)
  from Cons.IH [OF this] show ?case using Cons.prems(3) by simp
qed simp

definition call_open :: "repair_state \<Rightarrow> bool" where
  "call_open st \<longleftrightarrow> activePendingIds st \<noteq> [] \<or> inActiveToolCall st"

definition well_placed :: "repair_state \<Rightarrow> bool" where
  "well_placed st \<longleftrightarrow>
     results_adjacent (sanitized st) \<and> (call_open st \<longrightarrow> ends_in_tool (sanitized st)) \<and>
     (prevSanitizedRole st = Some ''tool_result'' \<longrightarrow> ends_in_tool (sanitized st))"

lemma synthetic_results: "r \<in> set (makeSyntheticResults t now l p ids e) \<Longrightarrow> is_result r"
  by (auto simp: makeSyntheticResults_def synthetic_result_def split: if_splits)

lemma close_call_placed:
  assumes "well_placed st" and "st' = close_call t now p e st"
  shows "results_adjacent (sanitized st')" and "\<not> call_open st'"
    and "lastSyntheticToolCall st' = lastSyntheticToolCall st"
  using assms(1) adjacent_results [of "sanitized st"] synthetic_results
  by (auto simp: assms(2) close_call_def flushPendingIds_def push_def well_placed_def call_open_def)

lemma flush_placed:
  "well_placed st \<Longrightarrow> results_adjacent (sanitized (flushPendingIds t now p e st))"
  using adjacent_results [of "sanitized st"] synthetic_results
  by (auto simp: flushPendingIds_def push_def well_placed_def call_open_def)

lemma extend_synthetic_role [simp]: "m_role (extend_synthetic i c) = m_role c"
  by (auto simp: extend_synthetic_def split: option.splits json.splits)

lemma roles_update: "map m_role (xs[k := extend_synthetic i (xs ! k)]) = map m_role xs"
  by (cases "k < length xs") (simp_all add: map_update list_update_same_conv list_update_beyond)

lemma placed_roles:
  assumes "map m_role xs = map m_role ys"
  shows "results_adjacent xs = results_adjacent ys" and "ends_in_tool xs = ends_in_tool ys"
proof -
  show "results_adjacent xs = results_adjacent ys" using assms by (simp add: results_adjacent_def)
  have "xs = [] \<longleftrightarrow> ys = []" using assms by auto
  moreover have "xs \<noteq> [] \<Longrightarrow> ys \<noteq> [] \<Longrightarrow> m_role (last xs) = m_role (last ys)" using assms by (metis last_map)
  ultimately show "ends_in_tool xs = ends_in_tool ys" by (auto simp: ends_in_tool_def)
qed

lemma repair_step_placed:
  assumes "well_placed st"
  shows "well_placed (repair_step t now m st)"
proof -
  consider "is_call m" | "is_result m" | "\<not> is_call m" "\<not> is_result m" by blast
  then show ?thesis
  proof cases
    case 1
    then show ?thesis using flush_placed [OF assms]
      by (auto simp: repair_step_def repair_call_def well_placed_def push_def Let_def results_adjacent_snoc ends_in_tool_def)
  next
    case 2
    let ?xs = "sanitized st"
    have step: "repair_step t now m st = repair_result t m st" using 2 by (simp add: repair_step_def)
    consider "call_open st" | k where "\<not> call_open st" "prevSanitizedRole st = Some ''tool_result''" "lastSyntheticToolCall st = Some k"
      | "\<not> call_open st" "\<not> (prevSanitizedRole st = Some ''tool_result'' \<and> lastSyntheticToolCall st \<noteq> None)" by blast
    then show ?thesis
    proof cases
      case 1
      then show ?thesis using assms 2
        by (auto simp: step repair_result_def call_open_def well_placed_def push_def results_adjacent_snoc ends_in_tool_def)
    next
      case (2 k)
      let ?c = "extend_synthetic (result_use_id m) (?xs ! k)"
      note same = placed_roles [OF roles_update [of ?xs k "result_use_id m"]]
      have "sanitized (repair_result t m st) = ?xs[k := ?c] @ [m]"
        using 2 by (simp add: repair_result_def call_open_def push_def)
      moreover have "results_adjacent (?xs[k := ?c])" "ends_in_tool (?xs[k := ?c])"
        using assms 2(2) by (simp_all add: well_placed_def same)
      ultimately show ?thesis using \<open>is_result m\<close>
        by (simp add: step well_placed_def results_adjacent_snoc ends_in_tool_def)
    next
      case 3
      have "results_adjacent (?xs @ [synthetic_call t m])"
        using assms by (simp add: well_placed_def results_adjacent_snoc synthetic_call_def)
      then have "results_adjacent ((?xs @ [synthetic_call t m]) @ [m])"
        unfolding results_adjacent_snoc by (simp add: ends_in_tool_def synthetic_call_def)
      moreover have "sanitized (repair_result t m st) = ?xs @ [synthetic_call t m, m]"
        using 3 by (auto simp: repair_result_def call_open_def push_def split: option.splits bool.splits)
      ultimately show ?thesis using \<open>is_result m\<close> by (simp add: step well_placed_def ends_in_tool_def)
    qed
  next
    case 3
    then show ?thesis using close_call_placed [OF assms refl]
      by (auto simp: repair_step_def repair_other_def well_placed_def push_def results_adjacent_snoc call_open_def)
  qed
qed

lemma fold_repair_placed: "well_placed st \<Longrightarrow> well_placed (fold (repair_step t now) ms st)"
  by (induction ms arbitrary: st) (auto intro: repair_step_placed)

text \<open>Sanitization loses nothing and leaves no bare result. For every stream, the output contains
  the whole input: the reordered stream, a permutation of the input, is a subsequence of it, so
  messages are only added, never dropped or altered. And in the output every tool result directly follows a tool call
  or another result, which is what the providers' adjacency rule asks for.\<close>

theorem sanitize_preserves:
  "mset (reorderPass ms) = mset ms \<and> subseq (reorderPass ms) (sanitizeToolPairs t now ms) \<and>
   results_adjacent (sanitizeToolPairs t now ms)"
proof -
  have "well_placed repair_start"
    by (simp add: well_placed_def repair_start_def results_adjacent_def call_open_def)
  then have "results_adjacent (repairPass t now xs)" for xs
    unfolding repairPass_def by (rule close_call_placed(1) [OF fold_repair_placed refl])
  then show ?thesis by (simp add: reorderPass_mset repairPass_subseq sanitizeToolPairs_def)
qed

section \<open>Every call is answered\<close>

fun scan_state :: "json list \<Rightarrow> message list \<Rightarrow> json list option" where
  "scan_state p [] = Some p"
| "scan_state p (m # ms) =
     (if is_call m then
        (let ids = set_of_list (extractToolUseIds (m_content m))
         in if p \<noteq> [] \<or> ids = [] then None else scan_state ids ms)
      else if is_result m then
        scan_state (if js_truthy (m_tool_name m) then set_delete (m_tool_name m) p else p) ms
      else if p \<noteq> [] then None else scan_state p ms)"

lemma scan_state_append:
  "scan_state p (xs @ ys) = (case scan_state p xs of None \<Rightarrow> None | Some p' \<Rightarrow> scan_state p' ys)"
  by (induction p xs rule: scan_state.induct) (auto simp: Let_def)

lemma scan_state_unclosed: "scan_state p ms = Some [] \<Longrightarrow> \<not> unclosed_scan p False ms"
  by (induction p ms rule: scan_state.induct) (auto simp: Let_def split: if_splits)

lemma scan_state_results:
  "\<forall>r\<in>set rs. is_result r \<and> js_truthy (m_tool_name r) \<Longrightarrow>
   scan_state p rs = Some (filter (\<lambda>i. i \<notin> m_tool_name ` set rs) p)"
proof (induction rs arbitrary: p)
  case (Cons r rs)
  then show ?case by (auto simp: set_delete_def filter_filter intro!: filter_cong)
qed simp

lemma block_id_truthy: "block_id b = Some i \<Longrightarrow> js_truthy i"
  by (auto simp: block_id_def split: option.splits json.splits if_splits)

lemma extract_truthy: "i \<in> set (extractToolUseIds c) \<Longrightarrow> js_truthy i"
  by (auto simp: extractToolUseIds_def map_filter_def block_id_truthy split: option.splits json.splits if_splits)

lemma extract_use_blocks: "list_all js_truthy ids \<Longrightarrow> extractToolUseIds (json_stringify (JArr (map use_block ids))) = ids"
proof (induction ids)
  case (Cons i ids)
  then show ?case
    by (auto simp: extractToolUseIds_def block_id_def use_block_def obj_get_def List.map_filter_simps split: if_splits)
qed (simp add: extractToolUseIds_def List.map_filter_simps)

lemma synthetic_names:
  "ids \<noteq> [] \<Longrightarrow> m_tool_name ` set (makeSyntheticResults t now l p ids e) = set ids"
proof -
  assume "ids \<noteq> []"
  then have "map m_tool_name (makeSyntheticResults t now l p ids e) = map snd (enumerate 0 ids)"
    by (simp add: makeSyntheticResults_def synthetic_result_def split_beta comp_def)
  then show ?thesis by (metis list.set_map map_snd_enumerate)
qed

text \<open>A stretch of orphans under one synthetic call: the call declares exactly their names.\<close>

definition synthetic_stretch :: "nat \<Rightarrow> message list \<Rightarrow> bool" where
  "synthetic_stretch k xs \<longleftrightarrow>
     (\<exists>pre c rs ids. xs = pre @ c # rs \<and> k = length pre \<and> scan_state [] pre = Some [] \<and> is_call c \<and>
        m_content c = json_stringify (JArr (map use_block ids)) \<and> ids \<noteq> [] \<and> list_all js_truthy ids \<and>
        (\<forall>r\<in>set rs. is_result r \<and> js_truthy (m_tool_name r)) \<and> set ids = m_tool_name ` set rs)"

lemma synthetic_stretch_scan: "synthetic_stretch k xs \<Longrightarrow> scan_state [] xs = Some []"
  unfolding synthetic_stretch_def
proof (elim exE conjE)
  fix pre c rs ids
  assume a: "xs = pre @ c # rs" "scan_state [] pre = Some []" "is_call c" "ids \<noteq> []" "list_all js_truthy ids"
    "m_content c = json_stringify (JArr (map use_block ids))"
    "\<forall>r\<in>set rs. is_result r \<and> js_truthy (m_tool_name r)" "set ids = m_tool_name ` set rs"
  have ids: "set (set_of_list (extractToolUseIds (m_content c))) = set ids" using a(5,6) by (simp add: extract_use_blocks)
  then have "set_of_list (extractToolUseIds (m_content c)) \<noteq> []" using a(4) by (metis set_empty)
  moreover have "filter (\<lambda>i. i \<notin> m_tool_name ` set rs) (set_of_list (extractToolUseIds (m_content c))) = []"
    using ids a(8) by (auto simp: filter_empty_conv)
  ultimately show ?thesis using a(1-3) scan_state_results [OF a(7)]
    by (simp add: scan_state_append Let_def del: set_set_of_list)
qed

lemma synthetic_stretch_extend:
  assumes "synthetic_stretch k xs" and "is_result m" and "js_truthy (m_tool_name m)"
  shows "synthetic_stretch k (xs[k := extend_synthetic (m_tool_name m) (xs ! k)] @ [m])"
proof -
  obtain pre c rs ids where a: "xs = pre @ c # rs" "k = length pre" "scan_state [] pre = Some []" "is_call c" "ids \<noteq> []"
    "list_all js_truthy ids" "m_content c = json_stringify (JArr (map use_block ids))"
    "\<forall>r\<in>set rs. is_result r \<and> js_truthy (m_tool_name r)" "set ids = m_tool_name ` set rs"
    using assms(1) unfolding synthetic_stretch_def by blast
  let ?i = "m_tool_name m" and ?c = "extend_synthetic (m_tool_name m) c"
  have blk: "has_block ?i (map use_block ids) \<longleftrightarrow> ?i \<in> set ids"
    by (auto simp: has_block_def list_ex_iff use_block_def obj_get_def)
  define ids' where "ids' = (if ?i \<in> set ids then ids else ids @ [?i])"
  have "m_content ?c = json_stringify (JArr (map use_block ids'))"
    using a(7) by (simp add: extend_synthetic_def blk ids'_def)
  moreover have "xs[k := extend_synthetic ?i (xs ! k)] @ [m] = pre @ ?c # rs @ [m]" using a(1,2) by simp
  moreover have "set ids' = m_tool_name ` set (rs @ [m])" "ids' \<noteq> []" "list_all js_truthy ids'"
    using a(5,6,9) assms(3) by (auto simp: ids'_def)
  moreover have "is_call ?c" using a(4) by simp
  ultimately show ?thesis using a(2,3,8) assms(2,3) unfolding synthetic_stretch_def
    by (intro exI [of _ pre] exI [of _ ?c] exI [of _ "rs @ [m]"] exI [of _ ids']) simp
qed

definition answered :: "repair_state \<Rightarrow> bool" where
  "answered st \<longleftrightarrow>
     (\<exists>p. scan_state [] (sanitized st) = Some p \<and> set p = set (activePendingIds st)) \<and>
     (\<forall>i\<in>set (activePendingIds st). js_truthy i) \<and>
     (inActiveToolCall st \<longrightarrow> activePendingIds st \<noteq> [] \<and> set (lastToolUseIds st) = set (activePendingIds st)) \<and>
     (\<forall>k. lastSyntheticToolCall st = Some k \<longrightarrow>
        \<not> call_open st \<and> prevSanitizedRole st = Some ''tool_result'' \<and> synthetic_stretch k (sanitized st))"

lemma scan_synthetic:
  assumes "scan_state [] xs = Some p" and "set p \<subseteq> set ids" and "ids \<noteq> []" and "\<forall>i\<in>set ids. js_truthy i"
  shows "scan_state [] (xs @ makeSyntheticResults t now l pre ids e) = Some []"
proof -
  let ?rs = "makeSyntheticResults t now l pre ids e"
  have names: "m_tool_name ` set ?rs = set ids" by (rule synthetic_names [OF assms(3)])
  then have "\<forall>r\<in>set ?rs. is_result r \<and> js_truthy (m_tool_name r)"
    using synthetic_results assms(4) by blast
  then show ?thesis
    using assms(1,2) by (auto simp: scan_state_append scan_state_results names filter_empty_conv)
qed

lemma close_call_answered:
  assumes "answered st"
  shows "scan_state [] (sanitized (close_call t now p e st)) = Some []" and "\<not> call_open (close_call t now p e st)"
proof -
  obtain q where q: "scan_state [] (sanitized st) = Some q" "set q = set (activePendingIds st)"
    using assms unfolding answered_def by blast
  have tr: "\<forall>i\<in>set (activePendingIds st). js_truthy i" using assms by (simp add: answered_def)
  have act: "inActiveToolCall st \<Longrightarrow> lastToolUseIds st \<noteq> [] \<and> set (lastToolUseIds st) = set (activePendingIds st)"
    using assms unfolding answered_def by (metis set_empty)
  show "scan_state [] (sanitized (close_call t now p e st)) = Some []"
    using q tr act scan_synthetic [OF q(1)]
    by (cases "inActiveToolCall st"; cases "activePendingIds st = []")
      (simp_all add: close_call_def flushPendingIds_def push_def)
  show "\<not> call_open (close_call t now p e st)"
    by (simp add: close_call_def flushPendingIds_def push_def call_open_def)
qed

lemma flush_answered:
  assumes "answered st"
  shows "scan_state [] (sanitized (flushPendingIds t now p e st)) = Some []"
proof -
  obtain q where q: "scan_state [] (sanitized st) = Some q" "set q = set (activePendingIds st)"
    using assms unfolding answered_def by blast
  show ?thesis
    using q assms scan_synthetic [OF q(1), of "activePendingIds st"]
    by (cases "activePendingIds st = []") (simp_all add: flushPendingIds_def push_def answered_def)
qed

definition well_named :: "message \<Rightarrow> bool" where
  "well_named m \<longleftrightarrow>
     (is_call m \<longrightarrow> extractToolUseIds (m_content m) \<noteq> []) \<and> (is_result m \<longrightarrow> js_truthy (m_tool_name m))"

lemma set_of_list_Nil [simp]: "set_of_list xs = [] \<longleftrightarrow> xs = []"
  by (metis set_empty set_set_of_list)

lemma repair_call_answered:
  assumes "answered st" and "is_call m" and "well_named m"
  shows "answered (repair_call t now m st)"
proof -
  let ?ids = "extractToolUseIds (m_content m)"
  have ids: "?ids \<noteq> []" using assms by (simp add: well_named_def)
  have "scan_state [] (sanitized (repair_call t now m st)) = Some (set_of_list ?ids)"
    using flush_answered [OF assms(1), of t now] ids assms(2)
    by (simp add: repair_call_def push_def Let_def scan_state_append)
  then show ?thesis using ids extract_truthy
    by (auto simp: answered_def repair_call_def push_def Let_def)
qed

lemma repair_result_answered:
  assumes "answered st" and "is_result m" and "well_named m"
  shows "answered (repair_result t m st)"
proof -
  let ?xs = "sanitized st"
  have named: "js_truthy (m_tool_name m)" using assms by (simp add: well_named_def)
  then have use_id: "result_use_id m = m_tool_name m" by (simp add: result_use_id_def)
  obtain q where q: "scan_state [] ?xs = Some q" "set q = set (activePendingIds st)"
    using assms unfolding answered_def by blast
  consider "call_open st" | k where "\<not> call_open st" "prevSanitizedRole st = Some ''tool_result''" "lastSyntheticToolCall st = Some k"
    | "\<not> call_open st" "\<not> (prevSanitizedRole st = Some ''tool_result'' \<and> lastSyntheticToolCall st \<noteq> None)" by blast
  then show ?thesis
  proof cases
    case 1
    then have "lastSyntheticToolCall st = None" using assms(1) unfolding answered_def by (metis not_Some_eq)
    then show ?thesis using 1 q assms(1,2) named
      by (auto simp: answered_def repair_result_def call_open_def push_def scan_state_append)
  next
    case (2 k)
    let ?ys = "?xs[k := extend_synthetic (m_tool_name m) (?xs ! k)] @ [m]"
    have st: "sanitized (repair_result t m st) = ?ys" "activePendingIds (repair_result t m st) = []"
        "\<not> call_open (repair_result t m st)" "lastSyntheticToolCall (repair_result t m st) = Some k"
        "prevSanitizedRole (repair_result t m st) = Some ''tool_result''"
      using 2 by (simp_all add: repair_result_def call_open_def push_def use_id)
    have "synthetic_stretch k ?ys"
      using assms(1,2) named 2 synthetic_stretch_extend unfolding answered_def by blast
    with synthetic_stretch_scan [OF this] st show ?thesis by (simp add: answered_def call_open_def)
  next
    case 3
    let ?ys = "?xs @ [synthetic_call t m, m]"
    have st: "sanitized (repair_result t m st) = ?ys" "activePendingIds (repair_result t m st) = []"
        "\<not> call_open (repair_result t m st)" "lastSyntheticToolCall (repair_result t m st) = Some (length ?xs)"
        "prevSanitizedRole (repair_result t m st) = Some ''tool_result''"
      using 3 by (auto simp: repair_result_def call_open_def push_def split: option.splits bool.splits)
    have "scan_state [] ?xs = Some []" using q 3(1) by (simp add: call_open_def)
    then have "synthetic_stretch (length ?xs) ?ys" using named assms(2)
      unfolding synthetic_stretch_def
      by (intro exI [of _ ?xs] exI [of _ "synthetic_call t m"] exI [of _ "[m]"] exI [of _ "[m_tool_name m]"])
        (simp add: synthetic_call_def use_id)
    with synthetic_stretch_scan [OF this] st show ?thesis by (simp add: answered_def call_open_def)
  qed
qed

lemma repair_step_answered:
  assumes "answered st" and "well_named m"
  shows "answered (repair_step t now m st)"
proof -
  consider "is_call m" | "is_result m" | "\<not> is_call m" "\<not> is_result m" by blast
  then show ?thesis
  proof cases
    case 3
    then show ?thesis using close_call_answered [OF assms(1)]
      by (simp add: answered_def repair_step_def repair_other_def push_def scan_state_append call_open_def)
  qed (use assms in \<open>simp_all add: repair_step_def repair_call_answered repair_result_answered\<close>)
qed

lemma fold_repair_answered:
  "answered st \<Longrightarrow> \<forall>m\<in>set ms. well_named m \<Longrightarrow> answered (fold (repair_step t now) ms st)"
  by (induction ms arbitrary: st) (auto intro: repair_step_answered)

lemma sanitized_closed:
  assumes "\<forall>m\<in>set ms. well_named m"
  shows "\<not> hasUnclosedToolCall (sanitizeToolPairs t now ms)"
proof -
  have "set (reorderPass ms) = set ms" by (metis reorderPass_mset set_mset_mset)
  moreover have "answered repair_start" by (simp add: answered_def repair_start_def)
  ultimately show ?thesis
    using assms unfolding hasUnclosedToolCall_def sanitizeToolPairs_def repairPass_def
    by (intro scan_state_unclosed close_call_answered fold_repair_answered) simp_all
qed

text \<open>C4: Every call is closed. When the calls of the stream carry tool-use blocks and its results carry
  names, then in the output every tool-use id of every call, real or synthetic, is answered by a
  result before the next call and before the next other message: the code's own check finds no
  unclosed call, whatever was interrupted, truncated away or delivered out of order.\<close>

theorem sanitize_closes:
  assumes "\<forall>m\<in>set ms. is_call m \<longrightarrow> extractToolUseIds (m_content m) \<noteq> []"
    and "\<forall>m\<in>set ms. is_result m \<longrightarrow> js_truthy (m_tool_name m)"
  shows "\<not> hasUnclosedToolCall (sanitizeToolPairs t now ms)"
  using assms by (intro sanitized_closed) (simp add: well_named_def)

definition call_msg :: "string \<Rightarrow> string list \<Rightarrow> message" where
  "call_msg i ids =
     \<lparr>m_id = i, m_thread = ''t'', m_role = ''tool_call'', m_content = Json (JArr (map (\<lambda>u. use_block (JStr u)) ids)),
      m_model = None, m_tool_name = JNull, m_created = ''c'', m_modified = None, m_host = ''h'', m_deleted = 0,
      m_exit = None, m_metadata = None\<rparr>"

definition plain_msg :: "string \<Rightarrow> string \<Rightarrow> json \<Rightarrow> message" where
  "plain_msg i role name =
     \<lparr>m_id = i, m_thread = ''t'', m_role = role, m_content = NotJson ''x'', m_model = None, m_tool_name = name,
      m_created = ''c'', m_modified = None, m_host = ''h'', m_deleted = 0, m_exit = None, m_metadata = None\<rparr>"

definition racy_stream :: "message list" where
  "racy_stream =
     [plain_msg ''1'' ''tool_result'' (JStr ''z''), call_msg ''2'' [''a'', ''b''], plain_msg ''3'' ''user'' JNull,
      plain_msg ''4'' ''tool_result'' (JStr ''a''), call_msg ''5'' [''c''], plain_msg ''6'' ''tool_result'' (JStr ''b'')]"

theorem sanitize_closes_witness:
  "\<not> hasUnclosedToolCall (sanitizeToolPairs ''t'' ''now'' racy_stream) \<and>
   map m_id (sanitizeToolPairs ''t'' ''now'' racy_stream) =
     [''synthetic-1'', ''1'', ''3'', ''2'', ''4'', ''6'', ''5'', ''synthetic-close-5-0'']"
proof
  show "\<not> hasUnclosedToolCall (sanitizeToolPairs ''t'' ''now'' racy_stream)"
  proof (rule sanitize_closes)
    show "\<forall>m\<in>set racy_stream. is_call m \<longrightarrow> extractToolUseIds (m_content m) \<noteq> []" by code_simp
    show "\<forall>m\<in>set racy_stream. is_result m \<longrightarrow> js_truthy (m_tool_name m)" by code_simp
  qed
  show "map m_id (sanitizeToolPairs ''t'' ''now'' racy_stream) =
     [''synthetic-1'', ''1'', ''3'', ''2'', ''4'', ''6'', ''5'', ''synthetic-close-5-0'']" by code_simp
qed

section \<open>Where the stated post-conditions fail\<close>

lemma reorder_results: "\<forall>m\<in>set ms. is_result m \<Longrightarrow> reorderPass ms = ms"
proof -
  assume r: "\<forall>m\<in>set ms. is_result m"
  have "fold (scan_step ms) [0..<k] ([], {}) = ([0..<k], {})" if "k \<le> length ms" for k
    using that
  proof (induction k)
    case (Suc k)
    then have "is_result (ms ! k)" using r by simp
    then show ?case using Suc by simp
  qed simp
  then show ?thesis by (simp add: reorder_equivalent reorder_by_scan_def map_nth)
qed

lemma synthetic_call_use:
  "is_call (synthetic_call t m)" "js_truthy (result_use_id m) \<Longrightarrow>
   extractToolUseIds (m_content (synthetic_call t m)) = [result_use_id m]"
  using extract_use_blocks [of "[result_use_id m]"] by (simp_all add: synthetic_call_def)

lemma reorder_call_results:
  assumes "is_call c" and "is_result r1" and "is_result r2"
  shows "reorderPass [c, r1, r2] = [c, r1, r2]"
  using assms
  by (simp add: reorder_equivalent reorder_by_scan_def open_gap_def late_results_def upt_rec Let_def numeral_eq_Suc)

text \<open>Sanitization is not idempotent. Two orphaned results of the same name get one synthetic
  call with a single block, which both of them answer; a second run takes the second result for an
  orphan and declares it again, under a new call.\<close>

theorem repeated_orphan_not_idempotent:
  assumes "is_result r1" and "is_result r2" and "m_tool_name r1 = i" and "m_tool_name r2 = i" and "js_truthy i"
  shows "sanitizeToolPairs t now [r1, r2] = [synthetic_call t r1, r1, r2] \<and>
    sanitizeToolPairs t now [synthetic_call t r1, r1, r2] = [synthetic_call t r1, r1, synthetic_call t r2, r2]"
proof -
  have use_id: "result_use_id r1 = i" "result_use_id r2 = i" using assms by (simp_all add: result_use_id_def)
  have once: "extend_synthetic i (synthetic_call t r1) = synthetic_call t r1"
    by (simp add: extend_synthetic_def synthetic_call_def use_id has_block_def use_block_def obj_get_def)
  have first: "sanitizeToolPairs t now [r1, r2] = [synthetic_call t r1, r1, r2]"
    using assms once
    by (simp add: sanitizeToolPairs_def reorder_results repairPass_def repair_start_def repair_step_def
        repair_result_def push_def use_id close_call_def flushPendingIds_def)
  have ids: "set_of_list (extractToolUseIds (m_content (synthetic_call t r1))) = [i]"
    using assms(5) by (simp add: synthetic_call_use use_id set_of_list_def set_add_def)
  have "sanitizeToolPairs t now [synthetic_call t r1, r1, r2] = [synthetic_call t r1, r1, synthetic_call t r2, r2]"
    using assms ids reorder_call_results [of "synthetic_call t r1" r1 r2]
    by (simp add: sanitizeToolPairs_def synthetic_call_use repairPass_def repair_start_def repair_step_def
        repair_call_def repair_result_def push_def Let_def close_call_def flushPendingIds_def set_delete_def)
  with first show ?thesis ..
qed

text \<open>A result under a foreign id stays orphaned. When a call is followed by a result whose
  name is not one of the call's ids, the result is passed through and no call declares it: the
  code's own check reports an orphan in the output.\<close>

theorem foreign_result_orphaned:
  assumes "is_call c" and "is_result r" and "extractToolUseIds (m_content c) \<noteq> []" and "js_truthy (m_tool_name r)"
    and "m_tool_name r \<notin> set (extractToolUseIds (m_content c))"
  shows "hasOrphanedToolResult (sanitizeToolPairs t now [c, r])"
proof -
  have "reorderPass [c, r] = [c, r]"
    using assms
    by (simp add: reorder_equivalent reorder_by_scan_def open_gap_def late_results_def upt_rec Let_def numeral_eq_Suc)
  then have "\<exists>rest. sanitizeToolPairs t now [c, r] = c # r # rest"
    using assms
    by (simp add: sanitizeToolPairs_def repairPass_def repair_start_def repair_step_def
        repair_call_def repair_result_def push_def Let_def close_call_def flushPendingIds_def)
  then show ?thesis using assms by (auto simp: hasOrphanedToolResult_def)
qed

theorem repeated_orphan_not_idempotent_witness:
  "sanitizeToolPairs ''t'' ''n'' (sanitizeToolPairs ''t'' ''n''
     [plain_msg ''1'' ''tool_result'' (JStr ''a''), plain_msg ''2'' ''tool_result'' (JStr ''a'')]) \<noteq>
   sanitizeToolPairs ''t'' ''n'' [plain_msg ''1'' ''tool_result'' (JStr ''a''), plain_msg ''2'' ''tool_result'' (JStr ''a'')]"
  using repeated_orphan_not_idempotent [of "plain_msg ''1'' ''tool_result'' (JStr ''a'')"
      "plain_msg ''2'' ''tool_result'' (JStr ''a'')" "JStr ''a''" "''t''" "''n''"]
  by (simp add: plain_msg_def)

theorem foreign_result_orphaned_witness:
  "hasOrphanedToolResult (sanitizeToolPairs ''t'' ''n'' [call_msg ''1'' [''a''], plain_msg ''2'' ''tool_result'' (JStr ''b'')])"
proof (rule foreign_result_orphaned)
  show "extractToolUseIds (m_content (call_msg ''1'' [''a''])) \<noteq> []" by code_simp
  show "m_tool_name (plain_msg ''2'' ''tool_result'' (JStr ''b'')) \<notin> set (extractToolUseIds (m_content (call_msg ''1'' [''a''])))"
    by code_simp
qed (simp_all add: call_msg_def plain_msg_def)

end
