(* ===== verification/Stream_Parser.thy ===== *)
theory Stream_Parser
  imports Hlc "HOL-Library.Sublist"
begin

text \<open>
  Turning a model's chunk stream into one response (\<open>packages/loop/src/stream-parser.ts\<close>):
  reassigning repeated tool-use ids, accumulating text, thinking and tool arguments, and dropping
  drafts of tool calls that a later call of the same tool supersedes. \<open>JSON.parse\<close> on the
  accumulated argument text is an argument (\<open>None\<close>: it throws); \<open>factory k i\<close> is the id that the
  \<open>k\<close>th call of the duplicate-id factory returns for \<open>i\<close>. Logging is left out.
\<close>

record usage_info =
  input_tokens :: nat
  output_tokens :: nat
  cache_write_tokens :: "nat option"
  cache_read_tokens :: "nat option"
  estimated :: bool

datatype finish_reason = F_Stop | F_Length | F_Content_Filter | F_Tool_Calls | F_Error | F_Other | F_Unknown

datatype stream_chunk =
    Text string
  | Thinking string "string option" "string option" "string option"
  | Tool_Use_Start string string
  | Tool_Use_Args string string
  | Tool_Use_End string
  | Done usage_info "rat option" "finish_reason option"
  | Error_Chunk string
  | Heartbeat

record tool_call =
  tc_id :: string
  tc_name :: string
  tc_input :: json
  tc_args :: string
  tc_truncated :: bool

record parsed_response =
  textContent :: string
  thinking :: "string option"
  thinkingSignature :: "string option"
  thinkingRedactedData :: "string option"
  thinkingEncryptedContent :: "string option"
  toolCalls :: "tool_call list"
  finishReason :: "finish_reason option"
  usage :: usage_info
  costUsdFromHub :: "rat option"

section \<open>Repeated ids\<close>

record remap_state =
  seenIds :: "string list"
  idRemap :: "string \<Rightarrow> string option"
  factory_calls :: nat

definition remap_chunk ::
  "(nat \<Rightarrow> string \<Rightarrow> string) \<Rightarrow> stream_chunk \<Rightarrow> remap_state \<Rightarrow> stream_chunk \<times> remap_state" where
  "remap_chunk factory c st =
     (case c of
        Tool_Use_Start i n \<Rightarrow>
          if i \<in> set (seenIds st) then
            (let newId = factory (factory_calls st) i
             in (Tool_Use_Start newId n,
                 \<lparr>seenIds = newId # seenIds st, idRemap = (idRemap st)(i := Some newId),
                  factory_calls = factory_calls st + 1\<rparr>))
          else (c, st\<lparr>seenIds := i # seenIds st\<rparr>)
      | Tool_Use_Args i a \<Rightarrow>
          (case idRemap st i of
             Some r \<Rightarrow> if r \<noteq> [] then (Tool_Use_Args r a, st) else (c, st)
           | None \<Rightarrow> (c, st))
      | Tool_Use_End i \<Rightarrow>
          (case idRemap st i of
             Some r \<Rightarrow> if r \<noteq> [] then (Tool_Use_End r, st) else (c, st)
           | None \<Rightarrow> (c, st))
      | _ \<Rightarrow> (c, st))"

fun remap_chunks ::
  "(nat \<Rightarrow> string \<Rightarrow> string) \<Rightarrow> stream_chunk list \<Rightarrow> remap_state \<Rightarrow> stream_chunk list \<times> remap_state" where
  "remap_chunks factory [] st = ([], st)"
| "remap_chunks factory (c # cs) st =
     (let (c', st1) = remap_chunk factory c st; (cs', st2) = remap_chunks factory cs st1 in (c' # cs', st2))"

section \<open>Accumulating\<close>

record parse_state =
  p_text :: string
  p_thinking :: string
  p_signature :: "string option"
  p_redacted :: "string option"
  p_encrypted :: "string option"
  p_calls :: "tool_call list"
  argsAccumulator :: "string \<Rightarrow> string option"
  nameMap :: "string \<Rightarrow> string option"
  p_usage :: usage_info
  p_cost :: "rat option"
  p_finish :: "finish_reason option"

definition parse_start :: parse_state where
  "parse_start =
     \<lparr>p_text = [], p_thinking = [], p_signature = None, p_redacted = None, p_encrypted = None, p_calls = [],
      argsAccumulator = (\<lambda>_. None), nameMap = (\<lambda>_. None),
      p_usage = \<lparr>input_tokens = 0, output_tokens = 0, cache_write_tokens = None, cache_read_tokens = None, estimated = False\<rparr>,
      p_cost = None, p_finish = None\<rparr>"

text \<open>\<open>if (v) x = v\<close> for an optional string.\<close>

definition set_if_truthy :: "string option \<Rightarrow> string option \<Rightarrow> string option" where
  "set_if_truthy v old = (case v of Some s \<Rightarrow> if s \<noteq> [] then Some s else old | None \<Rightarrow> old)"

definition or_empty :: "string option \<Rightarrow> string" where
  "or_empty s = (case s of None \<Rightarrow> [] | Some t \<Rightarrow> t)"

definition end_call :: "(string \<Rightarrow> json option) \<Rightarrow> string \<Rightarrow> parse_state \<Rightarrow> tool_call" where
  "end_call parse i st =
     (let raw = or_empty (argsAccumulator st i);
          fullArgsJson = (if raw \<noteq> [] then raw else ''{}'');
          nm = (case nameMap st i of None \<Rightarrow> i | Some n \<Rightarrow> n)
      in case parse fullArgsJson of
           Some v \<Rightarrow> \<lparr>tc_id = i, tc_name = nm, tc_input = v, tc_args = fullArgsJson, tc_truncated = False\<rparr>
         | None \<Rightarrow> \<lparr>tc_id = i, tc_name = nm, tc_input = JObj [], tc_args = fullArgsJson, tc_truncated = True\<rparr>)"

fun parse_chunk :: "(string \<Rightarrow> json option) \<Rightarrow> stream_chunk \<Rightarrow> parse_state \<Rightarrow> parse_state" where
  "parse_chunk parse (Text s) st = st\<lparr>p_text := p_text st @ s\<rparr>"
| "parse_chunk parse (Thinking s sig red enc) st =
     st\<lparr>p_thinking := p_thinking st @ s, p_signature := set_if_truthy sig (p_signature st),
        p_redacted := set_if_truthy red (p_redacted st), p_encrypted := set_if_truthy enc (p_encrypted st)\<rparr>"
| "parse_chunk parse (Tool_Use_Start i n) st =
     st\<lparr>argsAccumulator := (argsAccumulator st)(i := Some []), nameMap := (nameMap st)(i := Some n)\<rparr>"
| "parse_chunk parse (Tool_Use_Args i a) st =
     st\<lparr>argsAccumulator := (argsAccumulator st)(i := Some (or_empty (argsAccumulator st i) @ a))\<rparr>"
| "parse_chunk parse (Tool_Use_End i) st = st\<lparr>p_calls := p_calls st @ [end_call parse i st]\<rparr>"
| "parse_chunk parse (Done u cost fin) st = st\<lparr>p_usage := u, p_cost := cost, p_finish := fin\<rparr>"
| "parse_chunk parse (Error_Chunk e) st = st"
| "parse_chunk parse Heartbeat st = st"

section \<open>Superseded drafts\<close>

definition trim :: "string \<Rightarrow> string" where
  "trim s = rev (dropWhile is_space (rev (dropWhile is_space s)))"

text \<open>\<open>Object.keys(v).length === 0\<close>.\<close>

fun no_keys :: "json \<Rightarrow> bool" where
  "no_keys (JObj ob) = (ob = [])"
| "no_keys (JArr xs) = (xs = [])"
| "no_keys (JStr s) = (s = [])"
| "no_keys _ = True"

definition isEmptyObjectCall :: "tool_call \<Rightarrow> bool" where
  "isEmptyObjectCall c \<longleftrightarrow> \<not> tc_truncated c \<and> trim (tc_args c) = ''{}'' \<and> no_keys (tc_input c)"

definition isSupersededToolCallDraft :: "tool_call \<Rightarrow> tool_call \<Rightarrow> nat \<Rightarrow> bool" where
  "isSupersededToolCallDraft earlier later emptySameToolCount \<longleftrightarrow>
     (if tc_name earlier \<noteq> tc_name later then False
      else if tc_truncated later then False
      else if tc_truncated earlier \<and> (trim (tc_args earlier) = [] \<or> prefix (trim (tc_args earlier)) (trim (tc_args later)))
      then True
      else 1 < emptySameToolCount \<and> isEmptyObjectCall earlier \<and> \<not> isEmptyObjectCall later)"

text \<open>Calls grouped by tool name, in order of first appearance, each with its index.\<close>

fun group_call :: "nat \<Rightarrow> tool_call \<Rightarrow> (string \<times> (tool_call \<times> nat) list) list \<Rightarrow> (string \<times> (tool_call \<times> nat) list) list" where
  "group_call k c [] = [(tc_name c, [(c, k)])]"
| "group_call k c ((n, g) # gs) = (if n = tc_name c then (n, g @ [(c, k)]) # gs else (n, g) # group_call k c gs)"

definition group_calls :: "tool_call list \<Rightarrow> (string \<times> (tool_call \<times> nat) list) list" where
  "group_calls calls = fold (\<lambda>(k, c) gs. group_call k c gs) (enumerate 0 calls) []"

definition empty_count :: "tool_call list \<Rightarrow> string \<Rightarrow> nat" where
  "empty_count calls name = length (filter (\<lambda>c. tc_name c = name \<and> isEmptyObjectCall c) calls)"

fun drop_in_group :: "nat \<Rightarrow> (tool_call \<times> nat) list \<Rightarrow> nat list" where
  "drop_in_group n [] = []"
| "drop_in_group n ((c, k) # g) =
     (if list_ex (\<lambda>(d, j). isSupersededToolCallDraft c d n) g then [k] else []) @ drop_in_group n g"

definition dropped_indices :: "tool_call list \<Rightarrow> nat list" where
  "dropped_indices calls = concat (map (\<lambda>(name, g). drop_in_group (empty_count calls name) g) (group_calls calls))"

definition dropSupersededToolCallDrafts :: "tool_call list \<Rightarrow> tool_call list" where
  "dropSupersededToolCallDrafts calls =
     (if length calls < 2 then calls
      else map snd (filter (\<lambda>(k, c). k \<notin> set (dropped_indices calls)) (enumerate 0 calls)))"

definition raw_parse :: "(string \<Rightarrow> json option) \<Rightarrow> (nat \<Rightarrow> string \<Rightarrow> string) \<Rightarrow> stream_chunk list \<Rightarrow> parse_state" where
  "raw_parse parse factory chunks =
     fold (parse_chunk parse)
       (fst (remap_chunks factory chunks \<lparr>seenIds = [], idRemap = (\<lambda>_. None), factory_calls = 0\<rparr>)) parse_start"

definition parseResponseChunks ::
  "(string \<Rightarrow> json option) \<Rightarrow> (nat \<Rightarrow> string \<Rightarrow> string) \<Rightarrow> stream_chunk list \<Rightarrow> parsed_response" where
  "parseResponseChunks parse factory chunks =
     (let st = raw_parse parse factory chunks
      in \<lparr>textContent = p_text st, thinking = (if p_thinking st = [] then None else Some (p_thinking st)),
          thinkingSignature = p_signature st, thinkingRedactedData = p_redacted st,
          thinkingEncryptedContent = p_encrypted st, toolCalls = dropSupersededToolCallDrafts (p_calls st),
          finishReason = p_finish st, usage = p_usage st, costUsdFromHub = p_cost st\<rparr>)"

section \<open>Which calls are dropped\<close>

lemma enumerate_snoc: "enumerate 0 (xs @ [x]) = enumerate 0 xs @ [(length xs, x)]"
  by (simp add: enumerate_append_eq)

definition indexed :: "tool_call list \<Rightarrow> (tool_call \<times> nat) list" where
  "indexed calls = map prod.swap (enumerate 0 calls)"

lemma indexed_snoc [simp]: "indexed (calls @ [c]) = indexed calls @ [(c, length calls)]" "indexed [] = []"
  by (simp_all add: indexed_def enumerate_snoc)

lemma group_call_lookup:
  "distinct (map fst gs) \<Longrightarrow>
   distinct (map fst (group_call k c gs)) \<and> fst ` set (group_call k c gs) = insert (tc_name c) (fst ` set gs) \<and>
   (\<forall>n. map_of (group_call k c gs) n =
      (if n = tc_name c then Some (case map_of gs n of None \<Rightarrow> [(c, k)] | Some g \<Rightarrow> g @ [(c, k)]) else map_of gs n))"
  by (induction k c gs rule: group_call.induct) (auto split: option.splits)

lemma group_calls_lookup:
  "distinct (map fst (group_calls calls)) \<and>
   (\<forall>n. map_of (group_calls calls) n =
      (let g = filter (\<lambda>(c, k). tc_name c = n) (indexed calls) in if g = [] then None else Some g))"
proof (induction calls rule: rev_induct)
  case Nil
  then show ?case by (simp add: group_calls_def)
next
  case (snoc c calls)
  have "group_calls (calls @ [c]) = group_call (length calls) c (group_calls calls)"
    by (simp add: group_calls_def enumerate_snoc)
  then show ?case using snoc group_call_lookup [of "group_calls calls" "length calls" c] by (auto simp: Let_def)
qed

lemma set_drop_in_group:
  "sorted_wrt (\<lambda>x y. snd x < snd y) g \<Longrightarrow>
   k \<in> set (drop_in_group n g) \<longleftrightarrow>
     (\<exists>c d j. (c, k) \<in> set g \<and> (d, j) \<in> set g \<and> k < j \<and> isSupersededToolCallDraft c d n)"
proof (induction n g rule: drop_in_group.induct)
  case (2 n c i g)
  then have lt: "i < j" if "(d, j) \<in> set g" for d j using that by fastforce
  have "k \<in> set (drop_in_group n ((c, i) # g)) \<longleftrightarrow>
      (k = i \<and> (\<exists>(d, j)\<in>set g. isSupersededToolCallDraft c d n)) \<or> k \<in> set (drop_in_group n g)"
    by (auto simp: list_ex_iff)
  also have "k \<in> set (drop_in_group n g) \<longleftrightarrow>
      (\<exists>c d j. (c, k) \<in> set g \<and> (d, j) \<in> set g \<and> k < j \<and> isSupersededToolCallDraft c d n)"
    using 2 by simp
  finally show ?case by (auto dest: lt)
qed simp

lemma sorted_indexed: "sorted_wrt (\<lambda>x y. snd x < snd y) (indexed calls)"
  and set_indexed: "set (indexed calls) = {(calls ! k, k) | k. k < length calls}"
proof -
  show "sorted_wrt (\<lambda>x y. snd x < snd y) (indexed calls)"
  proof (induction calls rule: rev_induct)
    case (snoc c calls)
    have "k < length calls" if "(d, k) \<in> set (indexed calls)" for d k
      using that by (auto simp: indexed_def in_set_enumerate_eq)
    then show ?case using snoc by (auto simp: sorted_wrt_append)
  qed simp
  show "set (indexed calls) = {(calls ! k, k) | k. k < length calls}"
  proof (intro set_eqI iffI)
    fix x assume "x \<in> {(calls ! k, k) | k. k < length calls}"
    then obtain k where "x = prod.swap (k, calls ! k)" "(k, calls ! k) \<in> set (enumerate 0 calls)"
      by (auto simp: in_set_enumerate_eq)
    then show "x \<in> set (indexed calls)" by (auto simp: indexed_def)
  qed (auto simp: indexed_def in_set_enumerate_eq)
qed

definition superseded_at :: "tool_call list \<Rightarrow> nat \<Rightarrow> nat \<Rightarrow> bool" where
  "superseded_at calls k j \<longleftrightarrow>
     k < j \<and> j < length calls \<and>
     isSupersededToolCallDraft (calls ! k) (calls ! j) (empty_count calls (tc_name (calls ! k)))"

lemma dropped_iff: "k \<in> set (dropped_indices calls) \<longleftrightarrow> (\<exists>j. superseded_at calls k j)"
proof -
  let ?g = "\<lambda>n. filter (\<lambda>(c, k). tc_name c = n) (indexed calls)"
  have group: "(n, g) \<in> set (group_calls calls) \<longleftrightarrow> g = ?g n \<and> g \<noteq> []" for n g
  proof -
    have "(n, g) \<in> set (group_calls calls) \<longleftrightarrow> map_of (group_calls calls) n = Some g"
      using group_calls_lookup [of calls, THEN conjunct1] by (simp add: map_of_eq_Some_iff)
    also have "\<dots> \<longleftrightarrow> g = ?g n \<and> g \<noteq> []" using group_calls_lookup [of calls] by (auto simp: Let_def)
    finally show ?thesis .
  qed
  have sorted: "sorted_wrt (\<lambda>x y. snd x < snd y) (?g n)" for n
    using sorted_indexed by (rule sorted_wrt_filter)
  have "k \<in> set (dropped_indices calls) \<longleftrightarrow> (\<exists>n. k \<in> set (drop_in_group (empty_count calls n) (?g n)))"
    using group by (auto simp: dropped_indices_def) (metis drop_in_group.simps(1) empty_iff empty_set)
  also have "\<dots> \<longleftrightarrow> (\<exists>n c d j. (c, k) \<in> set (?g n) \<and> (d, j) \<in> set (?g n) \<and> k < j \<and>
      isSupersededToolCallDraft c d (empty_count calls n))"
    unfolding set_drop_in_group [OF sorted] by blast
  also have "\<dots> \<longleftrightarrow> (\<exists>j. superseded_at calls k j)"
    by (auto simp: set_indexed superseded_at_def isSupersededToolCallDraft_def)
  finally show ?thesis .
qed

text \<open>The calls that no later call of the turn supersedes.\<close>

definition kept_indices :: "tool_call list \<Rightarrow> nat set" where
  "kept_indices calls = {k. k < length calls \<and> (\<forall>j. \<not> superseded_at calls k j)}"

lemma survivor:
  assumes "k < length calls" and "k \<notin> kept_indices calls"
  shows "\<exists>j\<in>kept_indices calls. k < j \<and> tc_name (calls ! j) = tc_name (calls ! k) \<and> \<not> tc_truncated (calls ! j)"
proof -
  have later: "k < j \<and> j < length calls \<and> tc_name (calls ! j) = tc_name (calls ! k) \<and> \<not> tc_truncated (calls ! j)"
    if "superseded_at calls k j" for k j
    using that by (auto simp: superseded_at_def isSupersededToolCallDraft_def split: if_splits)
  obtain j where j: "superseded_at calls k j" using assms by (auto simp: kept_indices_def)
  show ?thesis
  proof (cases "j \<in> kept_indices calls")
    case True
    then show ?thesis using later [OF j] by blast
  next
    case False
    then obtain j' where j': "superseded_at calls j j'" using later [OF j] by (auto simp: kept_indices_def)
    have "\<not> isEmptyObjectCall (calls ! j')"
      using j' later [OF j] by (auto simp: superseded_at_def isSupersededToolCallDraft_def split: if_splits)
    then have "\<not> superseded_at calls j' m" for m
      using later [OF j'] by (auto simp: superseded_at_def isSupersededToolCallDraft_def split: if_splits)
    then have "j' \<in> kept_indices calls" using later [OF j'] by (simp add: kept_indices_def)
    then show ?thesis using later [OF j] later [OF j'] by (intro bexI [of _ j']) auto
  qed
qed

lemma nths_enumerate: "map snd (filter (\<lambda>(k, c). k \<in> A) (enumerate 0 xs)) = nths xs A"
proof (induction xs rule: rev_induct)
  case (snoc x xs)
  then show ?case by (auto simp: enumerate_snoc nths_append nths_singleton)
qed simp

text \<open>Dropping drafts group by group is the pairwise rule, and never loses a tool. The result
  consists of exactly the calls that no later call of the same tool supersedes, in their order,
  and for every dropped call a later call of the same tool with complete arguments is kept.\<close>

theorem drafts_dropped_pairwise:
  "dropSupersededToolCallDrafts calls = nths calls (kept_indices calls) \<and>
   (\<forall>k < length calls. k \<notin> kept_indices calls \<longrightarrow>
      (\<exists>j\<in>kept_indices calls. k < j \<and> tc_name (calls ! j) = tc_name (calls ! k) \<and> \<not> tc_truncated (calls ! j)))"
proof -
  have kept: "k \<in> kept_indices calls \<longleftrightarrow> k \<notin> set (dropped_indices calls)" if "k < length calls" for k
    using that by (simp add: kept_indices_def dropped_iff)
  have "map snd (filter (\<lambda>(k, c). k \<notin> set (dropped_indices calls)) (enumerate 0 calls)) =
      map snd (filter (\<lambda>(k, c). k \<in> kept_indices calls) (enumerate 0 calls))"
    by (intro arg_cong [where f = "map snd"] filter_cong) (auto simp: kept in_set_enumerate_eq)
  moreover have "calls = nths calls (kept_indices calls)" if "length calls < 2"
  proof -
    have "kept_indices calls = {..<length calls}" using that by (auto simp: kept_indices_def superseded_at_def)
    then show ?thesis by simp
  qed
  ultimately show ?thesis using survivor by (simp add: dropSupersededToolCallDrafts_def nths_enumerate)
qed

section \<open>Sequential tool blocks\<close>

datatype segment = Other stream_chunk | Block string string "string list"

fun plain_chunk :: "stream_chunk \<Rightarrow> bool" where
  "plain_chunk (Tool_Use_Start _ _) = False"
| "plain_chunk (Tool_Use_Args _ _) = False"
| "plain_chunk (Tool_Use_End _) = False"
| "plain_chunk _ = True"

fun segment_chunks :: "segment \<Rightarrow> stream_chunk list" where
  "segment_chunks (Other c) = [c]"
| "segment_chunks (Block i n ps) = Tool_Use_Start i n # map (Tool_Use_Args i) ps @ [Tool_Use_End i]"

fun blocks_of :: "segment list \<Rightarrow> (string \<times> string \<times> string list) list" where
  "blocks_of [] = []"
| "blocks_of (Other c # ss) = blocks_of ss"
| "blocks_of (Block i n ps # ss) = (i, n, ps) # blocks_of ss"

fun well_formed_segment :: "segment \<Rightarrow> bool" where
  "well_formed_segment (Other c) = plain_chunk c"
| "well_formed_segment (Block i n ps) = True"

text \<open>The call that a block with its (possibly reassigned) id stands for.\<close>

definition block_call :: "(string \<Rightarrow> json option) \<Rightarrow> string \<Rightarrow> string \<Rightarrow> string list \<Rightarrow> tool_call" where
  "block_call parse i n ps =
     (let args = (if concat ps = [] then ''{}'' else concat ps)
      in \<lparr>tc_id = i, tc_name = n, tc_input = (case parse args of None \<Rightarrow> JObj [] | Some v \<Rightarrow> v), tc_args = args,
          tc_truncated = (parse args = None)\<rparr>)"

definition fresh_factory :: "(nat \<Rightarrow> string \<Rightarrow> string) \<Rightarrow> string set \<Rightarrow> bool" where
  "fresh_factory factory ids \<longleftrightarrow>
     (\<forall>k i. factory k i \<noteq> [] \<and> factory k i \<notin> ids) \<and> (\<forall>k i k' i'. factory k i = factory k' i' \<longrightarrow> k = k')"

definition drawn_ids :: "(nat \<Rightarrow> string \<Rightarrow> string) \<Rightarrow> nat \<Rightarrow> string set" where
  "drawn_ids factory c = {factory k i | k i. k < c}"

lemma drawn_ids_Suc: "drawn_ids factory c \<subseteq> drawn_ids factory (Suc c)" "factory c i \<in> drawn_ids factory (Suc c)"
  by (auto simp: drawn_ids_def intro: less_SucI)

definition remap_ok :: "(nat \<Rightarrow> string \<Rightarrow> string) \<Rightarrow> string set \<Rightarrow> remap_state \<Rightarrow> bool" where
  "remap_ok factory ids st \<longleftrightarrow>
     set (seenIds st) \<subseteq> ids \<union> drawn_ids factory (factory_calls st) \<and>
     (\<forall>i. idRemap st i \<noteq> None \<longrightarrow> i \<in> set (seenIds st))"

lemma remap_chunks_append:
  "remap_chunks factory (xs @ ys) st =
     (let (xs', st1) = remap_chunks factory xs st; (ys', st2) = remap_chunks factory ys st1 in (xs' @ ys', st2))"
  by (induction xs arbitrary: st) (auto simp: Let_def split: prod.splits)

lemma remap_args:
  assumes "x \<noteq> []" and "idRemap st i = (if x = i then None else Some x)"
  shows "remap_chunks factory (map (Tool_Use_Args i) ps @ [Tool_Use_End i]) st = (map (Tool_Use_Args x) ps @ [Tool_Use_End x], st)"
  using assms by (induction ps) (auto simp: remap_chunk_def split: if_splits)

lemma remap_args_same:
  assumes "idRemap st i = None"
  shows "remap_chunks factory (map (Tool_Use_Args i) ps @ [Tool_Use_End i]) st = (map (Tool_Use_Args i) ps @ [Tool_Use_End i], st)"
  using assms by (induction ps) (auto simp: remap_chunk_def)

lemma remap_block:
  assumes "fresh_factory factory ids" and "remap_ok factory ids st" and "i \<in> ids"
  obtains x st' where "remap_chunks factory (segment_chunks (Block i n ps)) st = (segment_chunks (Block x n ps), st')"
    and "x \<notin> set (seenIds st)" and "seenIds st' = x # seenIds st" and "remap_ok factory ids st'"
    and "i \<notin> set (seenIds st) \<Longrightarrow> x = i"
proof (cases "i \<in> set (seenIds st)")
  case False
  then have none: "idRemap st i = None" using assms(2) by (auto simp: remap_ok_def)
  let ?st = "st\<lparr>seenIds := i # seenIds st\<rparr>"
  have "remap_chunks factory (segment_chunks (Block i n ps)) st = (segment_chunks (Block i n ps), ?st)"
    using False none remap_args_same [of ?st i factory ps] by (simp add: remap_chunk_def)
  moreover have "remap_ok factory ids ?st" using assms(2,3) by (auto simp: remap_ok_def)
  ultimately show ?thesis using False by (intro that [of i ?st]) auto
next
  case True
  let ?x = "factory (factory_calls st) i"
  let ?st = "\<lparr>seenIds = ?x # seenIds st, idRemap = (idRemap st)(i := Some ?x), factory_calls = factory_calls st + 1\<rparr>"
  have x: "?x \<noteq> []" "?x \<notin> ids" using assms(1) by (auto simp: fresh_factory_def)
  then have "?x \<noteq> i" using assms(3) by auto
  then have "remap_chunks factory (segment_chunks (Block i n ps)) st = (segment_chunks (Block ?x n ps), ?st)"
    using True remap_args [OF x(1), of ?st i factory ps] by (simp add: remap_chunk_def Let_def)
  moreover have "?x \<notin> set (seenIds st)"
    using assms(1,2) x(2) unfolding fresh_factory_def remap_ok_def drawn_ids_def by blast
  moreover have "remap_ok factory ids ?st"
    using assms(2) True drawn_ids_Suc [of factory "factory_calls st"] by (auto simp: remap_ok_def)
  ultimately show ?thesis using True by (intro that [of ?x ?st]) auto
qed

lemma parse_block:
  "\<exists>st'. fold (parse_chunk parse) (segment_chunks (Block x n ps)) st = st' \<and>
         p_calls st' = p_calls st @ [block_call parse x n ps] \<and> p_text st' = p_text st"
proof -
  have args: "fold (parse_chunk parse) (map (Tool_Use_Args x) ps) s =
      s\<lparr>argsAccumulator := (argsAccumulator s)(x := if ps = [] then argsAccumulator s x
                                                   else Some (or_empty (argsAccumulator s x) @ concat ps))\<rparr>" for s
    by (induction ps arbitrary: s) (auto simp: or_empty_def)
  show ?thesis by (auto simp: args end_call_def block_call_def or_empty_def Let_def split: option.splits)
qed

lemma parse_plain: "plain_chunk c \<Longrightarrow> p_calls (parse_chunk parse c st) = p_calls st"
  by (cases c) auto

lemma remap_plain: "plain_chunk c \<Longrightarrow> remap_chunk factory c st = (c, st)"
  by (cases c) (auto simp: remap_chunk_def)

lemma parse_segments:
  assumes "fresh_factory factory ids" and "remap_ok factory ids st" and "\<forall>s\<in>set segs. well_formed_segment s"
    and "fst ` set (blocks_of segs) \<subseteq> ids"
  shows "\<exists>xs. length xs = length (blocks_of segs) \<and> distinct xs \<and> set xs \<inter> set (seenIds st) = {} \<and>
           p_calls (fold (parse_chunk parse) (fst (remap_chunks factory (concat (map segment_chunks segs)) st)) pst) =
             p_calls pst @ map2 (\<lambda>x (i, n, ps). block_call parse x n ps) xs (blocks_of segs)"
  using assms(2-)
proof (induction segs arbitrary: st pst)
  case Nil
  then show ?case by simp
next
  case (Cons s segs)
  show ?case
  proof (cases s)
    case (Other c)
    then have c: "plain_chunk c" using Cons.prems by simp
    from Cons.IH [OF Cons.prems(1), of "parse_chunk parse c pst"] Cons.prems(2,3)
    show ?thesis by (auto simp: Other remap_plain [OF c] parse_plain [OF c] split: prod.splits)
  next
    case (Block i n ps)
    have "i \<in> ids" using Cons.prems(3) Block by simp
    from remap_block [OF assms(1) Cons.prems(1) this, of n ps] obtain x st' where
      x: "remap_chunks factory (segment_chunks s) st = (segment_chunks (Block x n ps), st')" "x \<notin> set (seenIds st)"
        "seenIds st' = x # seenIds st" "remap_ok factory ids st'" unfolding Block by metis
    obtain pst' where pst': "fold (parse_chunk parse) (segment_chunks (Block x n ps)) pst = pst'"
        "p_calls pst' = p_calls pst @ [block_call parse x n ps]" using parse_block by blast
    obtain xs where xs: "length xs = length (blocks_of segs)" "distinct xs" "set xs \<inter> set (seenIds st') = {}"
      "p_calls (fold (parse_chunk parse) (fst (remap_chunks factory (concat (map segment_chunks segs)) st')) pst') =
         p_calls pst' @ map2 (\<lambda>x (i, n, ps). block_call parse x n ps) xs (blocks_of segs)"
      using Cons.IH [OF x(4), of pst'] Cons.prems(2,3) Block by auto
    have "fst (remap_chunks factory (concat (map segment_chunks (s # segs))) st) =
        segment_chunks (Block x n ps) @ fst (remap_chunks factory (concat (map segment_chunks segs)) st')"
      using x(1) by (simp add: remap_chunks_append Let_def split: prod.splits)
    then show ?thesis using xs x(2,3) pst' Block
      by (intro exI [of _ "x # xs"]) (auto simp del: segment_chunks.simps)
  qed
qed

text \<open>Tool blocks survive streaming. A stream of complete tool blocks, with other chunks
  between them and each block's arguments cut into pieces anywhere, is parsed into one call per
  block, in order, with the block's name and its pieces joined; when block ids repeat, the
  repetitions get ids of their own, so that all calls of the turn have different ids. Unparsable
  arguments only mark their own call as truncated.\<close>

theorem tool_blocks_parsed:
  assumes "\<forall>s\<in>set segs. well_formed_segment s" and "fresh_factory factory (fst ` set (blocks_of segs))"
  shows "\<exists>ids. length ids = length (blocks_of segs) \<and> distinct ids \<and>
           toolCalls (parseResponseChunks parse factory (concat (map segment_chunks segs))) =
             dropSupersededToolCallDrafts (map2 (\<lambda>x (i, n, ps). block_call parse x n ps) ids (blocks_of segs))"
proof -
  let ?st = "\<lparr>seenIds = [], idRemap = (\<lambda>_. None), factory_calls = 0\<rparr>"
  have "remap_ok factory (fst ` set (blocks_of segs)) ?st" by (simp add: remap_ok_def)
  from parse_segments [OF assms(2) this assms(1), of parse parse_start] show ?thesis
    by (auto simp: parseResponseChunks_def raw_parse_def Let_def parse_start_def)
qed

definition repeated_stream :: "segment list" where
  "repeated_stream =
     [Block ''a'' ''read'' [''{1'', ''}''], Other (Text ''hi''), Block ''a'' ''write'' [''{2}'']]"

definition demo_factory :: "nat \<Rightarrow> string \<Rightarrow> string" where
  "demo_factory k i = replicate (k + 2) CHR ''d''"

theorem tool_blocks_parsed_witness:
  "\<exists>ids. length ids = length (blocks_of repeated_stream) \<and> distinct ids \<and>
     toolCalls (parseResponseChunks (\<lambda>_. Some (JObj [])) demo_factory (concat (map segment_chunks repeated_stream))) =
       dropSupersededToolCallDrafts
         (map2 (\<lambda>x (i, n, ps). block_call (\<lambda>_. Some (JObj [])) x n ps) ids (blocks_of repeated_stream))"
proof (rule tool_blocks_parsed)
  show "\<forall>s\<in>set repeated_stream. well_formed_segment s" by (simp add: repeated_stream_def)
  have "replicate (k + 2) CHR ''d'' \<noteq> ''a''" for k by simp
  then show "fresh_factory demo_factory (fst ` set (blocks_of repeated_stream))"
    by (auto simp: fresh_factory_def demo_factory_def repeated_stream_def dest: arg_cong [where f = length])
qed

definition draft_calls :: "tool_call list" where
  "draft_calls =
     [\<lparr>tc_id = ''a'', tc_name = ''read'', tc_input = JObj [], tc_args = ''{x'', tc_truncated = True\<rparr>,
      \<lparr>tc_id = ''b'', tc_name = ''read'', tc_input = JNum 1, tc_args = ''{x}'', tc_truncated = False\<rparr>]"

theorem drafts_dropped_pairwise_witness:
  "dropSupersededToolCallDrafts draft_calls = [draft_calls ! 1] \<and> 0 \<notin> kept_indices draft_calls"
proof -
  have "nths draft_calls (kept_indices draft_calls) = [draft_calls ! 1]"
    using drafts_dropped_pairwise [of draft_calls, THEN conjunct1, symmetric] by (rule trans) code_simp
  then have "0 \<notin> kept_indices draft_calls"
    by (auto simp: draft_calls_def nths_Cons split: if_splits)
  moreover have "dropSupersededToolCallDrafts draft_calls = [draft_calls ! 1]" by code_simp
  ultimately show ?thesis by simp
qed

end
