(* ===== verification/Agent_Loop.thy ===== *)
theory Agent_Loop
  imports Stream_Parser
begin

text \<open>
  The reusable multi-turn loop of \<open>packages/loop/src/modular-agent-loop.ts\<close> with its circuit
  breakers (\<open>loop-guards.ts\<close>) and error classification (\<open>error-classification.ts\<close>). The
  methods a host supplies or overrides are the record \<open>hooks\<close> over an abstract host state; a hook
  that throws returns its error on the left. The abort signal and the yield request are read from
  the host state. The loop over turns takes fuel, one unit for each call of \<open>runTurn\<close>. Spans, logging,
  backoff sleeps and the wording of notices are left out; an error text built from them is a value of
  \<open>loop_error\<close>.
\<close>

section \<open>Error classification\<close>

record model_error =
  e_message :: string
  e_status :: "nat option"
  e_is_llm :: bool

fun contains :: "string \<Rightarrow> string \<Rightarrow> bool" where
  "contains w [] = (w = [])"
| "contains w (c # cs) = (prefix w (c # cs) \<or> contains w cs)"

definition transient_texts :: "string list" where
  "transient_texts =
     [''http2'', ''ECONNRESET'', ''socket hang up'', ''socket connection was closed'', ''timed out'', ''ETIMEDOUT'']"

definition isTransientLLMError :: "model_error \<Rightarrow> bool" where
  "isTransientLLMError e =
     (case (e_is_llm e, e_status e) of
        (True, Some c) \<Rightarrow>
          if c = 429 then False
          else if 400 \<le> c \<and> c < 500 then False
          else if 500 \<le> c then True
          else list_ex (\<lambda>t. contains t (e_message e)) transient_texts
      | _ \<Rightarrow> list_ex (\<lambda>t. contains t (e_message e)) transient_texts)"

definition word_char :: "char \<Rightarrow> bool" where
  "word_char c =
     (let n = of_char c :: nat in (48 \<le> n \<and> n \<le> 57) \<or> (65 \<le> n \<and> n \<le> 90) \<or> n = 95 \<or> (97 \<le> n \<and> n \<le> 122))"

definition ascii_lower :: "char \<Rightarrow> char" where
  "ascii_lower c = (let n = of_char c :: nat in if 65 \<le> n \<and> n \<le> 90 then char_of (n + 32) else c)"

text \<open>\<open>\bw\b\<close> for a word text \<open>w\<close>; \<open>inside\<close>: the character before is a word character.\<close>

fun occurs_bounded :: "string \<Rightarrow> bool \<Rightarrow> string \<Rightarrow> bool" where
  "occurs_bounded w inside [] = False"
| "occurs_bounded w inside (c # cs) =
     ((\<not> inside \<and> prefix w (c # cs) \<and>
       (case drop (length w) (c # cs) of [] \<Rightarrow> True | d # _ \<Rightarrow> \<not> word_char d)) \<or>
      occurs_bounded w (word_char c) cs)"

definition isQuotaCapMessage :: "string \<Rightarrow> bool" where
  "isQuotaCapMessage message =
     list_ex (\<lambda>w. occurs_bounded w False (map ascii_lower message))
       [''quota'', ''usage limit'', ''payment'', ''billing'', ''credit'', ''credits'']"

definition isRateLimitStatus :: "nat option \<Rightarrow> string \<Rightarrow> bool" where
  "isRateLimitStatus statusCode message \<longleftrightarrow>
     statusCode = Some 429 \<or> statusCode = Some 529 \<or> statusCode = Some 402 \<or>
     (statusCode = None \<and> isQuotaCapMessage message)"

section \<open>Guards\<close>

record guard_thresholds =
  maxConsecutiveTruncatedTurns :: nat
  maxConsecutiveDuplicateToolCalls :: nat
  maxConsecutiveErrorToolCalls :: nat
  errorSignatureNudgeAt :: nat
  maxConsecutiveRoutingErrorToolCalls :: nat

definition DEFAULT_LOOP_GUARD_THRESHOLDS :: guard_thresholds where
  "DEFAULT_LOOP_GUARD_THRESHOLDS =
     \<lparr>maxConsecutiveTruncatedTurns = 5, maxConsecutiveDuplicateToolCalls = 12, maxConsecutiveErrorToolCalls = 12,
      errorSignatureNudgeAt = 5, maxConsecutiveRoutingErrorToolCalls = 3\<rparr>"

record tool_result =
  tr_call :: tool_call
  tr_content :: string
  tr_exit :: int

fun join_with :: "char \<Rightarrow> string list \<Rightarrow> string" where
  "join_with sep [] = []"
| "join_with sep [s] = s"
| "join_with sep (s # t # ss) = s @ sep # join_with sep (t # ss)"

definition toolCallSignature :: "tool_call list \<Rightarrow> string" where
  "toolCallSignature calls = join_with (char_of (0::nat)) (map (\<lambda>c. tc_name c @ '':'' @ tc_args c) calls)"

definition toolErrorSignature :: "tool_result list \<Rightarrow> string option" where
  "toolErrorSignature results =
     (if results = [] \<or> \<not> list_all (\<lambda>r. tr_exit r \<noteq> 0) results then None
      else Some (join_with (char_of (1::nat)) (map (\<lambda>r. tc_name (tr_call r) @ [char_of (0::nat)] @ tr_content r) results)))"

datatype guard_reason = G_Truncated | G_Duplicate | G_Identical_Error | G_Routing_Error

datatype loop_outcome =
    Completed | Aborted | Yielded | Model_Resolution_Failed | Model_Failed | Max_Turns | Guard guard_reason | After_Run_Failed

datatype loop_error =
    Thrown string
  | Resolution_Failed "string option"
  | No_Context_Window string
  | Exceeded_Max_Turns nat
  | No_Actionable_Output nat
  | Guard_Tripped guard_reason
  | Reason_Text string
  | Outcome_Text loop_outcome

datatype decision =
    Proceed
  | Retry bool
  | Stop "loop_outcome option" "loop_error option"
  | Yield_Turn
  | Fail loop_error

record loop_result =
  r_outcome :: loop_outcome
  r_error :: "loop_error option"
  r_yielded :: bool

definition loop_result_of :: "loop_outcome \<Rightarrow> loop_error option \<Rightarrow> loop_result" where
  "loop_result_of out err = \<lparr>r_outcome = out, r_error = err, r_yielded = False\<rparr>"

datatype turn_outcome = Next_Turn | Retry_Turn bool | Return loop_result

section \<open>Host and loop state\<close>

datatype resolution = Resolve_Error "string option" | Resolved string "nat option"

text \<open>One attempt at the model stream: the chunks with what abort signal and yield request are when
  each is delivered, and the failure that ends it, if any.\<close>

record stream_attempt =
  sa_chunks :: "(stream_chunk \<times> bool \<times> bool) list"
  sa_failure :: "model_error option"

datatype turn_status = S_Success | S_Error | S_Aborted

record 'h hooks =
  hk_before_run :: "'h \<Rightarrow> (string + unit) \<times> 'h"
  hk_after_run :: "'h \<Rightarrow> (string + unit) \<times> 'h"
  hk_resolve :: "'h \<Rightarrow> (string + resolution) \<times> 'h"
  hk_prepare :: "'h \<Rightarrow> (string + unit) \<times> 'h"
  hk_before_rebuild :: "'h \<Rightarrow> (string + unit) \<times> 'h"
  hk_before_turn :: "nat \<Rightarrow> 'h \<Rightarrow> (string + unit) \<times> 'h"
  hk_stream :: "nat \<Rightarrow> 'h \<Rightarrow> stream_attempt \<times> 'h"
  hk_rate_limit :: "model_error \<Rightarrow> 'h \<Rightarrow> (string + decision option) \<times> 'h"
  hk_terminal :: "model_error \<Rightarrow> 'h \<Rightarrow> (string + decision) \<times> 'h"
  hk_after_parse :: "parsed_response \<Rightarrow> nat \<Rightarrow> 'h \<Rightarrow> (string + decision) \<times> 'h"
  hk_record_turn :: "parsed_response \<Rightarrow> turn_status \<Rightarrow> 'h \<Rightarrow> (string + unit) \<times> 'h"
  hk_after_record :: "parsed_response \<Rightarrow> nat \<Rightarrow> 'h \<Rightarrow> (string + decision) \<times> 'h"
  hk_notify_degenerate :: "parsed_response \<Rightarrow> 'h \<Rightarrow> 'h"
  hk_final :: "parsed_response \<Rightarrow> 'h \<Rightarrow> (string + unit) \<times> 'h"
  hk_before_round :: "parsed_response \<Rightarrow> nat \<Rightarrow> 'h \<Rightarrow> (string + decision) \<times> 'h"
  hk_execute :: "parsed_response \<Rightarrow> nat \<Rightarrow> 'h \<Rightarrow> (string + tool_result list) \<times> 'h"
  hk_after_execution :: "tool_result list \<Rightarrow> nat \<Rightarrow> 'h \<Rightarrow> (string + decision) \<times> 'h"
  hk_persist :: "parsed_response \<Rightarrow> tool_result list \<Rightarrow> 'h \<Rightarrow> (string + unit) \<times> 'h"
  hk_after_persistence :: "tool_result list \<Rightarrow> nat \<Rightarrow> 'h \<Rightarrow> (string + decision) \<times> 'h"
  hk_routing :: "tool_result \<Rightarrow> bool"
  hk_alert :: "'h \<Rightarrow> (string + unit) \<times> 'h"
  hk_tripped :: "guard_reason \<Rightarrow> 'h \<Rightarrow> 'h"
  hk_nudge :: "'h \<Rightarrow> 'h"
  hk_signal :: "'h \<Rightarrow> bool"
  hk_yield :: "'h \<Rightarrow> bool"
  hk_parse :: "string \<Rightarrow> json option"
  hk_factory :: "nat \<Rightarrow> string \<Rightarrow> string"

record loop_options =
  maxTurns :: "nat option"
  maxTransientRetries :: nat
  degenerateRetryMax :: nat
  guardThresholds :: guard_thresholds

definition default_options :: loop_options where
  "default_options =
     \<lparr>maxTurns = None, maxTransientRetries = 3, degenerateRetryMax = 2, guardThresholds = DEFAULT_LOOP_GUARD_THRESHOLDS\<rparr>"

record 'h loop_state =
  aborted :: bool
  transportRetries :: nat
  degenerateRetries :: nat
  consecutiveTruncatedTurns :: nat
  lastTruncatedToolName :: "string option"
  consecutiveDuplicateToolCalls :: nat
  lastToolCallSignature :: "string option"
  consecutiveErrorSignature :: nat
  lastErrorSignature :: "string option"
  errorNudgeInjected :: bool
  consecutiveRoutingErrorSignature :: nat
  lastRoutingErrorSignature :: "string option"
  turn_chunks :: "stream_chunk list"
  host :: 'h

type_synonym ('h, 'a) comp = "'h loop_state \<Rightarrow> (string + 'a) \<times> 'h loop_state"

definition lift_host :: "('h \<Rightarrow> (string + 'a) \<times> 'h) \<Rightarrow> ('h, 'a) comp" where
  "lift_host f st = (let (r, h) = f (host st) in (r, st\<lparr>host := h\<rparr>))"

definition ret :: "'a \<Rightarrow> ('h, 'a) comp" where
  "ret a st = (Inr a, st)"

definition bind_comp :: "('h, 'a) comp \<Rightarrow> ('a \<Rightarrow> ('h, 'b) comp) \<Rightarrow> ('h, 'b) comp" where
  "bind_comp f g st = (case f st of (Inl e, st1) \<Rightarrow> (Inl e, st1) | (Inr a, st1) \<Rightarrow> g a st1)"

text \<open>The source sets \<open>aborted\<close> in a listener of the abort signal; here the signal is read where the flag is,
  so an abort that arrives between two hooks is seen at the same points.\<close>

definition shouldAbort :: "'h hooks \<Rightarrow> 'h loop_state \<Rightarrow> bool" where
  "shouldAbort hk st \<longleftrightarrow> aborted st \<or> hk_signal hk (host st)"

definition shouldYield :: "'h hooks \<Rightarrow> 'h loop_state \<Rightarrow> bool" where
  "shouldYield hk st \<longleftrightarrow> hk_yield hk (host st)"

definition resetResilienceState :: "'h loop_state \<Rightarrow> 'h loop_state" where
  "resetResilienceState st =
     st\<lparr>transportRetries := 0, degenerateRetries := 0, consecutiveTruncatedTurns := 0, lastTruncatedToolName := None,
        consecutiveDuplicateToolCalls := 0, lastToolCallSignature := None, consecutiveErrorSignature := 0,
        lastErrorSignature := None, errorNudgeInjected := False, consecutiveRoutingErrorSignature := 0,
        lastRoutingErrorSignature := None\<rparr>"

section \<open>Calling the model\<close>

text \<open>The loop over the stream: whether the run is aborted now, the chunks kept, whether it broke off.\<close>

fun collect_chunks :: "(stream_chunk \<times> bool \<times> bool) list \<Rightarrow> bool \<Rightarrow> stream_chunk list \<Rightarrow> bool \<times> stream_chunk list \<times> bool" where
  "collect_chunks [] ab acc = (ab, acc, False)"
| "collect_chunks ((c, sig, yld) # cs) ab acc =
     (if ab \<or> sig then (True, acc, True)
      else if yld then (True, acc, True)
      else if c = Heartbeat then collect_chunks cs ab acc
      else collect_chunks cs ab (acc @ [c]))"

definition callModel :: "'h hooks \<Rightarrow> nat \<Rightarrow> 'h loop_state \<Rightarrow> (model_error + stream_chunk list) \<times> 'h loop_state" where
  "callModel hk turn st =
     (let (a, h) = hk_stream hk turn (host st);
          (ab, cs, stopped) = collect_chunks (sa_chunks a) (aborted st) [];
          st1 = st\<lparr>host := h, aborted := ab\<rparr>
      in case sa_failure a of
           Some e \<Rightarrow> if stopped then (Inr cs, st1) else (Inl e, st1)
         | None \<Rightarrow> (Inr cs, st1))"

definition handleModelError :: "'h hooks \<Rightarrow> loop_options \<Rightarrow> model_error \<Rightarrow> ('h, decision) comp" where
  "handleModelError hk opts e st =
     (if isTransientLLMError e \<and> transportRetries st < maxTransientRetries opts
      then (Inr (Retry False), st\<lparr>transportRetries := transportRetries st + 1\<rparr>)
      else if isRateLimitStatus (e_status e) (e_message e)
      then bind_comp (lift_host (hk_rate_limit hk e))
             (\<lambda>d. case d of Some d' \<Rightarrow> ret d' | None \<Rightarrow> lift_host (hk_terminal hk e)) st
      else lift_host (hk_terminal hk e) st)"

definition applyTurnDecision :: "decision \<Rightarrow> turn_outcome" where
  "applyTurnDecision d =
     (case d of
        Proceed \<Rightarrow> Next_Turn
      | Retry rebuildFrame \<Rightarrow> Retry_Turn rebuildFrame
      | Yield_Turn \<Rightarrow> Return \<lparr>r_outcome = Yielded, r_error = None, r_yielded = True\<rparr>
      | Stop out reason \<Rightarrow>
          (let outcome = (case out of None \<Rightarrow> Completed | Some oc \<Rightarrow> oc)
           in Return (loop_result_of outcome
                (case outcome of
                   Guard _ \<Rightarrow> Some (case reason of Some r \<Rightarrow> r | None \<Rightarrow> Outcome_Text outcome)
                 | _ \<Rightarrow> None)))
      | Fail e \<Rightarrow> Return (loop_result_of Completed (Some e)))"

definition parse_turn :: "'h hooks \<Rightarrow> stream_chunk list \<Rightarrow> parsed_response" where
  "parse_turn hk chunks = parseResponseChunks (hk_parse hk) (hk_factory hk) chunks"

definition failed_status :: "'h hooks \<Rightarrow> 'h loop_state \<Rightarrow> turn_status" where
  "failed_status hk st = (if shouldAbort hk st then S_Aborted else S_Error)"

definition record_failed :: "'h hooks \<Rightarrow> ('h, unit) comp" where
  "record_failed hk st = lift_host (hk_record_turn hk (parse_turn hk (turn_chunks st)) (failed_status hk st)) st"

definition callModelForTurn :: "'h hooks \<Rightarrow> loop_options \<Rightarrow> nat \<Rightarrow> ('h, turn_outcome) comp" where
  "callModelForTurn hk opts turn st =
     (case callModel hk turn st of
        (Inr cs, st1) \<Rightarrow> (Inr Next_Turn, st1\<lparr>turn_chunks := turn_chunks st1 @ cs\<rparr>)
      | (Inl e, st1) \<Rightarrow>
          bind_comp (handleModelError hk opts e)
            (\<lambda>d. case d of
                    Proceed \<Rightarrow> (\<lambda>st2. (Inl (e_message e), st2))
                  | Fail _ \<Rightarrow> bind_comp (record_failed hk) (\<lambda>_. ret (applyTurnDecision d))
                  | _ \<Rightarrow> ret (applyTurnDecision d)) st1)"

section \<open>Degenerate turns\<close>

definition isDegenerateTurn :: "parsed_response \<Rightarrow> bool" where
  "isDegenerateTurn p \<longleftrightarrow>
     finishReason p \<noteq> Some F_Content_Filter \<and>
     (or_empty (thinking p) \<noteq> [] \<or> or_empty (thinkingRedactedData p) \<noteq> [] \<or> or_empty (thinkingEncryptedContent p) \<noteq> []) \<and>
     toolCalls p = [] \<and> textContent p = []"

definition isTerminalDegenerateTurn :: "loop_options \<Rightarrow> parsed_response \<Rightarrow> 'h loop_state \<Rightarrow> bool" where
  "isTerminalDegenerateTurn opts p st \<longleftrightarrow> isDegenerateTurn p \<and> degenerateRetryMax opts \<le> degenerateRetries st"

definition checkDegenerateRetry :: "'h hooks \<Rightarrow> loop_options \<Rightarrow> parsed_response \<Rightarrow> 'h loop_state \<Rightarrow> decision \<times> 'h loop_state" where
  "checkDegenerateRetry hk opts p st =
     (if \<not> isDegenerateTurn p then (Proceed, st)
      else if degenerateRetryMax opts \<le> degenerateRetries st
      then (Fail (No_Actionable_Output (degenerateRetries st)), st)
      else (Retry True,
            st\<lparr>degenerateRetries := degenerateRetries st + 1, host := hk_notify_degenerate hk p (host st)\<rparr>))"

definition recordParsedTurn :: "'h hooks \<Rightarrow> loop_options \<Rightarrow> parsed_response \<Rightarrow> ('h, unit) comp" where
  "recordParsedTurn hk opts p st =
     lift_host (hk_record_turn hk p
       (if shouldAbort hk st then S_Aborted
        else if isTerminalDegenerateTurn opts p st then S_Error else S_Success)) st"

section \<open>Tool rounds and circuit breakers\<close>

definition tripGuard :: "'h hooks \<Rightarrow> guard_reason \<Rightarrow> 'h loop_state \<Rightarrow> decision \<times> 'h loop_state" where
  "tripGuard hk reason st =
     (Stop (Some (Guard reason)) (Some (Guard_Tripped reason)),
      st\<lparr>host := hk_tripped hk reason (snd (hk_alert hk (host st)))\<rparr>)"

definition note_truncated :: "tool_call list \<Rightarrow> 'h loop_state \<Rightarrow> 'h loop_state" where
  "note_truncated calls st =
     (case find tc_truncated calls of
        Some c \<Rightarrow>
          if lastTruncatedToolName st = Some (tc_name c)
          then st\<lparr>consecutiveTruncatedTurns := consecutiveTruncatedTurns st + 1\<rparr>
          else st\<lparr>consecutiveTruncatedTurns := 1, lastTruncatedToolName := Some (tc_name c)\<rparr>
      | None \<Rightarrow> st\<lparr>consecutiveTruncatedTurns := 0, lastTruncatedToolName := None\<rparr>)"

definition note_duplicate :: "tool_call list \<Rightarrow> 'h loop_state \<Rightarrow> 'h loop_state" where
  "note_duplicate calls st =
     (if lastToolCallSignature st = Some (toolCallSignature calls)
      then st\<lparr>consecutiveDuplicateToolCalls := consecutiveDuplicateToolCalls st + 1\<rparr>
      else st\<lparr>consecutiveDuplicateToolCalls := 1, lastToolCallSignature := Some (toolCallSignature calls)\<rparr>)"

definition runPreExecutionGuards ::
  "'h hooks \<Rightarrow> guard_thresholds \<Rightarrow> tool_call list \<Rightarrow> 'h loop_state \<Rightarrow> decision \<times> 'h loop_state" where
  "runPreExecutionGuards hk th calls st =
     (let st1 = note_truncated calls st in
      if find tc_truncated calls \<noteq> None \<and> maxConsecutiveTruncatedTurns th \<le> consecutiveTruncatedTurns st1
      then tripGuard hk G_Truncated st1
      else let st2 = note_duplicate calls st1 in
           if maxConsecutiveDuplicateToolCalls th \<le> consecutiveDuplicateToolCalls st2
           then tripGuard hk G_Duplicate st2
           else (Proceed, st2))"

definition recordToolErrorSignatures :: "'h hooks \<Rightarrow> tool_result list \<Rightarrow> 'h loop_state \<Rightarrow> 'h loop_state" where
  "recordToolErrorSignatures hk results st =
     (let sig = toolErrorSignature results;
          st1 = (if sig \<noteq> None \<and> sig = lastErrorSignature st
                 then st\<lparr>consecutiveErrorSignature := consecutiveErrorSignature st + 1\<rparr>
                 else st\<lparr>consecutiveErrorSignature := (if sig \<noteq> None then 1 else 0), lastErrorSignature := sig,
                         errorNudgeInjected := False\<rparr>);
          rsig = (if results \<noteq> [] \<and> list_all (hk_routing hk) results then toolErrorSignature results else None)
      in if rsig \<noteq> None \<and> rsig = lastRoutingErrorSignature st1
         then st1\<lparr>consecutiveRoutingErrorSignature := consecutiveRoutingErrorSignature st1 + 1\<rparr>
         else st1\<lparr>consecutiveRoutingErrorSignature := (if rsig \<noteq> None then 1 else 0), lastRoutingErrorSignature := rsig\<rparr>)"

definition runPostExecutionGuards :: "'h hooks \<Rightarrow> guard_thresholds \<Rightarrow> 'h loop_state \<Rightarrow> decision \<times> 'h loop_state" where
  "runPostExecutionGuards hk th st =
     (if maxConsecutiveRoutingErrorToolCalls th \<le> consecutiveRoutingErrorSignature st then tripGuard hk G_Routing_Error st
      else if maxConsecutiveErrorToolCalls th \<le> consecutiveErrorSignature st then tripGuard hk G_Identical_Error st
      else if \<not> errorNudgeInjected st \<and> errorSignatureNudgeAt th \<le> consecutiveErrorSignature st
      then (Proceed, st\<lparr>errorNudgeInjected := True, host := hk_nudge hk (host st)\<rparr>)
      else (Proceed, st))"

definition after_hook :: "('h, decision) comp \<Rightarrow> ('h, decision) comp \<Rightarrow> ('h, decision) comp" where
  "after_hook f g = bind_comp f (\<lambda>d. if d \<noteq> Proceed then ret d else g)"

definition total :: "('h loop_state \<Rightarrow> 'a \<times> 'h loop_state) \<Rightarrow> ('h, 'a) comp" where
  "total f st = (let (a, st1) = f st in (Inr a, st1))"

definition handleToolCalls :: "'h hooks \<Rightarrow> loop_options \<Rightarrow> parsed_response \<Rightarrow> nat \<Rightarrow> ('h, decision) comp" where
  "handleToolCalls hk opts p turn =
     after_hook (total (runPreExecutionGuards hk (guardThresholds opts) (toolCalls p)))
       (after_hook (lift_host (hk_before_round hk p turn))
         (bind_comp (lift_host (hk_execute hk p turn))
           (\<lambda>results.
              after_hook (\<lambda>st. lift_host (hk_after_execution hk results turn) (recordToolErrorSignatures hk results st))
                (bind_comp (lift_host (hk_persist hk p results))
                  (\<lambda>_. after_hook (lift_host (hk_after_persistence hk results turn))
                          (total (runPostExecutionGuards hk (guardThresholds opts))))))))"

section \<open>Turns and the run\<close>

definition finish_turn :: "'h hooks \<Rightarrow> loop_options \<Rightarrow> parsed_response \<Rightarrow> nat \<Rightarrow> decision \<Rightarrow> ('h, turn_outcome) comp" where
  "finish_turn hk opts p turn d =
     (case applyTurnDecision d of
        Next_Turn \<Rightarrow>
          if toolCalls p = []
          then bind_comp (lift_host (hk_final hk p)) (\<lambda>_. ret (Return (loop_result_of Completed None)))
          else bind_comp (handleToolCalls hk opts p turn) (\<lambda>d'. ret (applyTurnDecision d'))
      | oc \<Rightarrow> ret oc)"

definition decide_turn :: "'h hooks \<Rightarrow> loop_options \<Rightarrow> parsed_response \<Rightarrow> nat \<Rightarrow> ('h, decision) comp" where
  "decide_turn hk opts p turn =
     bind_comp (lift_host (hk_after_parse hk p turn))
       (\<lambda>parseDecision. bind_comp (recordParsedTurn hk opts p)
         (\<lambda>_. bind_comp (lift_host (hk_after_record hk p turn))
           (\<lambda>recordDecision. bind_comp (total (checkDegenerateRetry hk opts p))
             (\<lambda>degenerateDecision.
                ret (if recordDecision \<noteq> Proceed then recordDecision
                     else if degenerateDecision \<noteq> Proceed then degenerateDecision else parseDecision)))))"

definition turn_body :: "'h hooks \<Rightarrow> loop_options \<Rightarrow> nat \<Rightarrow> ('h, turn_outcome) comp" where
  "turn_body hk opts turn =
     bind_comp (lift_host (hk_before_turn hk turn))
       (\<lambda>_. bind_comp (callModelForTurn hk opts turn)
         (\<lambda>oc. if oc \<noteq> Next_Turn then ret oc
                else (\<lambda>st. let p = parse_turn hk (turn_chunks st)
                           in bind_comp (decide_turn hk opts p turn) (finish_turn hk opts p turn) st)))"

definition handleTurnError :: "'h hooks \<Rightarrow> string \<Rightarrow> ('h, turn_outcome) comp" where
  "handleTurnError hk message =
     bind_comp (record_failed hk)
       (\<lambda>_. bind_comp (lift_host (hk_alert hk))
         (\<lambda>_. ret (Return (loop_result_of Model_Failed (Some (Thrown message))))))"

definition runTurn :: "'h hooks \<Rightarrow> loop_options \<Rightarrow> nat \<Rightarrow> ('h, turn_outcome) comp" where
  "runTurn hk opts turn st =
     (if shouldAbort hk st then
        bind_comp (lift_host (hk_record_turn hk (parse_turn hk []) S_Aborted))
          (\<lambda>_ st1. (Inr (Return \<lparr>r_outcome = (if shouldYield hk st1 then Yielded else Aborted), r_error = None,
                                 r_yielded = shouldYield hk st1\<rparr>), st1)) st
      else if shouldYield hk st then (Inr (Return \<lparr>r_outcome = Yielded, r_error = None, r_yielded = True\<rparr>), st)
      else case turn_body hk opts turn (st\<lparr>turn_chunks := []\<rparr>) of
             (Inr oc, st1) \<Rightarrow> (Inr oc, st1)
           | (Inl message, st1) \<Rightarrow> handleTurnError hk message st1)"

definition past_cap :: "loop_options \<Rightarrow> nat \<Rightarrow> bool" where
  "past_cap opts turn = (case maxTurns opts of None \<Rightarrow> False | Some n \<Rightarrow> n < turn)"

definition rebuild_frame :: "'h hooks \<Rightarrow> bool \<Rightarrow> ('h, unit) comp" where
  "rebuild_frame hk rebuild =
     (if rebuild then bind_comp (lift_host (hk_before_rebuild hk)) (\<lambda>_. lift_host (hk_prepare hk)) else ret ())"

text \<open>\<open>None\<close>: out of fuel.\<close>

fun turn_loop :: "'h hooks \<Rightarrow> loop_options \<Rightarrow> nat \<Rightarrow> nat \<Rightarrow> 'h loop_state \<Rightarrow> ((string + loop_result) \<times> 'h loop_state) option" where
  "turn_loop hk opts 0 turn st = None"
| "turn_loop hk opts (Suc fuel) turn st =
     (if past_cap opts turn
      then Some (bind_comp (lift_host (hk_alert hk))
                   (\<lambda>_. ret (loop_result_of Max_Turns (Some (Exceeded_Max_Turns (the (maxTurns opts)))))) st)
      else case runTurn hk opts turn st of
             (Inl e, st1) \<Rightarrow> Some (Inl e, st1)
           | (Inr (Return r), st1) \<Rightarrow> Some (Inr r, st1)
           | (Inr Next_Turn, st1) \<Rightarrow> turn_loop hk opts fuel (turn + 1) st1
           | (Inr (Retry_Turn rebuild), st1) \<Rightarrow>
               (case rebuild_frame hk rebuild st1 of
                  (Inl e, st2) \<Rightarrow> Some (Inl e, st2)
                | (Inr _, st2) \<Rightarrow> turn_loop hk opts fuel turn st2))"

definition resolution_failed :: "'h hooks \<Rightarrow> loop_error \<Rightarrow> ('h, loop_result) comp" where
  "resolution_failed hk e =
     bind_comp (lift_host (hk_alert hk)) (\<lambda>_. ret (loop_result_of Model_Resolution_Failed (Some e)))"

definition run_body :: "'h hooks \<Rightarrow> loop_options \<Rightarrow> nat \<Rightarrow> 'h loop_state \<Rightarrow> ((string + loop_result) \<times> 'h loop_state) option" where
  "run_body hk opts fuel st =
     (case bind_comp (lift_host (hk_before_run hk)) (\<lambda>_. lift_host (hk_resolve hk)) (resetResilienceState st) of
        (Inl e, st1) \<Rightarrow> Some (Inl e, st1)
      | (Inr (Resolve_Error e), st1) \<Rightarrow> Some (resolution_failed hk (Resolution_Failed e) st1)
      | (Inr (Resolved modelId ctx), st1) \<Rightarrow>
          if modelId = [] then Some (resolution_failed hk (Resolution_Failed None) st1)
          else if ctx = None then Some (resolution_failed hk (No_Context_Window modelId) st1)
          else (case lift_host (hk_prepare hk) st1 of
                  (Inl e, st2) \<Rightarrow> Some (Inl e, st2)
                | (Inr _, st2) \<Rightarrow> turn_loop hk opts fuel 1 st2))"

text \<open>What \<open>run\<close> settles with, and the outcome it reports to the metrics (\<open>None\<close>: \<open>error\<close>). The
  value of \<open>return result\<close> is fixed before the \<open>finally\<close> block assigns \<open>result\<close> again.\<close>

record run_record =
  returned :: "string + loop_result"
  recorded :: "loop_outcome option"

definition run :: "'h hooks \<Rightarrow> loop_options \<Rightarrow> nat \<Rightarrow> 'h loop_state \<Rightarrow> (run_record \<times> 'h loop_state) option" where
  "run hk opts fuel st =
     (case run_body hk opts fuel st of
        None \<Rightarrow> None
      | Some (r, st1) \<Rightarrow>
          (let (ra, st2) = lift_host (hk_after_run hk) st1
           in Some (\<lparr>returned = r,
                     recorded = (case ra of
                                   Inl _ \<Rightarrow> Some After_Run_Failed
                                 | Inr _ \<Rightarrow> (case r of Inr res \<Rightarrow> Some (r_outcome res) | Inl _ \<Rightarrow> None))\<rparr>, st2)))"

section \<open>Blocks of an assistant turn\<close>

definition thinking_block :: "parsed_response \<Rightarrow> json" where
  "thinking_block p =
     JObj ([(''type'', JStr ''thinking''), (''thinking'', JStr (or_empty (thinking p)))] @
       (if or_empty (thinkingSignature p) \<noteq> [] then [(''signature'', JStr (or_empty (thinkingSignature p)))] else []) @
       (if or_empty (thinkingRedactedData p) \<noteq> [] then [(''redacted_data'', JStr (or_empty (thinkingRedactedData p)))] else []) @
       (if or_empty (thinkingEncryptedContent p) \<noteq> []
        then [(''reasoning_encrypted_content'', JStr (or_empty (thinkingEncryptedContent p)))] else []))"

definition call_block :: "tool_call \<Rightarrow> json" where
  "call_block c =
     JObj [(''type'', JStr ''tool_use''), (''id'', JStr (tc_id c)), (''name'', JStr (tc_name c)), (''input'', tc_input c)]"

definition buildAssistantToolCallBlocks :: "parsed_response \<Rightarrow> json list" where
  "buildAssistantToolCallBlocks p =
     (if or_empty (thinking p) \<noteq> [] \<or> or_empty (thinkingRedactedData p) \<noteq> [] \<or> or_empty (thinkingEncryptedContent p) \<noteq> []
      then [thinking_block p] else []) @
     (if textContent p \<noteq> [] then [JObj [(''type'', JStr ''text''), (''text'', JStr (textContent p))]] else []) @
     map call_block (toolCalls p)"

section \<open>Counting turns\<close>

text \<open>The pair of counters of a breaker: how long the current streak of one key is.\<close>

definition streak :: "'a list \<Rightarrow> nat" where
  "streak keys = (case rev keys of [] \<Rightarrow> 0 | k # ks \<Rightarrow> Suc (length (takeWhile (\<lambda>x. x = k) ks)))"

lemma streak_snoc [simp]:
  "streak (keys @ [k]) = (if keys \<noteq> [] \<and> last keys = k then Suc (streak keys) else 1)"
  by (cases keys rule: rev_cases) (auto simp: streak_def)

text \<open>The counters after the turns with these tool calls.\<close>

definition turn_truncation :: "tool_call list \<Rightarrow> string option" where
  "turn_truncation calls = map_option tc_name (find tc_truncated calls)"

definition tracks :: "tool_call list list \<Rightarrow> 'h loop_state \<Rightarrow> bool" where
  "tracks turns st \<longleftrightarrow>
     consecutiveDuplicateToolCalls st = streak (map toolCallSignature turns) \<and>
     lastToolCallSignature st = (if turns = [] then None else Some (toolCallSignature (last turns))) \<and>
     lastTruncatedToolName st = (if turns = [] then None else turn_truncation (last turns)) \<and>
     (lastTruncatedToolName st \<noteq> None \<longrightarrow> consecutiveTruncatedTurns st = streak (map turn_truncation turns))"

lemma tracks_reset [simp]: "tracks [] (resetResilienceState st)"
  by (simp add: tracks_def resetResilienceState_def streak_def)

lemma note_truncated_streak:
  assumes "tracks turns st"
  shows "lastTruncatedToolName (note_truncated calls st) = turn_truncation calls"
    and "turn_truncation calls \<noteq> None \<Longrightarrow>
         consecutiveTruncatedTurns (note_truncated calls st) = streak (map turn_truncation (turns @ [calls]))"
    and "consecutiveDuplicateToolCalls (note_truncated calls st) = consecutiveDuplicateToolCalls st"
    and "lastToolCallSignature (note_truncated calls st) = lastToolCallSignature st"
  using assms
  by (auto simp: note_truncated_def tracks_def turn_truncation_def last_map split: option.splits)

lemma note_duplicate_streak:
  assumes "tracks turns st"
    and "consecutiveDuplicateToolCalls st1 = consecutiveDuplicateToolCalls st" "lastToolCallSignature st1 = lastToolCallSignature st"
  shows "consecutiveDuplicateToolCalls (note_duplicate calls st1) = streak (map toolCallSignature (turns @ [calls]))"
    and "lastToolCallSignature (note_duplicate calls st1) = Some (toolCallSignature calls)"
    and "lastTruncatedToolName (note_duplicate calls st1) = lastTruncatedToolName st1"
    and "consecutiveTruncatedTurns (note_duplicate calls st1) = consecutiveTruncatedTurns st1"
  using assms by (auto simp: note_duplicate_def tracks_def last_map split: if_splits)

text \<open>The pre-execution breakers trip exactly at their thresholds. After any sequence of turns, the
  truncation breaker stops the loop when the turn holds a truncated call and the same tool was the first
  truncated one for the threshold number of turns in a row; otherwise the duplicate breaker
  stops it when the last threshold number of turns issued the same calls; otherwise the tools are executed and
  the counters describe the longer sequence.\<close>

theorem pre_guards_exact:
  assumes "tracks turns st" and "history = turns @ [calls]"
  shows "fst (runPreExecutionGuards hk th calls st) =
           (if turn_truncation calls \<noteq> None \<and> maxConsecutiveTruncatedTurns th \<le> streak (map turn_truncation history)
            then Stop (Some (Guard G_Truncated)) (Some (Guard_Tripped G_Truncated))
            else if maxConsecutiveDuplicateToolCalls th \<le> streak (map toolCallSignature history)
            then Stop (Some (Guard G_Duplicate)) (Some (Guard_Tripped G_Duplicate))
            else Proceed) \<and>
         (fst (runPreExecutionGuards hk th calls st) = Proceed \<longrightarrow> tracks history (snd (runPreExecutionGuards hk th calls st)))"
proof -
  let ?st1 = "note_truncated calls st"
  let ?st2 = "note_duplicate calls ?st1"
  note t = note_truncated_streak [OF assms(1), of calls]
  note d = note_duplicate_streak [OF assms(1) t(3,4), of calls]
  have found: "find tc_truncated calls \<noteq> None \<longleftrightarrow> turn_truncation calls \<noteq> None" by (simp add: turn_truncation_def)
  have trip: "turn_truncation calls \<noteq> None \<Longrightarrow>
      consecutiveTruncatedTurns ?st1 = streak (map turn_truncation history)" using t(2) by (simp add: assms(2))
  have dup: "consecutiveDuplicateToolCalls ?st2 = streak (map toolCallSignature history)"
    using d(1) by (simp add: assms(2))
  have "tracks history ?st2"
    unfolding tracks_def dup using t(1) d(2-4) trip by (simp add: assms(2))
  then show ?thesis
    using trip dup found
    by (cases "turn_truncation calls = None") (simp_all add: runPreExecutionGuards_def Let_def tripGuard_def)
qed

section \<open>Retries are paid for\<close>

definition budget :: "loop_options \<Rightarrow> 'h loop_state \<Rightarrow> nat" where
  "budget opts st = (maxTransientRetries opts - transportRetries st) + (degenerateRetryMax opts - degenerateRetries st)"

text \<open>A computation with credit \<open>n\<close> pays the cost \<open>c\<close> of its result out of the retry budget.\<close>

definition pays :: "loop_options \<Rightarrow> nat \<Rightarrow> ('a \<Rightarrow> nat) \<Rightarrow> ('h, 'a) comp \<Rightarrow> bool" where
  "pays opts n c f \<longleftrightarrow>
     (\<forall>st. case f st of
             (Inl _, st1) \<Rightarrow> budget opts st1 \<le> budget opts st + n
           | (Inr a, st1) \<Rightarrow> budget opts st1 + c a \<le> budget opts st + n)"

lemma paysI:
  "(\<And>st e st1. f st = (Inl e, st1) \<Longrightarrow> budget opts st1 \<le> budget opts st + n) \<Longrightarrow>
   (\<And>st a st1. f st = (Inr a, st1) \<Longrightarrow> budget opts st1 + c a \<le> budget opts st + n) \<Longrightarrow> pays opts n c f"
  by (auto simp: pays_def split: prod.splits sum.splits)

lemma paysD:
  assumes "pays opts n c f"
  shows "f st = (Inl e, st1) \<Longrightarrow> budget opts st1 \<le> budget opts st + n"
    and "f st = (Inr a, st1) \<Longrightarrow> budget opts st1 + c a \<le> budget opts st + n"
proof -
  have "case f st of (Inl _, st1) \<Rightarrow> budget opts st1 \<le> budget opts st + n
           | (Inr a, st1) \<Rightarrow> budget opts st1 + c a \<le> budget opts st + n"
    using assms by (simp add: pays_def)
  then show "f st = (Inl e, st1) \<Longrightarrow> budget opts st1 \<le> budget opts st + n"
    and "f st = (Inr a, st1) \<Longrightarrow> budget opts st1 + c a \<le> budget opts st + n" by auto
qed

named_theorems pays_rules "computations that pay for their result"

lemma pays_ret [pays_rules]: "c a \<le> n \<Longrightarrow> pays opts n c (ret a)"
  by (auto simp: pays_def ret_def)

lemma pays_lift: "(\<And>h a h'. f h = (Inr a, h') \<Longrightarrow> c a \<le> n) \<Longrightarrow> pays opts n c (lift_host f)"
  by (rule paysI) (auto simp: lift_host_def budget_def split: prod.splits)

lemma pays_bind:
  assumes "pays opts n m f" and "\<And>a. pays opts (m a) c (g a)"
  shows "pays opts n c (bind_comp f g)"
proof (rule paysI)
  fix st e st1 assume "bind_comp f g st = (Inl e, st1)"
  then consider "f st = (Inl e, st1)" | a st2 where "f st = (Inr a, st2)" "g a st2 = (Inl e, st1)"
    by (auto simp: bind_comp_def split: prod.splits sum.splits)
  then show "budget opts st1 \<le> budget opts st + n"
    by cases (use paysD [OF assms(1)] paysD [OF assms(2)] in fastforce)+
next
  fix st a st1 assume "bind_comp f g st = (Inr a, st1)"
  then obtain b st2 where "f st = (Inr b, st2)" "g b st2 = (Inr a, st1)"
    by (auto simp: bind_comp_def split: prod.splits sum.splits)
  then show "budget opts st1 + c a \<le> budget opts st + n"
    using paysD(2) [OF assms(1)] paysD(2) [OF assms(2)] by fastforce
qed

lemma pays_free: "(\<And>h a h'. f h = (Inr a, h') \<Longrightarrow> c a = 0) \<Longrightarrow> pays opts n c (lift_host f)"
  by (rule pays_lift) auto

fun decision_cost :: "decision \<Rightarrow> nat" where
  "decision_cost (Retry _) = 1"
| "decision_cost _ = 0"

fun outcome_cost :: "turn_outcome \<Rightarrow> nat" where
  "outcome_cost (Retry_Turn _) = 1"
| "outcome_cost _ = 0"

lemma outcome_cost_apply [simp]: "outcome_cost (applyTurnDecision d) = decision_cost d"
  by (cases d) (auto simp: applyTurnDecision_def Let_def)

text \<open>The hooks of the base class, and every host that leaves retrying to the loop.\<close>

definition no_hook_retries :: "'h hooks \<Rightarrow> bool" where
  "no_hook_retries hk \<longleftrightarrow>
     (\<forall>p t h d h'. hk_after_parse hk p t h = (Inr d, h') \<longrightarrow> decision_cost d = 0) \<and>
     (\<forall>p t h d h'. hk_after_record hk p t h = (Inr d, h') \<longrightarrow> decision_cost d = 0) \<and>
     (\<forall>p t h d h'. hk_before_round hk p t h = (Inr d, h') \<longrightarrow> decision_cost d = 0) \<and>
     (\<forall>r t h d h'. hk_after_execution hk r t h = (Inr d, h') \<longrightarrow> decision_cost d = 0) \<and>
     (\<forall>r t h d h'. hk_after_persistence hk r t h = (Inr d, h') \<longrightarrow> decision_cost d = 0) \<and>
     (\<forall>e h d h'. hk_terminal hk e h = (Inr d, h') \<longrightarrow> decision_cost d = 0) \<and>
     (\<forall>e h d h'. hk_rate_limit hk e h = (Inr (Some d), h') \<longrightarrow> decision_cost d = 0)"

lemma no_hook_retriesD:
  assumes "no_hook_retries hk"
  shows "hk_after_parse hk p t h = (Inr d, h') \<Longrightarrow> decision_cost d = 0"
    and "hk_after_record hk p t h = (Inr d, h') \<Longrightarrow> decision_cost d = 0"
    and "hk_before_round hk p t h = (Inr d, h') \<Longrightarrow> decision_cost d = 0"
    and "hk_after_execution hk r t h = (Inr d, h') \<Longrightarrow> decision_cost d = 0"
    and "hk_after_persistence hk r t h = (Inr d, h') \<Longrightarrow> decision_cost d = 0"
    and "hk_terminal hk e h = (Inr d, h') \<Longrightarrow> decision_cost d = 0"
    and "hk_rate_limit hk e h = (Inr (Some d), h') \<Longrightarrow> decision_cost d = 0"
  using assms unfolding no_hook_retries_def by metis+

lemma budget_host [simp]: "budget opts (st\<lparr>host := h\<rparr>) = budget opts st"
  "budget opts (st\<lparr>turn_chunks := cs\<rparr>) = budget opts st" "budget opts (st\<lparr>aborted := b\<rparr>) = budget opts st"
  by (simp_all add: budget_def)

lemma tripGuard_budget [simp]:
  "fst (tripGuard hk g st) = Stop (Some (Guard g)) (Some (Guard_Tripped g))"
  "budget opts (snd (tripGuard hk g st)) = budget opts st"
  by (simp_all add: tripGuard_def)

lemma pays_weaken:
  assumes "pays opts n c f" and "\<And>a. c' a \<le> c a" and "n \<le> n'"
  shows "pays opts n' c' f"
proof (rule paysI)
  fix st e st1 assume "f st = (Inl e, st1)"
  then show "budget opts st1 \<le> budget opts st + n'" using paysD(1) [OF assms(1)] assms(3) by fastforce
next
  fix st a st1 assume "f st = (Inr a, st1)"
  then show "budget opts st1 + c' a \<le> budget opts st + n'"
    using paysD(2) [OF assms(1)] assms(2) [of a] assms(3) by fastforce
qed

lemma pays_total:
  "(\<And>st. budget opts (snd (f st)) + c (fst (f st)) \<le> budget opts st + n) \<Longrightarrow> pays opts n c (total f)"
  by (rule paysI) (auto simp: total_def split: prod.splits, metis fst_conv snd_conv)

lemma pays_after_hook:
  assumes "pays opts 0 decision_cost f" and "pays opts 0 decision_cost g"
  shows "pays opts 0 decision_cost (after_hook f g)"
  unfolding after_hook_def
proof (rule pays_bind [OF assms(1)])
  show "pays opts (decision_cost d) decision_cost (if d \<noteq> Proceed then ret d else g)" for d
    using assms(2) by (auto intro: pays_ret)
qed

lemma pre_guards_budget:
  "budget opts (snd (runPreExecutionGuards hk th calls st)) + decision_cost (fst (runPreExecutionGuards hk th calls st)) = budget opts st"
  by (auto simp: runPreExecutionGuards_def Let_def tripGuard_def note_truncated_def note_duplicate_def budget_def
      split: option.splits)

lemma post_guards_budget:
  "budget opts (snd (runPostExecutionGuards hk th st)) + decision_cost (fst (runPostExecutionGuards hk th st)) = budget opts st"
  by (simp add: runPostExecutionGuards_def tripGuard_def budget_def)

lemma record_errors_budget [simp]: "budget opts (recordToolErrorSignatures hk results st) = budget opts st"
  by (simp add: recordToolErrorSignatures_def Let_def budget_def)

lemma handleToolCalls_pays:
  assumes "no_hook_retries hk"
  shows "pays opts 0 decision_cost (handleToolCalls hk opts p turn)"
proof -
  note h = no_hook_retriesD(3-5) [OF assms]
  have ex: "pays opts 0 decision_cost (\<lambda>st. lift_host (hk_after_execution hk r turn) (recordToolErrorSignatures hk r st))" for r
    by (rule paysI) (use h(2) in \<open>auto simp: lift_host_def split: prod.splits\<close>)
  show ?thesis unfolding handleToolCalls_def
    by (intro pays_after_hook pays_total pays_bind [where m = "\<lambda>_. 0"] pays_free ex)
      (auto simp: pre_guards_budget post_guards_budget dest: h)
qed

lemma handleModelError_pays:
  assumes "no_hook_retries hk"
  shows "pays opts 0 decision_cost (handleModelError hk opts e)"
proof -
  note h = no_hook_retriesD(6,7) [OF assms]
  have final: "pays opts 0 decision_cost (lift_host (hk_terminal hk e))" by (rule pays_free) (rule h)
  have limit: "pays opts 0 decision_cost
      (bind_comp (lift_host (hk_rate_limit hk e)) (\<lambda>d. case d of Some d' \<Rightarrow> ret d' | None \<Rightarrow> lift_host (hk_terminal hk e)))"
  proof (rule pays_bind [where m = "\<lambda>d. case d of Some d' \<Rightarrow> decision_cost d' | None \<Rightarrow> 0"])
    show "pays opts 0 (\<lambda>d. case d of Some d' \<Rightarrow> decision_cost d' | None \<Rightarrow> 0) (lift_host (hk_rate_limit hk e))"
      by (rule pays_free) (use h(2) in \<open>auto split: option.splits\<close>)
  qed (use final in \<open>auto intro: pays_ret split: option.splits\<close>)
  show ?thesis
  proof (rule paysI)
    fix st x st1 assume "handleModelError hk opts e st = (Inl x, st1)"
    then show "budget opts st1 \<le> budget opts st + 0"
      using paysD(1) [OF final] paysD(1) [OF limit] by (auto simp: handleModelError_def split: if_splits)
  next
    fix st d st1 assume "handleModelError hk opts e st = (Inr d, st1)"
    then show "budget opts st1 + decision_cost d \<le> budget opts st + 0"
      using paysD(2) [OF final] paysD(2) [OF limit] by (auto simp: handleModelError_def budget_def split: if_splits)
  qed
qed

lemma record_failed_pays: "pays opts 0 (\<lambda>_. 0) (record_failed hk)"
  by (rule paysI) (auto simp: record_failed_def lift_host_def split: prod.splits)

lemma callModel_budget: "budget opts (snd (callModel hk turn st)) = budget opts st"
  by (auto simp: callModel_def Let_def budget_def split: prod.splits option.splits)

lemma callModelForTurn_pays:
  assumes "no_hook_retries hk"
  shows "pays opts 0 outcome_cost (callModelForTurn hk opts turn)"
proof -
  let ?k = "\<lambda>e d. case d of
      Proceed \<Rightarrow> (\<lambda>st2. (Inl (e_message e), st2))
    | Fail _ \<Rightarrow> bind_comp (record_failed hk) (\<lambda>_. ret (applyTurnDecision d))
    | _ \<Rightarrow> ret (applyTurnDecision d)"
  have thr: "pays opts 0 outcome_cost (\<lambda>st2. (Inl x, st2))" for x by (rule paysI) auto
  have rec: "pays opts 0 outcome_cost (bind_comp (record_failed hk) (\<lambda>_. ret (applyTurnDecision (Fail le))))" for le
    by (intro pays_bind [OF record_failed_pays] pays_ret) simp
  have "pays opts (decision_cost d) outcome_cost (?k e d)" for e d
    by (cases d) (auto intro!: thr rec pays_ret)
  then have fail: "pays opts 0 outcome_cost (bind_comp (handleModelError hk opts e) (?k e))" for e
    by (rule pays_bind [OF handleModelError_pays [OF assms]])
  show ?thesis
  proof (rule paysI)
    fix st x st1 assume r: "callModelForTurn hk opts turn st = (Inl x, st1)"
    then obtain e st0 where "callModel hk turn st = (Inl e, st0)" "bind_comp (handleModelError hk opts e) (?k e) st0 = (Inl x, st1)"
      by (auto simp: callModelForTurn_def split: prod.splits sum.splits)
    then show "budget opts st1 \<le> budget opts st + 0"
      using paysD(1) [OF fail] callModel_budget [of opts hk turn st] by fastforce
  next
    fix st oc st1 assume r: "callModelForTurn hk opts turn st = (Inr oc, st1)"
    then consider cs st0 where "callModel hk turn st = (Inr cs, st0)" "oc = Next_Turn" "st1 = st0\<lparr>turn_chunks := turn_chunks st0 @ cs\<rparr>"
      | e st0 where "callModel hk turn st = (Inl e, st0)" "bind_comp (handleModelError hk opts e) (?k e) st0 = (Inr oc, st1)"
      by (auto simp: callModelForTurn_def split: prod.splits sum.splits)
    then show "budget opts st1 + outcome_cost oc \<le> budget opts st + 0"
      by cases (use paysD(2) [OF fail] callModel_budget [of opts hk turn st] in fastforce)+
  qed
qed

lemma degenerate_budget:
  "budget opts (snd (checkDegenerateRetry hk opts p st)) + decision_cost (fst (checkDegenerateRetry hk opts p st)) = budget opts st"
  by (auto simp: checkDegenerateRetry_def budget_def)

lemma pays_carry:
  assumes "pays opts 0 c f"
  shows "pays opts n (\<lambda>a. c a + n) f"
  by (rule paysI) (use paysD [OF assms] in fastforce)+

lemma decide_turn_pays:
  assumes "no_hook_retries hk"
  shows "pays opts 0 decision_cost (decide_turn hk opts p turn)"
proof -
  note h = no_hook_retriesD(1,2) [OF assms]
  have rec: "pays opts 0 (\<lambda>_. 0) (recordParsedTurn hk opts p)"
    by (rule paysI) (auto simp: recordParsedTurn_def lift_host_def split: prod.splits)
  have deg: "pays opts 0 decision_cost (total (checkDegenerateRetry hk opts p))"
    by (rule pays_total) (simp add: degenerate_budget)
  have tail: "pays opts (decision_cost rd + decision_cost pd) decision_cost
      (bind_comp (total (checkDegenerateRetry hk opts p))
        (\<lambda>dd. ret (if rd \<noteq> Proceed then rd else if dd \<noteq> Proceed then dd else pd)))" for pd rd
    by (rule pays_bind [OF pays_carry [OF deg]], rule pays_ret) simp
  show ?thesis unfolding decide_turn_def
  proof (rule pays_bind [where m = decision_cost])
    show "pays opts 0 decision_cost (lift_host (hk_after_parse hk p turn))" by (rule pays_free) (rule h)
    fix pd
    show "pays opts (decision_cost pd) decision_cost
       (bind_comp (recordParsedTurn hk opts p)
         (\<lambda>_. bind_comp (lift_host (hk_after_record hk p turn))
           (\<lambda>rd. bind_comp (total (checkDegenerateRetry hk opts p))
             (\<lambda>dd. ret (if rd \<noteq> Proceed then rd else if dd \<noteq> Proceed then dd else pd)))))"
    proof (rule pays_bind [where m = "\<lambda>_. decision_cost pd"])
      show "pays opts (decision_cost pd) (\<lambda>_. decision_cost pd) (recordParsedTurn hk opts p)"
        using pays_carry [OF rec, of "decision_cost pd"] by simp
      have "pays opts 0 decision_cost (lift_host (hk_after_record hk p turn))" by (rule pays_free) (rule h)
      then show "pays opts (decision_cost pd) decision_cost (bind_comp (lift_host (hk_after_record hk p turn))
           (\<lambda>rd. bind_comp (total (checkDegenerateRetry hk opts p))
             (\<lambda>dd. ret (if rd \<noteq> Proceed then rd else if dd \<noteq> Proceed then dd else pd))))"
        by (rule pays_bind [OF pays_carry tail])
    qed
  qed
qed

lemma finish_turn_pays:
  assumes "no_hook_retries hk"
  shows "pays opts (decision_cost d) outcome_cost (finish_turn hk opts p turn d)"
proof (cases "applyTurnDecision d")
  case Next_Turn
  have final: "pays opts 0 outcome_cost (bind_comp (lift_host (hk_final hk p)) (\<lambda>_. ret (Return (loop_result_of Completed None))))"
    by (rule pays_bind [where m = "\<lambda>_. 0"]) (auto intro: pays_free pays_ret)
  have tools: "pays opts 0 outcome_cost (bind_comp (handleToolCalls hk opts p turn) (\<lambda>d'. ret (applyTurnDecision d')))"
    by (rule pays_bind [OF handleToolCalls_pays [OF assms]]) (simp add: pays_ret)
  show ?thesis
    using pays_weaken [OF final, of outcome_cost] pays_weaken [OF tools, of outcome_cost] Next_Turn
    by (simp add: finish_turn_def)
qed (auto simp: finish_turn_def intro!: pays_ret simp flip: outcome_cost_apply)

lemma pays_state: "(\<And>st. pays opts n c (f st)) \<Longrightarrow> pays opts n c (\<lambda>st. f st st)"
  by (simp add: pays_def)

lemma runTurn_pays:
  assumes "no_hook_retries hk"
  shows "pays opts 0 outcome_cost (runTurn hk opts turn)"
proof -
  have body: "pays opts 0 outcome_cost (turn_body hk opts turn)" unfolding turn_body_def
  proof (rule pays_bind [where m = "\<lambda>_. 0"])
    show "pays opts 0 (\<lambda>_. 0) (lift_host (hk_before_turn hk turn))" by (rule pays_free) simp
    show "pays opts 0 outcome_cost (bind_comp (callModelForTurn hk opts turn)
         (\<lambda>oc. if oc \<noteq> Next_Turn then ret oc
                else (\<lambda>st. let p = parse_turn hk (turn_chunks st)
                           in bind_comp (decide_turn hk opts p turn) (finish_turn hk opts p turn) st)))"
    proof (rule pays_bind [OF callModelForTurn_pays [OF assms]])
      have "pays opts 0 outcome_cost (bind_comp (decide_turn hk opts p turn) (finish_turn hk opts p turn))" for p
        by (rule pays_bind [OF decide_turn_pays [OF assms] finish_turn_pays [OF assms]])
      then show "pays opts (outcome_cost oc) outcome_cost (if oc \<noteq> Next_Turn then ret oc
          else (\<lambda>st. let p = parse_turn hk (turn_chunks st)
                     in bind_comp (decide_turn hk opts p turn) (finish_turn hk opts p turn) st))" for oc
        by (cases "oc = Next_Turn")
          (simp_all add: pays_ret Let_def pays_state [where f = "\<lambda>st. bind_comp
             (decide_turn hk opts (parse_turn hk (turn_chunks st)) turn) (finish_turn hk opts (parse_turn hk (turn_chunks st)) turn)"])
    qed
  qed
  have err: "pays opts 0 outcome_cost (handleTurnError hk message)" for message
    unfolding handleTurnError_def
    by (intro pays_bind [OF record_failed_pays] pays_bind [where m = "\<lambda>_. 0"] pays_free pays_ret) auto
  show ?thesis
  proof (rule paysI)
    fix st e st1 assume "runTurn hk opts turn st = (Inl e, st1)"
    then show "budget opts st1 \<le> budget opts st + 0"
      using paysD [OF body, of "st\<lparr>turn_chunks := []\<rparr>"] paysD(1) [OF err]
      by (fastforce simp: runTurn_def bind_comp_def lift_host_def split: if_splits prod.splits sum.splits)
  next
    fix st oc st1 assume "runTurn hk opts turn st = (Inr oc, st1)"
    then show "budget opts st1 + outcome_cost oc \<le> budget opts st + 0"
      using paysD [OF body, of "st\<lparr>turn_chunks := []\<rparr>"] paysD(2) [OF err]
      by (fastforce simp: runTurn_def bind_comp_def lift_host_def split: if_splits prod.splits sum.splits)
  qed
qed

lemma rebuild_budget: "rebuild_frame hk b st = (r, st1) \<Longrightarrow> budget opts st1 = budget opts st"
  by (auto simp: rebuild_frame_def bind_comp_def lift_host_def ret_def split: if_splits prod.splits sum.splits)

lemma turn_loop_terminates:
  assumes "no_hook_retries hk" and "maxTurns opts = Some n"
  shows "(n + 1 - turn) + budget opts st < fuel \<Longrightarrow> \<exists>x. turn_loop hk opts fuel turn st = Some x"
proof (induction fuel arbitrary: turn st)
  case (Suc fuel)
  show ?case
  proof (cases "past_cap opts turn")
    case False
    then have turn: "turn \<le> n" using assms(2) by (simp add: past_cap_def)
    obtain r st1 where r: "runTurn hk opts turn st = (r, st1)" by (cases "runTurn hk opts turn st")
    note paid = paysD [OF runTurn_pays [OF assms(1), of opts turn], of st]
    show ?thesis
    proof (cases r)
      case (Inl e)
      then show ?thesis using False r by simp
    next
      case (Inr oc)
      note cost = paid(2) [OF r [unfolded Inr]]
      show ?thesis
      proof (cases oc)
        case Next_Turn
        then have "(n + 1 - (turn + 1)) + budget opts st1 < fuel" using cost Suc.prems turn by simp
        from Suc.IH [OF this] show ?thesis using False r Inr Next_Turn by simp
      next
        case (Retry_Turn b)
        obtain r2 st2 where r2: "rebuild_frame hk b st1 = (r2, st2)" by (cases "rebuild_frame hk b st1")
        have "(n + 1 - turn) + budget opts st2 < fuel"
          using cost Suc.prems turn rebuild_budget [OF r2, of opts] Retry_Turn by simp
        from Suc.IH [OF this] show ?thesis using False r Inr Retry_Turn r2 by (cases r2) simp_all
      next
        case (Return res)
        then show ?thesis using False r Inr by simp
      qed
    qed
  qed simp
qed simp

text \<open>C22: A capped run ends. With a turn cap and hooks that do not retry on their own (as in the base
  class), \<open>run\<close> settles after at most the cap plus the transport and the degenerate retry bounds
  plus one rounds, whatever the model answers, however its streams fail and whatever the tools do:
  retries are charged to per-run counters that no success resets.\<close>

theorem run_terminates:
  assumes "no_hook_retries hk" and "maxTurns opts = Some n"
    and "n + maxTransientRetries opts + degenerateRetryMax opts + 1 \<le> fuel"
  shows "\<exists>x. run hk opts fuel st = Some x"
proof -
  have "\<exists>x. turn_loop hk opts fuel 1 st1 = Some x" if "budget opts st1 \<le> maxTransientRetries opts + degenerateRetryMax opts" for st1
    using turn_loop_terminates [OF assms(1,2), of 1 st1 fuel] assms(3) that by simp
  moreover have "budget opts st1 \<le> maxTransientRetries opts + degenerateRetryMax opts" for st1 :: "'a loop_state"
    by (simp add: budget_def)
  ultimately have "\<exists>x. turn_loop hk opts fuel 1 st1 = Some x" for st1 by blast
  then have "\<exists>x. run_body hk opts fuel st = Some x"
    unfolding run_body_def by (auto split: prod.splits sum.splits resolution.splits)
  then show ?thesis by (auto simp: run_def split: prod.splits)
qed

section \<open>A model that repeats itself\<close>

definition succeeds :: "('h \<Rightarrow> (string + 'a) \<times> 'h) \<Rightarrow> bool" where
  "succeeds f \<longleftrightarrow> (\<forall>h. \<not> isl (fst (f h)))"

definition proceeds :: "('h \<Rightarrow> (string + decision) \<times> 'h) \<Rightarrow> bool" where
  "proceeds f \<longleftrightarrow> (\<forall>h. fst (f h) = Inr Proceed)"

text \<open>A host whose methods work and whose hooks do not intervene.\<close>

definition smooth_host :: "'h hooks \<Rightarrow> bool" where
  "smooth_host hk \<longleftrightarrow>
     succeeds (hk_before_run hk) \<and> (\<forall>h. \<exists>m c h'. hk_resolve hk h = (Inr (Resolved m (Some c)), h') \<and> m \<noteq> []) \<and>
     succeeds (hk_prepare hk) \<and> (\<forall>t. succeeds (hk_before_turn hk t)) \<and>
     (\<forall>p t. proceeds (hk_after_parse hk p t)) \<and> (\<forall>p s. succeeds (hk_record_turn hk p s)) \<and>
     (\<forall>p t. proceeds (hk_after_record hk p t)) \<and> (\<forall>p t. proceeds (hk_before_round hk p t)) \<and>
     (\<forall>p t. succeeds (hk_execute hk p t)) \<and> (\<forall>r t. proceeds (hk_after_execution hk r t)) \<and>
     (\<forall>p r. succeeds (hk_persist hk p r)) \<and> (\<forall>r t. proceeds (hk_after_persistence hk r t)) \<and>
     (\<forall>h. \<not> hk_signal hk h) \<and> (\<forall>h. \<not> hk_yield hk h)"

text \<open>Every stream completes with the same tool calls.\<close>

definition repeats_calls :: "'h hooks \<Rightarrow> string \<Rightarrow> bool" where
  "repeats_calls hk sig \<longleftrightarrow>
     (\<forall>t h. let a = fst (hk_stream hk t h); cs = toolCalls (parse_turn hk (filter (\<lambda>c. c \<noteq> Heartbeat) (map fst (sa_chunks a))))
            in sa_failure a = None \<and> (\<forall>(c, sg, yl)\<in>set (sa_chunks a). \<not> sg \<and> \<not> yl) \<and> cs \<noteq> [] \<and> toolCallSignature cs = sig)"

definition repeated :: "string \<Rightarrow> nat \<Rightarrow> 'h loop_state \<Rightarrow> bool" where
  "repeated sig k st \<longleftrightarrow>
     \<not> aborted st \<and> (k = 0 \<longrightarrow> lastToolCallSignature st = None) \<and>
     (0 < k \<longrightarrow> lastToolCallSignature st = Some sig \<and> consecutiveDuplicateToolCalls st = k)"

lemma repeated_host [simp]: "repeated sig k (st\<lparr>host := h\<rparr>) = repeated sig k st"
  "repeated sig k (st\<lparr>turn_chunks := cs\<rparr>) = repeated sig k st"
  by (simp_all add: repeated_def)

lemma succeedsE:
  assumes "succeeds f" obtains a h where "lift_host f st = (Inr a, st\<lparr>host := h\<rparr>)"
proof -
  obtain r h where r: "f (host st) = (r, h)" by (cases "f (host st)")
  have "\<not> isl r" using assms r unfolding succeeds_def by (metis fst_conv)
  then obtain a where "r = Inr a" by (cases r) auto
  with r have "lift_host f st = (Inr a, st\<lparr>host := h\<rparr>)" by (simp add: lift_host_def)
  then show ?thesis by (rule that)
qed

lemma proceedsE:
  assumes "proceeds f" obtains h where "lift_host f st = (Inr Proceed, st\<lparr>host := h\<rparr>)"
proof -
  obtain r h where r: "f (host st) = (r, h)" by (cases "f (host st)")
  have "r = Inr Proceed" using assms r unfolding proceeds_def by (metis fst_conv)
  with r have "lift_host f st = (Inr Proceed, st\<lparr>host := h\<rparr>)" by (simp add: lift_host_def)
  then show ?thesis by (rule that)
qed

lemma collect_calm:
  "\<forall>(c, sg, yl)\<in>set cs. \<not> sg \<and> \<not> yl \<Longrightarrow>
   collect_chunks cs False acc = (False, acc @ filter (\<lambda>c. c \<noteq> Heartbeat) (map fst cs), False)"
proof (induction cs arbitrary: acc)
  case (Cons x cs)
  obtain c sg yl where x: "x = (c, sg, yl)" by (cases x)
  have "\<not> sg" "\<not> yl" and rest: "\<forall>(c, sg, yl)\<in>set cs. \<not> sg \<and> \<not> yl" using Cons.prems x by auto
  then show ?case using Cons.IH [OF rest, of acc] Cons.IH [OF rest, of "acc @ [c]"] x by simp
qed simp

definition guard_stop :: "decision \<Rightarrow> bool" where
  "guard_stop d \<longleftrightarrow> (\<exists>g. d = Stop (Some (Guard g)) (Some (Guard_Tripped g)))"

lemma pre_guards_repeat:
  assumes "repeated sig k st" and "toolCallSignature cs = sig"
    and "runPreExecutionGuards hk th cs st = (d, st')"
  shows "guard_stop d \<or> (d = Proceed \<and> repeated sig (k + 1) st' \<and> k + 1 < maxConsecutiveDuplicateToolCalls th)"
proof -
  have sig: "lastToolCallSignature (note_truncated cs st) = lastToolCallSignature st"
    "consecutiveDuplicateToolCalls (note_truncated cs st) = consecutiveDuplicateToolCalls st"
    "aborted (note_truncated cs st) = aborted st"
    by (auto simp: note_truncated_def split: option.splits)
  have "repeated sig (k + 1) (note_duplicate cs (note_truncated cs st))"
      "consecutiveDuplicateToolCalls (note_duplicate cs (note_truncated cs st)) = k + 1"
    using assms(1,2) by (cases "k = 0", auto simp: note_duplicate_def repeated_def sig)+
  then show ?thesis using assms(3)
    by (auto simp: runPreExecutionGuards_def Let_def tripGuard_def guard_stop_def split: if_splits)
qed

lemma post_guards_repeat:
  assumes "repeated sig k st" and "runPostExecutionGuards hk th st = (d, st')"
  shows "guard_stop d \<or> (d = Proceed \<and> repeated sig k st')"
  using assms
  by (auto simp: runPostExecutionGuards_def tripGuard_def guard_stop_def repeated_def split: if_splits)

lemma record_errors_repeat [simp]: "repeated sig k (recordToolErrorSignatures hk results st) = repeated sig k st"
  by (simp add: recordToolErrorSignatures_def Let_def repeated_def)

lemma handleToolCalls_repeat:
  assumes smooth: "smooth_host hk" and rep: "repeated sig k st" and sig: "toolCallSignature (toolCalls p) = sig"
  obtains d st' where "handleToolCalls hk opts p turn st = (Inr d, st')"
    and "guard_stop d \<or> (d = Proceed \<and> repeated sig (k + 1) st' \<and> k + 1 < maxConsecutiveDuplicateToolCalls (guardThresholds opts))"
proof -
  let ?th = "guardThresholds opts"
  obtain d1 st1 where d1: "runPreExecutionGuards hk ?th (toolCalls p) st = (d1, st1)"
    by (cases "runPreExecutionGuards hk ?th (toolCalls p) st")
  from pre_guards_repeat [OF rep sig d1] show ?thesis
  proof
    assume g: "guard_stop d1"
    then have "d1 \<noteq> Proceed" by (auto simp: guard_stop_def)
    then show ?thesis using g d1
      by (intro that [of d1 st1]) (simp_all add: handleToolCalls_def after_hook_def bind_comp_def total_def ret_def)
  next
    assume go: "d1 = Proceed \<and> repeated sig (k + 1) st1 \<and> k + 1 < maxConsecutiveDuplicateToolCalls ?th"
    have h: "proceeds (hk_before_round hk p turn)" "succeeds (hk_execute hk p turn)"
      "\<And>r. proceeds (hk_after_execution hk r turn)" "\<And>r. succeeds (hk_persist hk p r)"
      "\<And>r. proceeds (hk_after_persistence hk r turn)"
      using smooth by (simp_all add: smooth_host_def)
    obtain h1 where b: "lift_host (hk_before_round hk p turn) st1 = (Inr Proceed, st1\<lparr>host := h1\<rparr>)" by (rule proceedsE [OF h(1)])
    obtain rs h2 where e: "lift_host (hk_execute hk p turn) (st1\<lparr>host := h1\<rparr>) = (Inr rs, st1\<lparr>host := h1\<rparr>\<lparr>host := h2\<rparr>)"
      by (rule succeedsE [OF h(2)])
    let ?st3 = "recordToolErrorSignatures hk rs (st1\<lparr>host := h1, host := h2\<rparr>)"
    obtain h3 where a: "lift_host (hk_after_execution hk rs turn) ?st3 = (Inr Proceed, ?st3\<lparr>host := h3\<rparr>)" by (rule proceedsE [OF h(3)])
    obtain u h4 where pe: "lift_host (hk_persist hk p rs) (?st3\<lparr>host := h3\<rparr>) = (Inr u, ?st3\<lparr>host := h3\<rparr>\<lparr>host := h4\<rparr>)"
      by (rule succeedsE [OF h(4)])
    let ?st4 = "?st3\<lparr>host := h3, host := h4\<rparr>"
    obtain h5 where ap: "lift_host (hk_after_persistence hk rs turn) ?st4 = (Inr Proceed, ?st4\<lparr>host := h5\<rparr>)" by (rule proceedsE [OF h(5)])
    obtain d2 st2 where d2: "runPostExecutionGuards hk ?th (?st4\<lparr>host := h5\<rparr>) = (d2, st2)"
      by (cases "runPostExecutionGuards hk ?th (?st4\<lparr>host := h5\<rparr>)")
    have "repeated sig (k + 1) (?st4\<lparr>host := h5\<rparr>)" using go by simp
    from post_guards_repeat [OF this d2] have "guard_stop d2 \<or> (d2 = Proceed \<and> repeated sig (k + 1) st2)" .
    moreover have "handleToolCalls hk opts p turn st = (Inr d2, st2)"
      using d1 go b e a pe ap d2 by (simp add: handleToolCalls_def after_hook_def bind_comp_def total_def ret_def)
    ultimately show ?thesis using go by (intro that [of d2 st2]) auto
  qed
qed

text \<open>A turn on a smooth host whose stream completes undisturbed: the hooks before the decision only move the
  host state, so the turn is what the degenerate check and the end of the turn make of its response.\<close>

definition calm_attempt :: "stream_attempt \<Rightarrow> bool" where
  "calm_attempt a \<longleftrightarrow> sa_failure a = None \<and> (\<forall>(c, sg, yl)\<in>set (sa_chunks a). \<not> sg \<and> \<not> yl)"

definition response_of :: "'h hooks \<Rightarrow> stream_attempt \<Rightarrow> parsed_response" where
  "response_of hk a = parse_turn hk (filter (\<lambda>c. c \<noteq> Heartbeat) (map fst (sa_chunks a)))"

lemma calm_turn:
  assumes smooth: "smooth_host hk" and live: "\<not> aborted st" and calm: "\<And>h. calm_attempt (fst (hk_stream hk turn h))"
  obtains p cs h h' where "p = response_of hk (fst (hk_stream hk turn h))"
    and "runTurn hk opts turn st =
           (case bind_comp (total (checkDegenerateRetry hk opts p)) (finish_turn hk opts p turn)
                   (st\<lparr>turn_chunks := cs, host := h'\<rparr>) of
              (Inr oc, st1) \<Rightarrow> (Inr oc, st1) | (Inl message, st1) \<Rightarrow> handleTurnError hk message st1)"
proof -
  have h: "succeeds (hk_before_turn hk turn)" "\<And>p. proceeds (hk_after_parse hk p turn)"
    "\<And>p s. succeeds (hk_record_turn hk p s)" "\<And>p. proceeds (hk_after_record hk p turn)"
    "\<not> hk_signal hk x" "\<not> hk_yield hk x" for x
    using smooth by (simp_all add: smooth_host_def)
  have quiet: "\<not> shouldAbort hk st" "\<not> shouldYield hk st"
    using live h(5,6) by (simp_all add: shouldAbort_def shouldYield_def)
  let ?st0 = "st\<lparr>turn_chunks := []\<rparr>"
  obtain u h1 where bt: "lift_host (hk_before_turn hk turn) ?st0 = (Inr u, ?st0\<lparr>host := h1\<rparr>)" by (rule succeedsE [OF h(1)])
  let ?st1 = "?st0\<lparr>host := h1\<rparr>"
  obtain a h2 where a: "hk_stream hk turn h1 = (a, h2)" by (cases "hk_stream hk turn h1")
  let ?cs = "filter (\<lambda>c. c \<noteq> Heartbeat) (map fst (sa_chunks a))"
  let ?p = "parse_turn hk ?cs"
  have stream: "sa_failure a = None" "\<forall>(c, sg, yl)\<in>set (sa_chunks a). \<not> sg \<and> \<not> yl"
    using calm [of h1] a by (simp_all add: calm_attempt_def)
  let ?st2 = "st\<lparr>turn_chunks := ?cs, host := h2\<rparr>"
  have call: "callModelForTurn hk opts turn ?st1 = (Inr Next_Turn, ?st2)"
    using live stream(1) collect_calm [OF stream(2), of "[]"] a
    by (simp add: callModelForTurn_def callModel_def)
  obtain h3 where ap: "lift_host (hk_after_parse hk ?p turn) ?st2 = (Inr Proceed, ?st2\<lparr>host := h3\<rparr>)" by (rule proceedsE [OF h(2)])
  let ?st3 = "?st2\<lparr>host := h3\<rparr>"
  obtain v h4 where rc: "recordParsedTurn hk opts ?p ?st3 = (Inr v, ?st3\<lparr>host := h4\<rparr>)"
    unfolding recordParsedTurn_def by (rule succeedsE [OF h(3)])
  let ?st4 = "?st3\<lparr>host := h4\<rparr>"
  obtain h5 where ar: "lift_host (hk_after_record hk ?p turn) ?st4 = (Inr Proceed, ?st4\<lparr>host := h5\<rparr>)" by (rule proceedsE [OF h(4)])
  let ?st5 = "st\<lparr>turn_chunks := ?cs, host := h5\<rparr>"
  have decide: "decide_turn hk opts ?p turn ?st2 = total (checkDegenerateRetry hk opts ?p) ?st5"
    using ap rc ar by (auto simp: decide_turn_def bind_comp_def total_def ret_def split: prod.splits)
  have "turn_body hk opts turn ?st0 = bind_comp (total (checkDegenerateRetry hk opts ?p)) (finish_turn hk opts ?p turn) ?st5"
    using bt call decide by (simp add: turn_body_def bind_comp_def Let_def split: prod.split sum.split)
  then have "runTurn hk opts turn st =
      (case bind_comp (total (checkDegenerateRetry hk opts ?p)) (finish_turn hk opts ?p turn) ?st5 of
         (Inr oc, st1) \<Rightarrow> (Inr oc, st1) | (Inl message, st1) \<Rightarrow> handleTurnError hk message st1)"
    using quiet by (simp add: runTurn_def)
  moreover have "?p = response_of hk (fst (hk_stream hk turn h1))" by (simp add: response_of_def a)
  ultimately show ?thesis by (intro that) auto
qed

lemma turn_repeat:
  assumes smooth: "smooth_host hk" and same: "repeats_calls hk sig" and rep: "repeated sig k st"
  obtains g st' where "runTurn hk opts turn st = (Inr (Return (loop_result_of (Guard g) (Some (Guard_Tripped g)))), st')"
  | st' where "runTurn hk opts turn st = (Inr Next_Turn, st')" and "repeated sig (k + 1) st'"
      and "k + 1 < maxConsecutiveDuplicateToolCalls (guardThresholds opts)"
proof -
  have calm: "calm_attempt (fst (hk_stream hk turn h))" for h
    using same by (simp add: repeats_calls_def calm_attempt_def Let_def)
  obtain p cs h h' where p: "p = response_of hk (fst (hk_stream hk turn h))"
    and t: "runTurn hk opts turn st =
           (case bind_comp (total (checkDegenerateRetry hk opts p)) (finish_turn hk opts p turn)
                   (st\<lparr>turn_chunks := cs, host := h'\<rparr>) of
              (Inr oc, st1) \<Rightarrow> (Inr oc, st1) | (Inl message, st1) \<Rightarrow> handleTurnError hk message st1)"
    by (rule calm_turn [OF smooth _ calm, of st opts]) (use rep in \<open>simp_all add: repeated_def\<close>)
  have calls: "toolCalls p \<noteq> []" "toolCallSignature (toolCalls p) = sig"
    using same by (simp_all add: p response_of_def repeats_calls_def Let_def)
  let ?st5 = "st\<lparr>turn_chunks := cs, host := h'\<rparr>"
  have "repeated sig k ?st5" using rep by (simp add: repeated_def)
  then obtain d st6 where d: "handleToolCalls hk opts p turn ?st5 = (Inr d, st6)"
    "guard_stop d \<or> (d = Proceed \<and> repeated sig (k + 1) st6 \<and> k + 1 < maxConsecutiveDuplicateToolCalls (guardThresholds opts))"
    by (rule handleToolCalls_repeat [OF smooth _ calls(2)])
  have "runTurn hk opts turn st = (Inr (applyTurnDecision d), st6)"
    using d(1) calls(1)
    by (simp add: t bind_comp_def total_def checkDegenerateRetry_def isDegenerateTurn_def finish_turn_def
        applyTurnDecision_def [of Proceed] ret_def)
  then show ?thesis using d(2) that by (auto simp: guard_stop_def applyTurnDecision_def)
qed

lemma loop_repeat:
  assumes smooth: "smooth_host hk" and same: "repeats_calls hk sig" and cap: "maxTurns opts = None"
  shows "repeated sig k st \<Longrightarrow> maxConsecutiveDuplicateToolCalls (guardThresholds opts) \<le> k + fuel \<Longrightarrow> 0 < fuel \<Longrightarrow>
    \<exists>g st'. turn_loop hk opts fuel turn st = Some (Inr (loop_result_of (Guard g) (Some (Guard_Tripped g))), st')"
proof (induction fuel arbitrary: k turn st)
  case (Suc fuel)
  have cap': "\<not> past_cap opts turn" using cap by (simp add: past_cap_def)
  from turn_repeat [OF smooth same Suc.prems(1), of opts turn] show ?case
  proof cases
    case (1 g st')
    then show ?thesis using cap' by auto
  next
    case (2 st')
    have "\<exists>g st''. turn_loop hk opts fuel (turn + 1) st' = Some (Inr (loop_result_of (Guard g) (Some (Guard_Tripped g))), st'')"
      using Suc.IH [OF 2(2)] 2(3) Suc.prems(2) by simp
    then show ?thesis using cap' 2(1) by simp
  qed
qed simp

text \<open>C11: A stuck model is stopped. When the host works and the model answers every turn with the same
  tool calls, a run without a turn cap settles, within as many turns as the duplicate threshold
  allows, and it settles with a circuit breaker's outcome and error, not as a completion.\<close>

theorem stuck_model_stopped:
  assumes "smooth_host hk" and "repeats_calls hk sig" and "maxTurns opts = None" and "\<not> aborted st"
    and "maxConsecutiveDuplicateToolCalls (guardThresholds opts) \<le> fuel" and "0 < fuel"
  shows "\<exists>rec st' g. run hk opts fuel st = Some (rec, st') \<and>
           returned rec = Inr (loop_result_of (Guard g) (Some (Guard_Tripped g)))"
proof -
  let ?st = "resetResilienceState st"
  have h: "succeeds (hk_before_run hk)" "\<forall>h. \<exists>m c h'. hk_resolve hk h = (Inr (Resolved m (Some c)), h') \<and> m \<noteq> []"
      "succeeds (hk_prepare hk)"
    using assms(1) by (simp_all add: smooth_host_def)
  obtain u h1 where b: "lift_host (hk_before_run hk) ?st = (Inr u, ?st\<lparr>host := h1\<rparr>)" by (rule succeedsE [OF h(1)])
  obtain m c h2 where r: "hk_resolve hk h1 = (Inr (Resolved m (Some c)), h2)" "m \<noteq> []" using h(2) by blast
  let ?st2 = "?st\<lparr>host := h1\<rparr>\<lparr>host := h2\<rparr>"
  obtain v h3 where p: "lift_host (hk_prepare hk) ?st2 = (Inr v, ?st2\<lparr>host := h3\<rparr>)" by (rule succeedsE [OF h(3)])
  have "repeated sig 0 (?st2\<lparr>host := h3\<rparr>)" using assms(4) by (simp add: repeated_def resetResilienceState_def)
  then obtain g st' where "turn_loop hk opts fuel 1 (?st2\<lparr>host := h3\<rparr>) =
      Some (Inr (loop_result_of (Guard g) (Some (Guard_Tripped g))), st')"
    using loop_repeat [OF assms(1-3), of 0 _ fuel 1] assms(5,6) by fastforce
  moreover have "lift_host (hk_resolve hk) (?st\<lparr>host := h1\<rparr>) = (Inr (Resolved m (Some c)), ?st2)"
    using r(1) by (simp add: lift_host_def)
  ultimately have "run_body hk opts fuel st = Some (Inr (loop_result_of (Guard g) (Some (Guard_Tripped g))), st')"
    using b r(2) p by (simp add: run_body_def bind_comp_def)
  then show ?thesis by (auto simp: run_def split: prod.splits)
qed

section \<open>A model that only thinks\<close>





text \<open>When \<open>afterRun\<close> throws after a turn loop that settled, the run still settles with the loop's result:
  only the metrics see the failure.\<close>

lemma after_run_failure_hidden:
  assumes "run_body hk opts fuel st = Some (Inr res, st1)" and "isl (fst (hk_after_run hk (host st1)))"
  shows "\<exists>st2. run hk opts fuel st = Some (\<lparr>returned = Inr res, recorded = Some After_Run_Failed\<rparr>, st2)"
proof -
  obtain r h where r: "hk_after_run hk (host st1) = (r, h)" by (cases "hk_after_run hk (host st1)")
  with assms(2) obtain e where "r = Inl e" by (cases r) auto
  with assms(1) r show ?thesis by (simp add: run_def lift_host_def)
qed

section \<open>Examples\<close>

text \<open>A host that counts its alerts and leaves every decision to the loop.\<close>

definition demo_hooks :: "stream_chunk list \<Rightarrow> nat hooks" where
  "demo_hooks chunks =
     \<lparr>hk_before_run = (\<lambda>h. (Inr (), h)), hk_after_run = (\<lambda>h. (Inl ''disk full'', h)),
      hk_resolve = (\<lambda>h. (Inr (Resolved ''m'' (Some 1000)), h)), hk_prepare = (\<lambda>h. (Inr (), h)),
      hk_before_rebuild = (\<lambda>h. (Inr (), h)), hk_before_turn = (\<lambda>_ h. (Inr (), h)),
      hk_stream = (\<lambda>_ h. (\<lparr>sa_chunks = map (\<lambda>c. (c, False, False)) chunks, sa_failure = None\<rparr>, h)),
      hk_rate_limit = (\<lambda>_ h. (Inr None, h)), hk_terminal = (\<lambda>_ h. (Inr Proceed, h)),
      hk_after_parse = (\<lambda>_ _ h. (Inr Proceed, h)), hk_record_turn = (\<lambda>_ _ h. (Inr (), h)),
      hk_after_record = (\<lambda>_ _ h. (Inr Proceed, h)), hk_notify_degenerate = (\<lambda>_ h. h),
      hk_final = (\<lambda>_ h. (Inr (), h)), hk_before_round = (\<lambda>_ _ h. (Inr Proceed, h)),
      hk_execute = (\<lambda>p _ h. (Inr (map (\<lambda>c. \<lparr>tr_call = c, tr_content = ''ok'', tr_exit = 0\<rparr>) (toolCalls p)), h)),
      hk_after_execution = (\<lambda>_ _ h. (Inr Proceed, h)), hk_persist = (\<lambda>_ _ h. (Inr (), h)),
      hk_after_persistence = (\<lambda>_ _ h. (Inr Proceed, h)), hk_routing = (\<lambda>_. False),
      hk_alert = (\<lambda>h. (Inr (), h + 1)), hk_tripped = (\<lambda>_ h. h), hk_nudge = (\<lambda>h. h),
      hk_signal = (\<lambda>_. False), hk_yield = (\<lambda>_. False), hk_parse = (\<lambda>_. Some (JObj [])),
      hk_factory = (\<lambda>k i. i)\<rparr>"

definition demo_loop :: "nat loop_state" where
  "demo_loop =
     \<lparr>aborted = False, transportRetries = 0, degenerateRetries = 0, consecutiveTruncatedTurns = 0,
      lastTruncatedToolName = None, consecutiveDuplicateToolCalls = 0, lastToolCallSignature = None,
      consecutiveErrorSignature = 0, lastErrorSignature = None, errorNudgeInjected = False,
      consecutiveRoutingErrorSignature = 0, lastRoutingErrorSignature = None, turn_chunks = [], host = 0\<rparr>"

definition spin_chunks :: "stream_chunk list" where
  "spin_chunks = [Tool_Use_Start ''a'' ''query'', Tool_Use_Args ''a'' ''{}'', Tool_Use_End ''a'']"

lemma demo_smooth: "smooth_host (demo_hooks chunks)"
  by (simp add: smooth_host_def demo_hooks_def succeeds_def proceeds_def)

lemma demo_quiet: "no_hook_retries (demo_hooks chunks)"
  by (simp add: no_hook_retries_def demo_hooks_def)

theorem pre_guards_exact_witness:
  "fst (runPreExecutionGuards (demo_hooks []) DEFAULT_LOOP_GUARD_THRESHOLDS [] (resetResilienceState demo_loop)) = Proceed"
  using pre_guards_exact [OF tracks_reset refl, of "demo_hooks []" DEFAULT_LOOP_GUARD_THRESHOLDS "[]" demo_loop]
  by (simp add: DEFAULT_LOOP_GUARD_THRESHOLDS_def turn_truncation_def streak_def)

theorem run_terminates_witness:
  "\<exists>x. run (demo_hooks spin_chunks) (default_options\<lparr>maxTurns := Some 4\<rparr>) 10 demo_loop = Some x"
  using run_terminates [OF demo_quiet, of "default_options\<lparr>maxTurns := Some 4\<rparr>" 4 10 spin_chunks demo_loop]
  by (simp add: default_options_def)

theorem stuck_model_stopped_witness:
  "\<exists>rec st' g. run (demo_hooks spin_chunks) default_options 12 demo_loop = Some (rec, st') \<and>
     returned rec = Inr (loop_result_of (Guard g) (Some (Guard_Tripped g)))"
proof (rule stuck_model_stopped [OF demo_smooth])
  have calls: "toolCalls (parse_turn (demo_hooks spin_chunks) spin_chunks) =
      [\<lparr>tc_id = ''a'', tc_name = ''query'', tc_input = JObj [], tc_args = ''{}'', tc_truncated = False\<rparr>]" by code_simp
  have "filter (\<lambda>c. c \<noteq> Heartbeat) spin_chunks = spin_chunks" by (simp add: spin_chunks_def)
  then show "repeats_calls (demo_hooks spin_chunks) ''query:{}''"
    using calls unfolding repeats_calls_def
    by (simp add: demo_hooks_def [of spin_chunks, THEN arg_cong, where f = hk_stream] toolCallSignature_def comp_def Let_def)
qed (simp_all add: default_options_def demo_loop_def DEFAULT_LOOP_GUARD_THRESHOLDS_def)


end
