(* ===== verification/Relay_Routing.thy ===== *)
theory Relay_Routing
  imports Durable_Work
begin

text \<open>
  How relay requests and responses enter the durable spool and how their awaiters read
  them: the kind registry of \<open>packages/shared/src/types.ts\<close> with the retention classes of
  \<open>packages/agent/src/durable-work-registry.ts\<close>, the routing of \<open>relay-router.ts\<close> and
  \<open>topology.ts\<close>, and the response and part readers of
  \<open>packages/core/src/repositories/durable-work.ts\<close>. The synced host and peer tables are read through
  \<open>routing_env\<close>; the random row id and the clock are arguments.
\<close>

section \<open>Decimal text\<close>

fun dec_digits :: "nat \<Rightarrow> string" where
  "dec_digits n = (if n < 10 then [char_of (48 + n)] else dec_digits (n div 10) @ [char_of (48 + n mod 10)])"

declare dec_digits.simps [simp del]

definition dec_int :: "int \<Rightarrow> string" where
  "dec_int i = (if i < 0 then CHR ''-'' # dec_digits (nat (- i)) else dec_digits (nat i))"

section \<open>Kinds\<close>

datatype relay_dispatch = Sync | Async | Response | Passive

definition RELAY_KIND_REGISTRY :: "(string \<times> relay_dispatch) list" where
  "RELAY_KIND_REGISTRY =
     [(''tool_call'', Sync), (''resource_read'', Sync), (''prompt_invoke'', Sync), (''cache_warm'', Sync),
      (''platform_request'', Sync), (''client_tool'', Async), (''cancel'', Async), (''inference'', Async),
      (''inference_part'', Async), (''intake'', Async), (''notify_wakeup'', Async), (''mcp_auth_handoff'', Async),
      (''mcp_app_proxy'', Async), (''webhook_intake'', Passive), (''connector_intake'', Passive), (''rss_intake'', Passive),
      (''result'', Response), (''error'', Response), (''client_result'', Response), (''stream_chunk'', Response),
      (''stream_end'', Response), (''status_forward'', Response), (''trace_data'', Response)]"

definition RELAY_RESPONSE_KINDS :: "string list" where
  "RELAY_RESPONSE_KINDS = map fst (filter (\<lambda>(k, d). d = Response) RELAY_KIND_REGISTRY)"

definition RPC_REQUEST_TTL_MS :: int where
  "RPC_REQUEST_TTL_MS = 5 * 60 * 1000"

definition relay_ttl :: "string \<Rightarrow> int" where
  "relay_ttl k =
     (if k = ''stream_chunk'' \<or> k = ''stream_end'' then 5 * 60 * 1000
      else if k = ''webhook_intake'' \<or> k = ''rss_intake'' \<or> k = ''connector_intake'' then 7 * 24 * 60 * 60 * 1000
      else RPC_REQUEST_TTL_MS)"

text \<open>The registered retention of a kind; the kinds without one (\<open>dispatch_message\<close>, \<open>task_fire\<close>) and
  unregistered kinds have none.\<close>

definition registry_ttl :: "string \<Rightarrow> int option" where
  "registry_ttl k = (if k \<in> set (map fst RELAY_KIND_REGISTRY) then Some (relay_ttl k) else None)"

definition durableExpiresAt :: "string \<Rightarrow> time \<Rightarrow> int \<Rightarrow> time" where
  "durableExpiresAt k now timeoutMs = now + max timeoutMs (case registry_ttl k of None \<Rightarrow> 0 | Some t \<Rightarrow> t)"

section \<open>Topology and routing\<close>

datatype topology_role = Hub | Spoke

record routing_env =
  advertises :: "string \<Rightarrow> bool"
  topology :: "topology_role option"
  sync_peer :: "string option"

definition resolveHubSiteId :: "routing_env \<Rightarrow> string option \<Rightarrow> string option" where
  "resolveHubSiteId env localSiteId =
     (case topology env of None \<Rightarrow> None | Some Hub \<Rightarrow> localSiteId | Some Spoke \<Rightarrow> sync_peer env)"

definition shouldRouteRelayDurable :: "routing_env \<Rightarrow> string \<Rightarrow> string \<Rightarrow> bool" where
  "shouldRouteRelayDurable env targetSiteId localSiteId =
     (if \<not> advertises env targetSiteId then False
      else if topology env = Some Spoke then
        (case resolveHubSiteId env (Some localSiteId) of
           None \<Rightarrow> True
         | Some hub \<Rightarrow> \<not> (hub \<noteq> [] \<and> targetSiteId \<noteq> hub \<and> \<not> advertises env hub))
      else True)"

record route_params =
  rp_target :: string
  rp_source :: string
  rp_kind :: string
  rp_payload :: jtext
  rp_timeout :: int
  rp_ref :: "string option"
  rp_key :: "string option"
  rp_stream :: "string option"
  rp_trace :: "string option"

datatype route_result = Route_Error string | Routed_Local string bool | Routed_Durable string bool

definition routed_work :: "route_params \<Rightarrow> string \<Rightarrow> time \<Rightarrow> new_work" where
  "routed_work p i now =
     \<lparr>new_id = i, new_target = (if rp_target p = rp_source p then LOCAL_WORK_TARGET else rp_target p), new_kind = rp_kind p,
      new_payload = rp_payload p, new_key = (case rp_key p of None \<Rightarrow> i | Some k \<Rightarrow> k),
      new_expires_at = Some (durableExpiresAt (rp_kind p) now (rp_timeout p)), new_ref_id = rp_ref p,
      new_source_site = Some (rp_source p), new_received_at = None, new_stream_id = rp_stream p,
      new_trace_context = rp_trace p\<rparr>"

text \<open>\<open>routeRelayRequest\<close>; \<open>routeRelayResponse\<close> is the same write, with the reference and the
  key always given. A row the spool rejects as invalid is an exception (\<open>Inl\<close>).\<close>

definition routeRelayRequest :: "routing_env \<Rightarrow> spool \<Rightarrow> route_params \<Rightarrow> string \<Rightarrow> time \<Rightarrow> (work_error + route_result) \<times> spool" where
  "routeRelayRequest env rows p i now =
     (let selfTargeted = (rp_target p = rp_source p) in
      if \<not> selfTargeted \<and> \<not> shouldRouteRelayDurable env (rp_target p) (rp_source p)
      then (Inr (Route_Error (rp_target p)), rows)
      else (case insertDurableWork True False rows (routed_work p i now) now of
              Inl e \<Rightarrow> (Inl e, rows)
            | Inr (rows', inserted, _) \<Rightarrow> (Inr ((if selfTargeted then Routed_Local else Routed_Durable) i inserted), rows')))"

definition routeRelayResponse :: "routing_env \<Rightarrow> spool \<Rightarrow> route_params \<Rightarrow> string \<Rightarrow> time \<Rightarrow> (work_error + route_result) \<times> spool" where
  "routeRelayResponse env rows p i now =
     (let selfTargeted = (rp_target p = rp_source p) in
      if \<not> selfTargeted \<and> \<not> shouldRouteRelayDurable env (rp_target p) (rp_source p)
      then (Inr (Route_Error (rp_target p)), rows)
      else (case insertDurableWork True False rows (routed_work p i now) now of
              Inl e \<Rightarrow> (Inl e, rows)
            | Inr (rows', inserted, _) \<Rightarrow> (Inr ((if selfTargeted then Routed_Local else Routed_Durable) i inserted), rows')))"

section \<open>Readers\<close>

definition for_self :: "string \<Rightarrow> work_row \<Rightarrow> bool" where
  "for_self ownSiteId r \<longleftrightarrow> target_site_id r = ownSiteId \<or> target_site_id r = LOCAL_WORK_TARGET"

definition readDurableResponseByRefId :: "spool \<Rightarrow> string \<Rightarrow> string \<Rightarrow> work_row option" where
  "readDurableResponseByRefId rows refId ownSiteId =
     (case order_by created_at (filter (\<lambda>r. ref_id r = Some refId \<and> for_self ownSiteId r \<and> claim_state r = Pending \<and>
               kind r \<in> set RELAY_RESPONSE_KINDS) rows) of [] \<Rightarrow> None | r # _ \<Rightarrow> Some r)"

definition readDurableResponsesByStreamId :: "spool \<Rightarrow> string \<Rightarrow> string \<Rightarrow> work_row list" where
  "readDurableResponsesByStreamId rows streamId ownSiteId =
     order_by created_at (filter (\<lambda>r. stream_id r = Some streamId \<and> for_self ownSiteId r \<and> claim_state r = Pending \<and>
         kind r \<in> set RELAY_RESPONSE_KINDS) rows)"

definition readDurablePartsByStreamId :: "spool \<Rightarrow> string \<Rightarrow> string \<Rightarrow> string \<Rightarrow> work_row list" where
  "readDurablePartsByStreamId rows streamId ownSiteId k =
     order_by created_at (filter (\<lambda>r. stream_id r = Some streamId \<and> for_self ownSiteId r \<and>
         (claim_state r = Pending \<or> claim_state r = Processing) \<and> kind r = k) rows)"

lemma route_ok: "spool_ok rows \<Longrightarrow> spool_ok (snd (routeRelayRequest env rows p i now))"
  using insert_ok by (auto simp: routeRelayRequest_def Let_def split: sum.splits)

text \<open>An unroutable target never touches the spool, and a routed row outlives the retention of its kind.\<close>

lemma route_error_unchanged: "fst (routeRelayRequest env rows p i now) = Inr (Route_Error t) \<Longrightarrow> snd (routeRelayRequest env rows p i now) = rows"
  by (auto simp: routeRelayRequest_def Let_def split: sum.splits if_splits)

lemma routed_expiry_floor: "registry_ttl k = Some t \<Longrightarrow> now + t \<le> durableExpiresAt k now timeoutMs"
  by (simp add: durableExpiresAt_def)

section \<open>Claiming and consuming a whole set\<close>

lemma consume_all_succeeds:
  assumes "spool_ok rows" and "distinct ids"
    and "\<forall>i\<in>set ids. \<exists>tok. m i = Some tok \<and> tok \<noteq> [] \<and> (\<exists>x\<in>set rows. ack_matches i tok x)"
  shows "snd (consume_all now m ids rows)"
  using assms
proof (induction ids arbitrary: rows)
  case (Cons i ids)
  then obtain tok x where tok: "m i = Some tok" "tok \<noteq> []" "x \<in> set rows" "ack_matches i tok x" by auto
  let ?rows = "update_where (ack_matches i tok) (to_consumed now) rows"
  have "\<exists>tok'. m j = Some tok' \<and> tok' \<noteq> [] \<and> (\<exists>y\<in>set ?rows. ack_matches j tok' y)" if "j \<in> set ids" for j
  proof -
    from Cons.prems(3) that obtain tok' y where j: "m j = Some tok'" "tok' \<noteq> []" "y \<in> set rows" "ack_matches j tok' y" by auto
    moreover have "\<not> ack_matches i tok y" using j(4) that Cons.prems(2) by (auto simp: ack_matches_def)
    ultimately show ?thesis by (intro exI [of _ tok'] conjI bexI [of _ y] update_where_miss) simp_all
  qed
  then have "snd (consume_all now m ids ?rows)"
    using Cons.IH [OF consume.update_ok [OF Cons.prems(1)]] Cons.prems(2) by simp
  moreover have "count_where (ack_matches i tok) rows = 1" using count_ack [OF Cons.prems(1)] tok by blast
  ultimately show ?case using tok by simp
qed simp

lemma claim_each_rows:
  assumes "distinct (map wid rs)" and "\<forall>r\<in>set rs. r \<in> set rows \<and> claim_state r = Pending"
  shows "map wid (snd (claim_each toks now n rs rows)) = map wid rs"
    and "\<forall>c\<in>set (snd (claim_each toks now n rs rows)).
           c \<in> set (fst (claim_each toks now n rs rows)) \<and> claim_state c = Processing \<and> (\<exists>k. claim_token c = Some (toks k))"
proof (atomize (full), use assms in \<open>induction rs arbitrary: n rows\<close>)
  case (Cons r rs)
  let ?rows = "claim_row (toks n) now (wid r) rows"
  have other: "\<forall>x\<in>set rs. x \<in> set ?rows \<and> claim_state x = Pending"
  proof (intro ballI conjI)
    fix x assume x: "x \<in> set rs"
    then have "wid x \<noteq> wid r" using Cons.prems(1) by (auto simp: rev_image_eqI)
    then show "x \<in> set ?rows" using Cons.prems(2) x by (intro claim_row_other) simp_all
    show "claim_state x = Pending" using Cons.prems(2) x by simp
  qed
  have "to_processing (toks n) now r \<in> set ?rows"
    unfolding claim_row_def by (rule update_where_hit) (use Cons.prems in simp_all)
  moreover have "wid (to_processing (toks n) now r) \<notin> wid ` set rs" using Cons.prems(1) by (simp add: to_processing_def)
  ultimately have first: "to_processing (toks n) now r \<in> set (fst (claim_each toks now (Suc n) rs ?rows))"
    by (rule claim_each_frame(2))
  have step: "claim_each toks now n (r # rs) rows =
      (fst (claim_each toks now (Suc n) rs ?rows), to_processing (toks n) now r # snd (claim_each toks now (Suc n) rs ?rows))"
    by (simp add: case_prod_unfold Let_def)
  have "claim_state (to_processing (toks n) now r) = Processing" "claim_token (to_processing (toks n) now r) = Some (toks n)"
    "wid (to_processing (toks n) now r) = wid r"
    by (simp_all add: to_processing_def)
  then show ?case using Cons.IH [of ?rows "Suc n"] Cons.prems(1) other first unfolding step by fastforce
qed simp

lemma claimAndConsume_succeeds:
  assumes "spool_ok rows" and "distinct ids" and "ids \<noteq> []" and "\<forall>k. toks k \<noteq> []"
    and "\<forall>i\<in>set ids. case pre i of Some tok \<Rightarrow> tok \<noteq> [] \<and> (\<exists>r\<in>set rows. ack_matches i tok r)
           | None \<Rightarrow> \<exists>r\<in>set rows. wid r = i \<and> target_site_id r = t \<and> claim_state r = Pending"
  shows "snd (claimAndConsumeDurableWorkByIds rows ids t pre toks now c)"
proof -
  let ?pend = "filter (\<lambda>r. target_site_id r = t \<and> claim_state r = Pending \<and> wid r \<in> set (filter (\<lambda>i. pre i = None) ids)) rows"
  let ?cl = "claim_each toks now 0 ?pend rows"
  let ?m = "pre ++ map_of (map (\<lambda>r. (wid r, the (claim_token r))) (snd ?cl))"
  have d: "distinct (map wid ?pend)" using assms(1) by (simp add: spool_ok_def distinct_map_filter)
  have "\<forall>r\<in>set ?pend. r \<in> set rows \<and> claim_state r = Pending" by simp
  note cl' = claim_each_rows [OF d this, of toks now 0]
  have cl: "map wid (snd ?cl) = map wid ?pend"
    "\<forall>x\<in>set (snd ?cl). x \<in> set (fst ?cl) \<and> claim_state x = Processing \<and> (\<exists>k. claim_token x = Some (toks k))"
    by (fact cl')+
  have keys: "wid ` set (snd ?cl) = wid ` set ?pend" using cl(1) by (metis set_map)
  have "\<exists>tok. ?m i = Some tok \<and> tok \<noteq> [] \<and> (\<exists>x\<in>set (fst ?cl). ack_matches i tok x)" if i: "i \<in> set ids" for i
  proof (cases "pre i")
    case None
    with bspec [OF assms(5) i] i have "i \<in> wid ` set (snd ?cl)" unfolding keys by (auto simp: image_iff)
    then obtain x where x: "x \<in> set (snd ?cl)" "wid x = i" by auto
    have "distinct (map fst (map (\<lambda>r. (wid r, the (claim_token r))) (snd ?cl)))" using cl(1) d by (simp add: comp_def)
    then have "map_of (map (\<lambda>r. (wid r, the (claim_token r))) (snd ?cl)) i = Some (the (claim_token x))"
      using x by (intro map_of_is_SomeI) auto
    moreover obtain k where "x \<in> set (fst ?cl)" "claim_state x = Processing" "claim_token x = Some (toks k)"
      using bspec [OF cl(2) x(1)] by (elim conjE exE)
    ultimately show ?thesis using None x(2) assms(4)
      by (intro exI [of _ "toks k"] conjI bexI [of _ x]) (simp_all add: map_add_def ack_matches_def)
  next
    case (Some tok)
    with bspec [OF assms(5) i] obtain r where r: "tok \<noteq> []" "r \<in> set rows" "ack_matches i tok r" by auto
    have "i \<notin> wid ` set ?pend" using Some by auto
    then have "r \<in> set (fst ?cl)" using r by (intro claim_each_frame(2)) (auto simp: ack_matches_def)
    moreover have "map_of (map (\<lambda>r. (wid r, the (claim_token r))) (snd ?cl)) i = None"
      using \<open>i \<notin> wid ` set ?pend\<close> unfolding keys [symmetric] by (auto simp: map_of_eq_None_iff)
    ultimately show ?thesis using Some r by (auto simp: map_add_def)
  qed
  then have "snd (consume_all c ?m ids (fst ?cl))"
    by (intro consume_all_succeeds claim_each_ok assms(1,2)) simp
  then show ?thesis using assms(3) by (simp add: claimAndConsumeDurableWorkByIds_def Let_def case_prod_unfold)
qed

section \<open>Rows through claims\<close>

text \<open>A claim changes the claim columns of a row only.\<close>

definition same_work :: "work_row \<Rightarrow> work_row \<Rightarrow> bool" where
  "same_work x y \<longleftrightarrow>
     wid x = wid y \<and> stream_id x = stream_id y \<and> kind x = kind y \<and> target_site_id x = target_site_id y \<and>
     source_site x = source_site y \<and> expires_at x = expires_at y \<and> ref_id x = ref_id y \<and> payload x = payload y"

lemma claim_row_work:
  assumes "x \<in> set (claim_row tok now i rows)"
  shows "\<exists>y\<in>set rows. same_work x y \<and> (claim_state x = claim_state y \<or> claim_state x = Processing)"
proof -
  have "same_work y y" "same_work (to_processing tok now y) y" for y by (simp_all add: same_work_def to_processing_def)
  then show ?thesis using assms unfolding claim_row_def
    by (elim in_update_whereE) (auto simp: to_processing_def)
qed

lemma claim_row_keeps:
  assumes "y \<in> set rows"
  shows "\<exists>x\<in>set (claim_row tok now i rows). same_work x y"
proof (cases "wid y = i \<and> claim_state y = Pending")
  case True
  then have "to_processing tok now y \<in> set (claim_row tok now i rows)"
    unfolding claim_row_def by (intro update_where_hit assms) simp
  then show ?thesis by (rule bexI [rotated]) (simp add: same_work_def to_processing_def)
next
  case False
  then have "y \<in> set (claim_row tok now i rows)" unfolding claim_row_def by (intro update_where_miss assms) simp
  then show ?thesis by (rule bexI [rotated]) (simp add: same_work_def)
qed

text \<open>Rows keep their identity through claims and consumption.\<close>

lemma update_where_work:
  assumes "\<And>r. same_work (f r) r" and "x \<in> set (update_where p f rows)"
  shows "\<exists>y\<in>set rows. same_work x y"
  using assms(2)
proof (rule in_update_whereE)
  assume "x \<in> set rows"
  moreover have "same_work x x" by (simp add: same_work_def)
  ultimately show ?thesis by blast
next
  fix y assume "y \<in> set rows" "x = f y"
  then show ?thesis using assms(1) by blast
qed

lemma same_work_trans: "same_work x y \<Longrightarrow> same_work y z \<Longrightarrow> same_work x z"
  by (simp add: same_work_def)

lemma same_work_transitions [simp]: "same_work (to_processing tok now r) r" "same_work (to_consumed now r) r"
  by (simp_all add: same_work_def to_processing_def to_consumed_def)

lemma claim_each_work: "x \<in> set (fst (claim_each toks now n rs rows)) \<Longrightarrow> \<exists>y\<in>set rows. same_work x y"
proof (induction rs arbitrary: n rows)
  case Nil
  moreover have "same_work x x" by (simp add: same_work_def)
  ultimately show ?case by auto
next
  case (Cons r rs)
  then obtain y where "y \<in> set (claim_row (toks n) now (wid r) rows)" "same_work x y"
    by (fastforce simp: case_prod_unfold Let_def)
  then show ?case using claim_row_work same_work_trans by metis
qed

lemma consume_all_work: "x \<in> set (fst (consume_all now m ids rows)) \<Longrightarrow> \<exists>y\<in>set rows. same_work x y"
proof (induction ids arbitrary: rows)
  case Nil
  moreover have "same_work x x" by (simp add: same_work_def)
  ultimately show ?case by auto
next
  case (Cons i ids)
  have refl: "same_work x x" by (simp add: same_work_def)
  show ?case
  proof (cases "m i = None \<or> m i = Some []")
    case True
    then show ?thesis using Cons.prems refl by auto
  next
    case False
    then obtain tok where tok: "m i = Some tok" "tok \<noteq> []" by auto
    let ?rows = "update_where (ack_matches i tok) (to_consumed now) rows"
    have "\<exists>y\<in>set ?rows. same_work x y" using Cons tok refl by (auto split: if_splits)
    moreover have "\<exists>z\<in>set rows. same_work y z" if "y \<in> set ?rows" for y
      by (rule update_where_work [OF _ that]) simp
    ultimately show ?thesis using same_work_trans by blast
  qed
qed

lemma claimAndConsume_work:
  assumes "x \<in> set (fst (claimAndConsumeDurableWorkByIds rows ids t pre toks now c))"
  shows "\<exists>y\<in>set rows. same_work x y"
proof -
  have refl: "same_work x x" by (simp add: same_work_def)
  let ?cl = "claim_each toks now 0 (filter (\<lambda>r. target_site_id r = t \<and> claim_state r = Pending \<and> wid r \<in> set (filter (\<lambda>i. pre i = None) ids)) rows) rows"
  let ?m = "pre ++ map_of (map (\<lambda>r. (wid r, the (claim_token r))) (snd ?cl))"
  from assms have "x \<in> set rows \<or> x \<in> set (fst (consume_all c ?m ids (fst ?cl)))"
    by (auto simp: claimAndConsumeDurableWorkByIds_def Let_def case_prod_unfold split: if_splits)
  then show ?thesis
  proof
    assume "x \<in> set (fst (consume_all c ?m ids (fst ?cl)))"
    then obtain y where y: "y \<in> set (fst ?cl)" "same_work x y" by (blast dest: consume_all_work)
    then obtain z where "z \<in> set rows" "same_work y z" by (blast dest: claim_each_work)
    with y(2) same_work_trans show ?thesis by blast
  qed (use refl in blast)
qed

lemma claimLocal_picks:
  assumes "r \<in> set rows" and "target_site_id r = t" and "claim_state r = Pending" and "kind r = k" and "k \<noteq> []"
  obtains row where "row \<in> set rows" and "target_site_id row = t" and "claim_state row = Pending" and "kind row = k"
    and "claimLocalDurableWork rows t (Some k) tok now = (claim_row tok now (wid row) rows, Some (to_processing tok now row))"
proof -
  let ?p = "\<lambda>r. target_site_id r = t \<and> claim_state r = Pending \<and> (case Some k of None \<Rightarrow> True | Some kd \<Rightarrow> kd = [] \<or> kind r = kd)"
  have "set (order_by created_at (filter ?p rows)) \<noteq> {}" using assms by auto
  then obtain row rest where o: "order_by created_at (filter ?p rows) = row # rest"
    by (cases "order_by created_at (filter ?p rows)") (simp_all del: set_order_by)
  from order_by_hd(1) [OF o] assms(5) have "row \<in> set rows" "target_site_id row = t" "claim_state row = Pending" "kind row = k" by auto
  then show ?thesis using o by (intro that) (simp_all add: claimLocalDurableWork_def)
qed

lemma claimLocal_none:
  assumes "\<forall>r\<in>set rows. \<not> (target_site_id r = t \<and> claim_state r = Pending \<and> kind r = k)" and "k \<noteq> []"
  shows "claimLocalDurableWork rows t (Some k) tok now = (rows, None)"
proof -
  have "filter (\<lambda>r. target_site_id r = t \<and> claim_state r = Pending \<and> (case Some k of None \<Rightarrow> True | Some kd \<Rightarrow> kd = [] \<or> kind r = kd)) rows = []"
    using assms by (auto simp: filter_empty_conv)
  then show ?thesis by (simp add: claimLocalDurableWork_def order_by_def)
qed

end
