(* ===== verification/Inference_Parts.thy ===== *)
theory Inference_Parts
  imports Relay_Routing
begin

text \<open>
  Inference requests too large for one relay row: \<open>packages/agent/src/inference-request-parts.ts\<close>
  (splitting and reassembly), the routing of the parts into the durable spool
  (\<open>relay-router.ts\<close>, \<open>relay-stream$.ts\<close>) and their consumption by the relay processor's durable lane
  (\<open>handleInferencePart\<close> of \<open>relay-processor.ts\<close>).

  A text is the list of its UTF-8 bytes here, a byte a \<open>char\<close>, so \<open>TextEncoder\<close> is the identity and
  the fatal \<open>TextDecoder\<close> accepts exactly the valid byte sequences. \<open>Buffer\<close>'s base64
  is written out. \<open>maxPayloadBytes\<close> is an integer.
\<close>

section \<open>Bytes and base64\<close>

text \<open>\<open>TextDecoder("utf-8", fatal)\<close>: the well-formed byte sequences of the Unicode standard.\<close>

abbreviation byte :: "char \<Rightarrow> nat" where
  "byte c \<equiv> of_char c"

definition continuation :: "char \<Rightarrow> bool" where
  "continuation c \<longleftrightarrow> 128 \<le> byte c \<and> byte c \<le> 191"

fun utf8_valid :: "string \<Rightarrow> bool" where
  "utf8_valid [] = True"
| "utf8_valid (a # s) =
     (if byte a < 128 then utf8_valid s
      else if byte a < 194 then False
      else if byte a < 224 then (case s of b # s' \<Rightarrow> continuation b \<and> utf8_valid s' | _ \<Rightarrow> False)
      else if byte a < 240 then
        (case s of b # c # s' \<Rightarrow>
             continuation b \<and> continuation c \<and> (byte a = 224 \<longrightarrow> 160 \<le> byte b) \<and> (byte a = 237 \<longrightarrow> byte b \<le> 159) \<and>
             utf8_valid s'
         | _ \<Rightarrow> False)
      else if byte a < 245 then
        (case s of b # c # d # s' \<Rightarrow>
             continuation b \<and> continuation c \<and> continuation d \<and> (byte a = 240 \<longrightarrow> 144 \<le> byte b) \<and>
             (byte a = 244 \<longrightarrow> byte b \<le> 143) \<and> utf8_valid s'
         | _ \<Rightarrow> False)
      else False)"

text \<open>\<open>TextDecoder\<close> with \<open>fatal\<close>: the text is its own bytes. A leading byte order mark, which the decoder
  strips, does not occur: the text is the JSON of a request.\<close>

definition decode_utf8 :: "string \<Rightarrow> string option" where
  "decode_utf8 bs = (if utf8_valid bs then Some bs else None)"

definition b64_alphabet :: string where
  "b64_alphabet = ''ABCDEFGHIJKLMNOPQRSTUVWXYZabcdefghijklmnopqrstuvwxyz0123456789+/''"

definition b64_char :: "nat \<Rightarrow> char" where
  "b64_char n = b64_alphabet ! n"

fun bytesToBase64 :: "string \<Rightarrow> string" where
  "bytesToBase64 [] = []"
| "bytesToBase64 [a] = [b64_char (byte a div 4), b64_char (byte a mod 4 * 16), CHR ''='', CHR ''='']"
| "bytesToBase64 [a, b] =
     [b64_char (byte a div 4), b64_char (byte a mod 4 * 16 + byte b div 16), b64_char (byte b mod 16 * 4), CHR ''='']"
| "bytesToBase64 (a # b # c # bs) =
     b64_char (byte a div 4) # b64_char (byte a mod 4 * 16 + byte b div 16) #
     b64_char (byte b mod 16 * 4 + byte c div 64) # b64_char (byte c mod 64) # bytesToBase64 bs"

text \<open>Decoding skips characters outside the alphabet, takes the URL-safe variants, stops at the
  padding and drops an incomplete last sextet.\<close>

definition b64_value :: "char \<Rightarrow> nat option" where
  "b64_value c =
     (let n = byte c in
      if 65 \<le> n \<and> n \<le> 90 then Some (n - 65)
      else if 97 \<le> n \<and> n \<le> 122 then Some (n - 71)
      else if 48 \<le> n \<and> n \<le> 57 then Some (n + 4)
      else if c = CHR ''+'' \<or> c = CHR ''-'' then Some 62
      else if c = CHR ''/'' \<or> c = CHR ''_'' then Some 63
      else None)"

fun sextets_bytes :: "nat list \<Rightarrow> string" where
  "sextets_bytes (a # b # c # d # vs) =
     char_of (a * 4 + b div 16) # char_of (b mod 16 * 16 + c div 4) # char_of (c mod 4 * 64 + d) # sextets_bytes vs"
| "sextets_bytes [a, b, c] = [char_of (a * 4 + b div 16), char_of (b mod 16 * 16 + c div 4)]"
| "sextets_bytes [a, b] = [char_of (a * 4 + b div 16)]"
| "sextets_bytes vs = []"

definition base64ToBytes :: "string \<Rightarrow> string" where
  "base64ToBytes s = sextets_bytes (List.map_filter b64_value (takeWhile (\<lambda>c. c \<noteq> CHR ''='') s))"

section \<open>Splitting\<close>

record inference_part =
  part_version :: int
  part_request :: string
  part_index :: int
  part_count :: int
  part_data :: string

text \<open>\<open>JSON.stringify\<close> of a part.\<close>

definition json_escape :: "char \<Rightarrow> string" where
  "json_escape c =
     (if c = CHR 0x22 \<or> c = CHR 0x5C then [CHR 0x5C, c]
      else if byte c \<in> {8, 9, 10, 12, 13} then [CHR 0x5C, (if byte c = 8 then CHR ''b'' else if byte c = 9 then CHR ''t''
             else if byte c = 10 then CHR ''n'' else if byte c = 12 then CHR ''f'' else CHR ''r'')]
      else if byte c < 32 then
        [CHR 0x5C, CHR ''u'', CHR ''0'', CHR ''0'', (if byte c < 16 then CHR ''0'' else CHR ''1''),
         (if byte c mod 16 < 10 then char_of (48 + byte c mod 16) else char_of (87 + byte c mod 16))]
      else [c])"

definition json_quote :: "string \<Rightarrow> string" where
  "json_quote s = CHR 0x22 # concat (map json_escape s) @ [CHR 0x22]"

definition json_key :: "string \<Rightarrow> string" where
  "json_key k = json_quote k @ '':''"

definition part_text :: "inference_part \<Rightarrow> string" where
  "part_text p =
     ''{'' @ json_key ''version'' @ dec_int (part_version p) @
     '','' @ json_key ''request_id'' @ json_quote (part_request p) @
     '','' @ json_key ''index'' @ dec_int (part_index p) @
     '','' @ json_key ''count'' @ dec_int (part_count p) @
     '','' @ json_key ''data'' @ json_quote (part_data p) @ ''}''"

definition serializedBytes :: "inference_part \<Rightarrow> nat" where
  "serializedBytes p = length (part_text p)"

definition makePart :: "string \<Rightarrow> nat \<Rightarrow> nat \<Rightarrow> string \<Rightarrow> inference_part" where
  "makePart requestId index count bytes =
     \<lparr>part_version = 1, part_request = requestId, part_index = int index, part_count = int count,
      part_data = bytesToBase64 bytes\<rparr>"

datatype split_error = Bad_Limit | Limit_Too_Small | Part_Exceeded_Limit

definition slice :: "nat \<Rightarrow> 'a list \<Rightarrow> nat \<Rightarrow> 'a list" where
  "slice cap xs i = take cap (drop (i * cap) xs)"

fun split_parts :: "string \<Rightarrow> string \<Rightarrow> int \<Rightarrow> nat \<Rightarrow> nat \<Rightarrow> nat list \<Rightarrow> split_error + inference_part list" where
  "split_parts text requestId maxPayloadBytes cap count [] = Inr []"
| "split_parts text requestId maxPayloadBytes cap count (i # is) =
     (let part = makePart requestId i count (slice cap text i) in
      if maxPayloadBytes < int (serializedBytes part) then Inl Part_Exceeded_Limit
      else map_sum id ((#) part) (split_parts text requestId maxPayloadBytes cap count is))"

definition splitInferenceRequest :: "string \<Rightarrow> string \<Rightarrow> int \<Rightarrow> split_error + inference_part list" where
  "splitInferenceRequest text requestId maxPayloadBytes =
     (if maxPayloadBytes \<le> 0 then Inl Bad_Limit
      else
        let upperCount = max 1 (length text);
            emptyEnvelope = serializedBytes (makePart requestId (upperCount - 1) upperCount []);
            availableBase64Bytes = maxPayloadBytes - int emptyEnvelope;
            rawCapacity = availableBase64Bytes div 4 * 3
        in if rawCapacity < 1 then Inl Limit_Too_Small
           else
             let cap = nat rawCapacity; count = max 1 ((length text + cap - 1) div cap)
             in split_parts text requestId maxPayloadBytes cap count [0..<count])"

section \<open>Reassembly\<close>

fun assoc_set :: "'k \<Rightarrow> 'v \<Rightarrow> ('k \<times> 'v) list \<Rightarrow> ('k \<times> 'v) list" where
  "assoc_set k v [] = [(k, v)]"
| "assoc_set k v ((k', v') # m) = (if k' = k then (k, v) # m else (k', v') # assoc_set k v m)"

record assembly =
  asm_count :: int
  asm_parts :: "(int \<times> string) list"
  asm_completed :: bool

type_synonym assembler = "(string \<times> assembly) list"

datatype assemble_error = Bad_Metadata | Conflicting_Count | Conflicting_Part | Not_Utf8

definition part_valid :: "inference_part \<Rightarrow> bool" where
  "part_valid p \<longleftrightarrow>
     part_version p = 1 \<and> part_request p \<noteq> [] \<and> 1 \<le> part_count p \<and> 0 \<le> part_index p \<and> part_index p < part_count p"

definition joined :: "int \<Rightarrow> (int \<times> string) list \<Rightarrow> string option" where
  "joined count ps =
     (let ds = map (map_of ps) [0..count - 1] in
      if None \<in> set ds then None else Some (concat (map (base64ToBytes \<circ> the) ds)))"

definition add :: "assembler \<Rightarrow> inference_part \<Rightarrow> assembler \<times> (assemble_error + string option)" where
  "add st part =
     (if \<not> part_valid part then (st, Inl Bad_Metadata)
      else
        let asm = (case map_of st (part_request part) of
                     Some a \<Rightarrow> a | None \<Rightarrow> \<lparr>asm_count = part_count part, asm_parts = [], asm_completed = False\<rparr>);
            keep = (\<lambda>a. assoc_set (part_request part) a st)
        in if asm_count asm \<noteq> part_count part then (keep asm, Inl Conflicting_Count)
           else if map_of (asm_parts asm) (part_index part) \<notin> {None, Some (part_data part)}
           then (keep asm, Inl Conflicting_Part)
           else if asm_completed asm then (keep asm, Inr None)
           else
             let asm1 = asm\<lparr>asm_parts := assoc_set (part_index part) (part_data part) (asm_parts asm)\<rparr>
             in if int (length (asm_parts asm1)) \<noteq> asm_count asm1 then (keep asm1, Inr None)
                else (case joined (asm_count asm1) (asm_parts asm1) of
                        None \<Rightarrow> (keep asm1, Inr None)
                      | Some bytes \<Rightarrow>
                          (keep (asm1\<lparr>asm_completed := True\<rparr>),
                           case decode_utf8 bytes of None \<Rightarrow> Inl Not_Utf8 | Some text \<Rightarrow> Inr (Some text))))"

text \<open>Parts added one after another: what each call returns, up to the first exception.\<close>

fun add_all :: "assembler \<Rightarrow> inference_part list \<Rightarrow> assemble_error + string option list" where
  "add_all st [] = Inr []"
| "add_all st (p # ps) =
     (case add st p of
        (st', Inl e) \<Rightarrow> Inl e
      | (st', Inr out) \<Rightarrow> map_sum id ((#) out) (add_all st' ps))"

section \<open>Base64 is lossless\<close>

lemma b64_alphabet_facts:
  shows "length b64_alphabet = 64" and "map b64_value b64_alphabet = map Some [0..<64]"
    and "list_all (\<lambda>c. c \<noteq> CHR ''='' \<and> json_escape c = [c]) b64_alphabet"
  by (simp_all add: b64_alphabet_def b64_value_def json_escape_def Let_def upt_conv_Cons)

lemma b64_char_facts [simp]:
  assumes "n < 64"
  shows "b64_value (b64_char n) = Some n" and "b64_char n \<noteq> CHR ''=''" and "json_escape (b64_char n) = [b64_char n]"
proof -
  have "map b64_value b64_alphabet ! n = Some n" using assms by (simp add: b64_alphabet_facts(2))
  then show "b64_value (b64_char n) = Some n" using assms by (simp add: b64_char_def b64_alphabet_facts(1))
  have "b64_char n \<in> set b64_alphabet" using assms by (simp add: b64_char_def b64_alphabet_facts(1))
  then show "b64_char n \<noteq> CHR ''=''" "json_escape (b64_char n) = [b64_char n]"
    using b64_alphabet_facts(3) by (auto simp: list_all_iff)
qed

lemma byte_less: "byte c < 256"
proof -
  have "byte c mod 256 < 256" by simp
  then show ?thesis by (simp only: of_char_mod_256)
qed

lemma byte_bounds [simp]:
  "byte a div 4 < 64" "byte a mod 4 * 16 < 64" "byte a mod 4 * 16 + byte b div 16 < 64"
  "byte b mod 16 * 4 < 64" "byte b mod 16 * 4 + byte c div 64 < 64" "byte c mod 64 < 64"
proof -
  have "byte a div 4 < 64" "byte b div 16 < 16" "byte c div 64 < 4"
    using byte_less [of a] byte_less [of b] byte_less [of c] by (simp_all add: less_mult_imp_div_less)
  moreover have "byte a mod 4 < 4" "byte b mod 16 < 16" by simp_all
  ultimately show "byte a div 4 < 64" "byte a mod 4 * 16 < 64" "byte a mod 4 * 16 + byte b div 16 < 64"
    "byte b mod 16 * 4 < 64" "byte b mod 16 * 4 + byte c div 64 < 64" "byte c mod 64 < 64" by linarith+
qed

text \<open>The sextets of an encoding, and the bytes they carry.\<close>

lemma byte_quotients [simp]:
  "byte b div 16 div 16 = 0" "byte b div 16 mod 16 = byte b div 16" "byte b div 64 div 4 = 0" "byte b div 64 mod 4 = byte b div 64"
  using byte_less [of b] by (simp_all add: div_mult2_eq [symmetric] less_mult_imp_div_less)

lemma sextets_of_encoding:
  "sextets_bytes (List.map_filter b64_value (takeWhile (\<lambda>c. c \<noteq> CHR ''='') (bytesToBase64 bs))) = bs"
  by (induction bs rule: bytesToBase64.induct) (simp_all add: List.map_filter_simps)

lemma base64_roundtrip [simp]: "base64ToBytes (bytesToBase64 bs) = bs"
  by (simp add: base64ToBytes_def sextets_of_encoding)

lemma base64_length: "length (bytesToBase64 bs) = 4 * ((length bs + 2) div 3)"
proof (induction bs rule: bytesToBase64.induct)
  case (4 a b c bs)
  have "(length (a # b # c # bs) + 2) div 3 = Suc ((length bs + 2) div 3)" by simp
  with 4 show ?case by simp
qed simp_all

lemma base64_unescaped: "concat (map json_escape (bytesToBase64 bs)) = bytesToBase64 bs"
  by (induction bs rule: bytesToBase64.induct) (simp_all add: json_escape_def [of "CHR ''=''"])

section \<open>The parts of a request\<close>

lemma dec_digits_mono: "m \<le> n \<Longrightarrow> length (dec_digits m) \<le> length (dec_digits n)"
proof (induction n arbitrary: m rule: dec_digits.induct)
  case (1 n)
  show ?case
  proof (cases "n < 10")
    case True
    with 1(2) show ?thesis by (simp add: dec_digits.simps)
  next
    case False
    moreover have "length (dec_digits (m div 10)) \<le> length (dec_digits (n div 10))"
      using 1(1) [OF False, of "m div 10"] 1(2) by (simp add: div_le_mono)
    ultimately show ?thesis by (simp add: dec_digits.simps [of m] dec_digits.simps [of n])
  qed
qed

lemma envelope_bound:
  assumes "i \<le> j" and "n \<le> m"
  shows "serializedBytes (makePart r i n bs) \<le> serializedBytes (makePart r j m []) + length (bytesToBase64 bs)"
  using dec_digits_mono [OF assms(1)] dec_digits_mono [OF assms(2)]
  by (simp add: serializedBytes_def part_text_def makePart_def dec_int_def json_quote_def base64_unescaped)

lemma split_parts_fit:
  "(\<forall>i\<in>set is. int (serializedBytes (makePart r i n (slice cap text i))) \<le> m) \<Longrightarrow>
   split_parts text r m cap n is = Inr (map (\<lambda>i. makePart r i n (slice cap text i)) is)"
  by (induction "is") (simp_all add: Let_def)

text \<open>What a split request consists of.\<close>

definition envelope :: "string \<Rightarrow> string \<Rightarrow> nat" where
  "envelope text r = serializedBytes (makePart r (max 1 (length text) - 1) (max 1 (length text)) [])"

lemma div_ceil:
  fixes l cap :: nat
  assumes "0 < cap"
  shows "l \<le> (l + cap - 1) div cap * cap" and "(l + cap - 1) div cap \<le> l"
proof -
  have "l + cap - 1 < (l + cap - 1) div cap * cap + cap"
    using assms by (metis dividend_less_div_times mult.commute add.commute)
  then show "l \<le> (l + cap - 1) div cap * cap" using assms by linarith
  show "(l + cap - 1) div cap \<le> l"
  proof (cases l)
    case (Suc k)
    have "l + cap - 1 \<le> l * cap" using assms Suc by (cases cap) simp_all
    then show ?thesis using assms by (metis div_le_mono nonzero_mult_div_cancel_right not_gr_zero)
  qed (use assms in simp)
qed

lemma splitInferenceRequest_parts:
  assumes "0 < m" and "int (envelope text r) + 4 \<le> m"
  obtains n cap where "0 < n" and "length text \<le> n * cap"
    and "splitInferenceRequest text r m = Inr (map (\<lambda>i. makePart r i n (slice cap text i)) [0..<n])"
    and "\<forall>i < n. int (serializedBytes (makePart r i n (slice cap text i))) \<le> m"
proof -
  let ?avail = "m - int (envelope text r)"
  define cap where "cap = nat (?avail div 4 * 3)"
  define n where "n = max 1 ((length text + cap - 1) div cap)"
  have "4 div 4 \<le> ?avail div 4" by (rule zdiv_mono1) (use assms(2) in simp_all)
  then have avail: "1 \<le> ?avail div 4" by simp
  then have cap: "0 < cap" "int cap = ?avail div 4 * 3" by (simp_all add: cap_def)
  have n: "0 < n" "length text \<le> n * cap" "n \<le> max 1 (length text)"
    using div_ceil [OF cap(1), of "length text"] cap(1)
    by (auto simp: n_def max_def intro: order_trans split: if_splits)
  have fits: "int (serializedBytes (makePart r i n (slice cap text i))) \<le> m" if "i < n" for i
  proof -
    have "length (slice cap text i) \<le> cap" by (simp add: slice_def)
    then have "(length (slice cap text i) + 2) div 3 \<le> (cap + 2) div 3" by (simp add: div_le_mono)
    also have "cap = nat (?avail div 4) * 3" using avail by (simp only: cap_def nat_mult_distrib) simp
    then have "(cap + 2) div 3 = nat (?avail div 4)" by simp
    finally have "int (length (bytesToBase64 (slice cap text i))) \<le> 4 * (?avail div 4)"
      using avail by (simp add: base64_length)
    also have "\<dots> \<le> ?avail" using mult_div_mod_eq [of 4 ?avail] pos_mod_sign [of 4 ?avail] by linarith
    finally have "int (length (bytesToBase64 (slice cap text i))) \<le> ?avail" .
    moreover have "serializedBytes (makePart r i n (slice cap text i)) \<le> envelope text r + length (bytesToBase64 (slice cap text i))"
      unfolding envelope_def using that n(3) by (intro envelope_bound) simp_all
    ultimately show ?thesis by linarith
  qed
  have "splitInferenceRequest text r m = split_parts text r m cap n [0..<n]"
  proof -
    have "\<not> m \<le> 0" "\<not> ?avail div 4 * 3 < 1" using assms(1) avail by linarith+
    then show ?thesis
      by (simp only: splitInferenceRequest_def Let_def envelope_def [symmetric] cap_def n_def if_False)
  qed
  with n fits show ?thesis by (intro that [of n cap]) (simp_all add: split_parts_fit)
qed

lemma split_Inr:
  assumes "splitInferenceRequest text r m = Inr ps"
  shows "0 < m" and "int (envelope text r) + 4 \<le> m"
proof -
  show "0 < m" using assms by (auto simp: splitInferenceRequest_def split: if_splits)
  have "1 \<le> (m - int (envelope text r)) div 4 * 3"
    using assms
    by (simp only: splitInferenceRequest_def Let_def envelope_def [symmetric] split: if_splits) simp_all
  then have "1 \<le> (m - int (envelope text r)) div 4" by linarith
  then show "int (envelope text r) + 4 \<le> m" using mult_div_mod_eq [of 4 "m - int (envelope text r)"] pos_mod_sign [of 4 "m - int (envelope text r)"] by linarith
qed

lemma slices_concat: "concat (map (slice cap xs) [0..<n]) = take (n * cap) xs"
proof (induction n)
  case (Suc n)
  then show ?case by (simp add: slice_def take_add add.commute [of cap])
qed simp

section \<open>Reassembly returns the request once\<close>

lemma assoc_set_keys [simp]: "fst ` set (assoc_set k v m) = insert k (fst ` set m)"
  by (induction k v m rule: assoc_set.induct) auto

lemma assoc_set_lookup [simp]: "map_of (assoc_set k v m) = (map_of m)(k \<mapsto> v)"
  by (induction k v m rule: assoc_set.induct) auto

lemma assoc_set_distinct [simp]: "distinct (map fst m) \<Longrightarrow> distinct (map fst (assoc_set k v m))"
  by (induction k v m rule: assoc_set.induct) (simp_all, blast)

lemma length_keys: "distinct (map fst m) \<Longrightarrow> length m = card (fst ` set m)"
  by (metis distinct_card length_map set_map)

text \<open>The assembler after the parts with the indices \<open>S\<close> of a request with \<open>n\<close> parts.\<close>

definition collected :: "string \<Rightarrow> nat \<Rightarrow> (nat \<Rightarrow> string) \<Rightarrow> nat set \<Rightarrow> assembler \<Rightarrow> bool" where
  "collected r n D S st \<longleftrightarrow>
     (S = {} \<and> st = []) \<or>
     (\<exists>a. st = [(r, a)] \<and> asm_count a = int n \<and> distinct (map fst (asm_parts a)) \<and> fst ` set (asm_parts a) = int ` S \<and>
          (\<forall>i\<in>S. map_of (asm_parts a) (int i) = Some (bytesToBase64 (D i))) \<and> S \<subseteq> {..<n} \<and>
          (asm_completed a \<longleftrightarrow> S = {..<n}))"

lemma int_range: "[0..int n - 1] = map int [0..<n]"
proof (induction n)
  case (Suc n)
  have "[0..int (Suc n) - 1] = [0..int n - 1] @ [int n]" using upto_rec2 [of 0 "int n"] by simp
  with Suc show ?case by simp
qed simp

lemma joined_all:
  assumes "\<forall>i<n. map_of ps (int i) = Some (bytesToBase64 (D i))"
  shows "joined (int n) ps = Some (concat (map D [0..<n]))"
proof -
  have "map (map_of ps \<circ> int) [0..<n] = map (\<lambda>i. Some (bytesToBase64 (D i))) [0..<n]" using assms by simp
  then show ?thesis by (auto simp: joined_def int_range Let_def comp_def intro!: arg_cong [where f = concat])
qed

lemma add_collects:
  assumes "collected r n D S st" and "i < n" and "r \<noteq> []" and "utf8_valid (concat (map D [0..<n]))"
  shows "\<exists>st'. add st (makePart r i n (D i)) =
             (st', Inr (if S \<noteq> {..<n} \<and> insert i S = {..<n} then Some (concat (map D [0..<n])) else None)) \<and>
           collected r n D (insert i S) st'"
proof -
  let ?p = "makePart r i n (D i)"
  have p: "part_valid ?p" "part_request ?p = r" "part_count ?p = int n" "part_index ?p = int i" "part_data ?p = bytesToBase64 (D i)"
    using assms(2,3) by (simp_all add: part_valid_def makePart_def)
  define a where "a = (case map_of st r of Some a \<Rightarrow> a | None \<Rightarrow> \<lparr>asm_count = int n, asm_parts = [], asm_completed = False\<rparr>)"
  have ne: "{..<n} \<noteq> {}" using assms(2) by auto
  have a: "asm_count a = int n" "distinct (map fst (asm_parts a))" "fst ` set (asm_parts a) = int ` S"
      "\<forall>j\<in>S. map_of (asm_parts a) (int j) = Some (bytesToBase64 (D j))" "S \<subseteq> {..<n}" "asm_completed a \<longleftrightarrow> S = {..<n}"
      "assoc_set r b st = [(r, b)]" for b
    by (insert assms(1) [unfolded collected_def] ne, (elim disjE conjE exE; simp add: a_def)+)
  have old: "map_of (asm_parts a) (int i) = (if i \<in> S then Some (bytesToBase64 (D i)) else None)"
    using a(3,4) by (auto simp: map_of_eq_None_iff image_iff)
  let ?ps = "assoc_set (int i) (bytesToBase64 (D i)) (asm_parts a)"
  let ?b = "a\<lparr>asm_parts := ?ps\<rparr>"
  have ps: "distinct (map fst ?ps)" "fst ` set ?ps = int ` insert i S"
      "\<forall>j\<in>insert i S. map_of ?ps (int j) = Some (bytesToBase64 (D j))"
    using a(2-4) by auto
  have "int (length ?ps) = int (card (insert i S))"
    using length_keys [OF ps(1)] ps(2) by (simp add: card_image inj_on_def del: image_insert assoc_set_keys)
  moreover have "card (insert i S) = n \<longleftrightarrow> insert i S = {..<n}"
    using a(5) assms(2) by (metis card_lessThan card_subset_eq finite_lessThan insert_subset lessThan_iff)
  ultimately have size: "length ?ps = n \<longleftrightarrow> insert i S = {..<n}" by simp
  have asm: "(case map_of st (part_request ?p) of Some a \<Rightarrow> a
      | None \<Rightarrow> \<lparr>asm_count = part_count ?p, asm_parts = [], asm_completed = False\<rparr>) = a"
    by (simp only: p a_def)
  have all: "joined (int n) ?ps = Some (concat (map D [0..<n]))" if "insert i S = {..<n}"
    using ps(3) that by (intro joined_all) auto
  have step: "add st ?p =
      (if asm_completed a then ([(r, a)], Inr None)
       else if insert i S \<noteq> {..<n} then ([(r, ?b)], Inr None)
       else ([(r, ?b\<lparr>asm_completed := True\<rparr>)], Inr (Some (concat (map D [0..<n])))))"
    unfolding add_def Let_def asm
    by (cases "asm_completed a"; cases "insert i S = {..<n}")
      (simp_all add: p a(1) a(7) old size all decode_utf8_def assms(4) del: assoc_set_lookup assoc_set_keys)
  show ?thesis
    unfolding step using a ps assms(2) by (auto simp: collected_def insert_absorb)
qed

lemma add_all_collects:
  assumes "collected r n D S st" and "set is \<subseteq> {..<n}" and "r \<noteq> []" and "utf8_valid (concat (map D [0..<n]))"
  shows "\<exists>outs. add_all st (map (\<lambda>i. makePart r i n (D i)) is) = Inr outs \<and>
           List.map_filter (\<lambda>x. x) outs = (if S \<noteq> {..<n} \<and> S \<union> set is = {..<n} then [concat (map D [0..<n])] else [])"
  using assms(1,2)
proof (induction "is" arbitrary: S st)
  case Nil
  then show ?case by (simp add: List.map_filter_simps)
next
  case (Cons i "is")
  then obtain st' where st': "add st (makePart r i n (D i)) =
      (st', Inr (if S \<noteq> {..<n} \<and> insert i S = {..<n} then Some (concat (map D [0..<n])) else None))" "collected r n D (insert i S) st'"
    using add_collects [OF Cons.prems(1) _ assms(3,4), of i] by auto
  with Cons.IH [OF st'(2)] Cons.prems(2) obtain outs where
    outs: "add_all st' (map (\<lambda>i. makePart r i n (D i)) is) = Inr outs"
      "List.map_filter (\<lambda>x. x) outs = (if insert i S \<noteq> {..<n} \<and> insert i S \<union> set is = {..<n} then [concat (map D [0..<n])] else [])"
    by auto
  have "insert i (S \<union> set is) = {..<n}" if "insert i S = {..<n}" using that Cons.prems(2) by auto
  then show ?case using st'(1) outs by (auto simp: List.map_filter_simps insert_absorb)
qed

lemma parts_reassemble:
  assumes "splitInferenceRequest text r m = Inr parts" and "set ps = set parts" and "r \<noteq> []" and "utf8_valid text"
  shows "\<exists>outs. add_all [] ps = Inr outs \<and> List.map_filter (\<lambda>x. x) outs = [text]"
proof -
  obtain n cap where n: "0 < n" "length text \<le> n * cap"
    and parts: "parts = map (\<lambda>i. makePart r i n (slice cap text i)) [0..<n]"
    using splitInferenceRequest_parts [OF split_Inr [OF assms(1)]] assms(1) by (metis sum.inject(2))
  have whole: "concat (map (slice cap text) [0..<n]) = text" using n(2) by (simp add: slices_concat)
  define js where "js = map (\<lambda>p. nat (part_index p)) ps"
  have "p = makePart r (nat (part_index p)) n (slice cap text (nat (part_index p)))" if "p \<in> set ps" for p
    using that assms(2) by (auto simp: parts makePart_def)
  then have ps: "ps = map (\<lambda>i. makePart r i n (slice cap text i)) js"
    unfolding js_def map_map by (intro map_idI [symmetric]) simp
  have "(\<lambda>p. nat (part_index p)) ` set parts = {..<n}" by (auto simp: parts makePart_def image_image lessThan_atLeast0)
  then have "set js = {..<n}" using assms(2) by (simp add: js_def)
  moreover have "{..<n} \<noteq> {}" using n(1) by auto
  ultimately show ?thesis
    using add_all_collects [of r n "slice cap text" "{}" "[]" js] assms(3,4) whole
    by (auto simp: collected_def ps)
qed

text \<open>C26: A request split into parts arrives whole, once. For a request whose text and id are valid, the parts
  added to an assembler in any order and any number of times give back the request text exactly once and
  nothing at any other call, and no call fails.\<close>

theorem multipart_roundtrip:
  assumes "splitInferenceRequest text r m = Inr parts" and "set ps = set parts" and "r \<noteq> []" and "utf8_valid text"
  shows "\<exists>outs. add_all [] ps = Inr outs \<and> List.map_filter (\<lambda>x. x) outs = [text]"
  using assms by (rule parts_reassemble)

text \<open>C28: Every part of a split request fits the relay's payload limit. Splitting succeeds exactly when the limit
  leaves room for the envelope with four base64 characters, the check on each finished part never fails, and the
  serialized parts are never longer than the limit.\<close>

theorem split_fits:
  assumes "0 < m"
  shows "(if int (envelope text r) + 4 \<le> m
          then \<exists>parts. splitInferenceRequest text r m = Inr parts \<and> parts \<noteq> [] \<and> (\<forall>p\<in>set parts. int (serializedBytes p) \<le> m)
          else splitInferenceRequest text r m = Inl Limit_Too_Small)"
proof (cases "int (envelope text r) + 4 \<le> m")
  case True
  then obtain n cap where "0 < n" and parts: "splitInferenceRequest text r m = Inr (map (\<lambda>i. makePart r i n (slice cap text i)) [0..<n])"
    and "\<forall>i < n. int (serializedBytes (makePart r i n (slice cap text i))) \<le> m"
    using splitInferenceRequest_parts [OF assms] by metis
  then show ?thesis using True by auto
next
  case False
  have "(m - int (envelope text r)) div 4 \<le> 0" using False by (simp add: div_int_pos_iff)
  then have "(m - int (envelope text r)) div 4 * 3 < 1" by linarith
  then have "splitInferenceRequest text r m = Inl Limit_Too_Small"
    using assms by (simp only: splitInferenceRequest_def Let_def envelope_def [symmetric] if_True) simp
  with False show ?thesis by simp
qed

definition demo_parts :: "inference_part list" where
  "demo_parts = [makePart ''r'' 0 2 ''abc'', makePart ''r'' 1 2 ''d'']"

lemma demo_split: "splitInferenceRequest ''abcd'' ''r'' 64 = Inr demo_parts"
  by code_simp

theorem multipart_roundtrip_witness:
  "\<exists>outs. add_all [] (rev demo_parts @ demo_parts) = Inr outs \<and> List.map_filter (\<lambda>x. x) outs = [''abcd'']"
proof -
  have "utf8_valid ''abcd''" by code_simp
  moreover have "set (rev demo_parts @ demo_parts) = set demo_parts" by auto
  ultimately show ?thesis using multipart_roundtrip [OF demo_split, of "rev demo_parts @ demo_parts"] by simp
qed

theorem split_fits_witness:
  "\<exists>parts. splitInferenceRequest ''abcd'' ''r'' 64 = Inr parts \<and> parts \<noteq> [] \<and> (\<forall>p\<in>set parts. int (serializedBytes p) \<le> 64)"
proof -
  have "int (envelope ''abcd'' ''r'') + 4 \<le> 64" by code_simp
  then show ?thesis using split_fits [of 64 "''abcd''" "''r''"] by simp
qed

end
