(* ===== verification/Multipart_Lane.thy ===== *)
theory Multipart_Lane
  imports Inference_Parts
begin

text \<open>
  The way of a multipart inference request through the spool: the requester's writes of the parts
  (\<open>createRelayStream$\<close> of \<open>packages/agent/src/relay-stream$.ts\<close>) and the durable lane of the relay
  processor for \<open>inference_part\<close> rows (\<open>processPendingDurableWork\<close>, \<open>dispatchActiveEntry\<close>,
  \<open>handleInferencePart\<close>, \<open>consumeInferenceParts\<close>, \<open>handleInference\<close> and \<open>writeResponse\<close> of
  \<open>relay-processor.ts\<close>). The schema of a full inference request and the text of an error are arguments; the inference itself is
  recorded as a launch. Part handlers return no response, so the idempotency cache never holds an
  entry for a part and is left out, as are spans and metrics.
\<close>

section \<open>Sending the parts\<close>

definition part_json :: "inference_part \<Rightarrow> json" where
  "part_json p =
     JObj [(''version'', JNum (of_int (part_version p))), (''request_id'', JStr (part_request p)),
           (''index'', JNum (of_int (part_index p))), (''count'', JNum (of_int (part_count p))), (''data'', JStr (part_data p))]"

definition part_params :: "string \<Rightarrow> string \<Rightarrow> int \<Rightarrow> string \<Rightarrow> inference_part \<Rightarrow> route_params" where
  "part_params target source timeoutMs streamId p =
     \<lparr>rp_target = target, rp_source = source, rp_kind = ''inference_part'', rp_payload = json_stringify (part_json p),
      rp_timeout = timeoutMs, rp_ref = Some (part_request p),
      rp_key = Some (''inference-part:'' @ part_request p @ '':'' @ dec_int (part_index p)), rp_stream = Some streamId, rp_trace = None\<rparr>"

text \<open>The parts are routed one after another, each at its own time; a routing error or an invalid row ends the loop.\<close>

fun send_parts :: "routing_env \<Rightarrow> string \<Rightarrow> string \<Rightarrow> int \<Rightarrow> string \<Rightarrow> (nat \<Rightarrow> string) \<Rightarrow> (nat \<Rightarrow> time) \<Rightarrow> nat \<Rightarrow> inference_part list \<Rightarrow> spool \<Rightarrow>
    spool \<times> bool" where
  "send_parts env target source timeoutMs streamId ids clock k [] rows = (rows, True)"
| "send_parts env target source timeoutMs streamId ids clock k (p # ps) rows =
     (case routeRelayRequest env rows (part_params target source timeoutMs streamId p) (ids k) (clock k) of
        (Inl _, rows') \<Rightarrow> (rows', False)
      | (Inr (Route_Error _), rows') \<Rightarrow> (rows', False)
      | (Inr _, rows') \<Rightarrow> send_parts env target source timeoutMs streamId ids clock (Suc k) ps rows')"

section \<open>The lane\<close>

record relay_entry =
  en_id :: string
  en_source :: string
  en_kind :: string
  en_ref :: "string option"
  en_stream :: "string option"
  en_payload :: jtext
  en_expires :: time

record lane =
  lane_spool :: spool
  completedInferenceParts :: "string list"
  pendingCancels :: "string list"
  releasedPartIds :: "string list"
  launches :: "(string \<times> string) list"

datatype part_error =
    Invalid_Part | Ref_Mismatch | Missing_Stream | Conflicting_Envelope | Assembly assemble_error
  | Payload_Parse_Error | No_Source | Routing_Failure string | Spool_Rejected work_error

record lane_env =
  le_site :: string
  le_routing :: routing_env
  le_request_ok :: "string \<Rightarrow> bool"
  le_message :: "part_error \<Rightarrow> string"

text \<open>The draws of one pass: the claim token, the sibling tokens, the response row id, and the clock.\<close>

record draws =
  dr_token :: string
  dr_tokens :: "nat \<Rightarrow> string"
  dr_id :: string
  dr_now :: time

definition json_int :: "json option \<Rightarrow> int option" where
  "json_int v = (case v of Some (JNum q) \<Rightarrow> (let (n, d) = quotient_of q in if d = 1 then Some n else None) | _ \<Rightarrow> None)"

text \<open>\<open>inferenceRequestPartPayloadSchema\<close>.\<close>

definition parse_part :: "jtext \<Rightarrow> inference_part option" where
  "parse_part t =
     (case json_parse t of
        Some (JObj ob) \<Rightarrow>
          (case (json_int (obj_get ob ''version''), obj_get ob ''request_id'', json_int (obj_get ob ''index''),
                 json_int (obj_get ob ''count''), obj_get ob ''data'') of
             (Some v, Some (JStr r), Some i, Some n, Some (JStr d)) \<Rightarrow>
               if v = 1 \<and> r \<noteq> [] \<and> 0 \<le> i \<and> 0 < n
               then Some \<lparr>part_version = 1, part_request = r, part_index = i, part_count = n, part_data = d\<rparr> else None
           | _ \<Rightarrow> None)
      | _ \<Rightarrow> None)"

text \<open>The loop over the stored parts.\<close>

fun assemble_rows :: "relay_entry \<Rightarrow> assembler \<Rightarrow> string option \<Rightarrow> work_row list \<Rightarrow> part_error + string option" where
  "assemble_rows e st serialized [] = Inr serialized"
| "assemble_rows e st serialized (row # rows) =
     (if (case source_site row of None \<Rightarrow> en_source e | Some s \<Rightarrow> s) \<noteq> en_source e \<or> stream_id row \<noteq> en_stream e \<or>
         (case expires_at row of None \<Rightarrow> en_expires e | Some t \<Rightarrow> t) \<noteq> en_expires e
      then Inl Conflicting_Envelope
      else (case parse_part (payload row) of
              None \<Rightarrow> Inl Invalid_Part
            | Some p \<Rightarrow>
                (case add st p of
                   (st', Inl err) \<Rightarrow> Inl (Assembly err)
                 | (st', Inr out) \<Rightarrow> assemble_rows e st' (case out of None \<Rightarrow> serialized | Some s \<Rightarrow> Some s) rows)))"

definition writeResponse :: "lane_env \<Rightarrow> draws \<Rightarrow> relay_entry \<Rightarrow> string \<Rightarrow> jtext \<Rightarrow> lane \<Rightarrow> (part_error + unit) \<times> lane" where
  "writeResponse env dr e k body st =
     (if en_source e = [] then (Inl No_Source, st)
      else (case routeRelayResponse (le_routing env) (lane_spool st)
                   \<lparr>rp_target = en_source e, rp_source = le_site env, rp_kind = k, rp_payload = body, rp_timeout = 5 * 60 * 1000,
                    rp_ref = Some (en_id e), rp_key = Some (''response:'' @ en_id e), rp_stream = en_stream e, rp_trace = None\<rparr>
                   (dr_id dr) (dr_now dr) of
              (Inl err, rows) \<Rightarrow> (Inl (Spool_Rejected err), st\<lparr>lane_spool := rows\<rparr>)
            | (Inr (Route_Error t), rows) \<Rightarrow> (Inl (Routing_Failure t), st\<lparr>lane_spool := rows\<rparr>)
            | (Inr _, rows) \<Rightarrow> (Inr (), st\<lparr>lane_spool := rows\<rparr>)))"

definition error_body :: "string \<Rightarrow> bool \<Rightarrow> jtext" where
  "error_body msg retriable = json_stringify (JObj [(''error'', JStr msg), (''retriable'', JBool retriable)])"

definition handleInference :: "lane_env \<Rightarrow> draws \<Rightarrow> relay_entry \<Rightarrow> string \<Rightarrow> lane \<Rightarrow> (part_error + unit) \<times> lane" where
  "handleInference env dr e body st =
     (if \<not> le_request_ok env body
      then (case writeResponse env dr e ''error'' (error_body (''Invalid payload: '' @ le_message env Payload_Parse_Error) False) st of
              (Inl err, st') \<Rightarrow> (Inl err, st') | (Inr _, st') \<Rightarrow> (Inl Payload_Parse_Error, st'))
      else if en_source e \<noteq> [] \<and> en_source e \<noteq> le_site env \<and> \<not> shouldRouteRelayDurable (le_routing env) (en_source e) (le_site env)
      then (Inl (Routing_Failure (en_source e)), st)
      else (Inr (), st\<lparr>launches := launches st @ [(en_id e, body)]\<rparr>))"

definition consumeInferenceParts :: "lane_env \<Rightarrow> draws \<Rightarrow> string \<Rightarrow> string list \<Rightarrow> spool \<Rightarrow> spool \<times> bool" where
  "consumeInferenceParts env dr current allIds rows =
     (if allIds = [] then (rows, False)
      else claimAndConsumeDurableWorkByIds rows allIds (le_site env)
             (if current \<in> set allIds then [current \<mapsto> dr_token dr] else Map.empty) (dr_tokens dr) (dr_now dr) (dr_now dr))"

definition handleInferencePart :: "lane_env \<Rightarrow> draws \<Rightarrow> relay_entry \<Rightarrow> lane \<Rightarrow> (part_error + unit) \<times> lane" where
  "handleInferencePart env dr e st =
     (case (parse_part (en_payload e), en_ref e) of
        (Some p, Some r) \<Rightarrow>
          if r = [] then (Inl Invalid_Part, st)
          else if part_request p \<noteq> r then (Inl Ref_Mismatch, st)
          else if part_request p \<in> set (completedInferenceParts st) then (Inr (), st)
          else if en_stream e = None \<or> en_stream e = Some [] then (Inl Missing_Stream, st)
          else
            let rows = readDurablePartsByStreamId (lane_spool st) (the (en_stream e)) (le_site env) ''inference_part'' in
            (case assemble_rows e [] None rows of
               Inl err \<Rightarrow> (Inl err, st)
             | Inr None \<Rightarrow> (Inr (), st)
             | Inr (Some serialized) \<Rightarrow>
                 if part_request p \<in> set (pendingCancels st)
                 then (Inr (), st\<lparr>pendingCancels := removeAll (part_request p) (pendingCancels st)\<rparr>)
                 else
                   let (rows', consumed) = consumeInferenceParts env dr (en_id e) (map wid rows) (lane_spool st) in
                   if \<not> consumed
                   then (Inr (), st\<lparr>lane_spool := fst (releaseDurableWorkClaim rows' (en_id e) (dr_token dr)),
                                     releasedPartIds := en_id e # releasedPartIds st\<rparr>)
                   else handleInference env dr (e\<lparr>en_id := part_request p, en_kind := ''inference'', en_ref := None\<rparr>) serialized
                          (st\<lparr>lane_spool := rows', completedInferenceParts := part_request p # completedInferenceParts st\<rparr>))
      | _ \<Rightarrow> (Inl Invalid_Part, st))"

definition dispatchActiveEntry :: "lane_env \<Rightarrow> draws \<Rightarrow> relay_entry \<Rightarrow> lane \<Rightarrow> (part_error + unit) \<times> lane" where
  "dispatchActiveEntry env dr e st =
     (if en_expires e < dr_now dr then (Inr (), st)
      else if en_id e \<in> set (pendingCancels st) then (Inr (), st\<lparr>pendingCancels := removeAll (en_id e) (pendingCancels st)\<rparr>)
      else (case handleInferencePart env dr e st of
              (Inr _, st') \<Rightarrow> (Inr (), st')
            | (Inl Payload_Parse_Error, st') \<Rightarrow> (Inr (), st')
            | (Inl err, st') \<Rightarrow> writeResponse env dr e ''error'' (error_body (le_message env err) True) st'))"

definition claim_part :: "lane_env \<Rightarrow> draws \<Rightarrow> spool \<Rightarrow> spool \<times> work_row option" where
  "claim_part env dr rows =
     (case claimLocalDurableWork rows (le_site env) (Some ''inference_part'') (dr_token dr) (dr_now dr) of
        (rows', Some r) \<Rightarrow> (rows', Some r)
      | (rows', None) \<Rightarrow>
          if le_site env = LOCAL_WORK_TARGET then (rows', None)
          else claimLocalDurableWork rows' LOCAL_WORK_TARGET (Some ''inference_part'') (dr_token dr) (dr_now dr))"

definition entry_of :: "time \<Rightarrow> work_row \<Rightarrow> relay_entry" where
  "entry_of now r =
     \<lparr>en_id = wid r, en_source = (case source_site r of None \<Rightarrow> [] | Some s \<Rightarrow> s), en_kind = kind r, en_ref = ref_id r,
      en_stream = stream_id r, en_payload = payload r,
      en_expires = (case expires_at r of None \<Rightarrow> now + 5 * 60 * 1000 | Some t \<Rightarrow> t)\<rparr>"

text \<open>One pass of \<open>processPendingDurableWork\<close> for the kind \<open>inference_part\<close>.\<close>

definition part_pass :: "lane_env \<Rightarrow> draws \<Rightarrow> lane \<Rightarrow> lane" where
  "part_pass env dr st =
     (case claim_part env dr (lane_spool st) of
        (rows, None) \<Rightarrow> st\<lparr>lane_spool := rows\<rparr>
      | (rows, Some claimed) \<Rightarrow>
          (case dispatchActiveEntry env dr (entry_of (dr_now dr) claimed) (st\<lparr>lane_spool := rows\<rparr>) of
             (Inr _, st') \<Rightarrow>
               if wid claimed \<in> set (releasedPartIds st')
               then st'\<lparr>releasedPartIds := removeAll (wid claimed) (releasedPartIds st')\<rparr>
               else st'\<lparr>lane_spool := fst (acknowledgeDurableWork (lane_spool st') (wid claimed) (dr_token dr) (dr_now dr))\<rparr>
           | (Inl (Routing_Failure t), st') \<Rightarrow>
               st'\<lparr>lane_spool := fst (deadLetterClaimedDurableWork (lane_spool st') (wid claimed) (dr_token dr) (le_message env (Routing_Failure t)) (dr_now dr))\<rparr>
           | (Inl err, st') \<Rightarrow>
               if DURABLE_WORK_MAX_ATTEMPTS \<le> attempt_count claimed
               then st'\<lparr>lane_spool := fst (deadLetterClaimedDurableWork (lane_spool st') (wid claimed) (dr_token dr) (le_message env err) (dr_now dr))\<rparr>
               else st'))"

section \<open>Reading the parts back\<close>

lemma quotient_of_int_eq [simp]: "quotient_of (of_int k) = (k, 1)"
  by (simp add: of_int_rat quotient_of_Fract normalize_def)

lemma parse_part_json [simp]:
  assumes "part_version p = 1" and "part_request p \<noteq> []" and "0 \<le> part_index p" and "0 < part_count p"
  shows "parse_part (json_stringify (part_json p)) = Some p"
  using assms by (simp add: parse_part_def part_json_def obj_get_def json_int_def quotient_of_int_eq [of 1, simplified])

definition same_envelope :: "relay_entry \<Rightarrow> work_row \<Rightarrow> bool" where
  "same_envelope e row \<longleftrightarrow>
     source_site row = Some (en_source e) \<and> stream_id row = en_stream e \<and> expires_at row = Some (en_expires e)"

lemma assemble_rows_outputs:
  assumes "list_all2 (\<lambda>row p. same_envelope e row \<and> parse_part (payload row) = Some p) rows ps" and "add_all st ps = Inr outs"
  shows "assemble_rows e st acc rows = Inr (fold (\<lambda>out acc. case out of None \<Rightarrow> acc | Some s \<Rightarrow> Some s) outs acc)"
  using assms
proof (induction rows arbitrary: ps st outs acc)
  case (Cons row rows)
  then obtain p ps' where ps: "ps = p # ps'" "same_envelope e row" "parse_part (payload row) = Some p"
    and rest: "list_all2 (\<lambda>row p. same_envelope e row \<and> parse_part (payload row) = Some p) rows ps'"
    by (auto simp: list_all2_Cons1)
  obtain st' res where a: "add st p = (st', res)" by (cases "add st p")
  with Cons.prems(2) ps(1) obtain out outs' where o: "res = Inr out" "add_all st' ps' = Inr outs'" "outs = out # outs'"
    by (cases res; cases "add_all st' ps'") auto
  from Cons.IH [OF rest o(2)] a o(1,3) ps(2,3) show ?case by (simp add: same_envelope_def)
qed (auto simp: list_all2_Nil)

lemma last_output:
  "List.map_filter (\<lambda>x. x) outs = [t] \<Longrightarrow> fold (\<lambda>out acc. case out of None \<Rightarrow> acc | Some s \<Rightarrow> Some s) outs acc = Some t"
proof (induction outs arbitrary: acc)
  case (Cons out outs)
  have none: "fold (\<lambda>out acc. case out of None \<Rightarrow> acc | Some s \<Rightarrow> Some s) outs acc = acc" if "List.map_filter (\<lambda>x. x) outs = []" for acc
    using that by (induction outs) (auto simp: List.map_filter_simps split: option.splits)
  from Cons show ?case by (cases out) (auto simp: List.map_filter_simps none)
qed (simp add: List.map_filter_simps)

section \<open>A complete request is launched once\<close>

definition part_row :: "string \<Rightarrow> work_row \<Rightarrow> bool" where
  "part_row s row \<longleftrightarrow> stream_id row = Some s \<and> kind row = ''inference_part''"

text \<open>The spool holds all parts of a request, sent by one host with one expiry, and no other part waits.\<close>

definition set_delivered :: "string \<Rightarrow> string \<Rightarrow> string \<Rightarrow> time \<Rightarrow> string \<Rightarrow> inference_part list \<Rightarrow> spool \<Rightarrow> bool" where
  "set_delivered site source s deadline r parts rows \<longleftrightarrow>
     (\<forall>row\<in>set rows. part_row s row \<longrightarrow>
        claim_state row = Pending \<and> target_site_id row = site \<and> source_site row = Some source \<and>
        expires_at row = Some deadline \<and> ref_id row = Some r \<and> (\<exists>p\<in>set parts. payload row = json_stringify (part_json p))) \<and>
     (\<forall>p\<in>set parts. \<exists>row\<in>set rows. part_row s row \<and> payload row = json_stringify (part_json p)) \<and>
     (\<forall>row\<in>set rows. kind row = ''inference_part'' \<and> claim_state row = Pending \<and> for_self site row \<longrightarrow> stream_id row = Some s)"

lemma split_part_facts:
  assumes "splitInferenceRequest text r m = Inr parts" and "r \<noteq> []" and "p \<in> set parts"
  shows "part_request p = r" and "parse_part (json_stringify (part_json p)) = Some p"
proof -
  obtain n cap where n: "0 < n" and parts: "parts = map (\<lambda>i. makePart r i n (slice cap text i)) [0..<n]"
    using splitInferenceRequest_parts [OF split_Inr [OF assms(1)]] assms(1) by (metis sum.inject(2))
  show "part_request p = r" using assms(3) by (auto simp: parts makePart_def)
  show "parse_part (json_stringify (part_json p)) = Some p"
    using assms(2,3) n by (intro parse_part_json) (auto simp: parts makePart_def)
qed

text \<open>The parts that the handler reads after one of them was claimed.\<close>

lemma delivered_read:
  assumes "set_delivered site source s deadline r parts rows" and "splitInferenceRequest text r m = Inr parts" and "r \<noteq> []" and "utf8_valid text"
    and "en_source e = source" and "en_stream e = Some s" and "en_expires e = deadline"
    and L_def: "L = readDurablePartsByStreamId (claim_row tok now i rows) s site ''inference_part''"
  shows "set L = {x \<in> set (claim_row tok now i rows). part_row s x}" and "assemble_rows e [] None L = Inr (Some text)"
proof -
  let ?rows = "claim_row tok now i rows"
  have d: "part_row s y \<Longrightarrow> y \<in> set rows \<Longrightarrow> claim_state y = Pending \<and> target_site_id y = site \<and> source_site y = Some source \<and>
      expires_at y = Some deadline \<and> (\<exists>p\<in>set parts. payload y = json_stringify (part_json p))" for y
    using assms(1) unfolding set_delivered_def by blast
  have live: "for_self site x \<and> (claim_state x = Pending \<or> claim_state x = Processing) \<and> same_envelope e x \<and>
      (\<exists>p\<in>set parts. payload x = json_stringify (part_json p))" if x: "x \<in> set ?rows" "part_row s x" for x
  proof -
    obtain y where y: "y \<in> set rows" "same_work x y" "claim_state x = claim_state y \<or> claim_state x = Processing"
      using claim_row_work [OF x(1)] by blast
    then have "part_row s y" using x(2) by (simp add: part_row_def same_work_def)
    from d [OF this y(1)] y(2,3) x(2) assms(5-7) show ?thesis
      by (auto simp: same_work_def for_self_def same_envelope_def part_row_def)
  qed
  show L: "set L = {x \<in> set ?rows. part_row s x}"
    using live by (auto simp: L_def readDurablePartsByStreamId_def part_row_def)
  define ps where "ps = map (\<lambda>x. the (parse_part (payload x))) L"
  have parsed: "\<exists>p\<in>set parts. payload x = json_stringify (part_json p) \<and> parse_part (payload x) = Some p" if "x \<in> set L" for x
    using live [of x] that L split_part_facts(2) [OF assms(2,3)] by auto
  have "list_all2 (\<lambda>row p. same_envelope e row \<and> parse_part (payload row) = Some p) L ps"
    unfolding ps_def list_all2_conv_all_nth using live L parsed nth_mem by fastforce
  moreover have "set ps = set parts"
  proof
    show "set ps \<subseteq> set parts" using parsed by (fastforce simp: ps_def)
    show "set parts \<subseteq> set ps"
    proof
      fix p assume p: "p \<in> set parts"
      then obtain y where y: "y \<in> set rows" "part_row s y" "payload y = json_stringify (part_json p)"
        using assms(1) unfolding set_delivered_def by blast
      obtain x where x: "x \<in> set ?rows" "same_work x y" using claim_row_keeps [OF y(1)] by blast
      then have "x \<in> set L" "payload x = json_stringify (part_json p)" using L y by (auto simp: same_work_def part_row_def)
      then show "p \<in> set ps" using split_part_facts(2) [OF assms(2,3) p] by (force simp: ps_def)
    qed
  qed
  then obtain outs where outs: "add_all [] ps = Inr outs" "List.map_filter (\<lambda>x. x) outs = [text]"
    using parts_reassemble [OF assms(2) _ assms(3,4), of ps] by blast
  ultimately show "assemble_rows e [] None L = Inr (Some text)"
    using assemble_rows_outputs [of e L ps "[]" outs None] last_output [OF outs(2), of None] by simp
qed

text \<open>The parts of a complete request are consumed as a whole.\<close>

lemma parts_consumable:
  assumes "spool_ok rows" and "set_delivered site source s deadline r parts rows" and "row \<in> set rows" and "part_row s row"
    and "tok \<noteq> []" and "\<forall>k. toks k \<noteq> []"
    and L: "set L = {x \<in> set (claim_row tok now (wid row) rows). part_row s x}" and "distinct (map wid L)"
  shows "wid row \<in> set (map wid L)"
    and "snd (claimAndConsumeDurableWorkByIds (claim_row tok now (wid row) rows) (map wid L) site [wid row \<mapsto> tok] toks now c)"
proof -
  let ?rows = "claim_row tok now (wid row) rows"
  let ?cl = "to_processing tok now row"
  have row: "claim_state row = Pending" using assms(2-4) unfolding set_delivered_def by blast
  have ok: "spool_ok ?rows" using assms(1) by (rule claim_row_ok)
  have cl: "?cl \<in> set ?rows" unfolding claim_row_def by (rule update_where_hit) (use assms(3) row in simp_all)
  then have "?cl \<in> set L" using assms(4) by (auto simp: L part_row_def to_processing_def)
  then have "wid ?cl \<in> set (map wid L)" by simp
  then show cur: "wid row \<in> set (map wid L)" by (simp add: to_processing_def)
  have sibling: "\<exists>x\<in>set ?rows. wid x = i \<and> target_site_id x = site \<and> claim_state x = Pending" if i: "i \<in> set (map wid L)" "i \<noteq> wid row" for i
  proof -
    from i obtain x where x: "x \<in> set ?rows" "part_row s x" "wid x = i" using L by auto
    then obtain y where y: "y \<in> set rows" "same_work x y" using claim_row_work [OF x(1)] by blast
    then have "x = y" using x i(2) claim_row_other [of y rows "wid row"] spool_ok_unique [OF ok x(1), of y] by (simp add: same_work_def)
    with y x assms(2) show ?thesis unfolding set_delivered_def by blast
  qed
  have "ack_matches (wid row) tok ?cl" by (simp add: ack_matches_def to_processing_def)
  then show "snd (claimAndConsumeDurableWorkByIds ?rows (map wid L) site [wid row \<mapsto> tok] toks now c)"
    using assms(5,6,8) cl sibling cur by (intro claimAndConsume_succeeds [OF ok]) (auto split: if_splits)
qed

lemma parts_consumed:
  assumes "spool_ok rows" and "row \<in> set rows" and "part_row s row"
    and L: "set L = {x \<in> set (claim_row tok now (wid row) rows). part_row s x}"
    and cc: "claimAndConsumeDurableWorkByIds (claim_row tok now (wid row) rows) (map wid L) site pre toks now c = (rows2, True)"
    and x: "x \<in> set rows2"
  shows "part_row s x \<Longrightarrow> claim_state x = Consumed"
    and "\<exists>y\<in>set rows. same_work x y \<and> (part_row s x \<or> claim_state x = claim_state y)"
proof -
  let ?rows = "claim_row tok now (wid row) rows"
  have ok: "spool_ok ?rows" using assms(1) by (rule claim_row_ok)
  note effect = claim_consume_effect [OF ok cc]
  obtain y where y: "y \<in> set ?rows" "same_work x y" using x cc claimAndConsume_work by (metis fst_conv)
  obtain z where z: "z \<in> set rows" "same_work y z" using claim_row_work [OF y(1)] by blast
  have pr: "part_row s x = part_row s y" "part_row s y = part_row s z" using y(2) z(2) by (simp_all add: part_row_def same_work_def)
  show consumed: "claim_state x = Consumed" if "part_row s x"
  proof -
    have "y \<in> set L" using that y(1) pr L by simp
    then have "wid x \<in> set (map wid L)" using y(2) by (auto simp: same_work_def)
    then show ?thesis using effect x by blast
  qed
  have xz: "same_work x z" using y z same_work_trans by blast
  have "claim_state x = claim_state z" if np: "\<not> part_row s x"
  proof -
    have "wid z \<noteq> wid row" using np pr assms(2,3) spool_ok_unique [OF assms(1) z(1), of row] by auto
    then have zr: "z \<in> set ?rows" using z(1) by (rule claim_row_other [rotated])
    have "wid z \<notin> set (map wid L)" using zr np pr L spool_ok_unique [OF ok] by fastforce
    then have "z \<in> set rows2" using effect zr by blast
    moreover have "spool_ok rows2" using claim_consume_ok [OF ok] cc by (metis fst_conv)
    ultimately have "x = z" using x xz spool_ok_unique by (simp add: same_work_def)
    then show ?thesis by simp
  qed
  with xz z(1) show "\<exists>y\<in>set rows. same_work x y \<and> (part_row s x \<or> claim_state x = claim_state y)" by blast
qed

text \<open>The handler on a claimed part of a complete request.\<close>

lemma part_handled:
  assumes "splitInferenceRequest text r m = Inr parts" and "r \<noteq> []" and "utf8_valid text" and "spool_ok rows"
    and "set_delivered (le_site env) source s deadline r parts rows" and "row \<in> set rows" and "part_row s row"
    and "s \<noteq> []" and "le_request_ok env text" and "source = le_site env \<or> shouldRouteRelayDurable (le_routing env) source (le_site env)"
    and "r \<notin> set (completedInferenceParts st)" and "r \<notin> set (pendingCancels st)" and "dr_token dr \<noteq> []" and "\<forall>k. dr_tokens dr k \<noteq> []"
    and st: "lane_spool st = claim_row (dr_token dr) (dr_now dr) (wid row) rows"
    and e: "e = entry_of (dr_now dr) (to_processing (dr_token dr) (dr_now dr) row)"
  shows "\<exists>st'. handleInferencePart env dr e st = (Inr (), st') \<and> launches st' = launches st @ [(r, text)] \<and>
           releasedPartIds st' = releasedPartIds st \<and>
           (\<forall>x\<in>set (lane_spool st'). part_row s x \<longrightarrow> claim_state x = Consumed) \<and>
           (\<forall>x\<in>set (lane_spool st'). \<exists>y\<in>set rows. same_work x y \<and> (part_row s x \<or> claim_state x = claim_state y))"
proof -
  let ?rows = "claim_row (dr_token dr) (dr_now dr) (wid row) rows"
  define L where "L = readDurablePartsByStreamId ?rows s (le_site env) ''inference_part''"
  have row: "source_site row = Some source" "expires_at row = Some deadline" "ref_id row = Some r"
      "\<exists>p\<in>set parts. payload row = json_stringify (part_json p)"
    using assms(5-7) unfolding set_delivered_def by blast+
  then obtain p where p: "part_request p = r" "parse_part (payload row) = Some p"
    using split_part_facts [OF assms(1,2)] by metis
  have en: "en_id e = wid row" "en_source e = source" "en_ref e = Some r" "en_stream e = Some s" "en_payload e = payload row" "en_expires e = deadline"
    using row assms(7) by (simp_all add: e entry_of_def to_processing_def part_row_def)
  note read = delivered_read [OF assms(5,1,2,3) en(2,4,6) L_def]
  have "distinct (map wid L)"
    using claim_row_ok [OF assms(4), of "dr_token dr" "dr_now dr" "wid row"] unfolding L_def readDurablePartsByStreamId_def
    by (simp add: spool_ok_def distinct_map_filter)
  note take = parts_consumable [OF assms(4-7,13,14) read(1) this]
  define rows2 where "rows2 = fst (claimAndConsumeDurableWorkByIds ?rows (map wid L) (le_site env) [wid row \<mapsto> dr_token dr]
      (dr_tokens dr) (dr_now dr) (dr_now dr))"
  have cc: "claimAndConsumeDurableWorkByIds ?rows (map wid L) (le_site env) [wid row \<mapsto> dr_token dr] (dr_tokens dr) (dr_now dr) (dr_now dr) = (rows2, True)"
    using take(2) by (simp add: rows2_def prod_eq_iff)
  have ne: "L \<noteq> []" using take(1) by auto
  have "handleInferencePart env dr e st =
      handleInference env dr (e\<lparr>en_id := r, en_kind := ''inference'', en_ref := None\<rparr>) text
        (st\<lparr>lane_spool := rows2, completedInferenceParts := r # completedInferenceParts st\<rparr>)"
    using assms(2,8,11,12) p en read(2) st cc take(1) ne
    by (simp add: handleInferencePart_def Let_def L_def [symmetric] consumeInferenceParts_def)
  moreover have "\<dots> = (Inr (), st\<lparr>lane_spool := rows2, completedInferenceParts := r # completedInferenceParts st,
      launches := launches st @ [(r, text)]\<rparr>)"
    using assms(9,10) en(2) by (auto simp: handleInference_def)
  ultimately show ?thesis using parts_consumed [OF assms(4,6,7) read(1) cc] by simp
qed

lemma part_pass_idle:
  assumes "\<forall>t\<in>{le_site env, LOCAL_WORK_TARGET}. \<forall>y\<in>set (lane_spool st).
             \<not> (target_site_id y = t \<and> claim_state y = Pending \<and> kind y = ''inference_part'')"
  shows "part_pass env dr st = st"
  using assms claimLocal_none [of "lane_spool st" "le_site env" "''inference_part''"]
    claimLocal_none [of "lane_spool st" LOCAL_WORK_TARGET "''inference_part''"]
  by (simp add: part_pass_def claim_part_def)

text \<open>C10: A complete multipart request is launched exactly once. The parts of a split request, each at least once
  and in any order, wait in the spool, pending for this host under one stream, one source that may be answered and one expiry; they are the
  only parts waiting; the deadline has not passed, no cancel is pending, the request is valid and was not completed before. Then one pass of
  the relay lane launches the inference with the original request text under the request's id and consumes every part, and the next
  pass launches nothing.\<close>

theorem multipart_launched_once:
  assumes "splitInferenceRequest text r m = Inr parts" and "r \<noteq> []" and "utf8_valid text" and "spool_ok (lane_spool st)"
    and "set_delivered (le_site env) source s deadline r parts (lane_spool st)"
    and "s \<noteq> []" and "le_request_ok env text" and "source = le_site env \<or> shouldRouteRelayDurable (le_routing env) source (le_site env)"
    and "r \<notin> set (completedInferenceParts st)" and "pendingCancels st = []" and "releasedPartIds st = []"
    and "dr_now dr \<le> deadline" and "dr_token dr \<noteq> []" and "\<forall>k. dr_tokens dr k \<noteq> []"
  shows "launches (part_pass env dr st) = launches st @ [(r, text)] \<and>
         (\<forall>row\<in>set (lane_spool (part_pass env dr st)). part_row s row \<longrightarrow> claim_state row = Consumed) \<and>
         launches (part_pass env dr' (part_pass env dr st)) = launches st @ [(r, text)]"
proof -
  obtain n cap where "0 < n" "parts = map (\<lambda>i. makePart r i n (slice cap text i)) [0..<n]"
    using splitInferenceRequest_parts [OF split_Inr [OF assms(1)]] assms(1) by (metis sum.inject(2))
  then obtain x where x: "x \<in> set (lane_spool st)" "part_row s x" using assms(5) unfolding set_delivered_def by fastforce
  then have "target_site_id x = le_site env" "claim_state x = Pending" "kind x = ''inference_part''"
    using assms(5) unfolding set_delivered_def part_row_def by blast+
  then obtain row where row: "row \<in> set (lane_spool st)" "target_site_id row = le_site env" "claim_state row = Pending" "kind row = ''inference_part''"
    "claimLocalDurableWork (lane_spool st) (le_site env) (Some ''inference_part'') (dr_token dr) (dr_now dr) =
       (claim_row (dr_token dr) (dr_now dr) (wid row) (lane_spool st), Some (to_processing (dr_token dr) (dr_now dr) row))"
    using claimLocal_picks [OF x(1)] by blast
  then have pr: "part_row s row" using assms(5) unfolding set_delivered_def part_row_def for_self_def by blast
  let ?st = "st\<lparr>lane_spool := claim_row (dr_token dr) (dr_now dr) (wid row) (lane_spool st)\<rparr>"
  let ?e = "entry_of (dr_now dr) (to_processing (dr_token dr) (dr_now dr) row)"
  obtain st' where h: "handleInferencePart env dr ?e ?st = (Inr (), st')" "launches st' = launches st @ [(r, text)]" "releasedPartIds st' = []"
      "\<forall>x\<in>set (lane_spool st'). part_row s x \<longrightarrow> claim_state x = Consumed"
      "\<forall>x\<in>set (lane_spool st'). \<exists>y\<in>set (lane_spool st). same_work x y \<and> (part_row s x \<or> claim_state x = claim_state y)"
    using part_handled [OF assms(1-5) row(1) pr assms(6-8), of ?st dr ?e] assms(9-11,13,14) by auto
  have live: "en_expires ?e = deadline"
    using assms(5) row(1) pr unfolding set_delivered_def by (auto simp: entry_of_def to_processing_def)
  have "ack_matches (wid row) (dr_token dr) y \<Longrightarrow> y \<notin> set (lane_spool st')" for y
  proof
    assume y: "ack_matches (wid row) (dr_token dr) y" "y \<in> set (lane_spool st')"
    then obtain z where "z \<in> set (lane_spool st)" "same_work y z" using h(5) by blast
    then have "z = row" using y(1) row(1) spool_ok_unique [OF assms(4)] by (simp add: ack_matches_def same_work_def)
    with \<open>same_work y z\<close> pr have "part_row s y" by (simp add: same_work_def part_row_def)
    with h(4) y show False by (simp add: ack_matches_def)
  qed
  then have "update_where (ack_matches (wid row) (dr_token dr)) (to_consumed (dr_now dr)) (lane_spool st') = lane_spool st'"
    by (intro update_where_none) blast
  then have pass: "part_pass env dr st = st'"
    using h(1,3) live assms(10,12) row(5)
    by (simp add: part_pass_def claim_part_def dispatchActiveEntry_def acknowledgeDurableWork_def claim.same_id)
  have "\<forall>y\<in>set (lane_spool st'). \<not> (target_site_id y = t \<and> claim_state y = Pending \<and> kind y = ''inference_part'')"
    if t: "t \<in> {le_site env, LOCAL_WORK_TARGET}" for t
  proof (intro ballI notI, elim conjE)
    fix y assume y: "y \<in> set (lane_spool st')" "target_site_id y = t" "claim_state y = Pending" "kind y = ''inference_part''"
    then obtain z where z: "z \<in> set (lane_spool st)" "same_work y z" "part_row s y \<or> claim_state y = claim_state z" using h(5) by blast
    have "\<not> part_row s y" using h(4) y(1,3) by auto
    then have np: "\<not> part_row s z" "claim_state z = Pending" using z y by (auto simp: part_row_def same_work_def)
    have "kind z = ''inference_part''" "for_self (le_site env) z" using z(2) y t by (auto simp: same_work_def for_self_def)
    with np z(1) assms(5) show False unfolding set_delivered_def by (auto simp: part_row_def)
  qed
  then have "part_pass env dr' st' = st'" by (intro part_pass_idle) blast
  with pass h(2,4) show ?thesis by simp
qed

definition demo_lane_env :: lane_env where
  "demo_lane_env = \<lparr>le_site = ''b'', le_routing = \<lparr>advertises = (\<lambda>_. True), topology = Some Hub, sync_peer = None\<rparr>, le_request_ok = (\<lambda>_. True), le_message = (\<lambda>_. ''error'')\<rparr>"

definition demo_draws :: draws where
  "demo_draws = \<lparr>dr_token = ''t'', dr_tokens = (\<lambda>_. ''u''), dr_id = ''e'', dr_now = 20\<rparr>"

definition demo_lane :: lane where
  "demo_lane = \<lparr>lane_spool = fst (send_parts (le_routing demo_lane_env) ''b'' ''a'' 100 ''s'' (\<lambda>k. [char_of (65 + k)]) (\<lambda>_. 10) 0 demo_parts []),
     completedInferenceParts = [], pendingCancels = [], releasedPartIds = [], launches = []\<rparr>"

theorem multipart_launched_once_witness:
  "launches (part_pass demo_lane_env demo_draws demo_lane) = [(''r'', ''abcd'')]"
proof -
  have "set_delivered (le_site demo_lane_env) ''a'' ''s'' 300010 ''r'' demo_parts (lane_spool demo_lane)" by code_simp
  moreover have "spool_ok (lane_spool demo_lane)" by code_simp
  moreover have "utf8_valid ''abcd''" "le_site demo_lane_env = ''b''" "shouldRouteRelayDurable (le_routing demo_lane_env) ''a'' ''b''" by code_simp+
  ultimately show ?thesis
    using multipart_launched_once [OF demo_split, of demo_lane demo_lane_env "''a''" "''s''" 300010 demo_draws]
    by (simp add: demo_lane_env_def demo_draws_def demo_lane_def)
qed

section \<open>A request whose parts arrive apart\<close>

definition part_key :: "inference_part \<Rightarrow> string" where
  "part_key p = ''inference-part:'' @ part_request p @ '':'' @ dec_int (part_index p)"

text \<open>What happens to the lane: a row arrives in the spool, or the lane makes a pass.\<close>

datatype lane_event = Arrive new_work time | Pass draws

fun lane_step :: "lane_env \<Rightarrow> lane_event \<Rightarrow> lane \<Rightarrow> lane" where
  "lane_step env (Arrive w t) st =
     (case insertDurableWork True False (lane_spool st) w t of
        Inl _ \<Rightarrow> st | Inr (rows, _, _) \<Rightarrow> st\<lparr>lane_spool := rows\<rparr>)"
| "lane_step env (Pass dr) st = part_pass env dr st"

fun carries :: "string \<Rightarrow> inference_part list \<Rightarrow> lane_event \<Rightarrow> bool" where
  "carries s parts (Arrive w t) \<longleftrightarrow>
     new_kind w = ''inference_part'' \<and> new_stream_id w = Some s \<and>
     (\<exists>p\<in>set parts. new_payload w = json_stringify (part_json p) \<and> new_key w = part_key p)"
| "carries s parts (Pass dr) \<longleftrightarrow> True"

text \<open>The parts of the stream are those of the request, and the part \<open>q\<close> is already consumed.\<close>

definition gone :: "string \<Rightarrow> inference_part list \<Rightarrow> inference_part \<Rightarrow> spool \<Rightarrow> bool" where
  "gone s parts q rows \<longleftrightarrow>
     spool_ok rows \<and>
     (\<forall>row\<in>set rows. kind row = ''inference_part'' \<longrightarrow>
        stream_id row = Some s \<and> (\<exists>p\<in>set parts. payload row = json_stringify (part_json p) \<and> idempotency_key row = part_key p)) \<and>
     (\<exists>row\<in>set rows. kind row = ''inference_part'' \<and> idempotency_key row = part_key q \<and> claim_state row = Consumed)"

lemma gone_update:
  assumes "gone s parts q rows" and "row_transition guard step" and "\<And>r. guard r \<Longrightarrow> claim_state r \<noteq> Consumed"
    and "\<And>r. payload (step r) = payload r \<and> stream_id (step r) = stream_id r"
  shows "gone s parts q (update_where guard step rows)"
proof -
  have fence: "kind (step r) = kind r" "idempotency_key (step r) = idempotency_key r" for r
    using row_transition.same_fence [OF assms(2), of r] by (simp_all add: fence_key_def)
  have "spool_ok (update_where guard step rows)"
    using row_transition.update_ok [OF assms(2)] assms(1) by (simp add: gone_def)
  moreover have "\<exists>row\<in>set (update_where guard step rows). kind row = ''inference_part'' \<and> idempotency_key row = part_key q \<and> claim_state row = Consumed"
    using assms(1,3) update_where_miss [of _ rows guard step] unfolding gone_def by metis
  moreover have "stream_id x = Some s \<and> (\<exists>p\<in>set parts. payload x = json_stringify (part_json p) \<and> idempotency_key x = part_key p)"
    if "x \<in> set (update_where guard step rows)" "kind x = ''inference_part''" for x
    using that(1)
  proof (rule in_update_whereE)
    assume "x \<in> set rows"
    then show ?thesis using assms(1) that(2) unfolding gone_def by blast
  next
    fix y assume "y \<in> set rows" "x = step y"
    then show ?thesis using assms(1,4) fence that(2) unfolding gone_def by metis
  qed
  ultimately show ?thesis unfolding gone_def by blast
qed

lemma gone_claim: "gone s parts q rows \<Longrightarrow> gone s parts q (claim_row tok now i rows)"
  unfolding claim_row_def
  by (rule gone_update) (simp_all add: claim.row_transition_axioms to_processing_def)

lemma gone_acknowledge: "gone s parts q rows \<Longrightarrow> gone s parts q (fst (acknowledgeDurableWork rows i tok now))"
  unfolding acknowledgeDurableWork_def fst_conv
  by (rule gone_update) (simp_all add: consume.row_transition_axioms ack_matches_def to_consumed_def)

lemma gone_dead_letter: "gone s parts q rows \<Longrightarrow> gone s parts q (fst (deadLetterClaimedDurableWork rows i tok err now))"
  unfolding deadLetterClaimedDurableWork_def deadLetterDurableWorkRows_def Let_def prod.case fst_conv
  by (rule gone_update) (simp_all add: dead_letter.row_transition_axioms ack_matches_def to_dead_letter_def)

lemma gone_insert:
  assumes "gone s parts q rows" and "insertDurableWork bus tx rows w t = Inr (rows', ins, ev)"
    and "new_kind w = ''inference_part'' \<Longrightarrow> carries s parts (Arrive w t)"
  shows "gone s parts q rows'"
proof -
  have "spool_ok rows'" using insert_ok assms(1,2) by (auto simp: gone_def)
  moreover have "rows' = rows \<or> rows' = rows @ [fresh_row w t]"
    using assms(2) by (auto simp: insertDurableWork_def split: option.splits if_splits)
  ultimately show ?thesis using assms(1,3) by (auto simp: gone_def fresh_row_def)
qed

lemma gone_route:
  assumes "gone s parts q rows" and "rp_kind p \<noteq> ''inference_part''"
  shows "gone s parts q (snd (routeRelayResponse env rows p i now))"
proof (cases "insertDurableWork True False rows (routed_work p i now) now")
  case (Inr a)
  obtain rows' ins ev where "a = (rows', ins, ev)" by (cases a)
  moreover have "gone s parts q rows'"
    by (rule gone_insert [OF assms(1) Inr [unfolded calculation]]) (use assms(2) in \<open>simp add: routed_work_def\<close>)
  ultimately show ?thesis using Inr assms(1) by (simp add: routeRelayResponse_def Let_def)
qed (simp add: routeRelayResponse_def Let_def assms(1))

lemma gone_respond:
  assumes "gone s parts q (lane_spool st)" and "k \<noteq> ''inference_part''"
  shows "gone s parts q (lane_spool (snd (writeResponse env dr e k body st)))"
  using assms(1) gone_route [OF assms(1), of "\<lparr>rp_target = en_source e, rp_source = le_site env, rp_kind = k, rp_payload = body,
        rp_timeout = 5 * 60 * 1000, rp_ref = Some (en_id e), rp_key = Some (''response:'' @ en_id e), rp_stream = en_stream e,
        rp_trace = None\<rparr>" "le_routing env" "dr_id dr" "dr_now dr"] assms(2)
  by (auto simp: writeResponse_def split: prod.splits sum.splits route_result.splits)

lemma respond_launches [simp]: "launches (snd (writeResponse env dr e k body st)) = launches st"
  by (auto simp: writeResponse_def split: prod.splits sum.splits route_result.splits)

text \<open>Without one of its parts a request is never assembled.\<close>

lemma assemble_rows_result:
  assumes "list_all2 (\<lambda>row p. parse_part (payload row) = Some p) rows ps" and "add_all st ps = Inr outs"
    and "assemble_rows e st acc rows = Inr res"
  shows "res = fold (\<lambda>out acc. case out of None \<Rightarrow> acc | Some s \<Rightarrow> Some s) outs acc"
  using assms
proof (induction rows arbitrary: ps st outs acc)
  case (Cons row rows)
  then obtain p ps' where ps: "ps = p # ps'" "parse_part (payload row) = Some p"
    and rest: "list_all2 (\<lambda>row p. parse_part (payload row) = Some p) rows ps'"
    by (auto simp: list_all2_Cons1)
  obtain st' r where a: "add st p = (st', r)" by (cases "add st p")
  with Cons.prems(2) ps(1) obtain out outs' where o: "r = Inr out" "add_all st' ps' = Inr outs'" "outs = out # outs'"
    by (cases r; cases "add_all st' ps'") auto
  from Cons.prems(3) a o(1) ps(2) have "assemble_rows e st' (case out of None \<Rightarrow> acc | Some s \<Rightarrow> Some s) rows = Inr res"
    by (simp split: if_splits)
  from Cons.IH [OF rest o(2) this] o(3) show ?case by simp
qed simp

lemma assemble_incomplete:
  assumes "splitInferenceRequest text r m = Inr parts" and "r \<noteq> []" and "utf8_valid text" and "q \<in> set parts"
    and "\<forall>x\<in>set L. \<exists>p\<in>set parts. payload x = json_stringify (part_json p)" and "\<forall>x\<in>set L. payload x \<noteq> json_stringify (part_json q)"
    and "assemble_rows e [] None L = Inr res"
  shows "res = None"
proof -
  obtain n cap where n: "0 < n" "length text \<le> n * cap"
    and parts: "parts = map (\<lambda>i. makePart r i n (slice cap text i)) [0..<n]"
    using splitInferenceRequest_parts [OF split_Inr [OF assms(1)]] assms(1) by (metis sum.inject(2))
  let ?P = "\<lambda>i. makePart r i n (slice cap text i)"
  obtain j where j: "j < n" "q = ?P j" using assms(4) parts by auto
  have "\<exists>i<n. payload x = json_stringify (part_json (?P i)) \<and> i \<noteq> j" if "x \<in> set L" for x
    using that assms(5,6) parts j(2) by fastforce
  then obtain f where f: "\<forall>x\<in>set L. f x < n \<and> payload x = json_stringify (part_json (?P (f x))) \<and> f x \<noteq> j" by metis
  have "parse_part (payload x) = Some (?P (f x))" if "x \<in> set L" for x
    using that f split_part_facts(2) [OF assms(1,2)] parts by simp
  then have parsed: "list_all2 (\<lambda>row p. parse_part (payload row) = Some p) L (map ?P (map f L))"
    by (simp add: list_all2_conv_all_nth)
  have whole: "concat (map (slice cap text) [0..<n]) = text" using n(2) by (simp add: slices_concat)
  have "set (map f L) \<subseteq> {..<n}" using f by auto
  moreover have "j \<notin> set (map f L)" using f by auto
  then have "set (map f L) \<noteq> {..<n}" using j(1) by blast
  ultimately obtain outs where outs: "add_all [] (map ?P (map f L)) = Inr outs" "List.map_filter (\<lambda>x. x) outs = []"
    using add_all_collects [of r n "slice cap text" "{}" "[]" "map f L"] assms(2,3) whole by (auto simp: collected_def)
  have "fold (\<lambda>out acc. case out of None \<Rightarrow> acc | Some s \<Rightarrow> Some s) outs acc = acc" for acc
    using outs(2) by (induction outs) (auto simp: List.map_filter_simps split: option.splits)
  with assemble_rows_result [OF parsed outs(1) assms(7)] show ?thesis by simp
qed

text \<open>A pass over a spool that has lost a part launches nothing and keeps it lost.\<close>

lemma gone_handled:
  assumes "splitInferenceRequest text r m = Inr parts" and "r \<noteq> []" and "utf8_valid text" and "q \<in> set parts"
    and "gone s parts q (lane_spool st)"
  shows "snd (handleInferencePart env dr e st) = st"
proof -
  let ?L = "readDurablePartsByStreamId (lane_spool st) (the (en_stream e)) (le_site env) ''inference_part''"
  obtain z where z: "z \<in> set (lane_spool st)" "kind z = ''inference_part''" "idempotency_key z = part_key q" "claim_state z = Consumed"
    using assms(5) unfolding gone_def by blast
  have live: "\<exists>p\<in>set parts. payload x = json_stringify (part_json p) \<and> payload x \<noteq> json_stringify (part_json q)" if x: "x \<in> set ?L" for x
  proof -
    have x': "x \<in> set (lane_spool st)" "kind x = ''inference_part''" "claim_state x \<noteq> Consumed"
      using x by (auto simp: readDurablePartsByStreamId_def)
    then obtain p where p: "p \<in> set parts" "payload x = json_stringify (part_json p)" "idempotency_key x = part_key p"
      using assms(5) unfolding gone_def by blast
    have "payload x \<noteq> json_stringify (part_json q)"
    proof
      assume "payload x = json_stringify (part_json q)"
      then have "p = q" using p split_part_facts(2) [OF assms(1,2)] assms(4) by (metis option.inject)
      then have "fence_key x = fence_key z" using p(3) x'(2) z(2,3) by (simp add: fence_key_def)
      then have "x = z" using assms(5) x'(1) z(1) by (auto simp: gone_def spool_ok_def distinct_map dest: inj_onD)
      with x'(3) z(4) show False by simp
    qed
    with p show ?thesis by blast
  qed
  then have "assemble_rows e [] None ?L = Inr res \<Longrightarrow> res = None" for res
    using assemble_incomplete [OF assms(1-4), of ?L e] by blast
  then show ?thesis
    by (auto simp: handleInferencePart_def Let_def split: option.splits sum.splits)
qed

lemma gone_pass:
  assumes "splitInferenceRequest text r m = Inr parts" and "r \<noteq> []" and "utf8_valid text" and "q \<in> set parts"
    and "gone s parts q (lane_spool st)"
  shows "gone s parts q (lane_spool (part_pass env dr st)) \<and> launches (part_pass env dr st) = launches st"
proof (cases "snd (claim_part env dr (lane_spool st))")
  case None
  then have "claim_part env dr (lane_spool st) = (lane_spool st, None)"
    by (auto simp: claim_part_def claimLocalDurableWork_def split: list.splits prod.splits if_splits)
  with assms(5) show ?thesis by (simp add: part_pass_def)
next
  case (Some c)
  obtain i where "fst (claim_part env dr (lane_spool st)) = claim_row (dr_token dr) (dr_now dr) i (lane_spool st)"
    using Some by (auto simp: claim_part_def claimLocalDurableWork_def split: list.splits prod.splits if_splits)
  with Some have c: "claim_part env dr (lane_spool st) = (claim_row (dr_token dr) (dr_now dr) i (lane_spool st), Some c)"
    by (simp add: prod_eq_iff)
  let ?st = "st\<lparr>lane_spool := claim_row (dr_token dr) (dr_now dr) i (lane_spool st)\<rparr>"
  let ?e = "entry_of (dr_now dr) c"
  have g: "gone s parts q (lane_spool ?st)" using gone_claim [OF assms(5)] by simp
  obtain res st' where d: "dispatchActiveEntry env dr ?e ?st = (res, st')" by (metis surj_pair)
  have w: "gone s parts q (lane_spool wst) \<and> launches wst = launches st" if "writeResponse env dr ?e ''error'' body ?st = (wr, wst)" for body wr wst
    using that gone_respond [OF g, of "''error''" env dr ?e body] respond_launches [of env dr ?e "''error''" body ?st] by simp
  have "snd (handleInferencePart env dr ?e ?st) = ?st" by (rule gone_handled [OF assms(1-4) g])
  then have "gone s parts q (lane_spool st') \<and> launches st' = launches st"
    using d g by (auto simp: dispatchActiveEntry_def dest: w split: if_splits prod.splits sum.splits part_error.splits)
  then show ?thesis
    using gone_acknowledge gone_dead_letter by (auto simp: part_pass_def c d split: sum.splits part_error.splits)
qed

lemma gone_run:
  assumes "splitInferenceRequest text r m = Inr parts" and "r \<noteq> []" and "utf8_valid text" and "q \<in> set parts"
    and "gone s parts q (lane_spool st)" and "\<forall>ev\<in>set es. carries s parts ev"
  shows "launches (fold (lane_step env) es st) = launches st"
  using assms(5,6)
proof (induction es arbitrary: st)
  case (Cons ev es)
  have "gone s parts q (lane_spool (lane_step env ev st)) \<and> launches (lane_step env ev st) = launches st"
  proof (cases ev)
    case (Arrive w t)
    then show ?thesis
      using Cons.prems gone_insert [OF Cons.prems(1), of True False w t] by (cases "insertDurableWork True False (lane_spool st) w t") auto
  next
    case (Pass dr)
    then show ?thesis using gone_pass [OF assms(1-4) Cons.prems(1)] by simp
  qed
  then show ?case using Cons.IH Cons.prems(2) by simp
qed simp

lemma first_part_consumed:
  assumes "splitInferenceRequest text r m = Inr parts" and "r \<noteq> []" and "utf8_valid text" and "q \<in> set parts" and "2 \<le> length parts"
    and "le_site env \<noteq> []" and "source \<noteq> le_site env" and "s \<noteq> []" and "i \<noteq> []"
    and "lane_spool st = []" and "completedInferenceParts st = []" and "pendingCancels st = []" and "releasedPartIds st = []"
    and row_def: "row = fresh_row (routed_work (part_params (le_site env) source tmo s q) i t) t"
  shows "part_pass env dr (st\<lparr>lane_spool := [row]\<rparr>) =
           st\<lparr>lane_spool := [to_consumed (dr_now dr) (to_processing (dr_token dr) (dr_now dr) row)]\<rparr>"
proof -
  let ?row = "to_processing (dr_token dr) (dr_now dr) row"
  let ?st = "st\<lparr>lane_spool := [?row]\<rparr>"
  let ?e = "entry_of (dr_now dr) ?row"
  note q = split_part_facts [OF assms(1,2,4)]
  have row: "claim_state row = Pending" "target_site_id row = le_site env" "kind row = ''inference_part''" "stream_id row = Some s"
      "payload row = json_stringify (part_json q)" "ref_id row = Some r" "source_site row = Some source" "expires_at row \<noteq> None"
    using assms(7) q(1) by (auto simp: row_def fresh_row_def routed_work_def part_params_def)
  have claim: "claim_part env dr [row] = ([?row], Some ?row)"
    using row by (simp add: claim_part_def claimLocalDurableWork_def claim_row_def update_where_def order_by_def)
  have L: "readDurablePartsByStreamId [?row] s (le_site env) ''inference_part'' = [?row]"
    using row by (simp add: readDurablePartsByStreamId_def for_self_def order_by_def to_processing_def)
  obtain n cap where n: "length text \<le> n * cap" and parts: "parts = map (\<lambda>i. makePart r i n (slice cap text i)) [0..<n]"
    using splitInferenceRequest_parts [OF split_Inr [OF assms(1)]] assms(1) by (metis sum.inject(2))
  then have two: "makePart r 0 n (slice cap text 0) \<in> set parts" "makePart r 1 n (slice cap text 1) \<in> set parts"
    "makePart r 0 n (slice cap text 0) \<noteq> makePart r 1 n (slice cap text 1)"
    using assms(5) by (auto simp: makePart_def)
  then obtain p' where p': "p' \<in> set parts" "p' \<noteq> q" by metis
  then have ne: "json_stringify (part_json q) \<noteq> json_stringify (part_json p')"
    using q(2) split_part_facts(2) [OF assms(1,2)] by (metis option.inject)
  have pay: "payload ?row = json_stringify (part_json q)" using row by (simp add: to_processing_def)
  have env: "same_envelope ?e ?row" using row by (auto simp: same_envelope_def entry_of_def to_processing_def)
  obtain j where "j < n" "q = makePart r j n (slice cap text j)" using assms(4) parts by auto
  then obtain outs where "add_all [] [q] = Inr outs"
    using add_all_collects [of r n "slice cap text" "{}" "[]" "[j]"] assms(2,3) n by (auto simp: collected_def slices_concat simp del: add_all.simps)
  then obtain res where res: "assemble_rows ?e [] None [?row] = Inr res"
    using assemble_rows_outputs [of ?e "[?row]" "[q]" "[]" outs None] q(2) pay env by simp
  have "res = None" by (rule assemble_incomplete [OF assms(1-3) p'(1) _ _ res]) (use pay ne assms(4) in auto)
  then have handle: "handleInferencePart env dr ?e ?st = (Inr (), ?st)"
    using q row L res assms(2,8,11) by (simp add: handleInferencePart_def entry_of_def to_processing_def)
  have "dispatchActiveEntry env dr ?e ?st = (Inr (), ?st)"
    using handle assms(12) by (simp add: dispatchActiveEntry_def)
  moreover have "update_where (ack_matches (wid row) (dr_token dr)) (to_consumed (dr_now dr)) [?row] = [to_consumed (dr_now dr) ?row]"
    by (simp add: update_where_def ack_matches_def to_processing_def)
  ultimately show ?thesis
    using claim assms(13) by (simp add: part_pass_def acknowledgeDurableWork_def claim.same_id)
qed

text \<open>C40: A multipart request is lost when one of its parts is dispatched before the others have arrived. The
  lane consumes the early part and never reads it again, and the fence keeps a second delivery of it out: whatever
  parts of the request arrive later and however often the lane runs, the inference is never launched.\<close>

theorem early_part_lost:
  assumes "splitInferenceRequest text r m = Inr parts" and "r \<noteq> []" and "utf8_valid text" and "q \<in> set parts" and "2 \<le> length parts"
    and "le_site env \<noteq> []" and "source \<noteq> le_site env" and "s \<noteq> []" and "i \<noteq> []"
    and "lane_spool st = []" and "completedInferenceParts st = []" and "pendingCancels st = []" and "releasedPartIds st = []"
    and "\<forall>ev\<in>set es. carries s parts ev"
  shows "launches (fold (lane_step env) (Arrive (routed_work (part_params (le_site env) source tmo s q) i t) t # Pass dr # es) st) = launches st"
proof -
  define w where "w = routed_work (part_params (le_site env) source tmo s q) i t"
  let ?row = "to_consumed (dr_now dr) (to_processing (dr_token dr) (dr_now dr) (fresh_row w t))"
  let ?st = "st\<lparr>lane_spool := [?row]\<rparr>"
  have w: "new_kind w = ''inference_part''" "new_stream_id w = Some s" "new_payload w = json_stringify (part_json q)" "new_key w = part_key q"
    by (simp_all add: w_def routed_work_def part_params_def part_key_def)
  have "validateDurableWork w = None"
    using assms(6,7,9) by (simp add: validateDurableWork_def w_def routed_work_def part_params_def json_stringify_def)
  then have "lane_step env (Arrive w t) st = st\<lparr>lane_spool := [fresh_row w t]\<rparr>"
    using assms(10) by (simp add: insertDurableWork_def fenced_def)
  moreover have "part_pass env dr (st\<lparr>lane_spool := [fresh_row w t]\<rparr>) = ?st"
    unfolding w_def using first_part_consumed [OF assms(1-13) refl] .
  moreover have "row_ok ?row"
    using fresh_row_ok [of w t] by (simp add: row_ok_def to_consumed_def to_processing_def fresh_row_def)
  then have "gone s parts q (lane_spool ?st)"
    using w assms(4) by (auto simp: gone_def spool_ok_def to_consumed_def to_processing_def fresh_row_def)
  ultimately show ?thesis using gone_run [OF assms(1-4) _ assms(14), of ?st env] by (simp add: w_def [symmetric])
qed

theorem early_part_lost_witness:
  "launches (fold (lane_step demo_lane_env)
     [Arrive (routed_work (part_params ''b'' ''a'' 100 ''s'' (demo_parts ! 0)) ''A'' 10) 10, Pass demo_draws,
      Arrive (routed_work (part_params ''b'' ''a'' 100 ''s'' (demo_parts ! 1)) ''B'' 12) 12, Pass demo_draws, Pass demo_draws]
     (demo_lane\<lparr>lane_spool := []\<rparr>)) = []"
proof -
  have "utf8_valid ''abcd''" by code_simp
  moreover have "demo_parts ! 0 \<in> set demo_parts" "2 \<le> length demo_parts" by (simp_all add: demo_parts_def)
  moreover have "carries ''s'' demo_parts (Arrive (routed_work (part_params ''b'' ''a'' 100 ''s'' (demo_parts ! 1)) ''B'' 12) 12)"
    by (auto simp: routed_work_def part_params_def part_key_def demo_parts_def)
  ultimately show ?thesis
    using early_part_lost [OF demo_split, of "demo_parts ! 0" demo_lane_env "''a''" "''s''" "''A''" "demo_lane\<lparr>lane_spool := []\<rparr>"
        "[Arrive (routed_work (part_params ''b'' ''a'' 100 ''s'' (demo_parts ! 1)) ''B'' 12) 12, Pass demo_draws, Pass demo_draws]" 100 10 demo_draws]
    by (simp add: demo_lane_env_def demo_lane_def del: lane_step.simps)
qed

lemma claim_part_cases:
  obtains "claim_part env dr rows = (rows, None)"
  | x where "x \<in> set rows" and "claim_state x = Pending" and "kind x = ''inference_part''" and "for_self (le_site env) x"
      and "claim_part env dr rows = (claim_row (dr_token dr) (dr_now dr) (wid x) rows, Some (to_processing (dr_token dr) (dr_now dr) x))"
proof -
  have pick: "(\<exists>x\<in>set rows. claim_state x = Pending \<and> kind x = ''inference_part'' \<and> target_site_id x = t \<and>
      claimLocalDurableWork rows t (Some ''inference_part'') (dr_token dr) (dr_now dr) =
        (claim_row (dr_token dr) (dr_now dr) (wid x) rows, Some (to_processing (dr_token dr) (dr_now dr) x))) \<or>
      claimLocalDurableWork rows t (Some ''inference_part'') (dr_token dr) (dr_now dr) = (rows, None)" for t
    using claimLocal_picks [of _ rows t "''inference_part''" "dr_token dr" "dr_now dr"] claimLocal_none [of rows t "''inference_part''" "dr_token dr" "dr_now dr"]
    by (metis list.distinct(1))
  from pick [of "le_site env"] show ?thesis
  proof (elim disjE bexE conjE)
    fix x assume x: "x \<in> set rows" "claim_state x = Pending" "kind x = ''inference_part''" "target_site_id x = le_site env"
      "claimLocalDurableWork rows (le_site env) (Some ''inference_part'') (dr_token dr) (dr_now dr) =
        (claim_row (dr_token dr) (dr_now dr) (wid x) rows, Some (to_processing (dr_token dr) (dr_now dr) x))"
    show ?thesis by (rule that(2) [OF x(1-3)]) (simp_all add: x(4,5) for_self_def claim_part_def)
  next
    assume none: "claimLocalDurableWork rows (le_site env) (Some ''inference_part'') (dr_token dr) (dr_now dr) = (rows, None)"
    from pick [of LOCAL_WORK_TARGET] show ?thesis
    proof (elim disjE bexE conjE)
      fix x assume x: "x \<in> set rows" "claim_state x = Pending" "kind x = ''inference_part''" "target_site_id x = LOCAL_WORK_TARGET"
        "claimLocalDurableWork rows LOCAL_WORK_TARGET (Some ''inference_part'') (dr_token dr) (dr_now dr) =
          (claim_row (dr_token dr) (dr_now dr) (wid x) rows, Some (to_processing (dr_token dr) (dr_now dr) x))"
      with none have "le_site env \<noteq> LOCAL_WORK_TARGET" by auto
      then show ?thesis by (intro that(2) [OF x(1-3)]) (simp_all add: x(4,5) none for_self_def claim_part_def)
    qed (rule that(1), simp add: none claim_part_def)
  qed
qed

lemma pass_launches:
  assumes "\<And>x. x \<in> set (lane_spool st) \<Longrightarrow> claim_state x = Pending \<Longrightarrow> kind x = ''inference_part'' \<Longrightarrow> for_self (le_site env) x \<Longrightarrow>
      launches (snd (handleInferencePart env dr (entry_of (dr_now dr) (to_processing (dr_token dr) (dr_now dr) x))
        (st\<lparr>lane_spool := claim_row (dr_token dr) (dr_now dr) (wid x) (lane_spool st)\<rparr>))) = launches st"
  shows "launches (part_pass env dr st) = launches st"
proof (cases rule: claim_part_cases [of env dr "lane_spool st"])
  case 1
  then show ?thesis by (simp add: part_pass_def)
next
  case (2 x)
  let ?e = "entry_of (dr_now dr) (to_processing (dr_token dr) (dr_now dr) x)"
  let ?st = "st\<lparr>lane_spool := claim_row (dr_token dr) (dr_now dr) (wid x) (lane_spool st)\<rparr>"
  obtain res st' where h: "handleInferencePart env dr ?e ?st = (res, st')" by (metis surj_pair)
  then have "launches st' = launches st" using assms [OF 2(1-4)] by simp
  then have "launches (snd (dispatchActiveEntry env dr ?e ?st)) = launches st"
    using h by (auto simp: dispatchActiveEntry_def split: sum.splits part_error.splits)
  then show ?thesis
    by (auto simp: part_pass_def 2(5) split: prod.splits sum.splits part_error.splits)
qed

lemma assemble_conflict:
  assumes "y \<in> set rows" and "expires_at y = Some b" and "b \<noteq> en_expires e"
  shows "assemble_rows e st acc rows \<noteq> Inr res"
  using assms(1)
proof (induction rows arbitrary: st acc)
  case (Cons row rows)
  then show ?case using assms(2,3) by (auto split: option.splits prod.splits sum.splits)
qed simp

text \<open>Parts that were routed at different times are rejected. Every part gets its own expiry from the clock, and the
  receiver compares the expiries: when two parts of a request were written at different milliseconds, a pass that
  finds both in the spool launches nothing.\<close>

theorem staggered_parts_rejected:
  assumes "set (lane_spool st) = {fresh_row (routed_work (part_params site source tmo s p) i t) a, fresh_row (routed_work (part_params site source tmo s p') i' t') a'}"
    and "site = le_site env" and "source \<noteq> site" and "t \<noteq> t'"
  shows "launches (part_pass env dr st) = launches st"
proof (rule pass_launches)
  let ?r = "\<lambda>p i t a. fresh_row (routed_work (part_params site source tmo s p) i t) a"
  fix x assume x: "x \<in> set (lane_spool st)" "claim_state x = Pending"
  let ?rows = "claim_row (dr_token dr) (dr_now dr) (wid x) (lane_spool st)"
  let ?e = "entry_of (dr_now dr) (to_processing (dr_token dr) (dr_now dr) x)"
  let ?L = "readDurablePartsByStreamId ?rows (the (en_stream ?e)) (le_site env) ''inference_part''"
  have fields: "stream_id (?r p i t a) = Some s" "kind (?r p i t a) = ''inference_part''" "target_site_id (?r p i t a) = site"
      "claim_state (?r p i t a) = Pending" "expires_at (?r p i t a) = Some (durableExpiresAt ''inference_part'' t tmo)" for p i t a
    using assms(3) by (simp_all add: fresh_row_def routed_work_def part_params_def)
  have ne: "durableExpiresAt ''inference_part'' t tmo \<noteq> durableExpiresAt ''inference_part'' t' tmo"
      "durableExpiresAt ''inference_part'' t' tmo \<noteq> durableExpiresAt ''inference_part'' t tmo"
    using assms(4) unfolding durableExpiresAt_def by linarith+
  obtain y b where y: "y \<in> set (lane_spool st)" "stream_id y = Some s" "kind y = ''inference_part''" "target_site_id y = site" "claim_state y = Pending"
      "expires_at y = Some b" "Some b \<noteq> expires_at x" "stream_id x = Some s" "expires_at x \<noteq> None"
  proof -
    from x(1) assms(1) consider "x = ?r p i t a" | "x = ?r p' i' t' a'" by blast
    then show ?thesis
    proof cases
      case 1
      show ?thesis by (rule that [of "?r p' i' t' a'"]) (use 1 assms(1) fields ne(2) in simp_all)
    next
      case 2
      show ?thesis by (rule that [of "?r p i t a"]) (use 2 assms(1) fields ne(1) in simp_all)
    qed
  qed
  obtain y' where y': "y' \<in> set ?rows" "same_work y' y" using claim_row_keeps [OF y(1)] by blast
  have "claim_state y' \<in> {Pending, Processing}"
    using claim_row_work [OF y'(1)] assms(1) fields by auto
  then have "y' \<in> set ?L" using y y' assms(2) x(1)
    by (auto simp: readDurablePartsByStreamId_def for_self_def same_work_def entry_of_def to_processing_def)
  moreover have "expires_at y' = Some b" "b \<noteq> en_expires ?e" using y y'(2) by (auto simp: same_work_def entry_of_def to_processing_def)
  ultimately have "assemble_rows ?e [] None ?L \<noteq> Inr res" for res by (rule assemble_conflict)
  then show "launches (snd (handleInferencePart env dr ?e (st\<lparr>lane_spool := ?rows\<rparr>))) = launches st"
    by (auto simp: handleInferencePart_def Let_def split: option.splits sum.splits)
qed

theorem staggered_parts_rejected_witness:
  "launches (part_pass demo_lane_env demo_draws
     (demo_lane\<lparr>lane_spool := fst (send_parts (le_routing demo_lane_env) ''b'' ''a'' 100 ''s'' (\<lambda>k. [char_of (65 + k)]) (\<lambda>k. 10 + int k) 0 demo_parts [])\<rparr>)) = []"
proof -
  let ?st = "demo_lane\<lparr>lane_spool := fst (send_parts (le_routing demo_lane_env) ''b'' ''a'' 100 ''s'' (\<lambda>k. [char_of (65 + k)]) (\<lambda>k. 10 + int k) 0 demo_parts [])\<rparr>"
  have "lane_spool ?st = [fresh_row (routed_work (part_params ''b'' ''a'' 100 ''s'' (demo_parts ! 0)) ''A'' 10) 10,
      fresh_row (routed_work (part_params ''b'' ''a'' 100 ''s'' (demo_parts ! 1)) ''B'' 11) 11]" by code_simp
  then have "set (lane_spool ?st) = {fresh_row (routed_work (part_params ''b'' ''a'' 100 ''s'' (demo_parts ! 0)) ''A'' 10) 10,
      fresh_row (routed_work (part_params ''b'' ''a'' 100 ''s'' (demo_parts ! 1)) ''B'' 11) 11}" by simp
  from staggered_parts_rejected [OF this, of demo_lane_env demo_draws] show ?thesis by (simp add: demo_lane_env_def demo_lane_def)
qed

end
