(* ===== verification/Relay_Stream.thy ===== *)
theory Relay_Stream
  imports Relay_Routing
begin

text \<open>
  The requester's side of a relayed inference stream, \<open>packages/agent/src/relay-stream$.ts\<close>: the
  reducer that claims the response rows of a stream from the durable spool, buffers them by sequence
  number, emits them in order and gives up on gaps, and the pipeline that delivers a tick's chunks
  before it acknowledges their rows. A chunk is a JSON value. Observables are runs of ticks: the
  subscriber sees \<open>emitted\<close>; timeouts, failover between hosts, latency metadata and
  trace re-export are left out.
\<close>

section \<open>Claiming the response rows\<close>

text \<open>A claimed row with the token under which its \<open>settle\<close> acknowledges it.\<close>

record stream_entry =
  se_id :: string
  se_kind :: string
  se_payload :: jtext
  se_token :: string

fun claim_entries :: "(nat \<Rightarrow> string) \<Rightarrow> time \<Rightarrow> string \<Rightarrow> nat \<Rightarrow> work_row list \<Rightarrow> spool \<Rightarrow> spool \<times> stream_entry list" where
  "claim_entries tok now site n [] rows = (rows, [])"
| "claim_entries tok now site n (d # ds) rows =
     (case claimDurableWorkByIds rows [wid d] site (\<lambda>_. tok n) now of
        (rows', c # _) \<Rightarrow>
          if claim_token c = None \<or> claim_token c = Some [] then claim_entries tok now site (Suc n) ds rows'
          else (let (rows'', es) = claim_entries tok now site (Suc n) ds rows'
                in (rows'', \<lparr>se_id = wid c, se_kind = kind c, se_payload = payload c, se_token = the (claim_token c)\<rparr> # es))
      | (rows', []) \<Rightarrow> claim_entries tok now site (Suc n) ds rows')"

definition union_entries :: "(nat \<Rightarrow> string) \<Rightarrow> time \<Rightarrow> string \<Rightarrow> string \<Rightarrow> spool \<Rightarrow> spool \<times> stream_entry list" where
  "union_entries tok now site streamId rows =
     claim_entries tok now site 0 (readDurableResponsesByStreamId rows streamId site) rows"

section \<open>The reducer\<close>

type_synonym settle = "string \<times> string"

datatype stream_error = Remote_Payload jtext | Remote_Message string

record scan_state =
  buffer :: "(rat \<times> json list \<times> settle) list"
  nextExpectedSeq :: rat
  gapCyclesWaited :: nat
  streamEndSeq :: "rat option"
  streamEndConsumed :: bool
  firstChunkReceived :: bool
  chunksToEmit :: "json list"
  settlesToRun :: "settle list"
  activity :: bool
  scan_done :: bool
  scan_error :: "stream_error option"

definition MAX_GAP_CYCLES :: nat where
  "MAX_GAP_CYCLES = 6"

definition initialState :: scan_state where
  "initialState =
     \<lparr>buffer = [], nextExpectedSeq = 0, gapCyclesWaited = 0, streamEndSeq = None, streamEndConsumed = False,
      firstChunkReceived = False, chunksToEmit = [], settlesToRun = [], activity = False, scan_done = False, scan_error = None\<rparr>"

definition settle_of :: "stream_entry \<Rightarrow> settle" where
  "settle_of e = (se_id e, se_token e)"

datatype chunk_shape = Unparsable | Null_Value | Malformed | Chunks rat "json list"

definition chunk_payload :: "jtext \<Rightarrow> chunk_shape" where
  "chunk_payload t =
     (case json_parse t of
        None \<Rightarrow> Unparsable
      | Some JNull \<Rightarrow> Null_Value
      | Some (JObj ob) \<Rightarrow>
          (case (obj_get ob ''seq'', obj_get ob ''chunks'') of (Some (JNum q), Some (JArr cs)) \<Rightarrow> Chunks q cs | _ \<Rightarrow> Malformed)
      | Some _ \<Rightarrow> Malformed)"

text \<open>The loop over the chunk rows and the end row; reading a property of a JSON \<open>null\<close> throws (\<open>None\<close>).\<close>

definition fold_entry :: "stream_entry \<Rightarrow> scan_state \<Rightarrow> scan_state option" where
  "fold_entry e st =
     (case chunk_payload (se_payload e) of
        Null_Value \<Rightarrow> None
      | Chunks q cs \<Rightarrow>
          (let st1 = st\<lparr>activity := True, firstChunkReceived := True\<rparr>;
               st2 = (if map_of (buffer st1) q \<noteq> None then st1\<lparr>settlesToRun := settlesToRun st1 @ [settle_of e]\<rparr>
                      else st1\<lparr>buffer := buffer st1 @ [(q, cs, settle_of e)]\<rparr>)
           in Some (if se_kind e = ''stream_end'' then st2\<lparr>streamEndSeq := Some q\<rparr> else st2))
      | _ \<Rightarrow> Some (st\<lparr>settlesToRun := settlesToRun st @ [settle_of e]\<rparr>))"

fun fold_entries :: "stream_entry list \<Rightarrow> scan_state \<Rightarrow> scan_state option" where
  "fold_entries [] st = Some st"
| "fold_entries (e # es) st = (case fold_entry e st of None \<Rightarrow> None | Some st' \<Rightarrow> fold_entries es st')"

text \<open>The loop that moves the consecutive buffered payloads to the output.\<close>

definition take_next :: "json list \<times> settle \<Rightarrow> scan_state \<Rightarrow> scan_state" where
  "take_next b st =
     (let nxt = nextExpectedSeq st + 1 in
      st\<lparr>buffer := filter (\<lambda>(k, _). k \<noteq> nextExpectedSeq st) (buffer st), nextExpectedSeq := nxt,
         chunksToEmit := chunksToEmit st @ fst b, firstChunkReceived := (firstChunkReceived st \<or> fst b \<noteq> []),
         settlesToRun := settlesToRun st @ [snd b],
         streamEndConsumed := (case streamEndSeq st of Some fin \<Rightarrow> fin < nxt \<or> streamEndConsumed st | None \<Rightarrow> streamEndConsumed st),
         gapCyclesWaited := 0\<rparr>)"

lemma take_next_shrinks:
  assumes "map_of (buffer st) (nextExpectedSeq st) = Some b"
  shows "length (buffer (take_next b st)) < length (buffer st)"
proof -
  have "(nextExpectedSeq st, b) \<in> set (buffer st)" using assms by (rule map_of_SomeD)
  then show ?thesis by (auto simp: take_next_def Let_def intro!: length_filter_less)
qed

function drain :: "scan_state \<Rightarrow> scan_state" where
  "drain st = (case map_of (buffer st) (nextExpectedSeq st) of None \<Rightarrow> st | Some b \<Rightarrow> drain (take_next b st))"
  by pat_completeness auto
termination by (relation "measure (length \<circ> buffer)") (simp_all add: take_next_shrinks)

declare drain.simps [simp del]

text \<open>A gap that lasts too long is skipped, or stale payloads behind the expected number are dropped.\<close>

definition lowestBuffered :: "scan_state \<Rightarrow> rat" where
  "lowestBuffered st = Min (set (map fst (buffer st)))"

definition gap_step :: "scan_state \<Rightarrow> scan_state" where
  "gap_step st =
     (if buffer st = [] then st
      else
        let st1 = st\<lparr>gapCyclesWaited := gapCyclesWaited st + 1\<rparr> in
        if gapCyclesWaited st1 < MAX_GAP_CYCLES then st1
        else if lowestBuffered st1 < nextExpectedSeq st1
        then let stale = filter (\<lambda>(k, _). k < nextExpectedSeq st1) (sort_key fst (buffer st1)) in
             st1\<lparr>settlesToRun := settlesToRun st1 @ map (\<lambda>(_, _, s). s) stale,
                 buffer := filter (\<lambda>(k, _). \<not> k < nextExpectedSeq st1) (buffer st1), gapCyclesWaited := 0\<rparr>
        else st1\<lparr>nextExpectedSeq := lowestBuffered st1, gapCyclesWaited := 0\<rparr>)"

definition error_text :: "jtext \<Rightarrow> stream_error" where
  "error_text t =
     (case json_parse t of
        Some (JObj ob) \<Rightarrow>
          (case (obj_get ob ''error'', obj_get ob ''retriable'', obj_get ob ''definitely_not_executed'') of
             (Some (JStr m), Some (JBool _), None) \<Rightarrow> Remote_Message m
           | (Some (JStr m), Some (JBool _), Some (JBool _)) \<Rightarrow> Remote_Message m
           | _ \<Rightarrow> Remote_Payload t)
      | _ \<Rightarrow> Remote_Payload t)"

text \<open>One application of the reducer to the rows claimed at a tick. Sequence numbers are natural numbers, where the
  source takes any JavaScript number; and an error row ends the stream here whatever its text, where the
  source, which tests the text, reads past an empty one.\<close>

definition reduce :: "stream_entry list \<Rightarrow> scan_state \<Rightarrow> scan_state option" where
  "reduce entries st =
     (let nxt = st\<lparr>chunksToEmit := [], settlesToRun := [], activity := False\<rparr> in
      case find (\<lambda>e. se_kind e = ''error'') entries of
        Some e \<Rightarrow> Some (nxt\<lparr>settlesToRun := [settle_of e], scan_error := Some (error_text (se_payload e))\<rparr>)
      | None \<Rightarrow>
          (let next1 = (case find (\<lambda>e. se_kind e = ''trace_data'') entries of
                          None \<Rightarrow> nxt | Some e \<Rightarrow> nxt\<lparr>settlesToRun := [settle_of e]\<rparr>);
               ends = (case find (\<lambda>e. se_kind e = ''stream_end'') entries of None \<Rightarrow> [] | Some e \<Rightarrow> [e]);
               chunkEntries = filter (\<lambda>e. se_kind e = ''stream_chunk'') entries
           in case fold_entries (chunkEntries @ ends) next1 of
                None \<Rightarrow> None
              | Some next2 \<Rightarrow>
                  (let next3 = drain next2
                   in Some (if streamEndConsumed next3 \<and> buffer next3 = [] then next3\<lparr>scan_done := True\<rparr> else gap_step next3))))"

section \<open>The pipeline\<close>

datatype outcome = Completed | Failed stream_error | Threw

record relay_stream =
  rs_spool :: spool
  rs_scan :: scan_state
  emitted :: "json list"
  ended :: "outcome option"

definition run_settles :: "time \<Rightarrow> settle list \<Rightarrow> spool \<Rightarrow> spool" where
  "run_settles now ss rows = fold (\<lambda>(i, tok) rows. fst (acknowledgeDurableWork rows i tok now)) ss rows"

text \<open>A tick of the merged interval and event source. After an error \<open>concat\<close> does not subscribe to
  its remaining sources, so the deferred settles of that tick do not run.\<close>

definition stream_tick :: "string \<Rightarrow> string \<Rightarrow> (nat \<Rightarrow> string) \<Rightarrow> time \<Rightarrow> relay_stream \<Rightarrow> relay_stream" where
  "stream_tick site streamId tok now rs =
     (if ended rs \<noteq> None then rs
      else
        let (rows, entries) = union_entries tok now site streamId (rs_spool rs) in
        case reduce entries (rs_scan rs) of
          None \<Rightarrow> rs\<lparr>rs_spool := rows, ended := Some Threw\<rparr>
        | Some st \<Rightarrow>
            (case scan_error st of
               Some err \<Rightarrow> rs\<lparr>rs_spool := rows, rs_scan := st, ended := Some (Failed err)\<rparr>
             | None \<Rightarrow>
                 rs\<lparr>rs_spool := run_settles now (settlesToRun st) rows, rs_scan := st, emitted := emitted rs @ chunksToEmit st,
                    ended := (if scan_done st then Some Completed else None)\<rparr>))"

section \<open>What a tick claims\<close>

definition row_entry :: "work_row \<Rightarrow> stream_entry" where
  "row_entry c = \<lparr>se_id = wid c, se_kind = kind c, se_payload = payload c, se_token = the (claim_token c)\<rparr>"

lemma filter_unique:
  assumes "distinct (map f xs)" and "x \<in> set xs" and "p x" and "\<And>y. p y \<Longrightarrow> f y = f x"
  shows "filter p xs = [x]"
proof -
  have "length (filter p xs) = 1" unfolding count_where_def [symmetric]
    by (rule count_where_unique_key [where k = f and r = x]) (rule assms; assumption)+
  moreover have "x \<in> set (filter p xs)" using assms(2,3) by simp
  ultimately show ?thesis by (cases "filter p xs") auto
qed

lemma claimByIds_one:
  assumes "spool_ok rows" and "d \<in> set rows" and "claim_state d = Pending" and "target_site_id d = site"
  shows "claimDurableWorkByIds rows [wid d] site toks now = (claim_row (toks 0) now (wid d) rows, [to_processing (toks 0) now d])"
proof -
  have "filter (\<lambda>r. target_site_id r = site \<and> claim_state r = Pending \<and> wid r \<in> set [wid d]) rows = [d]"
    using assms by (intro filter_unique [where f = wid]) (auto simp: spool_ok_def)
  then show ?thesis unfolding claimDurableWorkByIds_def by simp
qed

lemma claim_entries_all:
  assumes "spool_ok rows" and "distinct (map wid ds)" and "\<forall>d\<in>set ds. d \<in> set rows \<and> claim_state d = Pending \<and> target_site_id d = site"
    and "\<forall>k. tok k \<noteq> []"
  shows "claim_entries tok now site n ds rows =
           (fst (claim_each tok now n ds rows), map row_entry (snd (claim_each tok now n ds rows)))"
  using assms(1-3)
proof (induction ds arbitrary: n rows)
  case (Cons d ds)
  let ?rows = "claim_row (tok n) now (wid d) rows"
  have one: "claimDurableWorkByIds rows [wid d] site (\<lambda>_. tok n) now = (?rows, [to_processing (tok n) now d])"
    using claimByIds_one Cons.prems by simp
  have "\<forall>x\<in>set ds. x \<in> set ?rows \<and> claim_state x = Pending \<and> target_site_id x = site"
  proof
    fix x assume x: "x \<in> set ds"
    then have "wid x \<noteq> wid d" using Cons.prems(2) by (auto simp: rev_image_eqI)
    then show "x \<in> set ?rows \<and> claim_state x = Pending \<and> target_site_id x = site"
      using Cons.prems(3) x claim_row_other [of x rows "wid d"] by simp
  qed
  from Cons.IH [OF claim_row_ok [OF Cons.prems(1)] _ this, of "Suc n"] Cons.prems(2) one assms(4)
  show ?case by (simp add: case_prod_unfold Let_def to_processing_def row_entry_def)
qed simp

text \<open>The rows that a stream awaits.\<close>

definition stream_row :: "string \<Rightarrow> work_row \<Rightarrow> bool" where
  "stream_row s r \<longleftrightarrow> stream_id r = Some s \<and> kind r \<in> set RELAY_RESPONSE_KINDS"

lemma union_entries_all:
  assumes "spool_ok rows" and "\<forall>r\<in>set rows. stream_row s r \<longrightarrow> target_site_id r = site" and "\<forall>k. tok k \<noteq> []"
  shows "union_entries tok now site s rows =
           (fst (claim_each tok now 0 (readDurableResponsesByStreamId rows s site) rows),
            map row_entry (snd (claim_each tok now 0 (readDurableResponsesByStreamId rows s site) rows)))"
  unfolding union_entries_def using assms
  by (intro claim_entries_all) (auto simp: readDurableResponsesByStreamId_def stream_row_def spool_ok_def distinct_map_filter)

section \<open>In order and at most once\<close>

text \<open>The log of a run: what was taken from the buffer, by sequence number.\<close>

definition logged :: "(rat \<Rightarrow> json list \<Rightarrow> bool) \<Rightarrow> json list \<Rightarrow> (rat \<times> json list) list \<Rightarrow> scan_state \<Rightarrow> bool" where
  "logged offered out lg st \<longleftrightarrow>
     out = concat (map snd lg) \<and> sorted_wrt (<) (map fst lg) \<and> (\<forall>(q, cs)\<in>set lg. q < nextExpectedSeq st \<and> offered q cs) \<and>
     distinct (map fst (buffer st)) \<and> (\<forall>(q, cs, z)\<in>set (buffer st). offered q cs)"

lemma logged_take:
  assumes "logged offered out lg st" and "map_of (buffer st) (nextExpectedSeq st) = Some b"
  shows "logged offered (out @ fst b) (lg @ [(nextExpectedSeq st, fst b)]) (take_next b st)"
    and "chunksToEmit (take_next b st) = chunksToEmit st @ fst b"
proof -
  obtain cs z where b: "b = (cs, z)" by (cases b)
  have "(nextExpectedSeq st, cs, z) \<in> set (buffer st)" using map_of_SomeD [OF assms(2)] b by simp
  then have "offered (nextExpectedSeq st) cs" using assms(1) by (auto simp: logged_def)
  then show "logged offered (out @ fst b) (lg @ [(nextExpectedSeq st, fst b)]) (take_next b st)"
    using assms(1) b by (auto simp: logged_def take_next_def Let_def sorted_wrt_append distinct_map_filter less_imp_le intro: less_trans)
  show "chunksToEmit (take_next b st) = chunksToEmit st @ fst b" by (simp add: take_next_def Let_def)
qed

lemma logged_drain:
  "logged offered out lg st \<Longrightarrow>
   \<exists>more lg'. chunksToEmit (drain st) = chunksToEmit st @ more \<and> logged offered (out @ more) lg' (drain st)"
proof (induction st arbitrary: out lg rule: drain.induct)
  case (1 st)
  show ?case
  proof (cases "map_of (buffer st) (nextExpectedSeq st)")
    case None
    then have "drain st = st" by (simp add: drain.simps [of st])
    then show ?thesis using 1(2) by (intro exI [of _ "[]"] exI [of _ lg]) simp
  next
    case (Some b)
    then have d: "drain st = drain (take_next b st)" by (simp add: drain.simps [of st])
    from 1(1) [OF Some logged_take(1) [OF 1(2) Some]] obtain more lg' where
      "chunksToEmit (drain (take_next b st)) = chunksToEmit (take_next b st) @ more"
      "logged offered ((out @ fst b) @ more) lg' (drain (take_next b st))" by blast
    then show ?thesis unfolding d using logged_take(2) [OF 1(2) Some] by (intro exI [of _ "fst b @ more"] exI [of _ lg']) simp
  qed
qed

lemma logged_gap:
  assumes "logged offered out lg st"
  shows "logged offered out lg (gap_step st)" and "chunksToEmit (gap_step st) = chunksToEmit st"
proof -
  have "nextExpectedSeq st \<le> nextExpectedSeq (gap_step st)" by (auto simp: gap_step_def Let_def)
  moreover have "set (buffer (gap_step st)) \<subseteq> set (buffer st)" by (auto simp: gap_step_def Let_def)
  moreover have "distinct (map fst (buffer (gap_step st)))" using assms by (auto simp: gap_step_def Let_def logged_def distinct_map_filter)
  ultimately show "logged offered out lg (gap_step st)" using assms unfolding logged_def by fastforce
  show "chunksToEmit (gap_step st) = chunksToEmit st" by (simp add: gap_step_def Let_def)
qed

lemma logged_fold:
  assumes "logged offered out lg st" and "fold_entries es st = Some st'"
    and "\<forall>e\<in>set es. \<forall>q cs. chunk_payload (se_payload e) = Chunks q cs \<longrightarrow> offered q cs"
  shows "logged offered out lg st'" and "chunksToEmit st' = chunksToEmit st"
proof (atomize (full), use assms in \<open>induction es arbitrary: st\<close>)
  case (Cons e es)
  then obtain st1 where st1: "fold_entry e st = Some st1" "fold_entries es st1 = Some st'" by (auto split: option.splits)
  have "logged offered out lg st1 \<and> chunksToEmit st1 = chunksToEmit st"
    using st1(1) Cons.prems(1,3)
    by (auto simp: fold_entry_def Let_def logged_def map_of_eq_None_iff split: chunk_shape.splits if_splits)
  then show ?case using Cons.IH [OF _ st1(2)] Cons.prems(3) by simp
qed simp

text \<open>The identity of a row, which claims and acknowledgements leave alone.\<close>

definition work :: "work_row \<Rightarrow> string \<times> string option \<times> string \<times> string \<times> jtext \<times> string" where
  "work r = (wid r, stream_id r, kind r, target_site_id r, payload r, idempotency_key r)"

lemma work_claim_row [simp]: "map work (claim_row tok now i rows) = map work rows"
  unfolding claim_row_def by (rule map_update_where_key) (simp add: work_def to_processing_def)

lemma work_claim_each [simp]: "map work (fst (claim_each tok now n ds rows)) = map work rows"
  by (induction ds arbitrary: n rows) (simp_all add: case_prod_unfold Let_def)

lemma work_claimByIds [simp]: "map work (fst (claimDurableWorkByIds rows ids site toks now)) = map work rows"
  by (simp add: claimDurableWorkByIds_def)

lemma work_claim_entries [simp]: "map work (fst (claim_entries tok now site n ds rows)) = map work rows"
proof (induction ds arbitrary: n rows)
  case (Cons d ds)
  obtain rows' cs where c: "claimDurableWorkByIds rows [wid d] site (\<lambda>_. tok n) now = (rows', cs)" by (metis surj_pair)
  then have "map work rows' = map work rows" using work_claimByIds [of rows "[wid d]" site "\<lambda>_. tok n" now] by simp
  then show ?case using Cons.IH [of "Suc n" rows'] c by (auto simp: case_prod_unfold Let_def split: list.splits)
qed simp

lemma work_settles [simp]: "map work (run_settles now ss rows) = map work rows"
proof -
  have "map work (update_where (ack_matches i tok) (to_consumed now) rows) = map work rows" for i tok rows
    by (rule map_update_where_key) (simp add: work_def to_consumed_def)
  then have "map work (fold (\<lambda>(i, tok) rows. fst (acknowledgeDurableWork rows i tok now)) ss rows) = map work rows"
    by (induction ss arbitrary: rows) (auto simp: acknowledgeDurableWork_def)
  then show ?thesis by (simp add: run_settles_def)
qed

lemma claim_entries_ok: "spool_ok rows \<Longrightarrow> spool_ok (fst (claim_entries tok now site n ds rows))"
proof (induction ds arbitrary: n rows)
  case (Cons d ds)
  obtain rows' cs where c: "claimDurableWorkByIds rows [wid d] site (\<lambda>_. tok n) now = (rows', cs)" by (metis surj_pair)
  moreover have "fst (claimDurableWorkByIds rows [wid d] site (\<lambda>_. tok n) now) = rows'" using c by simp
  then have "spool_ok rows'" using claim_each_ok [OF Cons.prems] by (auto simp: claimDurableWorkByIds_def)
  ultimately show ?case using Cons.IH by (auto simp: case_prod_unfold Let_def split: list.splits)
qed simp

lemma settles_ok: "spool_ok rows \<Longrightarrow> spool_ok (run_settles now ss rows)"
proof -
  assume "spool_ok rows"
  then have "spool_ok (fold (\<lambda>(i, tok) rows. fst (acknowledgeDurableWork rows i tok now)) ss rows)"
    by (induction ss arbitrary: rows) (auto simp: acknowledgeDurableWork_def consume.update_ok)
  then show ?thesis by (simp add: run_settles_def)
qed

lemma claim_each_claimed:
  "c \<in> set (snd (claim_each tok now n ds rows)) \<Longrightarrow> \<exists>d\<in>set ds. \<exists>t. c = to_processing t now d"
  by (induction ds arbitrary: n rows) (auto simp: case_prod_unfold Let_def)

text \<open>Every entry of a tick is a row of the spool, of those that were read.\<close>

lemma claim_entries_from:
  "e \<in> set (snd (claim_entries tok now site n ds rows)) \<Longrightarrow>
   se_id e \<in> wid ` set ds \<and> (\<exists>st t ik. (se_id e, st, se_kind e, t, se_payload e, ik) \<in> work ` set rows)"
proof (induction ds arbitrary: n rows)
  case (Cons d ds)
  obtain rows' cs where c: "claimDurableWorkByIds rows [wid d] site (\<lambda>_. tok n) now = (rows', cs)" by (metis surj_pair)
  have works: "work ` set rows' = work ` set rows"
    using c work_claimByIds [of rows "[wid d]" site "\<lambda>_. tok n" now] by (metis fst_conv set_map)
  have first: "wid x = wid d \<and> work x \<in> work ` set rows" if x: "x \<in> set cs" for x
  proof -
    have "snd (claimDurableWorkByIds rows [wid d] site (\<lambda>_. tok n) now) = cs" using c by simp
    then obtain y t where y: "y \<in> set rows" "wid y = wid d" "x = to_processing t now y"
    proof -
      have "x \<in> set (snd (claim_each (\<lambda>_. tok n) now 0 (filter (\<lambda>r. target_site_id r = site \<and> claim_state r = Pending \<and> wid r \<in> set [wid d]) rows) rows))"
        using x \<open>snd (claimDurableWorkByIds rows [wid d] site (\<lambda>_. tok n) now) = cs\<close> by (simp add: claimDurableWorkByIds_def)
      from claim_each_claimed [OF this] show thesis using that by auto
    qed
    then have "wid x = wid d" "work x = work y" by (simp_all add: work_def to_processing_def)
    with y(1) show ?thesis by simp
  qed
  show ?case
  proof (cases "e \<in> set (snd (claim_entries tok now site (Suc n) ds rows'))")
    case True
    then show ?thesis using Cons.IH [OF True] works by auto
  next
    case False
    then obtain x xs where x: "cs = x # xs" "se_id e = wid x" "se_kind e = kind x" "se_payload e = payload x"
      using Cons.prems c by (auto simp: case_prod_unfold Let_def split: list.splits if_splits)
    have "wid x = wid d" "work x \<in> work ` set rows" using first [of x] x(1) by simp_all
    moreover have "work x = (se_id e, stream_id x, se_kind e, target_site_id x, se_payload e, idempotency_key x)" using x by (simp add: work_def)
    ultimately have "(se_id e, stream_id x, se_kind e, target_site_id x, se_payload e, idempotency_key x) \<in> work ` set rows" "se_id e = wid d"
      using x(2) by simp_all
    then show ?thesis by (intro conjI exI) (simp, assumption)
  qed
qed simp

definition offered :: "string \<Rightarrow> spool \<Rightarrow> rat \<Rightarrow> json list \<Rightarrow> bool" where
  "offered s rows q cs \<longleftrightarrow> (\<exists>r\<in>set rows. stream_row s r \<and> chunk_payload (payload r) = Chunks q cs)"

lemma offered_work: "map work rows' = map work rows \<Longrightarrow> offered s rows' = offered s rows"
proof -
  assume "map work rows' = map work rows"
  then have eq: "work ` set rows' = work ` set rows" by (metis set_map)
  have alt: "offered s xs q cs \<longleftrightarrow> (\<exists>(i, st, k, t, p, ik)\<in>work ` set xs. st = Some s \<and> k \<in> set RELAY_RESPONSE_KINDS \<and> chunk_payload p = Chunks q cs)" for xs q cs
    by (auto simp: offered_def stream_row_def work_def)
  show ?thesis by (intro ext) (simp only: eq alt)
qed

lemma union_entries_offered:
  assumes "spool_ok rows" and "e \<in> set (snd (union_entries tok now site s rows))" and "chunk_payload (se_payload e) = Chunks q cs"
  shows "offered s rows q cs"
proof -
  from claim_entries_from [of e tok now site 0 "readDurableResponsesByStreamId rows s site" rows] assms(2)
  obtain d x where d: "d \<in> set rows" "stream_row s d" "wid d = se_id e" and x: "x \<in> set rows" "wid x = se_id e" "payload x = se_payload e"
    by (auto simp: union_entries_def readDurableResponsesByStreamId_def stream_row_def work_def)
  then have "x = d" using spool_ok_unique [OF assms(1)] by simp
  then show ?thesis using d x assms(3) by (auto simp: offered_def)
qed

datatype stream_event = Row_Arrives new_work time | Tick "nat \<Rightarrow> string" time

fun stream_step :: "string \<Rightarrow> string \<Rightarrow> stream_event \<Rightarrow> relay_stream \<Rightarrow> relay_stream" where
  "stream_step site s (Row_Arrives w t) rs =
     (case insertDurableWork True False (rs_spool rs) w t of Inl _ \<Rightarrow> rs | Inr (rows, _, _) \<Rightarrow> rs\<lparr>rs_spool := rows\<rparr>)"
| "stream_step site s (Tick tok now) rs = stream_tick site s tok now rs"

definition stream_start :: "spool \<Rightarrow> relay_stream" where
  "stream_start rows = \<lparr>rs_spool = rows, rs_scan = initialState, emitted = [], ended = None\<rparr>"

definition stream_inv :: "string \<Rightarrow> relay_stream \<Rightarrow> bool" where
  "stream_inv s rs \<longleftrightarrow> spool_ok (rs_spool rs) \<and> (\<exists>lg. logged (offered s (rs_spool rs)) (emitted rs) lg (rs_scan rs))"

lemma logged_output [simp]:
  "logged P out lg (st\<lparr>chunksToEmit := c\<rparr>) = logged P out lg st"
  "logged P out lg (st\<lparr>activity := a\<rparr>) = logged P out lg st"
  "logged P out lg (st\<lparr>settlesToRun := z\<rparr>) = logged P out lg st"
  "logged P out lg (st\<lparr>scan_done := b\<rparr>) = logged P out lg st"
  "logged P out lg (st\<lparr>scan_error := x\<rparr>) = logged P out lg st"
  by (simp_all add: logged_def)

lemma logged_reduce:
  assumes "logged P out lg st" and "reduce entries st = Some st'" and "scan_error st = None"
    and "\<forall>e\<in>set entries. \<forall>q cs. chunk_payload (se_payload e) = Chunks q cs \<longrightarrow> P q cs"
  shows "\<exists>lg'. logged P (out @ chunksToEmit st') lg' st'"
proof (cases "find (\<lambda>e. se_kind e = ''error'') entries")
  case (Some e)
  then show ?thesis using assms(1,2) by (auto simp: reduce_def Let_def intro: exI [of _ lg])
next
  case None
  let ?nxt = "st\<lparr>chunksToEmit := [], settlesToRun := [], activity := False\<rparr>"
  define st1 where "st1 = (case find (\<lambda>e. se_kind e = ''trace_data'') entries of None \<Rightarrow> ?nxt | Some e \<Rightarrow> ?nxt\<lparr>settlesToRun := [settle_of e]\<rparr>)"
  define es where "es = filter (\<lambda>e. se_kind e = ''stream_chunk'') entries @ (case find (\<lambda>e. se_kind e = ''stream_end'') entries of None \<Rightarrow> [] | Some e \<Rightarrow> [e])"
  from assms(2) None obtain st2 where st2: "fold_entries es st1 = Some st2"
    and st': "st' = (if streamEndConsumed (drain st2) \<and> buffer (drain st2) = [] then (drain st2)\<lparr>scan_done := True\<rparr> else gap_step (drain st2))"
    by (auto simp: reduce_def Let_def st1_def es_def split: option.splits)
  have st1: "logged P out lg st1" "chunksToEmit st1 = []" using assms(1) by (auto simp: st1_def split: option.splits)
  have "set es \<subseteq> set entries" by (auto simp: es_def find_Some_iff2 split: option.splits)
  then have "\<forall>e\<in>set es. \<forall>q cs. chunk_payload (se_payload e) = Chunks q cs \<longrightarrow> P q cs" using assms(4) by blast
  note f = logged_fold [OF st1(1) st2 this]
  from logged_drain [OF f(1)] obtain more lg' where "chunksToEmit (drain st2) = chunksToEmit st2 @ more" "logged P (out @ more) lg' (drain st2)" by blast
  then show ?thesis using f(2) st1(2) logged_gap [of P "out @ more" lg' "drain st2"] by (auto simp: st' intro: exI [of _ lg'])
qed

lemma scan_error_drain [simp]: "scan_error (drain st) = scan_error st"
proof (induction st rule: drain.induct)
  case (1 st)
  then show ?case by (simp add: drain.simps [of st] take_next_def Let_def split: option.splits)
qed

lemma scan_error_gap [simp]: "scan_error (gap_step st) = scan_error st"
  by (simp add: gap_step_def Let_def)

lemma scan_error_fold: "fold_entries es st = Some st' \<Longrightarrow> scan_error st' = scan_error st"
  by (induction es arbitrary: st) (auto simp: fold_entry_def Let_def split: option.splits chunk_shape.splits if_splits)

lemma scan_done_drain [simp]: "scan_done (drain st) = scan_done st"
proof (induction st rule: drain.induct)
  case (1 st)
  then show ?case by (simp add: drain.simps [of st] take_next_def Let_def split: option.splits)
qed

lemma scan_done_fold: "fold_entries es st = Some st' \<Longrightarrow> scan_done st' = scan_done st"
  by (induction es arbitrary: st) (auto simp: fold_entry_def Let_def split: option.splits chunk_shape.splits if_splits)

lemma reduce_error:
  assumes "reduce entries st = Some st'" and "scan_error st = None" and "scan_error st' \<noteq> None"
  shows "chunksToEmit st' = []"
  using assms scan_error_fold by (fastforce simp: reduce_def Let_def split: option.splits if_splits)

lemma stream_inv_tick:
  assumes "stream_inv s rs" and "ended rs = None \<longrightarrow> scan_error (rs_scan rs) = None"
  shows "stream_inv s (stream_tick site s tok now rs)"
proof (cases "ended rs")
  case None
  obtain lg where lg: "logged (offered s (rs_spool rs)) (emitted rs) lg (rs_scan rs)" and ok: "spool_ok (rs_spool rs)"
    using assms(1) by (auto simp: stream_inv_def)
  obtain rows entries where u: "union_entries tok now site s (rs_spool rs) = (rows, entries)" by (metis surj_pair)
  have rows: "map work rows = map work (rs_spool rs)" "spool_ok rows"
    using u work_claim_entries claim_entries_ok [OF ok] unfolding union_entries_def by (metis fst_conv)+
  have off: "offered s rows = offered s (rs_spool rs)" by (rule offered_work [OF rows(1)])
  have src: "\<forall>e\<in>set entries. \<forall>q cs. chunk_payload (se_payload e) = Chunks q cs \<longrightarrow> offered s (rs_spool rs) q cs"
    using union_entries_offered [OF ok, of _ tok now site s] u by simp
  show ?thesis
  proof (cases "reduce entries (rs_scan rs)")
    case none: None
    then show ?thesis using None u lg rows(2) off by (auto simp: stream_tick_def stream_inv_def)
  next
    case (Some st)
    with logged_reduce [OF lg Some _ src] assms(2) None obtain lg' where
      lg': "logged (offered s (rs_spool rs)) (emitted rs @ chunksToEmit st) lg' st" by auto
    have e: "emitted (stream_tick site s tok now rs) = (if scan_error st = None then emitted rs @ chunksToEmit st else emitted rs)"
      "rs_scan (stream_tick site s tok now rs) = st"
      "rs_spool (stream_tick site s tok now rs) = (if scan_error st = None then run_settles now (settlesToRun st) rows else rows)"
      using None u Some by (auto simp: stream_tick_def split: option.splits)
    have "chunksToEmit st = []" if "scan_error st \<noteq> None"
      using that Some assms(2) None reduce_error by blast
    then show ?thesis
      using lg' rows off settles_ok [OF rows(2)] offered_work [OF work_settles, of s now "settlesToRun st" rows]
      unfolding stream_inv_def e by auto
  qed
qed (use assms in \<open>simp add: stream_tick_def\<close>)

lemma logged_mono: "(\<And>q cs. P q cs \<Longrightarrow> Q q cs) \<Longrightarrow> logged P out lg st \<Longrightarrow> logged Q out lg st"
  by (auto simp: logged_def)

lemma tick_alive:
  assumes "ended rs = None \<longrightarrow> scan_error (rs_scan rs) = None"
  shows "ended (stream_tick site s tok now rs) = None \<longrightarrow> scan_error (rs_scan (stream_tick site s tok now rs)) = None"
  using assms by (auto simp: stream_tick_def split: prod.splits option.splits)

lemma stream_inv_run:
  assumes "stream_inv s rs" and "ended rs = None \<longrightarrow> scan_error (rs_scan rs) = None"
  shows "stream_inv s (fold (stream_step site s) es rs)"
  using assms
proof (induction es arbitrary: rs)
  case (Cons ev es)
  have "stream_inv s (stream_step site s ev rs) \<and> (ended (stream_step site s ev rs) = None \<longrightarrow> scan_error (rs_scan (stream_step site s ev rs)) = None)"
  proof (cases ev)
    case (Row_Arrives w t)
    show ?thesis
    proof (cases "insertDurableWork True False (rs_spool rs) w t")
      case (Inr x)
      obtain rows ins evs where x: "x = (rows, ins, evs)" by (cases x)
      have ok: "spool_ok rows" using insert_ok Inr x Cons.prems(1) by (auto simp: stream_inv_def)
      have "set (rs_spool rs) \<subseteq> set rows"
        using Inr x by (auto simp: insertDurableWork_def split: option.splits if_splits)
      then have "offered s (rs_spool rs) q cs \<Longrightarrow> offered s rows q cs" for q cs by (auto simp: offered_def)
      moreover obtain lg where "logged (offered s (rs_spool rs)) (emitted rs) lg (rs_scan rs)" using Cons.prems(1) by (auto simp: stream_inv_def)
      ultimately have "logged (offered s rows) (emitted rs) lg (rs_scan rs)" by (rule logged_mono)
      then have "stream_inv s (rs\<lparr>rs_spool := rows\<rparr>)" using ok by (auto simp: stream_inv_def)
      then show ?thesis using Cons.prems(2) Row_Arrives Inr x by simp
    qed (use Cons.prems Row_Arrives in simp)
  next
    case (Tick tok now)
    then show ?thesis using stream_inv_tick [OF Cons.prems] tick_alive [OF Cons.prems(2)] by simp
  qed
  then show ?case using Cons.IH by simp
qed simp

text \<open>C24: A relayed stream is delivered in order and at most once. Whatever response rows arrive for the stream, in
  whatever order, duplicated, malformed or with gaps, the subscriber receives payloads of strictly
  increasing sequence numbers, each the content of a row that arrived.\<close>

theorem stream_in_order:
  assumes "spool_ok rows" and "rs = fold (stream_step site s) es (stream_start rows)"
  shows "\<exists>lg. emitted rs = concat (map snd lg) \<and> sorted_wrt (<) (map fst lg) \<and> (\<forall>(q, cs)\<in>set lg. offered s (rs_spool rs) q cs)"
proof -
  have "stream_inv s (stream_start rows)"
    using assms(1) by (auto simp: stream_inv_def stream_start_def logged_def initialState_def intro: exI [of _ "[]"])
  moreover have "scan_error (rs_scan (stream_start rows)) = None" by (simp add: stream_start_def initialState_def)
  ultimately have "stream_inv s rs" unfolding assms(2) by (intro stream_inv_run) simp_all
  then show ?thesis by (auto simp: stream_inv_def logged_def)
qed

lemma claim_each_hit:
  assumes "distinct (map wid ds)" and "\<forall>d\<in>set ds. d \<in> set rows \<and> claim_state d = Pending" and "x \<in> set ds"
  shows "\<exists>c\<in>set (snd (claim_each tok now n ds rows)). c \<in> set (fst (claim_each tok now n ds rows)) \<and> wid c = wid x \<and>
           kind c = kind x \<and> claim_state c = Processing"
proof -
  have "wid x \<in> set (map wid (snd (claim_each tok now n ds rows)))"
    using claim_each_rows(1) [OF assms(1,2)] assms(3) by simp
  then obtain c where c: "c \<in> set (snd (claim_each tok now n ds rows))" "wid c = wid x" by auto
  obtain d t where d: "d \<in> set ds" "c = to_processing t now d" using claim_each_claimed [OF c(1)] by blast
  then have "wid d = wid x" using c(2) by (simp add: to_processing_def)
  then have "d = x" using assms(1,3) d(1) by (metis distinct_map inj_onD)
  then have "kind c = kind x" using d(2) by (simp add: to_processing_def)
  then show ?thesis using c bspec [OF claim_each_rows(2) [OF assms(1,2)] c(1)] by (intro bexI [OF _ c(1)]) simp
qed

lemma read_distinct:
  assumes "spool_ok rows"
  shows "distinct (map wid (readDurableResponsesByStreamId rows s site))"
    and "d \<in> set (readDurableResponsesByStreamId rows s site) \<longleftrightarrow> d \<in> set rows \<and> stream_row s d \<and> for_self site d \<and> claim_state d = Pending"
  using assms by (auto simp: readDurableResponsesByStreamId_def stream_row_def spool_ok_def distinct_map_filter)

text \<open>Response rows are left behind in two cases. When the rows of a tick hold an error row, the stream fails and
  the error row stays claimed, because its acknowledgement is subscribed to only after the error; and the rows that target
  the local sentinel are selected by the reader but not claimed, so that a self-addressed stream makes no progress.\<close>

theorem stream_rows_stranded:
  "(ended rs = None \<and> spool_ok (rs_spool rs) \<and> (\<forall>r\<in>set (rs_spool rs). stream_row s r \<longrightarrow> target_site_id r = site) \<and> (\<forall>k. tok k \<noteq> []) \<and>
    x \<in> set (rs_spool rs) \<and> stream_row s x \<and> kind x = ''error'' \<and> claim_state x = Pending \<longrightarrow>
      (\<exists>err. ended (stream_tick site s tok now rs) = Some (Failed err)) \<and>
      (\<exists>y\<in>set (rs_spool (stream_tick site s tok now rs)). wid y = wid x \<and> claim_state y = Processing)) \<and>
   (site \<noteq> LOCAL_WORK_TARGET \<and> spool_ok rows \<and> (\<forall>r\<in>set rows. stream_row s r \<longrightarrow> target_site_id r = LOCAL_WORK_TARGET) \<longrightarrow>
      union_entries tok now site s rows = (rows, []))"
proof (intro conjI impI)
  assume a: "ended rs = None \<and> spool_ok (rs_spool rs) \<and> (\<forall>r\<in>set (rs_spool rs). stream_row s r \<longrightarrow> target_site_id r = site) \<and> (\<forall>k. tok k \<noteq> []) \<and>
    x \<in> set (rs_spool rs) \<and> stream_row s x \<and> kind x = ''error'' \<and> claim_state x = Pending"
  let ?ds = "readDurableResponsesByStreamId (rs_spool rs) s site"
  let ?ce = "claim_each tok now 0 ?ds (rs_spool rs)"
  have ok: "spool_ok (rs_spool rs)" using a by blast
  have u: "union_entries tok now site s (rs_spool rs) = (fst ?ce, map row_entry (snd ?ce))" using a by (intro union_entries_all) blast+
  have xds: "x \<in> set ?ds" unfolding read_distinct(2) [OF ok] using a by (auto simp: for_self_def)
  then obtain c where c: "c \<in> set (snd ?ce)" "c \<in> set (fst ?ce)" "wid c = wid x" "kind c = ''error''" "claim_state c = Processing"
    using claim_each_hit [OF read_distinct(1) [OF ok, of s site] _ xds, of "rs_spool rs" tok now 0] a
    by (auto simp: read_distinct(2) [OF ok])
  then have "\<exists>e\<in>set (map row_entry (snd ?ce)). se_kind e = ''error''" by (auto simp: row_entry_def)
  then obtain e where "find (\<lambda>e. se_kind e = ''error'') (map row_entry (snd ?ce)) = Some e"
    by (cases "find (\<lambda>e. se_kind e = ''error'') (map row_entry (snd ?ce))") (auto simp: find_None_iff)
  then obtain st err where st: "reduce (map row_entry (snd ?ce)) (rs_scan rs) = Some st" "scan_error st = Some err"
    by (auto simp: reduce_def Let_def)
  then have t: "stream_tick site s tok now rs = rs\<lparr>rs_spool := fst ?ce, rs_scan := st, ended := Some (Failed err)\<rparr>"
    using a u by (simp add: stream_tick_def)
  show "\<exists>err. ended (stream_tick site s tok now rs) = Some (Failed err)" by (simp add: t)
  show "\<exists>y\<in>set (rs_spool (stream_tick site s tok now rs)). wid y = wid x \<and> claim_state y = Processing" using c t by auto
next
  assume a: "site \<noteq> LOCAL_WORK_TARGET \<and> spool_ok rows \<and> (\<forall>r\<in>set rows. stream_row s r \<longrightarrow> target_site_id r = LOCAL_WORK_TARGET)"
  have "claim_entries tok now site n ds rows = (rows, [])" if "\<forall>d\<in>set ds. d \<in> set rows \<and> stream_row s d" for ds n
    using that
  proof (induction ds arbitrary: n)
    case (Cons d ds)
    have "filter (\<lambda>r. target_site_id r = site \<and> claim_state r = Pending \<and> wid r \<in> set [wid d]) rows = []"
      using a Cons.prems spool_ok_unique [of rows _ d] by (auto simp: filter_empty_conv)
    then have "claimDurableWorkByIds rows [wid d] site (\<lambda>_. tok n) now = (rows, [])" unfolding claimDurableWorkByIds_def by simp
    then show ?case using Cons by simp
  qed simp
  then show "union_entries tok now site s rows = (rows, [])"
    unfolding union_entries_def using a by (simp add: read_distinct(2))
qed

section \<open>A tick delivers up to the first missing payload\<close>

text \<open>The abstract stream: a set of available sequence numbers and the number expected next.\<close>

definition frontier :: "nat set \<Rightarrow> nat \<Rightarrow> nat" where
  "frontier A k = (LEAST j. k \<le> j \<and> j \<notin> A)"

lemma frontier_facts:
  assumes "finite A"
  shows "k \<le> frontier A k" and "frontier A k \<notin> A" and "k \<le> j \<Longrightarrow> j < frontier A k \<Longrightarrow> j \<in> A"
proof -
  obtain m where "\<forall>x\<in>A. x < m" using assms finite_nat_set_iff_bounded by blast
  then have ex: "k \<le> k + m \<and> k + m \<notin> A" by auto
  show "k \<le> frontier A k" "frontier A k \<notin> A"
    using LeastI [of "\<lambda>j. k \<le> j \<and> j \<notin> A", OF ex] by (simp_all add: frontier_def)
  show "k \<le> j \<Longrightarrow> j < frontier A k \<Longrightarrow> j \<in> A" using not_less_Least [of j "\<lambda>j. k \<le> j \<and> j \<notin> A"] by (auto simp: frontier_def)
qed

lemma frontierI: "k \<le> f \<Longrightarrow> f \<notin> A \<Longrightarrow> (\<And>j. k \<le> j \<Longrightarrow> j < f \<Longrightarrow> j \<in> A) \<Longrightarrow> frontier A k = f"
  unfolding frontier_def by (intro Least_equality) (auto simp: not_less [symmetric])

lemma frontier_step: "finite A \<Longrightarrow> k \<in> A \<Longrightarrow> frontier A k = frontier (A - {k}) (Suc k)"
proof (rule frontierI)
  assume A: "finite A" "k \<in> A"
  note f = frontier_facts [of "A - {k}" "Suc k"]
  show "k \<le> frontier (A - {k}) (Suc k)" using f(1) A by simp
  show "frontier (A - {k}) (Suc k) \<notin> A" using f(1,2) A by (metis DiffI Suc_n_not_le_n finite_Diff singletonD)
  show "j \<in> A" if "k \<le> j" "j < frontier (A - {k}) (Suc k)" for j
    using f(3) [of j] A that by (cases "j = k") auto
qed

lemma frontier_here: "k \<notin> A \<Longrightarrow> frontier A k = k"
  by (rule frontierI) auto

text \<open>The buffer of a stream whose payload with number \<open>k\<close> is \<open>P k\<close> and whose last number is \<open>n\<close>.\<close>

definition buffered :: "scan_state \<Rightarrow> nat set" where
  "buffered st = {k. of_nat k \<in> fst ` set (buffer st)}"

definition holds :: "(nat \<Rightarrow> json list) \<Rightarrow> nat \<Rightarrow> nat \<Rightarrow> scan_state \<Rightarrow> bool" where
  "holds P n k st \<longleftrightarrow>
     nextExpectedSeq st = of_nat k \<and> distinct (map fst (buffer st)) \<and>
     (\<forall>(q, cs, z)\<in>set (buffer st). \<exists>j. q = of_nat j \<and> k \<le> j \<and> j \<le> n \<and> cs = P j)"

lemma holds_finite: "finite (buffered st)"
proof -
  have "of_nat ` buffered st \<subseteq> fst ` set (buffer st)" by (auto simp: buffered_def)
  then have "finite (of_nat ` buffered st :: rat set)" by (rule finite_subset) simp
  then show ?thesis by (rule finite_imageD) (simp add: inj_on_def)
qed

lemma holds_range:
  assumes "holds P n k st"
  shows "buffered st \<subseteq> {k..n}"
proof
  fix x assume "x \<in> buffered st"
  then obtain cs z where "(of_nat x, cs, z) \<in> set (buffer st)" by (auto simp: buffered_def)
  then show "x \<in> {k..n}" using assms by (auto simp: holds_def)
qed

lemma holds_take:
  assumes "holds P n k st" and "map_of (buffer st) (nextExpectedSeq st) = Some b"
  shows "holds P n (Suc k) (take_next b st)" and "buffered (take_next b st) = buffered st - {k}" and "k \<in> buffered st" and "fst b = P k" and "k \<le> n"
proof -
  obtain cs z where b: "b = (cs, z)" by (cases b)
  have mem: "(of_nat k, cs, z) \<in> set (buffer st)" using map_of_SomeD [OF assms(2)] b assms(1) by (simp add: holds_def)
  then obtain j where "of_nat k = (of_nat j :: rat)" "k \<le> j" "j \<le> n" "cs = P j" using assms(1) by (auto simp: holds_def)
  then show "fst b = P k" "k \<le> n" using b by simp_all
  show "k \<in> buffered st" using mem by (force simp: buffered_def)
  show "buffered (take_next b st) = buffered st - {k}" using assms(1) by (auto simp: buffered_def take_next_def Let_def holds_def)
  have "\<exists>j. q = of_nat j \<and> Suc k \<le> j \<and> j \<le> n \<and> c = P j" if q: "(q, c, y) \<in> set (buffer st)" "q \<noteq> of_nat k" for q c y
  proof -
    obtain j where "q = of_nat j" "k \<le> j" "j \<le> n" "c = P j" using assms(1) q(1) by (auto simp: holds_def)
    moreover from this have "j \<noteq> k" using q(2) by auto
    ultimately show ?thesis by (intro exI [of _ j]) simp
  qed
  then show "holds P n (Suc k) (take_next b st)"
    using assms(1) by (auto simp: holds_def take_next_def Let_def distinct_map_filter add.commute)
qed

lemma drain_holds:
  assumes "holds P n k st" and "streamEndSeq st \<in> {None, Some (of_nat n)}"
  defines "f \<equiv> frontier (buffered st) k"
  shows "holds P n f (drain st) \<and> buffered (drain st) = buffered st - {..<f} \<and> chunksToEmit (drain st) = chunksToEmit st @ concat (map P [k..<f]) \<and>
         streamEndSeq (drain st) = streamEndSeq st \<and> gapCyclesWaited (drain st) = (if k < f then 0 else gapCyclesWaited st) \<and>
         (streamEndConsumed (drain st) \<longleftrightarrow> streamEndConsumed st \<or> streamEndSeq st \<noteq> None \<and> k < f \<and> n < f)"
  using assms(1,2) unfolding f_def
proof (induction st arbitrary: k rule: drain.induct)
  case (1 st)
  show ?case
  proof (cases "map_of (buffer st) (nextExpectedSeq st)")
    case None
    then have "k \<notin> buffered st" using 1(2) by (auto simp: holds_def buffered_def map_of_eq_None_iff)
    then show ?thesis using None 1(2) by (auto simp: frontier_here drain.simps [of st] buffered_def holds_def)
  next
    case (Some b)
    note t = holds_take [OF 1(2) Some]
    let ?f = "frontier (buffered st) k"
    have f: "?f = frontier (buffered (take_next b st)) (Suc k)" using frontier_step [OF holds_finite t(3)] t(2) by simp
    have k: "Suc k \<le> ?f" using f frontier_facts(1) [OF holds_finite] by metis
    have e: "streamEndSeq (take_next b st) = streamEndSeq st" "gapCyclesWaited (take_next b st) = 0"
      "chunksToEmit (take_next b st) = chunksToEmit st @ P k"
      "streamEndConsumed (take_next b st) \<longleftrightarrow> streamEndConsumed st \<or> (streamEndSeq st \<noteq> None \<and> n \<le> k)"
      using t(4) 1(2,3) by (auto simp: take_next_def Let_def holds_def)
    have d: "drain st = drain (take_next b st)" using Some by (simp add: drain.simps [of st])
    have u: "[k..<?f] = k # [Suc k..<?f]" using k by (simp add: upt_conv_Cons)
    have ih: "holds P n ?f (drain st)" "buffered (drain st) = buffered (take_next b st) - {..<?f}"
      "chunksToEmit (drain st) = chunksToEmit (take_next b st) @ concat (map P [Suc k..<?f])" "streamEndSeq (drain st) = streamEndSeq (take_next b st)"
      "gapCyclesWaited (drain st) = (if Suc k < ?f then 0 else gapCyclesWaited (take_next b st))"
      "streamEndConsumed (drain st) \<longleftrightarrow> streamEndConsumed (take_next b st) \<or> streamEndSeq (take_next b st) \<noteq> None \<and> Suc k < ?f \<and> n < ?f"
      using 1(1) [OF Some t(1)] 1(3) e(1) unfolding d f [symmetric] by simp_all
    have "buffered (drain st) = buffered st - {..<?f}" unfolding ih(2) t(2) using k by auto
    moreover have "streamEndConsumed (drain st) \<longleftrightarrow> streamEndConsumed st \<or> streamEndSeq st \<noteq> None \<and> k < ?f \<and> n < ?f"
      unfolding ih(6) e using k t(5) by auto
    ultimately show ?thesis using ih(1,3-5) e u k by simp
  qed
qed

section \<open>A stream without skipped gaps is delivered whole\<close>

definition chunk_text :: "nat \<Rightarrow> json list \<Rightarrow> jtext" where
  "chunk_text k cs = json_stringify (JObj [(''chunks'', JArr cs), (''seq'', JNum (of_nat k))])"

lemma chunk_payload_text [simp]: "chunk_payload (chunk_text k cs) = Chunks (of_nat k) cs"
  by (simp add: chunk_payload_def chunk_text_def obj_get_def)

lemma chunk_text_inj [simp]: "chunk_text k cs = chunk_text j ds \<longleftrightarrow> k = j \<and> cs = ds"
  by (auto simp: chunk_text_def json_stringify_def)

definition chunk_kind :: "nat \<Rightarrow> nat \<Rightarrow> string" where
  "chunk_kind n k = (if k = n then ''stream_end'' else ''stream_chunk'')"

definition entry_is :: "(nat \<Rightarrow> json list) \<Rightarrow> nat \<Rightarrow> stream_entry \<Rightarrow> nat \<Rightarrow> bool" where
  "entry_is P n e j \<longleftrightarrow> se_payload e = chunk_text j (P j) \<and> j \<le> n \<and> se_kind e = chunk_kind n j"

lemma fold_entry_holds:
  assumes "holds P n k st" and "entry_is P n e j" and "k \<le> j" and "j \<notin> buffered st"
  shows "\<exists>st'. fold_entry e st = Some st' \<and> holds P n k st' \<and> buffered st' = insert j (buffered st) \<and> chunksToEmit st' = chunksToEmit st \<and>
           streamEndConsumed st' = streamEndConsumed st \<and> gapCyclesWaited st' = gapCyclesWaited st \<and>
           streamEndSeq st' = (if j = n then Some (of_nat n) else streamEndSeq st)"
proof -
  have "map_of (buffer st) (of_nat j) = None" using assms(4) by (auto simp: buffered_def map_of_eq_None_iff)
  moreover have "of_nat j \<notin> fst ` set (buffer st)" using assms(4) by (auto simp: buffered_def)
  ultimately show ?thesis using assms(1-3)
    by (auto simp: fold_entry_def entry_is_def chunk_kind_def Let_def holds_def buffered_def)
qed

lemma fold_entries_holds:
  assumes "holds P n k st" and "\<forall>e\<in>set es. entry_is P n e (f e) \<and> k \<le> f e" and "distinct (map f es)" and "f ` set es \<inter> buffered st = {}"
  shows "\<exists>st'. fold_entries es st = Some st' \<and> holds P n k st' \<and> buffered st' = buffered st \<union> f ` set es \<and> chunksToEmit st' = chunksToEmit st \<and>
           streamEndConsumed st' = streamEndConsumed st \<and> gapCyclesWaited st' = gapCyclesWaited st \<and>
           streamEndSeq st' = (if n \<in> f ` set es then Some (of_nat n) else streamEndSeq st)"
  using assms
proof (induction es arbitrary: st)
  case (Cons e es)
  obtain st1 where st1: "fold_entry e st = Some st1" "holds P n k st1" "buffered st1 = insert (f e) (buffered st)"
      "chunksToEmit st1 = chunksToEmit st" "streamEndConsumed st1 = streamEndConsumed st" "gapCyclesWaited st1 = gapCyclesWaited st"
      "streamEndSeq st1 = (if f e = n then Some (of_nat n) else streamEndSeq st)"
    using fold_entry_holds [OF Cons.prems(1), of e "f e"] Cons.prems(2,4) by auto
  have "f ` set es \<inter> buffered st1 = {}" using st1(3) Cons.prems(3,4) by auto
  then obtain st' where "fold_entries es st1 = Some st'" "holds P n k st'" "buffered st' = buffered st1 \<union> f ` set es"
      "chunksToEmit st' = chunksToEmit st1" "streamEndConsumed st' = streamEndConsumed st1" "gapCyclesWaited st' = gapCyclesWaited st1"
      "streamEndSeq st' = (if n \<in> f ` set es then Some (of_nat n) else streamEndSeq st1)"
    using Cons.IH [OF st1(2)] Cons.prems(2,3) by auto
  then show ?case using st1 by auto
qed simp

text \<open>The state between ticks, and what one application of the reducer makes of it.\<close>

definition resting :: "(nat \<Rightarrow> json list) \<Rightarrow> nat \<Rightarrow> nat \<Rightarrow> scan_state \<Rightarrow> bool" where
  "resting P n k st \<longleftrightarrow>
     holds P n k st \<and> k \<le> n \<and> scan_error st = None \<and> \<not> streamEndConsumed st \<and> \<not> scan_done st \<and>
     streamEndSeq st \<in> {None, Some (of_nat n)} \<and> (n \<in> buffered st \<longrightarrow> streamEndSeq st \<noteq> None)"

lemma entries_kinds:
  assumes "\<forall>e\<in>set es. entry_is P n e (f e)" and "distinct (map f es)"
  shows "find (\<lambda>e. se_kind e = ''error'') es = None" and "find (\<lambda>e. se_kind e = ''trace_data'') es = None"
    and "\<exists>es'. filter (\<lambda>e. se_kind e = ''stream_chunk'') es @ (case find (\<lambda>e. se_kind e = ''stream_end'') es of None \<Rightarrow> [] | Some e \<Rightarrow> [e]) = es' \<and>
           set es' = set es \<and> distinct (map f es')"
proof -
  show "find (\<lambda>e. se_kind e = ''error'') es = None" "find (\<lambda>e. se_kind e = ''trace_data'') es = None"
    using assms(1) by (auto simp: find_None_iff entry_is_def chunk_kind_def)
  have kind: "se_kind e = (if f e = n then ''stream_end'' else ''stream_chunk'')" if "e \<in> set es" for e
    using assms(1) that by (simp add: entry_is_def chunk_kind_def)
  have inj: "e = e'" if "e \<in> set es" "e' \<in> set es" "f e = f e'" for e e'
    using assms(2) that by (auto simp: distinct_map dest: inj_onD)
  show "\<exists>es'. filter (\<lambda>e. se_kind e = ''stream_chunk'') es @ (case find (\<lambda>e. se_kind e = ''stream_end'') es of None \<Rightarrow> [] | Some e \<Rightarrow> [e]) = es' \<and>
           set es' = set es \<and> distinct (map f es')"
  proof (cases "find (\<lambda>e. se_kind e = ''stream_end'') es")
    case None
    then have "filter (\<lambda>e. se_kind e = ''stream_chunk'') es = es"
      using kind by (auto simp: find_None_iff intro!: filter_True split: if_splits)
    then show ?thesis using None assms(2) by simp
  next
    case (Some e)
    then have e: "e \<in> set es" "f e = n" using kind by (auto simp: find_Some_iff split: if_splits)
    have "set (filter (\<lambda>e. se_kind e = ''stream_chunk'') es @ [e]) = set es" using e kind inj by auto
    moreover have "distinct (map f (filter (\<lambda>e. se_kind e = ''stream_chunk'') es @ [e]))"
      using e kind assms(2) by (auto simp: distinct_map_filter)
    ultimately show ?thesis using Some by auto
  qed
qed

lemma reduce_resting:
  assumes "resting P n k st" and "\<forall>e\<in>set es. entry_is P n e (f e) \<and> k \<le> f e" and "distinct (map f es)" and "f ` set es \<inter> buffered st = {}"
    and "gapCyclesWaited st + 1 < MAX_GAP_CYCLES"
  defines "F \<equiv> frontier (buffered st \<union> f ` set es) k"
  shows "\<exists>st'. reduce es st = Some st' \<and> chunksToEmit st' = concat (map P [k..<F]) \<and> scan_error st' = None \<and> F \<le> Suc n \<and>
           (if F = Suc n then scan_done st' else resting P n F st' \<and> buffered st' = buffered st \<union> f ` set es - {..<F})"
proof -
  obtain es' where es': "filter (\<lambda>e. se_kind e = ''stream_chunk'') es @ (case find (\<lambda>e. se_kind e = ''stream_end'') es of None \<Rightarrow> [] | Some e \<Rightarrow> [e]) = es'"
      "set es' = set es" "distinct (map f es')"
    using entries_kinds(3) [of es P n f] assms(2,3) by auto
  note kinds = entries_kinds(1,2) [of es P n f]
  let ?st = "st\<lparr>chunksToEmit := [], settlesToRun := [], activity := False\<rparr>"
  have h: "holds P n k ?st" "buffered ?st = buffered st" using assms(1) by (simp_all add: resting_def holds_def buffered_def)
  obtain st1 where st1: "fold_entries es' ?st = Some st1" "holds P n k st1" "buffered st1 = buffered st \<union> f ` set es" "chunksToEmit st1 = []"
      "streamEndConsumed st1 = streamEndConsumed st" "gapCyclesWaited st1 = gapCyclesWaited st"
      "streamEndSeq st1 = (if n \<in> f ` set es then Some (of_nat n) else streamEndSeq st)"
    using fold_entries_holds [OF h(1), of es' f] es' assms(2,4) h(2) by auto
  have err: "scan_error st1 = None" using scan_error_fold [OF st1(1)] assms(1) by (simp add: resting_def)
  have endseq: "streamEndSeq st1 \<in> {None, Some (of_nat n)}" using st1(7) assms(1) by (auto simp: resting_def)
  let ?D = "drain st1"
  let ?B = "buffered st \<union> f ` set es"
  have d: "holds P n F ?D" "buffered ?D = ?B - {..<F}" "chunksToEmit ?D = concat (map P [k..<F])" "streamEndSeq ?D = streamEndSeq st1"
      "gapCyclesWaited ?D \<le> gapCyclesWaited st" "streamEndConsumed ?D \<longleftrightarrow> streamEndSeq st1 \<noteq> None \<and> k < F \<and> n < F"
    using drain_holds [OF st1(2) endseq] st1(3-6) assms(1) by (auto simp: F_def resting_def)
  have k: "k \<le> n" using assms(1) by (simp add: resting_def)
  have "Suc n \<notin> ?B" using holds_range [OF st1(2)] unfolding st1(3) by auto
  then have F: "F \<le> Suc n" unfolding F_def frontier_def using k by (intro Least_le) simp
  have fin: "finite ?B" using holds_finite [of st1] st1(3) by simp
  have last_seen: "streamEndSeq st1 \<noteq> None" if "n \<in> ?B" using that st1(7) assms(1) by (auto simp: resting_def)
  have red: "reduce es st = Some (if streamEndConsumed ?D \<and> buffer ?D = [] then ?D\<lparr>scan_done := True\<rparr> else gap_step ?D)"
    using kinds assms(2,3) es'(1) st1(1) by (simp add: reduce_def Let_def)
  show ?thesis
  proof (cases "F = Suc n")
    case True
    have "n \<in> ?B" using frontier_facts(3) [OF fin k] True by (simp add: F_def)
    moreover have "buffer ?D = []" using d(1) True by (cases "buffer ?D") (auto simp: holds_def)
    ultimately show ?thesis using True red last_seen d k err by auto
  next
    case False
    then have "\<not> streamEndConsumed ?D" using d(6) F by simp
    moreover have "resting P n F (?D\<lparr>gapCyclesWaited := g\<rparr>)" "buffered (?D\<lparr>gapCyclesWaited := g\<rparr>) = ?B - {..<F}" for g
      using d False F err calculation last_seen endseq scan_done_fold [OF st1(1)] assms(1)
      by (auto simp: resting_def holds_def buffered_def)
    moreover from this(1) [of "gapCyclesWaited ?D"] this(2) [of "gapCyclesWaited ?D"] have "resting P n F ?D" "buffered ?D = ?B - {..<F}" by simp_all
    moreover have "gap_step ?D = ?D \<or> (\<exists>g. gap_step ?D = ?D\<lparr>gapCyclesWaited := g\<rparr>)"
      using d(5) assms(5) by (auto simp: gap_step_def Let_def)
    ultimately show ?thesis using red False F d(3) err by auto
  qed
qed

text \<open>The rows of a stream as \<open>writeStreamChunk\<close> addresses them.\<close>

definition stream_key :: "string \<Rightarrow> nat \<Rightarrow> string" where
  "stream_key s j = ''stream:'' @ s @ '':'' @ dec_digits j"

definition chunk_work :: "string \<Rightarrow> string \<Rightarrow> nat \<Rightarrow> (nat \<Rightarrow> json list) \<Rightarrow> nat \<Rightarrow> new_work \<Rightarrow> bool" where
  "chunk_work site s n P j w \<longleftrightarrow>
     j \<le> n \<and> new_stream_id w = Some s \<and> new_target w = site \<and> new_kind w = chunk_kind n j \<and> new_payload w = chunk_text j (P j) \<and>
     new_key w = stream_key s j"

definition chunk_row :: "string \<Rightarrow> string \<Rightarrow> nat \<Rightarrow> (nat \<Rightarrow> json list) \<Rightarrow> nat \<Rightarrow> work_row \<Rightarrow> bool" where
  "chunk_row site s n P j r \<longleftrightarrow>
     j \<le> n \<and> stream_id r = Some s \<and> target_site_id r = site \<and> kind r = chunk_kind n j \<and> payload r = chunk_text j (P j) \<and>
     idempotency_key r = stream_key s j"

definition settled :: "string \<Rightarrow> string \<Rightarrow> nat \<Rightarrow> (nat \<Rightarrow> json list) \<Rightarrow> spool \<Rightarrow> nat \<Rightarrow> bool" where
  "settled site s n P rows j \<longleftrightarrow> (\<exists>r\<in>set rows. chunk_row site s n P j r \<and> claim_state r \<noteq> Pending)"

definition awaiting :: "string \<Rightarrow> string \<Rightarrow> nat \<Rightarrow> (nat \<Rightarrow> json list) \<Rightarrow> spool \<Rightarrow> nat set" where
  "awaiting site s n P rows = {j. \<exists>r\<in>set rows. chunk_row site s n P j r \<and> claim_state r = Pending}"

definition all_chunks :: "string \<Rightarrow> string \<Rightarrow> nat \<Rightarrow> (nat \<Rightarrow> json list) \<Rightarrow> spool \<Rightarrow> bool" where
  "all_chunks site s n P rows \<longleftrightarrow> (\<forall>r\<in>set rows. stream_row s r \<longrightarrow> (\<exists>j. chunk_row site s n P j r))"

definition delivering :: "string \<Rightarrow> string \<Rightarrow> nat \<Rightarrow> (nat \<Rightarrow> json list) \<Rightarrow> relay_stream \<Rightarrow> nat \<Rightarrow> bool" where
  "delivering site s n P rs k \<longleftrightarrow>
     spool_ok (rs_spool rs) \<and> all_chunks site s n P (rs_spool rs) \<and>
     emitted rs = concat (map P [0..<k]) \<and>
     (case ended rs of
        Some e \<Rightarrow> e = Completed \<and> k = Suc n
      | None \<Rightarrow> resting P n k (rs_scan rs) \<and> (\<forall>j. settled site s n P (rs_spool rs) j \<longleftrightarrow> j < k \<or> j \<in> buffered (rs_scan rs)))"

lemma chunk_row_stream: "chunk_row site s n P j r \<Longrightarrow> stream_row s r"
proof -
  have "chunk_kind n j \<in> set RELAY_RESPONSE_KINDS" by (simp add: chunk_kind_def RELAY_RESPONSE_KINDS_def RELAY_KIND_REGISTRY_def)
  then show "chunk_row site s n P j r \<Longrightarrow> stream_row s r" by (simp add: chunk_row_def stream_row_def)
qed

lemma chunk_row_unique:
  assumes "spool_ok rows" and "r \<in> set rows" and "r' \<in> set rows" and "chunk_row site s n P j r" and "chunk_row site s n P j r'"
  shows "r = r'"
proof -
  have "fence_key r = fence_key r'" using assms(4,5) by (simp add: chunk_row_def fence_key_def)
  then show ?thesis using assms(1-3) by (auto simp: spool_ok_def distinct_map dest: inj_onD)
qed

lemma chunk_row_work: "work r = work r' \<Longrightarrow> chunk_row site s n P j r = chunk_row site s n P j r'"
  by (simp add: work_def chunk_row_def)

text \<open>Settling never puts a row back.\<close>

lemma settles_not_pending:
  assumes "r \<in> set rows" and "claim_state r \<noteq> Pending"
  shows "\<exists>r'\<in>set (run_settles now ss rows). work r' = work r \<and> claim_state r' \<noteq> Pending"
  using assms
proof (induction ss arbitrary: r rows)
  case (Cons z ss)
  obtain i tok where z: "z = (i, tok)" by (cases z)
  let ?rows = "update_where (ack_matches i tok) (to_consumed now) rows"
  obtain r1 where r1: "r1 \<in> set ?rows" "work r1 = work r" "claim_state r1 \<noteq> Pending"
  proof (cases "ack_matches i tok r")
    case True
    then show ?thesis using that [OF update_where_hit [OF Cons.prems(1), of "ack_matches i tok" "to_consumed now"]] by (simp add: work_def to_consumed_def)
  next
    case False
    then show ?thesis using that [OF update_where_miss [OF Cons.prems(1), of "ack_matches i tok" "to_consumed now"]] Cons.prems(2) by simp
  qed
  then show ?case using Cons.IH [OF r1(1,3)] z by (auto simp: run_settles_def acknowledgeDurableWork_def)
qed (auto simp: run_settles_def)

text \<open>The numbers of the rows of a tick.\<close>

definition text_seq :: "jtext \<Rightarrow> nat" where
  "text_seq t = (case chunk_payload t of Chunks q cs \<Rightarrow> nat \<lfloor>q\<rfloor> | _ \<Rightarrow> 0)"

lemma text_seq_chunk [simp]: "text_seq (chunk_text j cs) = j"
  by (simp add: text_seq_def)

lemma work_claimed: "map work (snd (claim_each tok now n ds rows)) = map work ds"
  by (induction ds arbitrary: n rows) (simp_all add: case_prod_unfold Let_def work_def to_processing_def)

lemma map_work_eq:
  assumes "map work xs = map work ys" and "\<And>x y. work x = work y \<Longrightarrow> g x = g y"
  shows "map g xs = map g ys"
  using assms(1)
proof (induction xs arbitrary: ys)
  case (Cons x xs)
  then obtain y zs where "ys = y # zs" by (cases ys) auto
  then show ?case using Cons assms(2) [of x y] by simp
qed simp

lemma all_chunks_work: "map work rows' = map work rows \<Longrightarrow> all_chunks site s n P rows' = all_chunks site s n P rows"
proof -
  assume "map work rows' = map work rows"
  then have eq: "work ` set rows' = work ` set rows" by (metis set_map)
  have "all_chunks site s n P xs \<longleftrightarrow>
      (\<forall>(i, st, kd, t, p, ik)\<in>work ` set xs. st = Some s \<and> kd \<in> set RELAY_RESPONSE_KINDS \<longrightarrow>
         (\<exists>j. j \<le> n \<and> st = Some s \<and> t = site \<and> kd = chunk_kind n j \<and> p = chunk_text j (P j) \<and> ik = stream_key s j))" for xs
    by (auto simp: all_chunks_def stream_row_def work_def chunk_row_def)
  then show ?thesis by (simp only: eq)
qed

lemma awaiting_read:
  assumes "spool_ok rows" and "all_chunks site s n P rows"
  shows "d \<in> set (readDurableResponsesByStreamId rows s site) \<longleftrightarrow> d \<in> set rows \<and> claim_state d = Pending \<and> (\<exists>j. chunk_row site s n P j d)"
proof -
  have "for_self site d" if "chunk_row site s n P j d" for j using that by (auto simp: chunk_row_def for_self_def)
  then show ?thesis unfolding read_distinct(2) [OF assms(1)] using assms(2) chunk_row_stream unfolding all_chunks_def by blast
qed

lemma read_seqs:
  assumes "spool_ok rows" and "all_chunks site s n P rows"
  defines "ds \<equiv> readDurableResponsesByStreamId rows s site"
  shows "distinct (map (\<lambda>d. text_seq (payload d)) ds)" and "(\<lambda>d. text_seq (payload d)) ` set ds = awaiting site s n P rows"
proof -
  note mem = awaiting_read [OF assms(1,2), folded ds_def]
  have seq: "chunk_row site s n P (text_seq (payload d)) d" if "d \<in> set ds" for d
  proof -
    obtain j where "chunk_row site s n P j d" using mem \<open>d \<in> set ds\<close> by blast
    moreover from this have "text_seq (payload d) = j" by (simp add: chunk_row_def)
    ultimately show ?thesis by simp
  qed
  have "inj_on (\<lambda>d. text_seq (payload d)) (set ds)"
  proof (rule inj_onI)
    fix d d' assume d: "d \<in> set ds" "d' \<in> set ds" "text_seq (payload d) = text_seq (payload d')"
    have "d \<in> set rows" "d' \<in> set rows" using d mem by simp_all
    moreover have "chunk_row site s n P (text_seq (payload d)) d'" using seq [OF d(2)] d(3) by simp
    ultimately show "d = d'" by (rule chunk_row_unique [OF assms(1) _ _ seq [OF d(1)]])
  qed
  moreover have "distinct ds" using read_distinct(1) [OF assms(1), of s site] by (simp add: ds_def distinct_map)
  ultimately show "distinct (map (\<lambda>d. text_seq (payload d)) ds)" by (simp add: distinct_map)
  have "j \<in> (\<lambda>d. text_seq (payload d)) ` set ds" if "d \<in> set rows" "claim_state d = Pending" "chunk_row site s n P j d" for d j
  proof -
    have "d \<in> set ds" using mem that by blast
    moreover have "text_seq (payload d) = j" using that by (simp add: chunk_row_def)
    ultimately show ?thesis by blast
  qed
  then show "(\<lambda>d. text_seq (payload d)) ` set ds = awaiting site s n P rows"
    using seq mem unfolding awaiting_def by blast
qed

lemma claim_each_settles:
  fixes tok :: "nat \<Rightarrow> string" and now :: time
  assumes "spool_ok rows" and "all_chunks site s n P rows"
  defines "ce \<equiv> claim_each tok now 0 (readDurableResponsesByStreamId rows s site) rows"
  assumes "r \<in> set (fst ce)" and "chunk_row site s n P j r"
  shows "claim_state r \<noteq> Pending"
proof -
  let ?ds = "readDurableResponsesByStreamId rows s site"
  note mem = awaiting_read [OF assms(1,2)]
  have ok: "spool_ok (fst ce)" unfolding ce_def by (rule claim_each_ok [OF assms(1)])
  have "work r \<in> work ` set rows" using assms(4) work_claim_each [of tok now 0 ?ds rows] unfolding ce_def by (metis imageI set_map)
  then obtain d where d: "d \<in> set rows" "work r = work d" by blast
  have wid: "wid r = wid d" using d(2) by (simp add: work_def)
  have row: "chunk_row site s n P j d" using chunk_row_work [OF d(2)] assms(5) by blast
  show ?thesis
  proof (cases "d \<in> set ?ds")
    case True
    then obtain c where "c \<in> set (fst ce)" "wid c = wid d" "claim_state c = Processing"
      using claim_each_hit [OF read_distinct(1) [OF assms(1), of s site] _ True, of rows tok now 0] mem unfolding ce_def by blast
    then show ?thesis using spool_ok_unique [OF ok _ assms(4), of c] wid by auto
  next
    case False
    then have "claim_state d \<noteq> Pending" using mem d(1) row by blast
    moreover have "wid d \<notin> wid ` set ?ds" using False spool_ok_unique [OF assms(1) d(1)] mem by blast
    then have "d \<in> set (fst ce)" unfolding ce_def by (rule claim_each_frame(2) [OF d(1)])
    then have "d = r" using spool_ok_unique [OF ok _ assms(4)] wid by auto
    ultimately show ?thesis by simp
  qed
qed

lemma work_back: "map work rows' = map work rows \<Longrightarrow> x \<in> set rows' \<Longrightarrow> \<exists>r\<in>set rows. work x = work r"
  by (metis imageE imageI set_map)

lemma chunk_row_back:
  "map work rows' = map work rows \<Longrightarrow> x \<in> set rows' \<Longrightarrow> chunk_row site s n P j x \<Longrightarrow> \<exists>r\<in>set rows. chunk_row site s n P j r"
  using work_back chunk_row_work by metis

text \<open>What a tick does to a stream that is being delivered.\<close>

lemma stream_tick_delivers:
  fixes now :: time
  assumes "delivering site s n P rs k" and "ended rs = None" and "gapCyclesWaited (rs_scan rs) + 1 < MAX_GAP_CYCLES" and "\<forall>i. tok i \<noteq> []"
  defines "F \<equiv> frontier (buffered (rs_scan rs) \<union> awaiting site s n P (rs_spool rs)) k" and "rs' \<equiv> stream_tick site s tok now rs"
  shows "delivering site s n P rs' F" and "k \<le> F" and "ended rs' = (if F = Suc n then Some Completed else None)"
    and "F = Suc n \<or> buffered (rs_scan rs') = buffered (rs_scan rs) \<union> awaiting site s n P (rs_spool rs) - {..<F}"
    and "map work (rs_spool rs') = map work (rs_spool rs)" and "awaiting site s n P (rs_spool rs') = {}"
proof -
  let ?rows = "rs_spool rs" and ?st = "rs_scan rs"
  let ?ds = "readDurableResponsesByStreamId ?rows s site"
  let ?ce = "claim_each tok now 0 ?ds ?rows"
  let ?E = "map row_entry (snd ?ce)" and ?f = "\<lambda>e. text_seq (se_payload e)"
  have ok: "spool_ok ?rows" and chunks: "all_chunks site s n P ?rows" and out: "emitted rs = concat (map P [0..<k])"
    and rest: "resting P n k ?st" and old: "\<forall>j. settled site s n P ?rows j \<longleftrightarrow> j < k \<or> j \<in> buffered ?st"
    using assms(1,2) by (simp_all add: delivering_def)
  have "\<forall>r\<in>set ?rows. stream_row s r \<longrightarrow> target_site_id r = site" using chunks by (auto simp: all_chunks_def chunk_row_def)
  note u = union_entries_all [OF ok this assms(4)]
  have seqs: "map ?f ?E = map (\<lambda>d. text_seq (payload d)) ?ds"
    using map_work_eq [OF work_claimed [of tok now 0 ?ds ?rows], of "\<lambda>d. text_seq (payload d)"] by (simp add: work_def row_entry_def comp_def)
  have dist: "distinct (map ?f ?E)" unfolding seqs by (rule read_seqs(1) [OF ok chunks])
  have img: "?f ` set ?E = awaiting site s n P ?rows" using seqs read_seqs(2) [OF ok chunks] by (metis set_map)
  have entry: "entry_is P n e (?f e)" if e: "e \<in> set ?E" for e
  proof -
    obtain c where c: "c \<in> set (snd ?ce)" "e = row_entry c" using e by auto
    then obtain d t where d: "d \<in> set ?ds" "c = to_processing t now d" using claim_each_claimed by blast
    then obtain j where "chunk_row site s n P j d" using awaiting_read [OF ok chunks] by blast
    then show ?thesis using c(2) d(2) by (simp add: entry_is_def chunk_row_def row_entry_def to_processing_def)
  qed
  have fresh: "\<not> (j < k \<or> j \<in> buffered ?st)" if j: "j \<in> awaiting site s n P ?rows" for j
  proof
    assume "j < k \<or> j \<in> buffered ?st"
    then obtain r where r: "r \<in> set ?rows" "chunk_row site s n P j r" "claim_state r \<noteq> Pending" using old by (auto simp: settled_def)
    obtain r' where r': "r' \<in> set ?rows" "chunk_row site s n P j r'" "claim_state r' = Pending" using j by (auto simp: awaiting_def)
    have "r = r'" by (rule chunk_row_unique [OF ok r(1) r'(1) r(2) r'(2)])
    with r(3) r'(3) show False by simp
  qed
  have low: "k \<le> ?f e" if "e \<in> set ?E" for e
  proof -
    have "?f e \<in> awaiting site s n P ?rows" unfolding img [symmetric] using that by (rule imageI)
    then show ?thesis using fresh by (metis not_le)
  qed
  have disj: "?f ` set ?E \<inter> buffered ?st = {}" unfolding img using fresh by auto
  have F: "F = frontier (buffered ?st \<union> ?f ` set ?E) k" unfolding F_def img ..
  obtain st' where red: "reduce ?E ?st = Some st'" "chunksToEmit st' = concat (map P [k..<F])" "scan_error st' = None" "F \<le> Suc n"
      "if F = Suc n then scan_done st' else resting P n F st' \<and> buffered st' = buffered ?st \<union> ?f ` set ?E - {..<F}"
    using reduce_resting [OF rest _ dist disj assms(3)] entry low unfolding F by blast
  let ?rows' = "run_settles now (settlesToRun st') (fst ?ce)"
  have rs': "rs' = rs\<lparr>rs_spool := ?rows', rs_scan := st', emitted := emitted rs @ chunksToEmit st', ended := (if scan_done st' then Some Completed else None)\<rparr>"
    using assms(2) u red(1,3) by (simp add: rs'_def stream_tick_def)
  have dn: "scan_done st' \<longleftrightarrow> F = Suc n" using red(5) by (auto simp: resting_def split: if_splits)
  show ended: "ended rs' = (if F = Suc n then Some Completed else None)" by (simp add: rs' dn)
  have "finite (buffered ?st \<union> ?f ` set ?E)" using holds_finite by auto
  then show kF: "k \<le> F" unfolding F by (rule frontier_facts(1))
  show "F = Suc n \<or> buffered (rs_scan rs') = buffered ?st \<union> awaiting site s n P ?rows - {..<F}"
    using red(5) unfolding img by (auto simp: rs' split: if_splits)
  show work: "map work (rs_spool rs') = map work ?rows" by (simp add: rs')
  have busy: "\<exists>x\<in>set ?rows'. work x = work r \<and> claim_state x \<noteq> Pending" if r: "r \<in> set ?rows" "chunk_row site s n P j r" for r j
  proof -
    have "work r \<in> work ` set (fst ?ce)" using r(1) work_claim_each [of tok now 0 ?ds ?rows] by (metis imageI set_map)
    then obtain c where c: "c \<in> set (fst ?ce)" "work c = work r" by (metis imageE)
    moreover have "claim_state c \<noteq> Pending" using claim_each_settles [OF ok chunks c(1)] r(2) chunk_row_work [OF c(2)] by blast
    ultimately show ?thesis using settles_not_pending [of c "fst ?ce" now "settlesToRun st'"] by metis
  qed
  have ok': "spool_ok ?rows'" by (intro settles_ok claim_each_ok ok)
  have all: "settled site s n P ?rows' j" if "r \<in> set ?rows" "chunk_row site s n P j r" for r j
    using busy [OF that] that(2) chunk_row_work unfolding settled_def by metis
  have "settled site s n P ?rows' j \<longleftrightarrow> j < F \<or> j \<in> buffered ?st \<union> ?f ` set ?E - {..<F}" for j
  proof -
    have reach: "j < k \<or> j \<in> buffered ?st \<union> ?f ` set ?E \<longleftrightarrow> j < F \<or> j \<in> buffered ?st \<union> ?f ` set ?E - {..<F}"
      using frontier_facts(3) [OF \<open>finite (buffered ?st \<union> ?f ` set ?E)\<close>, of k j, folded F] kF by (cases "j < k"; cases "j < F"; simp)
    have "(\<exists>r\<in>set ?rows. chunk_row site s n P j r) \<longleftrightarrow> settled site s n P ?rows j \<or> j \<in> awaiting site s n P ?rows"
      by (auto simp: settled_def awaiting_def)
    moreover have "settled site s n P ?rows' j \<longleftrightarrow> (\<exists>r\<in>set ?rows. chunk_row site s n P j r)"
    proof
      assume "settled site s n P ?rows' j"
      then obtain x where "x \<in> set (rs_spool rs')" "chunk_row site s n P j x" by (auto simp: settled_def rs')
      then show "\<exists>r\<in>set ?rows. chunk_row site s n P j r" by (rule chunk_row_back [OF work])
    qed (use all in blast)
    ultimately show ?thesis using old reach unfolding img by simp
  qed
  moreover have "emitted rs' = concat (map P [0..<F])"
    using red(2) out upt_add_eq_append [of 0 k "F - k"] kF by (simp add: rs')
  ultimately show "delivering site s n P rs' F"
    using ok' all_chunks_work [OF work] chunks red(5) ended dn by (auto simp: delivering_def rs' split: if_splits)
  have "claim_state x \<noteq> Pending" if x: "x \<in> set (rs_spool rs')" "chunk_row site s n P j x" for x j
  proof -
    obtain r where r: "r \<in> set ?rows" "work x = work r" using work_back [OF work x(1)] by blast
    have "chunk_row site s n P j r" using chunk_row_work [OF r(2)] x(2) by blast
    from busy [OF r(1) this] obtain y where "y \<in> set ?rows'" "work y = work r" "claim_state y \<noteq> Pending" by blast
    then show ?thesis using spool_ok_unique [OF ok', of x y] x(1) r(2) by (auto simp: work_def rs')
  qed
  then show "awaiting site s n P (rs_spool rs') = {}" by (auto simp: awaiting_def)
qed

section \<open>The ideal stream\<close>

text \<open>The contract of the stream: a set of the numbers that have arrived, and how many payloads the subscriber has. An arrival adds
  a number; a tick delivers up to the first number that is missing.\<close>

record ideal_stream =
  arrived :: "nat set"
  delivered :: nat

definition ideal_start :: ideal_stream where
  "ideal_start = \<lparr>arrived = {}, delivered = 0\<rparr>"

definition ideal_arrive :: "nat \<Rightarrow> ideal_stream \<Rightarrow> ideal_stream" where
  "ideal_arrive j a = a\<lparr>arrived := insert j (arrived a)\<rparr>"

definition ideal_tick :: "ideal_stream \<Rightarrow> ideal_stream" where
  "ideal_tick a = a\<lparr>delivered := frontier (arrived a) (delivered a)\<rparr>"

definition accepted :: "new_work \<Rightarrow> time \<Rightarrow> spool \<Rightarrow> bool" where
  "accepted w t rows = (case insertDurableWork True False rows w t of Inl _ \<Rightarrow> False | Inr (_, ins, _) \<Rightarrow> ins)"

definition arrived_rows :: "string \<Rightarrow> string \<Rightarrow> nat \<Rightarrow> (nat \<Rightarrow> json list) \<Rightarrow> spool \<Rightarrow> nat set" where
  "arrived_rows site s n P rows = {j. \<exists>r\<in>set rows. chunk_row site s n P j r}"

definition refines :: "string \<Rightarrow> string \<Rightarrow> nat \<Rightarrow> (nat \<Rightarrow> json list) \<Rightarrow> relay_stream \<Rightarrow> ideal_stream \<Rightarrow> bool" where
  "refines site s n P rs a \<longleftrightarrow> delivering site s n P rs (delivered a) \<and> arrived a = arrived_rows site s n P (rs_spool rs)"

lemma frontier_cong: "(\<And>j. k \<le> j \<Longrightarrow> j \<in> A \<longleftrightarrow> j \<in> B) \<Longrightarrow> frontier A k = frontier B k"
  unfolding frontier_def by (rule arg_cong [where f = Least]) (auto simp: fun_eq_iff)

lemma delivering_bound: "delivering site s n P rs k \<Longrightarrow> k \<le> Suc n \<and> (ended rs = Some Completed \<longleftrightarrow> k = Suc n) \<and> ended rs \<in> {None, Some Completed}"
  by (auto simp: delivering_def resting_def split: option.splits)

lemma refines_start: "spool_ok rows \<Longrightarrow> \<forall>r\<in>set rows. \<not> stream_row s r \<Longrightarrow> refines site s n P (stream_start rows) ideal_start"
  using chunk_row_stream [of site s n P]
  by (auto simp: refines_def delivering_def stream_start_def ideal_start_def arrived_rows_def all_chunks_def resting_def holds_def initialState_def buffered_def settled_def)

lemma refines_tick:
  assumes "refines site s n P rs a" and "gapCyclesWaited (rs_scan rs) + 1 < MAX_GAP_CYCLES" and "\<forall>i. tok i \<noteq> []"
  shows "refines site s n P (stream_tick site s tok now rs) (ideal_tick a)"
proof (cases "ended rs")
  case None
  let ?A = "buffered (rs_scan rs) \<union> awaiting site s n P (rs_spool rs)"
  have d: "delivering site s n P rs (delivered a)" and arr: "arrived a = arrived_rows site s n P (rs_spool rs)" using assms(1) by (simp_all add: refines_def)
  note t = stream_tick_delivers(1) [OF d None assms(2,3), of now] and w = stream_tick_delivers(5) [OF d None assms(2,3), of now]
  have "frontier (arrived a) (delivered a) = frontier ?A (delivered a)"
  proof (rule frontier_cong)
    fix j assume "delivered a \<le> j"
    moreover have "j \<in> arrived a \<longleftrightarrow> settled site s n P (rs_spool rs) j \<or> j \<in> awaiting site s n P (rs_spool rs)"
      by (auto simp: arr arrived_rows_def settled_def awaiting_def)
    ultimately show "j \<in> arrived a \<longleftrightarrow> j \<in> ?A" using d None by (auto simp: delivering_def)
  qed
  moreover have "arrived_rows site s n P (rs_spool (stream_tick site s tok now rs)) = arrived_rows site s n P (rs_spool rs)"
    using chunk_row_back [OF w] chunk_row_back [OF w [symmetric]] unfolding arrived_rows_def by blast
  ultimately show ?thesis using t arr by (simp add: refines_def ideal_tick_def)
next
  case (Some e)
  then have "delivered a = Suc n" using assms(1) by (simp add: refines_def delivering_def)
  moreover have "Suc n \<notin> arrived a" using assms(1) by (auto simp: refines_def arrived_rows_def chunk_row_def)
  ultimately have "ideal_tick a = a" by (simp add: ideal_tick_def frontier_here)
  then show ?thesis using assms(1) Some by (simp add: stream_tick_def)
qed

lemma refines_arrive:
  assumes "refines site s n P rs a" and "chunk_work site s n P j w"
  shows "refines site s n P (stream_step site s (Row_Arrives w t) rs) (if accepted w t (rs_spool rs) then ideal_arrive j a else a)"
proof (cases "accepted w t (rs_spool rs)")
  case False
  then have "stream_step site s (Row_Arrives w t) rs = rs"
    by (auto simp: accepted_def insertDurableWork_def split: option.splits if_splits)
  then show ?thesis using False assms(1) by simp
next
  case True
  let ?rows = "rs_spool rs @ [fresh_row w t]"
  obtain ev where ins: "insertDurableWork True False (rs_spool rs) w t = Inr (?rows, True, ev)"
    using True by (auto simp: accepted_def insertDurableWork_def split: option.splits if_splits)
  have ok: "spool_ok ?rows" using insert_ok [OF _ ins] assms(1) by (simp add: refines_def delivering_def)
  have new: "chunk_row site s n P i (fresh_row w t) \<longleftrightarrow> i = j" for i
    using assms(2) by (auto simp: chunk_row_def chunk_work_def fresh_row_def)
  have "settled site s n P ?rows = settled site s n P (rs_spool rs)" by (auto simp: settled_def fun_eq_iff fresh_row_def)
  then have "delivering site s n P (rs\<lparr>rs_spool := ?rows\<rparr>) (delivered a)"
    using assms(1) ok new by (auto simp: refines_def delivering_def all_chunks_def split: option.splits)
  moreover have "arrived_rows site s n P ?rows = insert j (arrived_rows site s n P (rs_spool rs))" using new by (auto simp: arrived_rows_def)
  ultimately show ?thesis using True ins assms(1) by (simp add: refines_def ideal_arrive_def)
qed

text \<open>C7: Until its gap counter expires, the stream pipeline implements the ideal stream. A row that the spool accepts adds its number to the
  set of arrived numbers; a tick at which the counter has waited fewer than \<open>MAX_GAP_CYCLES - 1\<close> cycles delivers exactly the payloads up to the first
  missing number; the stream completes exactly when the last payload is delivered; and once every number has arrived, such a tick delivers the rest and
  completes the stream. When the counter expires the pipeline gives up on the missing number and skips to the lowest buffered one, which the ideal stream
  never does: that tick is outside the refinement.\<close>

theorem stream_refines_ideal:
  "(spool_ok rows \<and> (\<forall>r\<in>set rows. \<not> stream_row s r) \<longrightarrow> refines site s n P (stream_start rows) ideal_start) \<and>
   (refines site s n P rs a \<longrightarrow>
      emitted rs = concat (map P [0..<delivered a]) \<and> (ended rs = Some Completed \<longleftrightarrow> delivered a = Suc n) \<and> ended rs \<in> {None, Some Completed} \<and>
      (chunk_work site s n P j w \<longrightarrow>
         refines site s n P (stream_step site s (Row_Arrives w t) rs) (if accepted w t (rs_spool rs) then ideal_arrive j a else a)) \<and>
      (gapCyclesWaited (rs_scan rs) + 1 < MAX_GAP_CYCLES \<and> (\<forall>i. tok i \<noteq> []) \<longrightarrow>
         refines site s n P (stream_step site s (Tick tok now) rs) (ideal_tick a) \<and>
         (arrived a = {..n} \<longrightarrow> ended (stream_step site s (Tick tok now) rs) = Some Completed \<and>
            emitted (stream_step site s (Tick tok now) rs) = concat (map P [0..<Suc n]))))"
proof -
  have whole: "frontier {..n} k = Suc n" if "k \<le> Suc n" for k by (rule frontierI) (use that in auto)
  have facts: "emitted rs = concat (map P [0..<delivered a])" "ended rs = Some Completed \<longleftrightarrow> delivered a = Suc n" "ended rs \<in> {None, Some Completed}" "delivered a \<le> Suc n"
    if r: "refines site s n P rs a" for rs a
    using delivering_bound [of site s n P rs "delivered a"] r by (auto simp: refines_def delivering_def)
  have complete: "ended (stream_tick site s tok now rs) = Some Completed \<and> emitted (stream_tick site s tok now rs) = concat (map P [0..<Suc n])"
    if r: "refines site s n P rs a" "gapCyclesWaited (rs_scan rs) + 1 < MAX_GAP_CYCLES" "\<forall>i. tok i \<noteq> []" "arrived a = {..n}"
    using facts(1,2) [OF refines_tick [OF r(1-3), of now]] whole [OF facts(4) [OF r(1)]] r(4) by (simp add: ideal_tick_def)
  show ?thesis using refines_start refines_tick refines_arrive facts complete by simp
qed

section \<open>A concrete stream\<close>

definition demo_row :: "string \<Rightarrow> string \<Rightarrow> jtext \<Rightarrow> string \<Rightarrow> new_work" where
  "demo_row i kd t key = \<lparr>new_id = i, new_target = ''a'', new_kind = kd, new_payload = t, new_key = key, new_expires_at = None, new_ref_id = None,
     new_source_site = None, new_received_at = None, new_stream_id = Some ''s'', new_trace_context = None\<rparr>"

definition demo_chunk :: "string \<Rightarrow> nat \<Rightarrow> new_work" where
  "demo_chunk i j = demo_row i (if j = 1 then ''stream_end'' else ''stream_chunk'') (chunk_text j [JBool (j = 0)]) (''stream:s:'' @ (if j = 1 then ''1'' else ''0''))"

definition demo_events :: "stream_event list" where
  "demo_events = [Row_Arrives (demo_chunk ''x'' 1) 5, Tick (\<lambda>_. ''t'') 6, Row_Arrives (demo_chunk ''y'' 0) 7, Tick (\<lambda>_. ''t'') 8]"

lemma demo_run: "emitted (fold (stream_step ''a'' ''s'') demo_events (stream_start [])) = [JBool True, JBool False]"
  by code_simp

theorem stream_in_order_witness:
  "\<exists>lg. concat (map snd lg) = [JBool True, JBool False] \<and> sorted_wrt (<) (map fst lg) \<and>
     (\<forall>(q, cs)\<in>set lg. offered ''s'' (rs_spool (fold (stream_step ''a'' ''s'') demo_events (stream_start []))) q cs)"
proof -
  have "spool_ok []" by (simp add: spool_ok_def)
  from stream_in_order [OF this refl, of "''a''" "''s''" demo_events] show ?thesis unfolding demo_run by metis
qed

definition demo_error :: spool where
  "demo_error = [fresh_row (demo_row ''z'' ''error'' (json_stringify (JStr ''boom'')) ''k'') 5]"

theorem stream_rows_stranded_witness:
  "(\<exists>y\<in>set (rs_spool (stream_tick ''a'' ''s'' (\<lambda>_. ''t'') 6 (stream_start demo_error))). wid y = ''z'' \<and> claim_state y = Processing) \<and>
   (let rows = map (\<lambda>r. r\<lparr>target_site_id := LOCAL_WORK_TARGET\<rparr>) demo_error in union_entries (\<lambda>_. ''t'') 6 ''a'' ''s'' rows = (rows, []))"
proof -
  let ?rows = "map (\<lambda>r. r\<lparr>target_site_id := LOCAL_WORK_TARGET\<rparr>) demo_error"
  have "spool_ok demo_error" "spool_ok ?rows" by code_simp+
  moreover have "ended (stream_start demo_error) = None" "rs_spool (stream_start demo_error) = demo_error" by (simp_all add: stream_start_def)
  moreover have "hd demo_error \<in> set demo_error" "kind (hd demo_error) = ''error''" "claim_state (hd demo_error) = Pending" "wid (hd demo_error) = ''z''"
      "stream_row ''s'' (hd demo_error)" "\<forall>r\<in>set demo_error. target_site_id r = ''a''" "''a'' \<noteq> LOCAL_WORK_TARGET"
    by code_simp+
  ultimately show ?thesis
    using stream_rows_stranded [of "stream_start demo_error" "''s''" "''a''" "\<lambda>_. ''t''" "hd demo_error" 6 ?rows] by simp
qed

theorem stream_refines_ideal_witness:
  "refines ''a'' ''s'' 0 (\<lambda>_. [JNull]) (stream_start []) ideal_start \<and>
   emitted (stream_tick ''a'' ''s'' (\<lambda>_. ''t'') 6 (stream_step ''a'' ''s'' (Row_Arrives (demo_row ''x'' ''stream_end'' (chunk_text 0 [JNull]) ''stream:s:0'') 5) (stream_start []))) = [JNull]"
proof -
  let ?P = "\<lambda>_. [JNull]" and ?w = "demo_row ''x'' ''stream_end'' (chunk_text 0 [JNull]) ''stream:s:0''"
  let ?rs = "stream_step ''a'' ''s'' (Row_Arrives ?w 5) (stream_start [])"
  have "spool_ok []" by (simp add: spool_ok_def)
  then have start: "refines ''a'' ''s'' 0 ?P (stream_start []) ideal_start" using stream_refines_ideal by simp
  have "dec_digits 0 = ''0''" by code_simp
  then have "chunk_work ''a'' ''s'' 0 ?P 0 ?w" by (simp add: chunk_work_def demo_row_def chunk_kind_def stream_key_def)
  moreover have "accepted ?w 5 (rs_spool (stream_start []))" by code_simp
  ultimately have "refines ''a'' ''s'' 0 ?P ?rs (ideal_arrive 0 ideal_start)"
    using stream_refines_ideal [of "[]" "''s''" "''a''" 0 ?P "stream_start []" ideal_start 0 ?w 5] start by simp
  moreover have "gapCyclesWaited (rs_scan ?rs) = 0" by code_simp
  moreover have "arrived (ideal_arrive 0 ideal_start) = {..0}" by (auto simp: ideal_arrive_def ideal_start_def)
  ultimately have "emitted (stream_step ''a'' ''s'' (Tick (\<lambda>_. ''t'') 6) ?rs) = concat (map ?P [0..<Suc 0])"
    using stream_refines_ideal [of "[]" "''s''" "''a''" 0 ?P ?rs "ideal_arrive 0 ideal_start" 0 ?w 5 "\<lambda>_. ''t''" 6]
    by (simp add: MAX_GAP_CYCLES_def del: stream_step.simps)
  then show ?thesis using start by simp
qed

end
