(* ===== verification/Ws_Frames.thy ===== *)
theory Ws_Frames
  imports Spool_Transfer "HOL-Library.Word"
begin

text \<open>
  The frames of the sync protocol (\<open>packages/sync/src/ws-frames.ts\<close>, with \<open>encryptBody\<close> and \<open>decryptBody\<close> of
  \<open>encryption.ts\<close>): a type byte in the clear, a nonce of 24 bytes and the encrypted JSON text of the payload.
  The cipher and the bytes of a JSON text are arguments; the random nonce is drawn by the caller.
\<close>

section \<open>Message types\<close>

datatype ws_message_type =
    CHANGELOG_PUSH | CHANGELOG_ACK | RELAY_SEND | RELAY_DELIVER | RELAY_ACK | DRAIN_REQUEST | DRAIN_COMPLETE
  | SNAPSHOT_BEGIN | SNAPSHOT_CHUNK | SNAPSHOT_END | SNAPSHOT_ACK | RESEED_REQUEST
  | CONSISTENCY_REQUEST | CONSISTENCY_RESPONSE | ROW_PULL_REQUEST | ROW_PULL_RESPONSE | ROW_PULL_ACK
  | SPOOL_TRANSFER | SPOOL_TRANSFER_ACK | ERROR

fun type_byte :: "ws_message_type \<Rightarrow> 8 word" where
  "type_byte CHANGELOG_PUSH = 0x01"
| "type_byte CHANGELOG_ACK = 0x02"
| "type_byte RELAY_SEND = 0x03"
| "type_byte RELAY_DELIVER = 0x04"
| "type_byte RELAY_ACK = 0x05"
| "type_byte DRAIN_REQUEST = 0x06"
| "type_byte DRAIN_COMPLETE = 0x07"
| "type_byte SNAPSHOT_BEGIN = 0x10"
| "type_byte SNAPSHOT_CHUNK = 0x11"
| "type_byte SNAPSHOT_END = 0x12"
| "type_byte SNAPSHOT_ACK = 0x13"
| "type_byte RESEED_REQUEST = 0x14"
| "type_byte CONSISTENCY_REQUEST = 0x20"
| "type_byte CONSISTENCY_RESPONSE = 0x21"
| "type_byte ROW_PULL_REQUEST = 0x30"
| "type_byte ROW_PULL_RESPONSE = 0x31"
| "type_byte ROW_PULL_ACK = 0x32"
| "type_byte SPOOL_TRANSFER = 0x40"
| "type_byte SPOOL_TRANSFER_ACK = 0x41"
| "type_byte ERROR = 0xff"

definition message_types :: "ws_message_type list" where
  "message_types =
     [CHANGELOG_PUSH, CHANGELOG_ACK, RELAY_SEND, RELAY_DELIVER, RELAY_ACK, DRAIN_REQUEST, DRAIN_COMPLETE, SNAPSHOT_BEGIN,
      SNAPSHOT_CHUNK, SNAPSHOT_END, SNAPSHOT_ACK, RESEED_REQUEST, CONSISTENCY_REQUEST, CONSISTENCY_RESPONSE, ROW_PULL_REQUEST,
      ROW_PULL_RESPONSE, ROW_PULL_ACK, SPOOL_TRANSFER, SPOOL_TRANSFER_ACK, ERROR]"

definition isSpoolFrameByte :: "8 word option \<Rightarrow> bool" where
  "isSpoolFrameByte byte \<longleftrightarrow> byte = Some (type_byte SPOOL_TRANSFER) \<or> byte = Some (type_byte SPOOL_TRANSFER_ACK)"

section \<open>Payload checks\<close>

text \<open>\<open>typeof v === "string"\<close> and so on for a property that may be undefined.\<close>

fun is_string :: "json option \<Rightarrow> bool" where
  "is_string (Some (JStr _)) = True"
| "is_string _ = False"

fun is_number :: "json option \<Rightarrow> bool" where
  "is_number (Some (JNum _)) = True"
| "is_number _ = False"

fun is_boolean :: "json option \<Rightarrow> bool" where
  "is_boolean (Some (JBool _)) = True"
| "is_boolean _ = False"

fun is_array :: "json option \<Rightarrow> bool" where
  "is_array (Some (JArr _)) = True"
| "is_array _ = False"

fun isW3CTraceCarrier :: "json \<Rightarrow> bool" where
  "isW3CTraceCarrier (JObj ob) \<longleftrightarrow>
     is_string (obj_get ob ''traceparent'') \<and> (obj_get ob ''tracestate'' = None \<or> is_string (obj_get ob ''tracestate''))"
| "isW3CTraceCarrier _ = False"

fun only_carrier_keys :: "json \<Rightarrow> bool" where
  "only_carrier_keys (JObj ob) \<longleftrightarrow> list_all (\<lambda>(k, _). k = ''traceparent'' \<or> k = ''tracestate'') ob"
| "only_carrier_keys _ = True"

text \<open>The switch over the message type; \<open>p\<close> reads a property of the payload.\<close>

fun check_payload :: "ws_message_type \<Rightarrow> (string \<Rightarrow> json option) \<Rightarrow> bool" where
  "check_payload CHANGELOG_PUSH p = is_array (p ''entries'')"
| "check_payload CHANGELOG_ACK p = is_string (p ''cursor'')"
| "check_payload RELAY_SEND p = is_array (p ''entries'')"
| "check_payload RELAY_DELIVER p = is_array (p ''entries'')"
| "check_payload RELAY_ACK p = is_array (p ''ids'')"
| "check_payload SNAPSHOT_BEGIN p = (is_string (p ''snapshot_hlc'') \<and> is_array (p ''tables''))"
| "check_payload SNAPSHOT_CHUNK p = (is_string (p ''table_name'') \<and> is_number (p ''offset'') \<and> is_array (p ''rows''))"
| "check_payload SNAPSHOT_END p = (is_number (p ''table_count'') \<and> is_number (p ''row_count''))"
| "check_payload SNAPSHOT_ACK p = is_string (p ''snapshot_hlc'')"
| "check_payload RESEED_REQUEST p = is_string (p ''reason'')"
| "check_payload CONSISTENCY_REQUEST p =
     (is_array (p ''tables'') \<and>
      (case p ''trace_context'' of None \<Rightarrow> True | Some c \<Rightarrow> isW3CTraceCarrier c \<and> only_carrier_keys c))"
| "check_payload CONSISTENCY_RESPONSE p =
     (is_string (p ''table'') \<and> is_array (p ''pks'') \<and> is_number (p ''count'') \<and> is_boolean (p ''all_done''))"
| "check_payload ROW_PULL_REQUEST p = (is_string (p ''request_id'') \<and> is_array (p ''tables''))"
| "check_payload ROW_PULL_RESPONSE p =
     (is_string (p ''request_id'') \<and> is_string (p ''table_name'') \<and> is_array (p ''rows'') \<and> is_boolean (p ''last''))"
| "check_payload ROW_PULL_ACK p = is_string (p ''request_id'')"
| "check_payload DRAIN_REQUEST p = True"
| "check_payload DRAIN_COMPLETE p = True"
| "check_payload ERROR p = True"
| "check_payload SPOOL_TRANSFER p = is_array (p ''entries'')"
| "check_payload SPOOL_TRANSFER_ACK p = is_array (p ''entries'')"

text \<open>An array is an object too, without any of these properties.\<close>

fun isValidPayloadForType :: "ws_message_type \<Rightarrow> json \<Rightarrow> bool" where
  "isValidPayloadForType t (JObj ob) = check_payload t (obj_get ob)"
| "isValidPayloadForType t (JArr _) = check_payload t (\<lambda>_. None)"
| "isValidPayloadForType t _ = False"

section \<open>The codec\<close>

type_synonym bytes = "8 word list"

record cipher =
  aead_encrypt :: "bytes \<Rightarrow> bytes \<Rightarrow> bytes \<Rightarrow> bytes"
  aead_decrypt :: "bytes \<Rightarrow> bytes \<Rightarrow> bytes \<Rightarrow> bytes option"
  encode_text :: "jtext \<Rightarrow> bytes"
  decode_text :: "bytes \<Rightarrow> jtext"

definition encryptBody :: "cipher \<Rightarrow> bytes \<Rightarrow> bytes \<Rightarrow> bytes \<Rightarrow> bytes \<times> bytes" where
  "encryptBody c nonce plaintext symmetricKey = (aead_encrypt c symmetricKey nonce plaintext, nonce)"

definition decryptBody :: "cipher \<Rightarrow> bytes \<Rightarrow> bytes \<Rightarrow> bytes \<Rightarrow> bytes option" where
  "decryptBody c ciphertext nonce symmetricKey = aead_decrypt c symmetricKey nonce ciphertext"

definition encodeFrame :: "cipher \<Rightarrow> bytes \<Rightarrow> ws_message_type \<Rightarrow> json \<Rightarrow> bytes \<Rightarrow> bytes" where
  "encodeFrame c nonce type body symmetricKey =
     (let plaintext = encode_text c (json_stringify body);
          (ciphertext, nonce') = encryptBody c nonce plaintext symmetricKey
      in type_byte type # nonce' @ ciphertext)"

datatype ws_frame_error = Frame_Too_Short | Unknown_Type | Decryption_Failed | Invalid_Payload

definition decodeFrame :: "cipher \<Rightarrow> bytes \<Rightarrow> bytes \<Rightarrow> ws_frame_error + ws_message_type \<times> json" where
  "decodeFrame c frame symmetricKey =
     (if length frame < 41 then Inl Frame_Too_Short
      else case find (\<lambda>t. type_byte t = frame ! 0) message_types of
        None \<Rightarrow> Inl Unknown_Type
      | Some type \<Rightarrow>
          let nonce = take 24 (drop 1 frame); ciphertext = drop 25 frame in
          (case decryptBody c ciphertext nonce symmetricKey of
             None \<Rightarrow> Inl Decryption_Failed
           | Some plaintext \<Rightarrow>
               (case json_parse (decode_text c plaintext) of
                  None \<Rightarrow> Inl Invalid_Payload
                | Some body \<Rightarrow>
                    if isValidPayloadForType type body then Inr (type, body) else Inl Invalid_Payload)))"

section \<open>What a frame carries\<close>

definition cipher_ok :: "cipher \<Rightarrow> bool" where
  "cipher_ok c \<longleftrightarrow>
     (\<forall>key nonce p. aead_decrypt c key nonce (aead_encrypt c key nonce p) = Some p) \<and>
     (\<forall>key nonce p. length (aead_encrypt c key nonce p) = length p + 16)"

text \<open>\<open>JSON.stringify\<close> and the UTF-8 coding of its text can be undone.\<close>

definition text_ok :: "cipher \<Rightarrow> json \<Rightarrow> bool" where
  "text_ok c v \<longleftrightarrow> decode_text c (encode_text c (json_stringify v)) = json_stringify v"

lemma find_type [simp]: "find (\<lambda>t. type_byte t = type_byte u) message_types = Some u"
  by (cases u) (simp_all add: message_types_def)

lemma find_typeD: "find (\<lambda>t. type_byte t = b) message_types = Some t \<Longrightarrow> b = type_byte t"
  by (auto simp: find_Some_iff)

lemma decode_built:
  assumes "length nonce = 24" and "16 \<le> length ct"
  shows "decodeFrame c (type_byte t # nonce @ ct) key =
     (case aead_decrypt c key nonce ct of
        None \<Rightarrow> Inl Decryption_Failed
      | Some b \<Rightarrow> (case json_parse (decode_text c b) of
                    None \<Rightarrow> Inl Invalid_Payload
                  | Some v \<Rightarrow> if isValidPayloadForType t v then Inr (t, v) else Inl Invalid_Payload))"
  using assms by (simp add: decodeFrame_def decryptBody_def Let_def)

lemma decode_encode:
  assumes "cipher_ok c" and "length nonce = 24" and "text_ok c body"
  shows "decodeFrame c (type_byte u # tl (encodeFrame c nonce t body key)) key =
     (if isValidPayloadForType u body then Inr (u, body) else Inl Invalid_Payload)"
  using assms decode_built [OF assms(2), of "aead_encrypt c key nonce (encode_text c (Json body))" c u key]
  by (simp add: encodeFrame_def encryptBody_def cipher_ok_def text_ok_def json_stringify_def Let_def)

text \<open>C18: A frame decodes under the key it was encoded with to its own type and payload if the payload passes the check of its
  type, and to the invalid-payload error otherwise; its first byte is the type in the clear.\<close>

theorem frame_roundtrip:
  assumes "cipher_ok c" and "length nonce = 24" and "text_ok c body"
  shows "decodeFrame c (encodeFrame c nonce t body key) key = (if isValidPayloadForType t body then Inr (t, body) else Inl Invalid_Payload) \<and>
    encodeFrame c nonce t body key ! 0 = type_byte t"
proof -
  have "encodeFrame c nonce t body key = type_byte t # tl (encodeFrame c nonce t body key)"
    by (simp add: encodeFrame_def encryptBody_def Let_def)
  then show ?thesis using decode_encode [OF assms, of t t key] by (metis nth_Cons_0)
qed

text \<open>The core fields of the payload types and what it means for a payload to have them.\<close>

datatype field_type = Text | Number | Boolean | Sequence

fun has_type :: "field_type \<Rightarrow> json \<Rightarrow> bool" where
  "has_type Text v \<longleftrightarrow> (\<exists>s. v = JStr s)"
| "has_type Number v \<longleftrightarrow> (\<exists>q. v = JNum q)"
| "has_type Boolean v \<longleftrightarrow> (\<exists>b. v = JBool b)"
| "has_type Sequence v \<longleftrightarrow> (\<exists>vs. v = JArr vs)"

fun core_fields :: "ws_message_type \<Rightarrow> (string \<times> field_type) list" where
  "core_fields CHANGELOG_PUSH = [(''entries'', Sequence)]"
| "core_fields CHANGELOG_ACK = [(''cursor'', Text)]"
| "core_fields RELAY_SEND = [(''entries'', Sequence)]"
| "core_fields RELAY_DELIVER = [(''entries'', Sequence)]"
| "core_fields RELAY_ACK = [(''ids'', Sequence)]"
| "core_fields SNAPSHOT_BEGIN = [(''snapshot_hlc'', Text), (''tables'', Sequence)]"
| "core_fields SNAPSHOT_CHUNK = [(''table_name'', Text), (''offset'', Number), (''rows'', Sequence)]"
| "core_fields SNAPSHOT_END = [(''table_count'', Number), (''row_count'', Number)]"
| "core_fields SNAPSHOT_ACK = [(''snapshot_hlc'', Text)]"
| "core_fields RESEED_REQUEST = [(''reason'', Text)]"
| "core_fields CONSISTENCY_REQUEST = [(''tables'', Sequence)]"
| "core_fields CONSISTENCY_RESPONSE = [(''table'', Text), (''pks'', Sequence), (''count'', Number), (''all_done'', Boolean)]"
| "core_fields ROW_PULL_REQUEST = [(''request_id'', Text), (''tables'', Sequence)]"
| "core_fields ROW_PULL_RESPONSE = [(''request_id'', Text), (''table_name'', Text), (''rows'', Sequence), (''last'', Boolean)]"
| "core_fields ROW_PULL_ACK = [(''request_id'', Text)]"
| "core_fields SPOOL_TRANSFER = [(''entries'', Sequence)]"
| "core_fields SPOOL_TRANSFER_ACK = [(''entries'', Sequence)]"
| "core_fields _ = []"

definition payload_typed :: "ws_message_type \<Rightarrow> json \<Rightarrow> bool" where
  "payload_typed t v \<longleftrightarrow>
     (core_fields t = [] \<and> (\<exists>vs. v = JArr vs)) \<or>
     (\<exists>ob. v = JObj ob \<and> (\<forall>(k, ty)\<in>set (core_fields t). \<exists>x. obj_get ob k = Some x \<and> has_type ty x))"

lemma is_typed [simp]:
  "is_string v \<longleftrightarrow> (\<exists>s. v = Some (JStr s))" "is_number v \<longleftrightarrow> (\<exists>q. v = Some (JNum q))"
  "is_boolean v \<longleftrightarrow> (\<exists>b. v = Some (JBool b))" "is_array v \<longleftrightarrow> (\<exists>vs. v = Some (JArr vs))"
  by (auto elim: is_string.elims is_number.elims is_boolean.elims is_array.elims)

lemma valid_typed: "isValidPayloadForType t v \<Longrightarrow> payload_typed t v"
  by (cases v; cases t) (auto simp: payload_typed_def)

text \<open>C19: Whatever bytes arrive, a frame that decodes has one of the message types, and its payload is an object whose core fields are
  all present with the types that the message type declares (types without core fields also accept an array); it came out of the cipher under the receiver's key, with the nonce
  of the frame.\<close>

theorem decoded_frame_typed:
  assumes "decodeFrame c frame key = Inr (t, body)"
  shows "payload_typed t body \<and> 41 \<le> length frame \<and> frame ! 0 = type_byte t \<and>
     (\<exists>b. aead_decrypt c key (take 24 (drop 1 frame)) (drop 25 frame) = Some b \<and> decode_text c b = Json body)"
proof -
  have parse: "json_parse x = Some v \<longleftrightarrow> x = Json v" for x v by (cases x) auto
  show ?thesis
    using assms valid_typed [of t body]
    by (auto simp: decodeFrame_def decryptBody_def Let_def parse dest: find_typeD split: if_splits option.splits)
qed

section \<open>The type byte is not authenticated\<close>

text \<open>The payload of a transfer frame, and the entries that the handler of an acknowledgement reads from a payload.\<close>

definition optional :: "('a \<Rightarrow> json) \<Rightarrow> 'a option \<Rightarrow> json" where
  "optional f v = (case v of None \<Rightarrow> JNull | Some x \<Rightarrow> f x)"

definition transfer_json :: "(time \<Rightarrow> string) \<Rightarrow> transfer_entry \<Rightarrow> json" where
  "transfer_json stamp e =
     JObj ([(''id'', JStr (te_id e)), (''target_site_id'', JStr (te_target e)), (''source_site'', optional JStr (te_source e)),
            (''kind'', JStr (te_kind e))] @ (case te_payload e of None \<Rightarrow> [] | Some v \<Rightarrow> [(''payload'', v)]) @
           [(''idempotency_key'', JStr (te_key e)), (''ref_id'', optional JStr (te_ref e)), (''stream_id'', optional JStr (te_stream e)),
            (''expires_at'', optional (\<lambda>t. JStr (stamp t)) (te_expires e)), (''received_at'', optional (\<lambda>t. JStr (stamp t)) (te_received e)),
            (''trace_context'', optional JStr (te_trace e)), (''token'', JStr (te_token e))])"

definition transfer_payload :: "(time \<Rightarrow> string) \<Rightarrow> transfer_entry list \<Rightarrow> json" where
  "transfer_payload stamp es = JObj [(''entries'', JArr (map (transfer_json stamp) es))]"

fun ack_entry :: "json \<Rightarrow> (string \<times> string) option" where
  "ack_entry (JObj ob) =
     (case (obj_get ob ''id'', obj_get ob ''token'') of (Some (JStr i), Some (JStr t)) \<Rightarrow> Some (i, t) | _ \<Rightarrow> None)"
| "ack_entry _ = None"

fun ack_entries :: "json \<Rightarrow> (string \<times> string) list" where
  "ack_entries (JObj ob) = (case obj_get ob ''entries'' of Some (JArr es) \<Rightarrow> List.map_filter ack_entry es | _ \<Rightarrow> [])"
| "ack_entries _ = []"

lemma ack_entry_transfer [simp]: "ack_entry (transfer_json stamp e) = Some (te_id e, te_token e)"
  by (simp add: transfer_json_def obj_get_def split: option.splits)

lemma ack_entries_transfer: "ack_entries (transfer_payload stamp es) = map (\<lambda>e. (te_id e, te_token e)) es"
  by (induction es) (simp_all add: transfer_payload_def obj_get_def List.map_filter_simps)

text \<open>C35: The type byte is outside the encryption. A transfer frame whose first byte is replaced by that of an acknowledgement decodes under the same key as an
  acknowledgement of every row it carries; handed back to its sender, it makes the sender discard the row, although no other host
  has received it.\<close>

theorem reflected_transfer_discards:
  assumes "cipher_ok c" and "length nonce = 24" and "spool_ok (host_rows h)" and "r \<in> set (host_rows h)" and "claim_state r = Pending"
    and "token \<noteq> []" and "to_transfer (as_transferring token r) = Some e" and "text_ok c (transfer_payload stamp [e])"
  shows "\<exists>body. decodeFrame c ((encodeFrame c nonce SPOOL_TRANSFER (transfer_payload stamp [e]) key)[0 := type_byte SPOOL_TRANSFER_ACK]) key =
           Inr (SPOOL_TRANSFER_ACK, body) \<and>
         host_rows (handleSpoolTransferAck (ack_entries body) (with_rows (fst (beginDurableWorkTransfer (host_rows h) (wid r) token now)) h)) =
           filter (\<lambda>x. wid x \<noteq> wid r) (host_rows h)"
proof (intro exI conjI)
  let ?body = "transfer_payload stamp [e]"
  have e: "te_id e = wid r" "te_token e = token" using assms(7) by (auto simp: to_transfer_def as_transferring_def)
  have "(encodeFrame c nonce SPOOL_TRANSFER ?body key)[0 := type_byte SPOOL_TRANSFER_ACK] =
      type_byte SPOOL_TRANSFER_ACK # tl (encodeFrame c nonce SPOOL_TRANSFER ?body key)"
    by (simp add: encodeFrame_def encryptBody_def Let_def)
  then show "decodeFrame c ((encodeFrame c nonce SPOOL_TRANSFER ?body key)[0 := type_byte SPOOL_TRANSFER_ACK]) key = Inr (SPOOL_TRANSFER_ACK, ?body)"
    using decode_encode [OF assms(1,2,8), of SPOOL_TRANSFER_ACK SPOOL_TRANSFER key] by (simp add: transfer_payload_def obj_get_def)
  show "host_rows (handleSpoolTransferAck (ack_entries ?body) (with_rows (fst (beginDurableWorkTransfer (host_rows h) (wid r) token now)) h)) =
           filter (\<lambda>x. wid x \<noteq> wid r) (host_rows h)"
    using begin_then_retire [OF assms(3-6), of now] by (simp add: ack_entries_transfer e handleSpoolTransferAck_def with_rows_def)
qed

section \<open>A concrete cipher\<close>

text \<open>The identity with a tag of sixteen zeros, over a single text.\<close>

definition tag_cipher :: "json \<Rightarrow> cipher" where
  "tag_cipher v =
     \<lparr>aead_encrypt = (\<lambda>_ _ p. p @ replicate 16 0),
      aead_decrypt = (\<lambda>_ _ ct. if drop (length ct - 16) ct = replicate 16 0 then Some (take (length ct - 16) ct) else None),
      encode_text = (\<lambda>_. [1]), decode_text = (\<lambda>_. Json v)\<rparr>"

lemma tag_cipher_ok [simp]: "cipher_ok (tag_cipher v)" "text_ok (tag_cipher v) v"
  by (simp_all add: cipher_ok_def text_ok_def tag_cipher_def json_stringify_def)

definition demo_ack :: json where
  "demo_ack = JObj [(''cursor'', JStr ''0'')]"

theorem frame_roundtrip_witness:
  "decodeFrame (tag_cipher demo_ack) (encodeFrame (tag_cipher demo_ack) (replicate 24 7) CHANGELOG_ACK demo_ack []) [] = Inr (CHANGELOG_ACK, demo_ack)"
proof -
  have "isValidPayloadForType CHANGELOG_ACK demo_ack" by (simp add: demo_ack_def obj_get_def)
  then show ?thesis using frame_roundtrip [of "tag_cipher demo_ack" "replicate 24 7" demo_ack CHANGELOG_ACK "[]"] by simp
qed

theorem decoded_frame_typed_witness:
  "payload_typed CHANGELOG_ACK demo_ack \<and> 41 \<le> length (0x02 # replicate 24 7 @ 1 # replicate 16 (0 :: 8 word))"
proof -
  have "decodeFrame (tag_cipher demo_ack) (0x02 # replicate 24 7 @ 1 # replicate 16 0) [] = Inr (CHANGELOG_ACK, demo_ack)" by code_simp
  from decoded_frame_typed [OF this] show ?thesis by blast
qed

definition demo_pending :: work_row where
  "demo_pending = fresh_row demo_work 1"

theorem reflected_transfer_discards_witness:
  "\<exists>c f body. f ! 0 = type_byte SPOOL_TRANSFER_ACK \<and> decodeFrame c f [] = Inr (SPOOL_TRANSFER_ACK, body) \<and>
     host_rows (handleSpoolTransferAck (ack_entries body)
       (with_rows (fst (beginDurableWorkTransfer [demo_pending] (wid demo_pending) ''t'' 2))
         \<lparr>is_hub = True, own_site = ''a'', host_rows = [demo_pending], spool_links = [], capable = (\<lambda>_. True), inbox_events = []\<rparr>)) = []"
proof -
  let ?h = "\<lparr>is_hub = True, own_site = ''a'', host_rows = [demo_pending], spool_links = [], capable = (\<lambda>_. True), inbox_events = []\<rparr>"
  obtain e where e: "to_transfer (as_transferring ''t'' demo_pending) = Some e"
    by (simp add: demo_pending_def demo_work_def fresh_row_def to_transfer_def as_transferring_def)
  let ?body = "transfer_payload (\<lambda>_. []) [e]"
  have "spool_ok [demo_pending]" "claim_state demo_pending = Pending" by code_simp+
  with reflected_transfer_discards [of "tag_cipher ?body" "replicate 24 7" ?h demo_pending "''t''" e "\<lambda>_. []" "[]" 2] e
  obtain body where b: "decodeFrame (tag_cipher ?body) ((encodeFrame (tag_cipher ?body) (replicate 24 7) SPOOL_TRANSFER ?body [])[0 := type_byte SPOOL_TRANSFER_ACK]) [] =
      Inr (SPOOL_TRANSFER_ACK, body)"
    "host_rows (handleSpoolTransferAck (ack_entries body) (with_rows (fst (beginDurableWorkTransfer [demo_pending] (wid demo_pending) ''t'' 2)) ?h)) = []"
    by auto
  have "(encodeFrame (tag_cipher ?body) (replicate 24 7) SPOOL_TRANSFER ?body [])[0 := type_byte SPOOL_TRANSFER_ACK] ! 0 = type_byte SPOOL_TRANSFER_ACK"
    by (simp add: encodeFrame_def encryptBody_def Let_def)
  with b show ?thesis by blast
qed

end
