(* ===== verification/Task_Lifecycle.thy ===== *)
theory Task_Lifecycle
  imports Task_Resolution Durable_Work
begin

text \<open>
  The life of a scheduled task between runs: the reschedule, retry, reset and parking helpers of
  \<open>packages/agent/src/scheduler.ts\<close>, and its healer of stuck rows. The \<open>tasks\<close> table is a list of
  typed rows. A timestamp column holds the text of a time, whose order is the order of times; it is the
  time here. A write through \<open>updateRow\<close> or \<open>updateRowIf\<close> is its effect on the row and an entry of the
  task log; \<open>Change_Log\<close> models the writes themselves. Every row that is updated unconditionally was read
  in the same synchronous pass, so \<open>updateRow\<close> does not throw there.
\<close>

section \<open>Tasks\<close>

datatype task_type = Cron_Task | Deferred_Task | Event_Task | Heartbeat_Task | Consolidation_Task | Unknown_Task

datatype task_status = T_Pending | T_Claimed | T_Running | T_Completed | T_Failed | T_Cancelled

record task_row =
  t_id :: string
  t_type :: task_type
  t_status :: task_status
  trigger_spec :: string
  t_payload :: "string option"
  thread_id :: "string option"
  t_claimed_by :: "string option"
  t_claimed_at :: "time option"
  lease_id :: "string option"
  next_run :: "time option"
  last_run :: "time option"
  run_count :: "int option"
  t_requires :: "string option"
  model_hint :: "string option"
  t_depends_on :: "string option"
  t_require_success :: bool
  alert_threshold :: "int option"
  failures :: "int option"
  no_quiescence :: bool
  heartbeat_at :: "time option"
  task_error :: "string option"
  task_result :: "string option"
  t_created_at :: time
  created_by :: "string option"
  t_deleted :: bool

text \<open>The database of a host as the scheduler sees it, with the ids of the logged task writes.\<close>

record task_db =
  tasks :: "task_row list"
  task_spool :: spool
  task_log :: "string list"

definition find_task :: "string \<Rightarrow> task_db \<Rightarrow> task_row option" where
  "find_task i d = find (\<lambda>r. t_id r = i) (tasks d)"

text \<open>A compare-and-swap on a row, and the unconditional update.\<close>

definition cas_task :: "string \<Rightarrow> (task_row \<Rightarrow> bool) \<Rightarrow> (task_row \<Rightarrow> task_row) \<Rightarrow> task_db \<Rightarrow> bool \<times> task_db" where
  "cas_task i cond f d =
     (if list_ex (\<lambda>r. t_id r = i \<and> cond r) (tasks d)
      then (True, d\<lparr>tasks := update_where (\<lambda>r. t_id r = i \<and> cond r) f (tasks d), task_log := task_log d @ [i]\<rparr>)
      else (False, d))"

definition update_task :: "string \<Rightarrow> (task_row \<Rightarrow> task_row) \<Rightarrow> task_db \<Rightarrow> task_db" where
  "update_task i f d = snd (cas_task i (\<lambda>_. True) f d)"

section \<open>Schedules\<close>

definition LEASE_DURATION :: int where
  "LEASE_DURATION = 300000"

definition EVICTION_TIMEOUT :: int where
  "EVICTION_TIMEOUT = 600000"

definition HOST_HEARTBEAT_INTERVAL :: int where
  "HOST_HEARTBEAT_INTERVAL = 120000"

definition HOST_OFFLINE_TIMEOUT :: int where
  "HOST_OFFLINE_TIMEOUT = max EVICTION_TIMEOUT (2 * HOST_HEARTBEAT_INTERVAL)"

definition STUCK_THRESHOLD :: int where
  "STUCK_THRESHOLD = 2 * EVICTION_TIMEOUT"

definition ORPHAN_HEARTBEAT_TIMEOUT :: int where
  "ORPHAN_HEARTBEAT_TIMEOUT = 2 * EVICTION_TIMEOUT"

definition DEFERRED_MAX_RETRIES :: int where
  "DEFERRED_MAX_RETRIES = 2"

definition DEFERRED_RETRY_BACKOFF_MS_DEFAULT :: int where
  "DEFERRED_RETRY_BACKOFF_MS_DEFAULT = 5000"

definition MAX_EVENT_TASK_FAILURE_BACKOFFS :: int where
  "MAX_EVENT_TASK_FAILURE_BACKOFFS = 5"

text \<open>\<open>js\<close> is \<open>JSON.js\<close> on a raw text.\<close>

definition extractCronExpression :: "(string \<Rightarrow> json option) \<Rightarrow> string \<Rightarrow> string" where
  "extractCronExpression js triggerSpec =
     (case js triggerSpec of
        Some (JObj ob) \<Rightarrow> (case obj_get ob ''expression'' of Some (JStr e) \<Rightarrow> e | _ \<Rightarrow> triggerSpec)
      | _ \<Rightarrow> triggerSpec)"

definition QUIESCENCE_TIERS :: "(int \<times> int) list" where
  "QUIESCENCE_TIERS = [(0, 1), (1800000, 2), (3600000, 3), (14400000, 5), (43200000, 10)]"

definition computeQuiescenceMultiplier :: "time \<Rightarrow> time \<Rightarrow> int" where
  "computeQuiescenceMultiplier now lastUserInteractionAt =
     (case find (\<lambda>(threshold, _). threshold \<le> now - lastUserInteractionAt) (rev QUIESCENCE_TIERS) of
        None \<Rightarrow> 1 | Some (_, multiplier) \<Rightarrow> multiplier)"

text \<open>The interval of a heartbeat specification, when it is a number of at least a minute. Reading a
  property of a JSON \<open>null\<close> throws (\<open>None\<close>). Fractions of a millisecond are kept.\<close>

datatype interval_spec = Unparsed | Throws | Invalid | Every rat

definition heartbeat_interval :: "(string \<Rightarrow> json option) \<Rightarrow> string \<Rightarrow> interval_spec" where
  "heartbeat_interval js spec =
     (case js spec of
        None \<Rightarrow> Unparsed
      | Some JNull \<Rightarrow> Throws
      | Some (JObj ob) \<Rightarrow> (case obj_get ob ''interval_ms'' of Some (JNum q) \<Rightarrow> if q < 60000 then Invalid else Every q | _ \<Rightarrow> Invalid)
      | Some _ \<Rightarrow> Invalid)"

text \<open>\<open>Math.ceil(now / effectiveInterval) * effectiveInterval\<close>, truncated to a millisecond by \<open>new Date\<close>.\<close>

definition next_beat :: "rat \<Rightarrow> int \<Rightarrow> time \<Rightarrow> time" where
  "next_beat intervalMs multiplier now =
     (let effectiveInterval = intervalMs * of_int multiplier in \<lfloor>of_int \<lceil>of_int now / effectiveInterval\<rceil> * effectiveInterval\<rfloor>)"

definition computeHeartbeatNextRunAt :: "(string \<Rightarrow> json option) \<Rightarrow> time \<Rightarrow> task_row \<Rightarrow> time \<Rightarrow> time option" where
  "computeHeartbeatNextRunAt js now task lastUserInteractionAt =
     (case heartbeat_interval js (trigger_spec task) of
        Throws \<Rightarrow> None
      | Every intervalMs \<Rightarrow>
          Some (next_beat intervalMs (if t_type task = Consolidation_Task then 1 else computeQuiescenceMultiplier now lastUserInteractionAt) now)
      | _ \<Rightarrow> Some now)"

section \<open>Helpers after a run\<close>

definition release_claim :: "task_row \<Rightarrow> task_row" where
  "release_claim r = r\<lparr>t_claimed_by := None, t_claimed_at := None, lease_id := None\<rparr>"

definition cron_row :: "string \<Rightarrow> time \<Rightarrow> task_row \<Rightarrow> task_row" where
  "cron_row context nextRunAt r =
     (release_claim r)\<lparr>next_run := Some nextRunAt, t_status := T_Pending,
        task_error := (if context = ''completion'' then Some [] else task_error r)\<rparr>"

text \<open>A schedule that cannot be computed is logged and leaves the row alone.\<close>

definition rescheduleCronTask ::
  "(string \<Rightarrow> json option) \<Rightarrow> time \<Rightarrow> task_row \<Rightarrow> string \<Rightarrow> string option \<Rightarrow> task_db \<Rightarrow> task_db" where
  "rescheduleCronTask js now task context expectedLease d =
     (if t_type task \<noteq> Cron_Task \<or> trigger_spec task = [] then d
      else case computeNextRunAt (extractCronExpression js (trigger_spec task)) now of
             Inl _ \<Rightarrow> d
           | Inr nextRunAt \<Rightarrow>
               (case expectedLease of
                  None \<Rightarrow> update_task (t_id task) (cron_row context nextRunAt) d
                | Some lease \<Rightarrow> snd (cas_task (t_id task) (\<lambda>r. lease_id r = Some lease) (cron_row context nextRunAt) d)))"

definition parked_row :: "string \<Rightarrow> task_row \<Rightarrow> task_row" where
  "parked_row errorMsg r =
     (release_claim r)\<lparr>t_status := T_Failed, next_run := None,
        task_error := Some (''parked (model unresolvable cluster-wide): '' @ errorMsg)\<rparr>"

definition parkTask :: "task_row \<Rightarrow> string \<Rightarrow> string option \<Rightarrow> task_db \<Rightarrow> task_db" where
  "parkTask task errorMsg expectedLease d =
     (case expectedLease of
        None \<Rightarrow> d
      | Some lease \<Rightarrow> snd (cas_task (t_id task) (\<lambda>r. lease_id r = Some lease) (parked_row errorMsg) d))"

definition retried_row :: "time \<Rightarrow> int \<Rightarrow> task_row \<Rightarrow> task_row" where
  "retried_row nextRunAt n r =
     (release_claim r)\<lparr>t_status := T_Pending, next_run := Some nextRunAt, failures := Some n\<rparr>"

definition retryDeferredTask :: "time \<Rightarrow> task_row \<Rightarrow> int \<Rightarrow> int \<Rightarrow> task_db \<Rightarrow> bool \<times> task_db" where
  "retryDeferredTask now task consecutiveFailures retryBackoffMs d =
     (if t_type task \<noteq> Deferred_Task \<or> DEFERRED_MAX_RETRIES < consecutiveFailures then (False, d)
      else (True, update_task (t_id task)
              (retried_row (now + retryBackoffMs * consecutiveFailures) consecutiveFailures) d))"

definition PASSIVE_INTAKE_KINDS :: "string list" where
  "PASSIVE_INTAKE_KINDS = [''webhook_intake'', ''rss_intake'', ''connector_intake'']"

definition countPendingIntakeDurableWork :: "spool \<Rightarrow> string \<Rightarrow> nat" where
  "countPendingIntakeDurableWork rows refId =
     count_where (\<lambda>r. ref_id r = Some refId \<and> kind r \<in> set PASSIVE_INTAKE_KINDS \<and> claim_state r = Pending) rows"

definition is_completion :: "string \<Rightarrow> bool" where
  "is_completion context \<longleftrightarrow> context = ''completion'' \<or> context = ''template completion''"

definition event_rearm :: "time \<Rightarrow> task_row \<Rightarrow> string \<Rightarrow> task_row \<Rightarrow> spool \<Rightarrow> time option" where
  "event_rearm now task context current rows =
     (case thread_id task of
        None \<Rightarrow> None
      | Some t \<Rightarrow>
          if t = [] \<or> countPendingIntakeDurableWork rows t = 0 then None
          else if is_completion context then Some now
          else if (case failures current of None \<Rightarrow> 0 | Some n \<Rightarrow> n) < MAX_EVENT_TASK_FAILURE_BACKOFFS then Some (now + 60000)
          else None)"

definition reset_row :: "time option \<Rightarrow> task_row \<Rightarrow> task_row" where
  "reset_row nextRunAt r = (release_claim r)\<lparr>t_status := T_Pending, next_run := nextRunAt\<rparr>"

definition resetEventTask :: "time \<Rightarrow> task_row \<Rightarrow> string \<Rightarrow> task_db \<Rightarrow> task_db" where
  "resetEventTask now task context d =
     (if t_type task \<noteq> Event_Task then d
      else case find_task (t_id task) d of
             None \<Rightarrow> d
           | Some current \<Rightarrow>
               if t_deleted current \<or> t_status current = T_Cancelled then d
               else update_task (t_id task)
                      (reset_row (event_rearm now task context current (task_spool d))) d)"

definition beat_row :: "string \<Rightarrow> time \<Rightarrow> task_row \<Rightarrow> task_row" where
  "beat_row context nextRunAt r =
     r\<lparr>next_run := Some nextRunAt, t_status := T_Pending,
       task_error := (if context = ''completion'' then Some [] else task_error r)\<rparr>"

text \<open>\<open>None\<close>: the specification made the function throw.\<close>

definition rescheduleHeartbeat ::
  "(string \<Rightarrow> json option) \<Rightarrow> time \<Rightarrow> task_row \<Rightarrow> string \<Rightarrow> time \<Rightarrow> task_db \<Rightarrow> task_db option" where
  "rescheduleHeartbeat js now task context lastUserInteractionAt d =
     (if t_type task \<noteq> Heartbeat_Task \<and> t_type task \<noteq> Consolidation_Task then Some d
      else case heartbeat_interval js (trigger_spec task) of
             Throws \<Rightarrow> None
           | Every intervalMs \<Rightarrow>
               (case computeHeartbeatNextRunAt js now task lastUserInteractionAt of
                  None \<Rightarrow> None
                | Some nextRunAt \<Rightarrow>
                    Some (update_task (t_id task) (beat_row context nextRunAt) d))
           | _ \<Rightarrow> Some d)"

section \<open>Healing stuck rows\<close>

definition stuck_row :: "time \<Rightarrow> task_row \<Rightarrow> bool" where
  "stuck_row now r \<longleftrightarrow>
     \<not> t_deleted r \<and> t_claimed_by r \<noteq> None \<and> (case t_claimed_at r of None \<Rightarrow> False | Some t \<Rightarrow> t < now - STUCK_THRESHOLD) \<and>
     ((t_type r = Heartbeat_Task \<and> t_status r \<in> {T_Failed, T_Cancelled, T_Completed}) \<or>
      (t_type r = Event_Task \<and> t_status r \<in> {T_Failed, T_Completed}) \<or>
      (t_type r = Cron_Task \<and> t_status r = T_Failed) \<or>
      (t_type r = Deferred_Task \<and> t_status r = T_Failed \<and> (case failures r of None \<Rightarrow> False | Some n \<Rightarrow> n < DEFERRED_MAX_RETRIES)))"

definition heal_row :: "(string \<Rightarrow> json option) \<Rightarrow> time \<Rightarrow> time \<Rightarrow> task_row \<Rightarrow> nat \<times> task_db \<Rightarrow> nat \<times> task_db" where
  "heal_row js now lastUserInteractionAt task acc =
     (case acc of (recovered, d) \<Rightarrow>
        (case t_type task of
           Cron_Task \<Rightarrow> (recovered + 1, rescheduleCronTask js now task ''stuck-row healer'' None d)
         | Heartbeat_Task \<Rightarrow>
             (case rescheduleHeartbeat js now task ''stuck-row healer'' lastUserInteractionAt d of
                None \<Rightarrow> (recovered, d) | Some d' \<Rightarrow> (recovered + 1, d'))
         | Consolidation_Task \<Rightarrow>
             (case rescheduleHeartbeat js now task ''stuck-row healer'' lastUserInteractionAt d of
                None \<Rightarrow> (recovered, d) | Some d' \<Rightarrow> (recovered + 1, d'))
         | Event_Task \<Rightarrow> (recovered + 1, resetEventTask now task ''stuck-row healer'' d)
         | Deferred_Task \<Rightarrow>
             (recovered + 1, snd (retryDeferredTask now task ((case failures task of None \<Rightarrow> 0 | Some n \<Rightarrow> n) + 1) DEFERRED_RETRY_BACKOFF_MS_DEFAULT d))
         | Unknown_Task \<Rightarrow> (recovered, d)))"

definition healStuckTasks :: "(string \<Rightarrow> json option) \<Rightarrow> time \<Rightarrow> time \<Rightarrow> task_db \<Rightarrow> nat \<times> task_db" where
  "healStuckTasks js now lastUserInteractionAt d =
     fold (heal_row js now lastUserInteractionAt) (filter (stuck_row now) (tasks d)) (0, d)"

section \<open>The invariant of the rows\<close>

text \<open>A claimed row names its claimer and the time of the claim; a running row has a lease and a
  heartbeat as well. Row ids are unique, and the work spool keeps its own invariant.\<close>

definition claim_ok :: "task_row \<Rightarrow> bool" where
  "claim_ok r \<longleftrightarrow>
     (t_status r = T_Claimed \<or> t_status r = T_Running \<longrightarrow> t_claimed_by r \<noteq> None \<and> t_claimed_at r \<noteq> None) \<and>
     (t_status r = T_Running \<longrightarrow> lease_id r \<noteq> None \<and> heartbeat_at r \<noteq> None)"

definition db_ok :: "task_db \<Rightarrow> bool" where
  "db_ok d \<longleftrightarrow> distinct (map t_id (tasks d)) \<and> (\<forall>r\<in>set (tasks d). claim_ok r) \<and> spool_ok (task_spool d)"

named_theorems task_rows "the rows that the writes of the scheduler produce"

lemmas idle_rows [task_rows] =
  release_claim_def cron_row_def parked_row_def retried_row_def reset_row_def beat_row_def

text \<open>A write that keeps the id and, under its guard, the invariant of a row.\<close>

locale task_write =
  fixes guard :: "task_row \<Rightarrow> bool" and step :: "task_row \<Rightarrow> task_row"
  assumes step_id: "t_id (step r) = t_id r"
    and step_ok: "claim_ok r \<Longrightarrow> guard r \<Longrightarrow> claim_ok (step r)"
begin

lemma cas_ok: "db_ok d \<Longrightarrow> db_ok (snd (cas_task i guard step d))"
  by (auto simp: db_ok_def cas_task_def set_update_where map_update_where_key step_id intro: step_ok)

lemma cas_spool: "task_spool (snd (cas_task i guard step d)) = task_spool d"
  by (simp add: cas_task_def)

lemma cas_other:
  assumes "r \<in> set (tasks d)" and "t_id r = i \<Longrightarrow> \<not> guard r"
  shows "r \<in> set (tasks (snd (cas_task i guard step d)))"
  using assms by (auto simp: cas_task_def intro: update_where_miss)

lemma cas_hit:
  assumes "r \<in> set (tasks d)" and "t_id r = i" and "guard r"
  shows "step r \<in> set (tasks (snd (cas_task i guard step d)))"
  using assms by (auto simp: cas_task_def list_ex_iff intro: update_where_hit)

end

lemma fold_ok: "P x \<Longrightarrow> (\<And>a x. P x \<Longrightarrow> P (f a x)) \<Longrightarrow> P (fold f as x)"
  by (induction "as" arbitrary: x) auto

interpretation cron_write: task_write guard "cron_row c t" for guard c t
  by unfold_locales (simp_all add: task_rows claim_ok_def)

interpretation park_write: task_write guard "parked_row e" for guard e
  by unfold_locales (simp_all add: task_rows claim_ok_def)

interpretation retry_write: task_write guard "retried_row t n" for guard t n
  by unfold_locales (simp_all add: task_rows claim_ok_def)

interpretation reset_write: task_write guard "reset_row t" for guard t
  by unfold_locales (simp_all add: task_rows claim_ok_def)

interpretation beat_write: task_write guard "beat_row c t" for guard c t
  by unfold_locales (simp_all add: task_rows claim_ok_def)

lemma rescheduleCronTask_ok: "db_ok d \<Longrightarrow> db_ok (rescheduleCronTask js now task c lease d)"
  by (simp add: rescheduleCronTask_def update_task_def cron_write.cas_ok split: sum.split option.split)

lemma parkTask_ok: "db_ok d \<Longrightarrow> db_ok (parkTask task e lease d)"
  by (simp add: parkTask_def park_write.cas_ok split: option.split)

lemma retryDeferredTask_ok: "db_ok d \<Longrightarrow> db_ok (snd (retryDeferredTask now task n b d))"
  by (simp add: retryDeferredTask_def update_task_def retry_write.cas_ok)

lemma resetEventTask_ok: "db_ok d \<Longrightarrow> db_ok (resetEventTask now task c d)"
  by (simp add: resetEventTask_def update_task_def reset_write.cas_ok split: option.split)

lemma rescheduleHeartbeat_ok:
  "db_ok d \<Longrightarrow> rescheduleHeartbeat js now task c u d = Some d' \<Longrightarrow> db_ok d'"
  by (auto simp: rescheduleHeartbeat_def update_task_def beat_write.cas_ok
      split: if_splits interval_spec.splits option.splits)

lemma heal_row_ok: "db_ok (snd acc) \<Longrightarrow> db_ok (snd (heal_row js now u task acc))"
  by (auto simp: heal_row_def rescheduleCronTask_ok retryDeferredTask_ok resetEventTask_ok
      split: prod.split task_type.split option.split intro: rescheduleHeartbeat_ok)

lemma healStuckTasks_ok: "db_ok d \<Longrightarrow> db_ok (snd (healStuckTasks js now u d))"
  unfolding healStuckTasks_def by (rule fold_ok) (simp_all add: heal_row_ok)

section \<open>The helpers touch one row\<close>

named_theorems frames "operations that leave a row of another id alone"

lemma cas_frame [frames]:
  "r \<in> set (tasks d) \<Longrightarrow> t_id r \<noteq> i \<Longrightarrow> r \<in> set (tasks (snd (cas_task i g f d)))"
  by (auto simp: cas_task_def intro: update_where_miss)

lemma update_frame [frames]: "r \<in> set (tasks d) \<Longrightarrow> t_id r \<noteq> i \<Longrightarrow> r \<in> set (tasks (update_task i f d))"
  by (simp add: update_task_def cas_frame)

lemma helper_frames [frames]:
  assumes "r \<in> set (tasks d)" and "t_id r \<noteq> t_id task"
  shows "r \<in> set (tasks (rescheduleCronTask js now task c lease d))"
    and "r \<in> set (tasks (parkTask task e lease d))"
    and "r \<in> set (tasks (snd (retryDeferredTask now task n b d)))"
    and "r \<in> set (tasks (resetEventTask now task c d))"
    and "rescheduleHeartbeat js now task c u d = Some d' \<Longrightarrow> r \<in> set (tasks d')"
  using assms
  by (auto simp: rescheduleCronTask_def parkTask_def retryDeferredTask_def resetEventTask_def rescheduleHeartbeat_def frames
      split: sum.split option.splits if_splits interval_spec.splits)

lemma heal_row_frame [frames]:
  "r \<in> set (tasks (snd acc)) \<Longrightarrow> t_id r \<noteq> t_id task \<Longrightarrow> r \<in> set (tasks (snd (heal_row js now u task acc)))"
  by (auto simp: heal_row_def frames split: prod.split task_type.split option.split)

lemma heal_rows_frame [frames]:
  "r \<in> set (tasks (snd acc)) \<Longrightarrow> t_id r \<notin> t_id ` set rows \<Longrightarrow> r \<in> set (tasks (snd (fold (heal_row js now u) rows acc)))"
  by (induction rows arbitrary: acc) (simp_all add: heal_row_frame)

lemma db_ok_unique: "db_ok d \<Longrightarrow> r \<in> set (tasks d) \<Longrightarrow> r' \<in> set (tasks d) \<Longrightarrow> t_id r = t_id r' \<Longrightarrow> r = r'"
  by (auto simp: db_ok_def distinct_map inj_on_def)

lemma heal_frame [frames]:
  assumes "db_ok d" and "r \<in> set (tasks d)" and "\<not> stuck_row now r"
  shows "r \<in> set (tasks (snd (healStuckTasks js now u d)))"
proof -
  have "t_id r \<notin> t_id ` set (filter (stuck_row now) (tasks d))"
    using assms db_ok_unique by fastforce
  then show ?thesis using assms(2) by (simp add: healStuckTasks_def heal_rows_frame)
qed

lemma find_task_eq: "db_ok d \<Longrightarrow> r \<in> set (tasks d) \<Longrightarrow> t_id r = i \<Longrightarrow> find_task i d = Some r"
proof -
  assume a: "db_ok d" "r \<in> set (tasks d)" "t_id r = i"
  then obtain r' where "find (\<lambda>x. t_id x = i) (tasks d) = Some r'"
    by (cases "find (\<lambda>x. t_id x = i) (tasks d)") (auto simp: find_None_iff)
  moreover from this have "r' \<in> set (tasks d)" "t_id r' = i" by (auto simp: find_Some_iff)
  ultimately show ?thesis using db_ok_unique [OF a(1), of r r'] a by (simp add: find_task_def)
qed

section \<open>The healer\<close>

text \<open>A stuck row whose schedule can be computed.\<close>

definition healable :: "(string \<Rightarrow> json option) \<Rightarrow> time \<Rightarrow> task_row \<Rightarrow> bool" where
  "healable js now r \<longleftrightarrow>
     (t_type r = Cron_Task \<longrightarrow> trigger_spec r \<noteq> [] \<and>
        (\<exists>t. computeNextRunAt (extractCronExpression js (trigger_spec r)) now = Inr t)) \<and>
     (t_type r = Heartbeat_Task \<longrightarrow> (\<exists>q. heartbeat_interval js (trigger_spec r) = Every q))"

lemma update_hit:
  assumes "r \<in> set (tasks d)"
  shows "f r \<in> set (tasks (update_task (t_id r) f d))"
  using assms by (auto simp: update_task_def cas_task_def list_ex_iff intro: update_where_hit)

lemma heal_row_rearms:
  assumes "db_ok (snd acc)" and "r \<in> set (tasks (snd acc))" and "stuck_row now r" and "healable js now r"
  shows "\<exists>r'\<in>set (tasks (snd (heal_row js now u r acc))). t_id r' = t_id r \<and> t_status r' = T_Pending"
proof (cases acc)
  case (Pair n d)
  have d: "db_ok d" "r \<in> set (tasks d)" using assms(1,2) Pair by simp_all
  have w: "\<exists>r'\<in>set (tasks (update_task (t_id r) f d)). t_id r' = t_id r \<and> t_status r' = T_Pending"
    if "t_id (f r) = t_id r" and "t_status (f r) = T_Pending" for f
    using update_hit [OF d(2), of f] that by blast
  show ?thesis
    using assms(3,4) find_task_eq [OF d refl] w
    by (auto simp: Pair stuck_row_def healable_def heal_row_def rescheduleCronTask_def rescheduleHeartbeat_def
        computeHeartbeatNextRunAt_def resetEventTask_def retryDeferredTask_def task_rows split: option.splits)
qed

text \<open>C13: The healer recovers what its query selects. From a well-formed database, after one pass, every
  stuck row (claimed for more than twenty minutes and left in a terminal state its type recovers from)
  whose schedule can be computed is pending again, so the next sweep can claim it; and every row that is
  not stuck is as it was.\<close>

theorem healer_recovers:
  assumes "db_ok d" and "r \<in> set (tasks d)"
  shows "(stuck_row now r \<and> healable js now r \<longrightarrow>
            (\<exists>r'\<in>set (tasks (snd (healStuckTasks js now u d))). t_id r' = t_id r \<and> t_status r' = T_Pending)) \<and>
         (\<not> stuck_row now r \<longrightarrow> r \<in> set (tasks (snd (healStuckTasks js now u d))))"
proof (intro conjI impI)
  assume s: "stuck_row now r \<and> healable js now r"
  let ?step = "heal_row js now u"
  obtain xs ys where l: "filter (stuck_row now) (tasks d) = xs @ r # ys"
    using s assms(2) split_list [of r "filter (stuck_row now) (tasks d)"] by auto
  have "distinct (map t_id (filter (stuck_row now) (tasks d)))"
    using assms(1) by (simp add: db_ok_def distinct_map_filter)
  then have ids: "t_id r \<notin> t_id ` set xs" "t_id r \<notin> t_id ` set ys" by (auto simp: l)
  have ok: "db_ok (snd (fold ?step xs (0, d)))"
    by (rule fold_ok) (simp_all add: assms(1) heal_row_ok)
  obtain r' where r': "r' \<in> set (tasks (snd (?step r (fold ?step xs (0, d)))))" "t_id r' = t_id r" "t_status r' = T_Pending"
    using heal_row_rearms [OF ok heal_rows_frame, of r now js u] assms(2) ids(1) s by auto
  have "r' \<in> set (tasks (snd (fold ?step ys (?step r (fold ?step xs (0, d))))))"
    using heal_rows_frame [OF r'(1), of ys] ids(2) r'(2) by simp
  then show "\<exists>r'\<in>set (tasks (snd (healStuckTasks js now u d))). t_id r' = t_id r \<and> t_status r' = T_Pending"
    using r' by (auto simp: healStuckTasks_def l)
next
  assume "\<not> stuck_row now r"
  then show "r \<in> set (tasks (snd (healStuckTasks js now u d)))" by (rule heal_frame [OF assms])
qed

text \<open>A deferred task that failed once and whose claim is half an hour old.\<close>

definition failed_task :: task_row where
  "failed_task =
     \<lparr>t_id = ''t1'', t_type = Deferred_Task, t_status = T_Failed, trigger_spec = ''{}'', t_payload = None, thread_id = None,
      t_claimed_by = Some ''a'', t_claimed_at = Some 0, lease_id = Some ''l1'', next_run = Some 0, last_run = None,
      run_count = Some 1, t_requires = None, model_hint = None, t_depends_on = None, t_require_success = False,
      alert_threshold = Some 3, failures = Some 1, no_quiescence = False, heartbeat_at = Some 0, task_error = None,
      task_result = None, t_created_at = 0, created_by = Some ''system'', t_deleted = False\<rparr>"

definition demo_db :: "task_row list \<Rightarrow> task_db" where
  "demo_db rs = \<lparr>tasks = rs, task_spool = [], task_log = []\<rparr>"

lemma demo_db_ok: "distinct (map t_id rs) \<Longrightarrow> list_all claim_ok rs \<Longrightarrow> db_ok (demo_db rs)"
  by (simp add: db_ok_def demo_db_def spool_ok_def list_all_iff)

theorem healer_recovers_witness:
  "\<exists>r'\<in>set (tasks (snd (healStuckTasks (\<lambda>_. None) 1800000 0 (demo_db [failed_task])))). t_id r' = ''t1'' \<and> t_status r' = T_Pending"
proof -
  have "db_ok (demo_db [failed_task])" by (rule demo_db_ok) (simp_all add: failed_task_def claim_ok_def)
  moreover have "failed_task \<in> set (tasks (demo_db [failed_task]))" by (simp add: demo_db_def)
  moreover have "stuck_row 1800000 failed_task \<and> healable (\<lambda>_. None) 1800000 failed_task"
    by (simp add: stuck_row_def healable_def failed_task_def STUCK_THRESHOLD_def EVICTION_TIMEOUT_def DEFERRED_MAX_RETRIES_def)
  ultimately have "\<exists>r'\<in>set (tasks (snd (healStuckTasks (\<lambda>_. None) 1800000 0 (demo_db [failed_task])))).
      t_id r' = t_id failed_task \<and> t_status r' = T_Pending"
    using healer_recovers [of "demo_db [failed_task]" failed_task 1800000 "\<lambda>_. None" 0] by blast
  then show ?thesis by (simp add: failed_task_def)
qed

section \<open>Heartbeats land on boundaries\<close>

lemma quiescence_range: "computeQuiescenceMultiplier now u \<in> {1, 2, 3, 5, 10}"
  by (simp add: computeQuiescenceMultiplier_def QUIESCENCE_TIERS_def)

lemma next_beat_bounds:
  assumes "0 < q" and "0 < m"
  shows "now \<le> next_beat q m now" and "of_int (next_beat q m now) < of_int now + q * of_int m"
proof -
  let ?e = "q * of_int m" and ?x = "of_int now / (q * of_int m)"
  have e: "0 < ?e" using assms by simp
  have x: "of_int now = ?x * ?e" using e by (metis less_irrefl nonzero_eq_divide_eq)
  also have "\<dots> \<le> of_int \<lceil>?x\<rceil> * ?e" using e by (intro mult_right_mono) auto
  finally show "now \<le> next_beat q m now" by (simp add: next_beat_def Let_def le_floor_iff)
  have "of_int \<lceil>?x\<rceil> * ?e < (?x + 1) * ?e" using e by (intro mult_strict_right_mono) linarith+
  also have "\<dots> = of_int now + ?e" by (simp only: distrib_right x [symmetric] mult_1)
  finally show "of_int (next_beat q m now) < of_int now + ?e"
    unfolding next_beat_def Let_def by (meson of_int_floor_le order_le_less_trans)
qed

text \<open>Heartbeats fire on clock-aligned boundaries, at a bounded distance. For a specification with an
  interval of at least a minute, the next run is a boundary of the interval stretched by one of the
  quiescence factors (truncated to a millisecond), not before now and less than one stretched interval
  after now; the factor is 1 while the user was active in the last half hour, and always 1 for a
  consolidation task.\<close>

theorem heartbeat_boundary:
  assumes "heartbeat_interval js (trigger_spec task) = Every q"
  shows "\<exists>t m k. computeHeartbeatNextRunAt js now task u = Some t \<and> m \<in> {1, 2, 3, 5, 10} \<and>
           t = \<lfloor>of_int k * (q * of_int m)\<rfloor> \<and> now \<le> t \<and> of_int t < of_int now + q * of_int m \<and>
           (now - u < 1800000 \<or> t_type task = Consolidation_Task \<longrightarrow> m = 1)"
proof -
  let ?m = "if t_type task = Consolidation_Task then 1 else computeQuiescenceMultiplier now u"
  have q: "60000 \<le> q" using assms by (auto simp: heartbeat_interval_def split: option.splits json.splits if_splits)
  have m: "?m \<in> {1, 2, 3, 5, 10}" using quiescence_range [of now u] by auto
  have one: "now - u < 1800000 \<or> t_type task = Consolidation_Task \<longrightarrow> ?m = 1"
    by (simp add: computeQuiescenceMultiplier_def QUIESCENCE_TIERS_def)
  have "0 < q" "0 < ?m" using q m by auto
  note b = next_beat_bounds [OF this, of now]
  show ?thesis
    using m one b assms
    by (intro exI [of _ "next_beat q ?m now"] exI [of _ ?m] exI [of _ "\<lceil>of_int now / (q * of_int ?m)\<rceil>"])
      (simp add: computeHeartbeatNextRunAt_def next_beat_def Let_def)
qed

definition hourly :: "string \<Rightarrow> json option" where
  "hourly s = (if s = ''{}'' then Some (JObj [(''interval_ms'', JNum 3600000)]) else None)"

theorem heartbeat_boundary_witness:
  "\<exists>t m k. computeHeartbeatNextRunAt hourly 5400000 (failed_task\<lparr>t_type := Heartbeat_Task\<rparr>) 5000000 = Some t \<and>
     m \<in> {1, 2, 3, 5, 10} \<and> t = \<lfloor>of_int k * (3600000 * of_int m :: rat)\<rfloor> \<and> 5400000 \<le> t \<and> t < 5400000 + 3600000 * m \<and> m = 1"
proof -
  have "heartbeat_interval hourly (trigger_spec (failed_task\<lparr>t_type := Heartbeat_Task\<rparr>)) = Every 3600000"
    by (simp add: heartbeat_interval_def hourly_def failed_task_def obj_get_def)
  from heartbeat_boundary [OF this, of 5400000 5000000]
  obtain t m k where h: "computeHeartbeatNextRunAt hourly 5400000 (failed_task\<lparr>t_type := Heartbeat_Task\<rparr>) 5000000 = Some t"
      "m \<in> {1, 2, 3, 5, 10}" "t = \<lfloor>of_int k * (3600000 * of_int m :: rat)\<rfloor>" "5400000 \<le> t"
      "of_int t < of_int 5400000 + (3600000 * of_int m :: rat)" "m = 1"
    by fastforce
  have "of_int t < (of_int (5400000 + 3600000 * m) :: rat)" using h(5) by simp
  then have "t < 5400000 + 3600000 * m" by (simp only: of_int_less_iff)
  then show ?thesis using h by blast
qed

end
