(* ===== verification/Scheduler.thy ===== *)
theory Scheduler
  imports Task_Lifecycle Memory_Relations
begin

text \<open>
  The scheduler of \<open>packages/agent/src/scheduler.ts\<close>: its tick (eviction, scheduling, running, the
  \<open>task_fire\<close> consumer lane), the claim and lease of a task, the run around the agent loop up to its
  completion or failure, events and heartbeats. The clock, the random ids, the JSON functions and the
  host's configuration are arguments; the agent loop is its outcome. A run is two steps, because the code
  yields between them: the launch that writes the wakeup, and the end that writes the outcome. Messages
  carry their id, thread and role; their texts, logs and metrics are left out.
\<close>

section \<open>State and environment\<close>

record sched_message =
  msg_id :: string
  msg_thread :: string
  msg_role :: string

record sched =
  sdb :: task_db
  sthreads :: "string list"
  smessages :: "sched_message list"
  runningTasks :: "(string \<times> string) list"
  lastUserInteractionAt :: time
  eventDepth :: int
  advisories :: "(string \<times> string \<times> int) list"

text \<open>The verdict of \<open>modelValidator\<close> on a model hint.\<close>

datatype validation = Model_Ok | Model_Bad string bool

datatype task_fire_mode = Legacy | Compare | Durable

text \<open>What the host provides: \<open>JSON.parse\<close>, \<open>toISOString\<close> and the date of a text, the message of a
  \<open>TypeError\<close> and of a refused insert, the hosts table, the deterministic ids, the daily budget with
  the day's spend, the optional validator and the retry backoff.\<close>

record sched_env =
  e_site :: string
  e_host :: string
  e_json :: "string \<Rightarrow> json option"
  e_stamp :: "time \<Rightarrow> string"
  e_date :: "string \<Rightarrow> time option"
  e_tasks :: task_env
  e_hosts :: "host_row list"
  e_det :: "string \<Rightarrow> string"
  e_mode :: task_fire_mode
  e_budget :: "rat option"
  e_spend :: rat
  e_validator :: "(string \<Rightarrow> validation) option"
  e_backoff :: int
  e_type_error :: string
  e_constraint_error :: string

definition on_db :: "(task_db \<Rightarrow> task_db) \<Rightarrow> sched \<Rightarrow> sched" where
  "on_db f st = st\<lparr>sdb := f (sdb st)\<rparr>"

definition on_spool :: "(spool \<Rightarrow> spool) \<Rightarrow> sched \<Rightarrow> sched" where
  "on_spool f st = on_db (\<lambda>d. d\<lparr>task_spool := f (task_spool d)\<rparr>) st"

section \<open>Failure advisories\<close>

definition CONNECTIVITY_ERROR_SIGNATURES :: "string list" where
  "CONNECTIVITY_ERROR_SIGNATURES =
     [''not available on any remote host'', ''eligible host(s) timed out'', ''fetch failed'', ''getaddrinfo'',
      ''enotfound'', ''eai_again'', ''econnrefused'', ''econnreset'', ''etimedout'', ''socket hang up'',
      ''network error'', ''unable to connect'', ''connection refused'']"

fun str_includes :: "string \<Rightarrow> string \<Rightarrow> bool" where
  "str_includes [] sig = (sig = [])"
| "str_includes (c # s) sig \<longleftrightarrow> take (length sig) (c # s) = sig \<or> str_includes s sig"

definition isConnectivityFailure :: "string \<Rightarrow> bool" where
  "isConnectivityFailure err \<longleftrightarrow> list_ex (str_includes (to_lower err)) CONNECTIVITY_ERROR_SIGNATURES"

definition triggerFailureAdvisory :: "task_row \<Rightarrow> string \<Rightarrow> int \<Rightarrow> sched \<Rightarrow> sched" where
  "triggerFailureAdvisory task err consecutiveFailures st =
     (if isConnectivityFailure err then st else st\<lparr>advisories := advisories st @ [(t_id task, err, consecutiveFailures)]\<rparr>)"

definition advise :: "task_row \<Rightarrow> string \<Rightarrow> int \<Rightarrow> sched \<Rightarrow> sched" where
  "advise task err n st = (if Some n = alert_threshold task then triggerFailureAdvisory task err n st else st)"

section \<open>Phase 0: eviction\<close>

definition stale_claim :: "time \<Rightarrow> task_row \<Rightarrow> bool" where
  "stale_claim now r \<longleftrightarrow>
     t_status r = T_Claimed \<and> \<not> t_deleted r \<and> (case t_claimed_at r of None \<Rightarrow> False | Some t \<Rightarrow> t < now - LEASE_DURATION)"

definition expire_claim :: "task_row \<Rightarrow> task_row" where
  "expire_claim r = (release_claim r)\<lparr>t_status := T_Pending\<rparr>"

definition expire_claims :: "time \<Rightarrow> task_db \<Rightarrow> task_db" where
  "expire_claims now d = fold (\<lambda>r. update_task (t_id r) expire_claim) (filter (stale_claim now) (tasks d)) d"

text \<open>\<open>EVICTION_SELECTOR_SQL\<close>: the join finds the host of the claim, deleted or not; a comparison
  with \<open>NULL\<close> is not true.\<close>

definition host_offline :: "sched_env \<Rightarrow> time \<Rightarrow> task_row \<Rightarrow> bool" where
  "host_offline env now r =
     (case find (\<lambda>h. Some (h_site h) = t_claimed_by r) (e_hosts env) of
        None \<Rightarrow> True
      | Some h \<Rightarrow> (case (case h_modified h of None \<Rightarrow> h_online h | Some m \<Rightarrow> Some m) of
                     None \<Rightarrow> False
                   | Some ts \<Rightarrow> ts < e_stamp env (now - HOST_OFFLINE_TIMEOUT)))"

definition evictable :: "sched_env \<Rightarrow> time \<Rightarrow> task_row \<Rightarrow> bool" where
  "evictable env now r \<longleftrightarrow>
     t_status r = T_Running \<and> \<not> t_deleted r \<and>
     (case heartbeat_at r of
        None \<Rightarrow> False
      | Some h \<Rightarrow> h < now - EVICTION_TIMEOUT \<and> (host_offline env now r \<or> h < now - ORPHAN_HEARTBEAT_TIMEOUT))"

definition failure_count :: "task_row \<Rightarrow> int" where
  "failure_count r = (case failures r of None \<Rightarrow> 0 | Some n \<Rightarrow> n)"

text \<open>The next run of an evicted task; \<open>None\<close>: the computation throws.\<close>

definition eviction_next :: "sched_env \<Rightarrow> time \<Rightarrow> time \<Rightarrow> task_row \<Rightarrow> time option option" where
  "eviction_next env now lastUser task =
     (case t_type task of
        Cron_Task \<Rightarrow>
          Some (if trigger_spec task = [] then None
                else case computeNextRunAt (extractCronExpression (e_json env) (trigger_spec task)) now of
                       Inl _ \<Rightarrow> None | Inr t \<Rightarrow> Some t)
      | Heartbeat_Task \<Rightarrow> map_option Some (computeHeartbeatNextRunAt (e_json env) now task lastUser)
      | Consolidation_Task \<Rightarrow> map_option Some (computeHeartbeatNextRunAt (e_json env) now task lastUser)
      | Event_Task \<Rightarrow> Some None
      | Deferred_Task \<Rightarrow>
          Some (if DEFERRED_MAX_RETRIES < failure_count task + 1 then None
                else Some (now + DEFERRED_RETRY_BACKOFF_MS_DEFAULT * (failure_count task + 1)))
      | Unknown_Task \<Rightarrow> None)"

definition evicted :: "int \<Rightarrow> time option \<Rightarrow> task_row \<Rightarrow> task_row" where
  "evicted n nextRunAt r =
     (release_claim r)\<lparr>t_status := T_Pending, task_error := Some ''evicted due to heartbeat timeout'',
        failures := Some n, next_run := nextRunAt\<rparr>"

definition evict_task :: "sched_env \<Rightarrow> time \<Rightarrow> task_row \<Rightarrow> sched \<Rightarrow> sched" where
  "evict_task env now task st =
     (case eviction_next env now (lastUserInteractionAt st) task of
        None \<Rightarrow> st
      | Some nextRunAt \<Rightarrow>
          (case cas_task (t_id task) (\<lambda>r. t_status r = T_Running) (evicted (failure_count task + 1) nextRunAt) (sdb st) of
             (committed, d) \<Rightarrow>
               if committed then advise task ''evicted due to heartbeat timeout'' (failure_count task + 1) (st\<lparr>sdb := d\<rparr>) else st))"

definition phase0Eviction :: "sched_env \<Rightarrow> time \<Rightarrow> sched \<Rightarrow> sched" where
  "phase0Eviction env now st =
     (let st1 = on_db (expire_claims now) st;
          st2 = fold (evict_task env now) (filter (evictable env now) (tasks (sdb st1))) st1
      in on_db (\<lambda>d. snd (healStuckTasks (e_json env) now (lastUserInteractionAt st2) d)) st2)"

section \<open>Phase 1: scheduling\<close>

definition status_text :: "task_status \<Rightarrow> string" where
  "status_text s =
     (case s of T_Pending \<Rightarrow> ''pending'' | T_Claimed \<Rightarrow> ''claimed'' | T_Running \<Rightarrow> ''running'' |
        T_Completed \<Rightarrow> ''completed'' | T_Failed \<Rightarrow> ''failed'' | T_Cancelled \<Rightarrow> ''cancelled'')"

definition null_or_str :: "string option \<Rightarrow> json" where
  "null_or_str v = (case v of None \<Rightarrow> JNull | Some s \<Rightarrow> JStr s)"

text \<open>A typed row as the SQL row and as the task that \<open>Task_Resolution\<close> reads.\<close>

definition sql_task :: "task_row \<Rightarrow> row" where
  "sql_task r =
     (\<lambda>c. if c = ''id'' then JStr (t_id r) else if c = ''status'' then JStr (status_text (t_status r))
          else if c = ''deleted'' then JNum (if t_deleted r then 1 else 0)
          else if c = ''claimed_by'' then null_or_str (t_claimed_by r)
          else if c = ''lease_id'' then null_or_str (lease_id r) else JNull)"

definition task_of :: "sched_env \<Rightarrow> task_row \<Rightarrow> task" where
  "task_of env r =
     \<lparr>task_id = t_id r, next_run_at = map_option (e_stamp env) (next_run r), depends_on = t_depends_on r,
      require_success = t_require_success r, requires = t_requires r\<rparr>"

definition dispatch_here :: "sched_env \<Rightarrow> time \<Rightarrow> task_db \<Rightarrow> task_row \<Rightarrow> bool option" where
  "dispatch_here env now d r =
     shouldDispatchHere (e_det env) (e_tasks env) now FIRING_HOST_STALE_MS (map sql_task (tasks d)) (e_hosts env)
       (task_of env r) (e_host env) (e_site env)"

definition TASK_FIRE_TTL_MS :: int where
  "TASK_FIRE_TTL_MS = 5 * 60 * 1000"

definition taskFireIdempotencyKey :: "string \<Rightarrow> string \<Rightarrow> string" where
  "taskFireIdempotencyKey taskId scheduledAt = ''task-fire:'' @ taskId @ '':'' @ scheduledAt"

definition fire_payload :: "string \<Rightarrow> string \<Rightarrow> json" where
  "fire_payload taskId scheduledAt = JObj [(''task_id'', JStr taskId), (''scheduled_at'', JStr scheduledAt)]"

definition fire_work :: "sched_env \<Rightarrow> string \<Rightarrow> time \<Rightarrow> string \<Rightarrow> string \<Rightarrow> new_work" where
  "fire_work env uuid now taskId scheduledAt =
     \<lparr>new_id = uuid, new_target = e_site env, new_kind = ''task_fire'',
      new_payload = json_stringify (fire_payload taskId scheduledAt),
      new_key = taskFireIdempotencyKey taskId scheduledAt, new_expires_at = Some (now + TASK_FIRE_TTL_MS),
      new_ref_id = None, new_source_site = None, new_received_at = None, new_stream_id = None, new_trace_context = None\<rparr>"

text \<open>\<open>None\<close>: \<open>insertDurableWork\<close> throws.\<close>

definition enqueueTaskFire :: "sched_env \<Rightarrow> string \<Rightarrow> time \<Rightarrow> task_row \<Rightarrow> sched \<Rightarrow> sched option" where
  "enqueueTaskFire env uuid now task st =
     (case next_run task of
        None \<Rightarrow> Some st
      | Some t \<Rightarrow>
          (case insertDurableWork True False (task_spool (sdb st)) (fire_work env uuid now (t_id task) (e_stamp env t)) now of
             Inl _ \<Rightarrow> None
           | Inr (rows, _) \<Rightarrow> Some (on_spool (\<lambda>_. rows) st)))"

definition claimed_row :: "string \<Rightarrow> time \<Rightarrow> task_row \<Rightarrow> task_row" where
  "claimed_row siteId now r = r\<lparr>t_status := T_Claimed, t_claimed_by := Some siteId, t_claimed_at := Some now\<rparr>"

definition claim_task :: "string \<Rightarrow> time \<Rightarrow> string \<Rightarrow> task_db \<Rightarrow> bool \<times> task_db" where
  "claim_task siteId now i d = cas_task i (\<lambda>r. t_status r = T_Pending) (claimed_row siteId now) d"

definition due :: "time \<Rightarrow> task_row \<Rightarrow> bool" where
  "due now r \<longleftrightarrow> t_status r = T_Pending \<and> \<not> t_deleted r \<and> (case next_run r of None \<Rightarrow> False | Some t \<Rightarrow> t \<le> now)"

definition due_tasks :: "time \<Rightarrow> task_db \<Rightarrow> task_row list" where
  "due_tasks now d = take 100 (order_by (\<lambda>r. the (next_run r)) (filter (due now) (tasks d)))"

text \<open>The loop over the due tasks; the flag says that it threw, which ends the tick. \<open>uuid n\<close> is the
  \<open>n\<close>-th random id drawn.\<close>

fun schedule_loop :: "sched_env \<Rightarrow> (nat \<Rightarrow> string) \<Rightarrow> time \<Rightarrow> nat \<Rightarrow> task_row list \<Rightarrow> sched \<Rightarrow> sched \<times> bool" where
  "schedule_loop env uuid now n [] st = (st, False)"
| "schedule_loop env uuid now n (task # rest) st =
     (case dispatch_here env now (sdb st) task of
        None \<Rightarrow> (st, True)
      | Some False \<Rightarrow> schedule_loop env uuid now (Suc n) rest st
      | Some True \<Rightarrow>
          (if e_mode env = Durable
           then (case enqueueTaskFire env (uuid n) now task st of
                   None \<Rightarrow> (st, True)
                 | Some st' \<Rightarrow> schedule_loop env uuid now (Suc n) rest st')
           else schedule_loop env uuid now (Suc n) rest (on_db (\<lambda>d. snd (claim_task (e_site env) now (t_id task) d)) st)))"

definition phase1Schedule :: "sched_env \<Rightarrow> (nat \<Rightarrow> string) \<Rightarrow> time \<Rightarrow> sched \<Rightarrow> sched \<times> bool" where
  "phase1Schedule env uuid now st = schedule_loop env uuid now 0 (due_tasks now (sdb st)) st"

section \<open>Phase 3: running\<close>

definition shouldSkipDueToBudget :: "sched_env \<Rightarrow> task_row \<Rightarrow> bool" where
  "shouldSkipDueToBudget env task \<longleftrightarrow>
     (created_by task = None \<or> created_by task = Some ''system'') \<and>
     (case e_budget env of None \<Rightarrow> False | Some b \<Rightarrow> b \<le> e_spend env)"

definition budget_release :: "task_row \<Rightarrow> task_row" where
  "budget_release r = r\<lparr>t_status := T_Pending, t_claimed_by := None, t_claimed_at := None\<rparr>"

definition start_row :: "string \<Rightarrow> time \<Rightarrow> task_row \<Rightarrow> task_row" where
  "start_row lease now r = r\<lparr>t_status := T_Running, lease_id := Some lease, heartbeat_at := Some now\<rparr>"

definition map_set :: "string \<Rightarrow> string \<Rightarrow> (string \<times> string) list \<Rightarrow> (string \<times> string) list" where
  "map_set k v m = (if k \<in> fst ` set m then map (\<lambda>(k', w). (k', if k' = k then v else w)) m else m @ [(k, v)])"

definition map_delete :: "string \<Rightarrow> (string \<times> string) list \<Rightarrow> (string \<times> string) list" where
  "map_delete k m = filter (\<lambda>(k', _). k' \<noteq> k) m"

text \<open>The synchronous part of \<open>runTask\<close>; the flag says that the run was launched.\<close>

definition runTask :: "sched_env \<Rightarrow> string \<Rightarrow> time \<Rightarrow> task_row \<Rightarrow> sched \<Rightarrow> bool \<times> sched" where
  "runTask env leaseId now task st =
     (case cas_task (t_id task) (\<lambda>r. t_status r = T_Claimed \<and> t_claimed_by r = Some (e_site env)) (start_row leaseId now) (sdb st) of
        (False, _) \<Rightarrow> (False, st)
      | (True, d) \<Rightarrow> (True, st\<lparr>sdb := d, runningTasks := map_set (t_id task) leaseId (runningTasks st)\<rparr>))"

definition claimed_tasks :: "sched_env \<Rightarrow> task_db \<Rightarrow> task_row list" where
  "claimed_tasks env d =
     take 10 (order_by t_created_at (filter (\<lambda>r. t_status r = T_Claimed \<and> t_claimed_by r = Some (e_site env)) (tasks d)))"

fun run_loop :: "sched_env \<Rightarrow> (nat \<Rightarrow> string) \<Rightarrow> time \<Rightarrow> nat \<Rightarrow> task_row list \<Rightarrow> sched \<Rightarrow> sched" where
  "run_loop env uuid now n [] st = st"
| "run_loop env uuid now n (task # rest) st =
     run_loop env uuid now (Suc n) rest
       (if shouldSkipDueToBudget env task then on_db (update_task (t_id task) budget_release) st
        else snd (runTask env (uuid n) now task st))"

definition phase3Run :: "sched_env \<Rightarrow> (nat \<Rightarrow> string) \<Rightarrow> time \<Rightarrow> sched \<Rightarrow> sched" where
  "phase3Run env uuid now st = run_loop env uuid now 0 (claimed_tasks env (sdb st)) st"

section \<open>The consumer lane of task firings\<close>

definition is_object :: "json \<Rightarrow> bool" where
  "is_object v = (case v of JObj _ \<Rightarrow> True | JArr _ \<Rightarrow> True | _ \<Rightarrow> False)"

definition object_prop :: "json \<Rightarrow> string \<Rightarrow> json option" where
  "object_prop v k = (case v of JObj ob \<Rightarrow> obj_get ob k | _ \<Rightarrow> None)"

definition parseTaskFirePayload :: "sched_env \<Rightarrow> jtext \<Rightarrow> string + (string \<times> string)" where
  "parseTaskFirePayload env raw =
     (case json_parse raw of
        None \<Rightarrow> Inl ''payload is not valid JSON''
      | Some v \<Rightarrow>
          (if \<not> is_object v then Inl ''payload must be an object''
           else case object_prop v ''task_id'' of
             Some (JStr (t # ts)) \<Rightarrow>
               (case object_prop v ''scheduled_at'' of
                  Some (JStr (c # cs)) \<Rightarrow>
                    if e_date env (c # cs) = None then Inl ''scheduled_at must be a valid ISO-8601 timestamp''
                    else Inr (t # ts, c # cs)
                | _ \<Rightarrow> Inl ''scheduled_at must be a non-empty string'')
           | _ \<Rightarrow> Inl ''task_id must be a non-empty string''))"

datatype stale_reason = Binding_Missing | Event_Binding | Binding_Not_Pending | Next_Run_At_Moved

definition classifyStaleFiring :: "sched_env \<Rightarrow> task_row option \<Rightarrow> string \<Rightarrow> stale_reason option" where
  "classifyStaleFiring env task scheduledAt =
     (case task of
        None \<Rightarrow> Some Binding_Missing
      | Some r \<Rightarrow>
          if next_run r = None then Some Event_Binding
          else if t_status r \<noteq> T_Pending then Some Binding_Not_Pending
          else if next_run r \<noteq> e_date env scheduledAt then Some Next_Run_At_Moved
          else None)"

definition self_owned :: "sched_env \<Rightarrow> task_row option \<Rightarrow> bool" where
  "self_owned env task =
     (case task of None \<Rightarrow> False
      | Some r \<Rightarrow> (t_status r = T_Claimed \<or> t_status r = T_Running) \<and> t_claimed_by r = Some (e_site env))"

definition ack_firing :: "time \<Rightarrow> string \<Rightarrow> string \<Rightarrow> sched \<Rightarrow> sched" where
  "ack_firing now i token st = on_spool (\<lambda>rows. fst (acknowledgeDurableWork rows i token now)) st"

definition release_firing :: "string \<Rightarrow> string \<Rightarrow> sched \<Rightarrow> sched" where
  "release_firing i token st = on_spool (\<lambda>rows. fst (releaseDurableWorkClaim rows i token)) st"

definition fire_task :: "sched_env \<Rightarrow> string \<Rightarrow> string \<Rightarrow> string \<Rightarrow> time \<Rightarrow> task_row \<Rightarrow> sched \<Rightarrow> sched" where
  "fire_task env i token leaseId now dueTask st =
     (case claim_task (e_site env) now (t_id dueTask) (sdb st) of
        (False, _) \<Rightarrow> ack_firing now i token st
      | (True, d) \<Rightarrow>
          (let claimedTask = claimed_row (e_site env) now dueTask; st1 = st\<lparr>sdb := d\<rparr>
           in if shouldSkipDueToBudget env claimedTask
              then release_firing i token (on_db (update_task (t_id dueTask) budget_release) st1)
              else ack_firing now i token (snd (runTask env leaseId now claimedTask st1))))"

definition processPendingTaskFire :: "sched_env \<Rightarrow> string \<Rightarrow> string \<Rightarrow> time \<Rightarrow> sched \<Rightarrow> sched" where
  "processPendingTaskFire env token leaseId now st =
     (case claimLocalDurableWork (task_spool (sdb st)) (e_site env) (Some ''task_fire'') token now of
        (_, None) \<Rightarrow> st
      | (rows, Some w) \<Rightarrow>
          (let st1 = on_spool (\<lambda>_. rows) st
           in case parseTaskFirePayload env (payload w) of
                Inl err \<Rightarrow>
                  on_spool (\<lambda>rows. fst (deadLetterClaimedDurableWork rows (wid w) token (''malformed task_fire payload: '' @ err) now)) st1
              | Inr (taskId, scheduledAt) \<Rightarrow>
                  (let task = find (\<lambda>r. t_id r = taskId \<and> \<not> t_deleted r) (tasks (sdb st1))
                   in case classifyStaleFiring env task scheduledAt of
                        Some reason \<Rightarrow>
                          if reason = Binding_Not_Pending \<and> self_owned env task then release_firing (wid w) token st1
                          else ack_firing now (wid w) token st1
                      | None \<Rightarrow> fire_task env (wid w) token leaseId now (the task) st1)))"

text \<open>One tick; \<open>uuid k n\<close> is the \<open>n\<close>-th random id drawn in phase \<open>k\<close>. The consumer pass runs in the
  same turn, for it awaits nothing.\<close>

definition tick :: "sched_env \<Rightarrow> bool \<Rightarrow> (nat \<Rightarrow> nat \<Rightarrow> string) \<Rightarrow> time \<Rightarrow> sched \<Rightarrow> sched" where
  "tick env emergencyStop uuid now st =
     (if emergencyStop then st
      else case phase1Schedule env (uuid 1) now (phase0Eviction env now st) of
             (st1, True) \<Rightarrow> st1
           | (st1, False) \<Rightarrow> processPendingTaskFire env (uuid 4 0) (uuid 4 1) now (phase3Run env (uuid 3) now st1))"

section \<open>After a failed run\<close>

text \<open>The four helpers in the order of the failure paths; the flag says that the heartbeat
  specification made them throw.\<close>

definition after_failure ::
  "sched_env \<Rightarrow> time \<Rightarrow> task_row \<Rightarrow> string \<Rightarrow> int \<Rightarrow> string \<Rightarrow> sched \<Rightarrow> sched \<times> bool" where
  "after_failure env now task context n leaseId st =
     (let d1 = rescheduleCronTask (e_json env) now task context (Some leaseId) (sdb st)
      in case rescheduleHeartbeat (e_json env) now task context (lastUserInteractionAt st) d1 of
           None \<Rightarrow> (st\<lparr>sdb := d1\<rparr>, True)
         | Some d2 \<Rightarrow>
             (st\<lparr>sdb := resetEventTask now task context (snd (retryDeferredTask now task n (e_backoff env) d2))\<rparr>, False))"

definition holds_lease :: "string \<Rightarrow> string \<Rightarrow> task_db \<Rightarrow> bool" where
  "holds_lease i leaseId d = (case find_task i d of None \<Rightarrow> False | Some r \<Rightarrow> lease_id r = Some leaseId)"

definition fail_row :: "string \<Rightarrow> task_row \<Rightarrow> task_row" where
  "fail_row err r = r\<lparr>t_status := T_Failed, task_error := Some err, failures := map_option (\<lambda>n. n + 1) (failures r)\<rparr>"

definition write_failure :: "string \<Rightarrow> string \<Rightarrow> (task_row \<Rightarrow> task_row) \<Rightarrow> sched \<Rightarrow> sched" where
  "write_failure i leaseId f st = on_db (\<lambda>d. snd (cas_task i (\<lambda>r. lease_id r = Some leaseId) f d)) st"

text \<open>The failure count of the row after the write.\<close>

definition counted :: "string \<Rightarrow> sched \<Rightarrow> int" where
  "counted i st = (case find_task i (sdb st) of None \<Rightarrow> 0 | Some r \<Rightarrow> failure_count r)"

text \<open>\<open>insertRow\<close> on \<open>messages\<close>, each in a transaction of its own: a known id is refused (\<open>True\<close>) and
  ends the sequence.\<close>

fun insert_messages :: "sched_message list \<Rightarrow> sched \<Rightarrow> sched \<times> bool" where
  "insert_messages [] st = (st, False)"
| "insert_messages (m # ms) st =
     (if msg_id m \<in> msg_id ` set (smessages st) then (st, True)
      else insert_messages ms (st\<lparr>smessages := smessages st @ [m]\<rparr>))"

definition firing_key :: "sched_env \<Rightarrow> task_row \<Rightarrow> string option" where
  "firing_key env task = computeFiringKey (t_id task) (map_option (e_stamp env) (next_run task))"

definition artifact_id :: "sched_env \<Rightarrow> string \<Rightarrow> task_row \<Rightarrow> string \<Rightarrow> string" where
  "artifact_id env uuid task artifact =
     (case firing_key env task of None \<Rightarrow> uuid | Some k \<Rightarrow> deriveFiringArtifactId (e_det env) k artifact)"

definition persist_alert :: "sched_env \<Rightarrow> string \<Rightarrow> task_row \<Rightarrow> sched \<Rightarrow> sched" where
  "persist_alert env uuid task st =
     (if falsy (thread_id task) then st
      else fst (insert_messages
             [\<lparr>msg_id = artifact_id env uuid task ''failalert'', msg_thread = the (thread_id task), msg_role = ''alert''\<rparr>] st))"

text \<open>The \<open>catch\<close> of a run. What the helpers throw there escapes; the state is theirs.\<close>

definition hard_error :: "sched_env \<Rightarrow> string \<Rightarrow> time \<Rightarrow> task_row \<Rightarrow> string \<Rightarrow> string \<Rightarrow> sched \<Rightarrow> sched" where
  "hard_error env uuid now task leaseId err st =
     (if \<not> holds_lease (t_id task) leaseId (sdb st) then st
      else let st1 = write_failure (t_id task) leaseId (fail_row err) st;
               n = counted (t_id task) st1
           in fst (after_failure env now task ''hard error'' n leaseId (persist_alert env uuid task (advise task err n st1))))"

definition or_hard_error :: "sched_env \<Rightarrow> string \<Rightarrow> time \<Rightarrow> task_row \<Rightarrow> string \<Rightarrow> sched \<times> bool \<Rightarrow> sched" where
  "or_hard_error env uuid now task leaseId res =
     (case res of (st, threw) \<Rightarrow> if threw then hard_error env uuid now task leaseId (e_type_error env) st else st)"

definition validation_failure :: "sched_env \<Rightarrow> time \<Rightarrow> task_row \<Rightarrow> string \<Rightarrow> string \<Rightarrow> bool \<Rightarrow> sched \<Rightarrow> sched \<times> bool" where
  "validation_failure env now task leaseId err permanent st =
     (if \<not> holds_lease (t_id task) leaseId (sdb st) then (st, False)
      else let st1 = write_failure (t_id task) leaseId (fail_row err) st;
               n = counted (t_id task) st1;
               st2 = advise task err n st1
           in if permanent \<and> t_type task \<noteq> Heartbeat_Task \<and> t_type task \<noteq> Consolidation_Task
              then (on_db (parkTask task err (Some leaseId)) st2, False)
              else after_failure env now task ''model validation failure'' n leaseId st2)"

definition soft_row :: "string \<Rightarrow> string \<Rightarrow> time \<Rightarrow> task_row \<Rightarrow> task_row" where
  "soft_row err res now r =
     (fail_row err r)\<lparr>task_result := Some res, run_count := map_option (\<lambda>n. n + 1) (run_count r), last_run := Some now\<rparr>"

definition soft_error :: "sched_env \<Rightarrow> time \<Rightarrow> task_row \<Rightarrow> string \<Rightarrow> string \<Rightarrow> string \<Rightarrow> sched \<Rightarrow> sched \<times> bool" where
  "soft_error env now task leaseId err res st =
     (let st1 = write_failure (t_id task) leaseId (soft_row err res now) st;
          n = counted (t_id task) st1
      in after_failure env now task ''soft error'' n leaseId (advise task err n st1))"

section \<open>A run\<close>

definition completed_row :: "string \<Rightarrow> int \<Rightarrow> time \<Rightarrow> task_row \<Rightarrow> task_row" where
  "completed_row res n now r =
     r\<lparr>t_status := T_Completed, task_result := Some res, task_error := Some [], run_count := Some n, last_run := Some now,
       failures := Some 0\<rparr>"

definition runs :: "task_row \<Rightarrow> int" where
  "runs r = (case run_count r of None \<Rightarrow> 0 | Some n \<Rightarrow> n)"

definition completion :: "sched_env \<Rightarrow> time \<Rightarrow> task_row \<Rightarrow> string \<Rightarrow> string \<Rightarrow> sched \<Rightarrow> sched \<times> bool" where
  "completion env now task leaseId res st =
     (let d1 = snd (cas_task (t_id task) (\<lambda>r. t_status r = T_Running \<and> lease_id r = Some leaseId)
                      (completed_row res (runs task + 1) now) (sdb st));
          d2 = rescheduleCronTask (e_json env) now task ''completion'' (Some leaseId) d1
      in case rescheduleHeartbeat (e_json env) now task ''completion'' (lastUserInteractionAt st) d2 of
           None \<Rightarrow> (st\<lparr>sdb := d2\<rparr>, True)
         | Some d3 \<Rightarrow> (st\<lparr>sdb := resetEventTask now task ''completion'' d3\<rparr>, False))"

text \<open>What the agent loop did: it threw, or returned an optional error and the text of its result.\<close>

datatype loop_outcome = Run_Threw string | Run_Returned "string option" string

definition finished :: "string \<Rightarrow> sched \<Rightarrow> sched" where
  "finished i st = st\<lparr>runningTasks := map_delete i (runningTasks st)\<rparr>"

definition end_run :: "sched_env \<Rightarrow> string \<Rightarrow> time \<Rightarrow> task_row \<Rightarrow> string \<Rightarrow> loop_outcome \<Rightarrow> sched \<Rightarrow> sched" where
  "end_run env uuid now task leaseId outcome st =
     finished (t_id task)
       (case outcome of
          Run_Threw err \<Rightarrow> hard_error env uuid now task leaseId err st
        | Run_Returned err res \<Rightarrow>
            if \<not> holds_lease (t_id task) leaseId (sdb st) then st
            else or_hard_error env uuid now task leaseId
                   (if falsy err then completion env now task leaseId res st
                    else soft_error env now task leaseId (the err) res st))"

section \<open>The launch of a run\<close>

definition CRON_THREAD_ROTATION_THRESHOLD :: nat where
  "CRON_THREAD_ROTATION_THRESHOLD = 200"

definition set_thread :: "string \<Rightarrow> string \<Rightarrow> sched \<Rightarrow> sched" where
  "set_thread i threadId st = on_db (update_task i (\<lambda>r. r\<lparr>thread_id := Some threadId\<rparr>)) st"

definition run_thread :: "(nat \<Rightarrow> string) \<Rightarrow> task_row \<Rightarrow> sched \<Rightarrow> string \<times> sched" where
  "run_thread uuid task st =
     (if falsy (thread_id task) then (uuid 0, set_thread (t_id task) (uuid 0) st)
      else if t_type task = Cron_Task \<and>
              CRON_THREAD_ROTATION_THRESHOLD < count_where (\<lambda>m. msg_thread m = the (thread_id task)) (smessages st)
           then (uuid 1, set_thread (t_id task) (uuid 1) st)
           else (the (thread_id task), st))"

definition ensure_thread :: "string \<Rightarrow> sched \<Rightarrow> sched" where
  "ensure_thread t st = (if t \<in> set (sthreads st) then st else st\<lparr>sthreads := sthreads st @ [t]\<rparr>)"

definition listPendingIntakeDurableWorkForRef :: "spool \<Rightarrow> string \<Rightarrow> work_row list" where
  "listPendingIntakeDurableWorkForRef rows refId =
     order_by (\<lambda>r. case received_at r of None \<Rightarrow> created_at r | Some t \<Rightarrow> t)
       (filter (\<lambda>r. ref_id r = Some refId \<and> kind r \<in> set PASSIVE_INTAKE_KINDS \<and> claim_state r = Pending) rows)"

text \<open>The claims of \<open>buildEventWakeupContent\<close>, in the order of the folded events.\<close>

definition fold_events :: "string \<Rightarrow> (nat \<Rightarrow> string) \<Rightarrow> time \<Rightarrow> task_row \<Rightarrow> spool \<Rightarrow> spool \<times> (string \<times> string) list" where
  "fold_events siteId tok now task rows =
     (if t_type task \<noteq> Event_Task \<or> falsy (thread_id task) then (rows, [])
      else let listed = listPendingIntakeDurableWorkForRef rows (the (thread_id task));
               (rows', claimed) = claimDurableWorkByIds rows (map wid listed) siteId tok now;
               tokenById = map_of (map (\<lambda>r. (wid r, the (claim_token r))) claimed)
           in (rows', List.map_filter (\<lambda>r. map_option (\<lambda>t. (wid r, t)) (tokenById (wid r))) listed))"

definition wakeup_messages :: "sched_env \<Rightarrow> (nat \<Rightarrow> string) \<Rightarrow> task_row \<Rightarrow> string \<Rightarrow> sched_message list" where
  "wakeup_messages env uuid task t =
     (let ids = (case firing_key env task of
                   None \<Rightarrow> (uuid 2, uuid 3, uuid 4)
                 | Some k \<Rightarrow> let f = deriveFiringWakeupIds (e_det env) k in (wakeupMessageId f, toolCallMessageId f, toolResultMessageId f))
      in case ids of (a, b, c) \<Rightarrow>
           [\<lparr>msg_id = a, msg_thread = t, msg_role = ''developer''\<rparr>, \<lparr>msg_id = b, msg_thread = t, msg_role = ''tool_call''\<rparr>,
            \<lparr>msg_id = c, msg_thread = t, msg_role = ''tool_result''\<rparr>])"

definition QUIESCENCE_NOTE_THRESHOLD :: int where
  "QUIESCENCE_NOTE_THRESHOLD = 1800000"

definition quiescence_note :: "sched_env \<Rightarrow> (nat \<Rightarrow> string) \<Rightarrow> time \<Rightarrow> task_row \<Rightarrow> string \<Rightarrow> time \<Rightarrow> sched_message list" where
  "quiescence_note env uuid now task t lastUser =
     (if (t_type task = Heartbeat_Task \<or> t_type task = Cron_Task) \<and> QUIESCENCE_NOTE_THRESHOLD \<le> now - lastUser
      then [\<lparr>msg_id = artifact_id env (uuid 5) task ''quiescence'', msg_thread = t, msg_role = ''developer''\<rparr>] else [])"

text \<open>Whether the agent loop starts, and on which thread.\<close>

datatype launch = Loop_Starts string | No_Loop

definition validate_model :: "sched_env \<Rightarrow> string \<Rightarrow> time \<Rightarrow> task_row \<Rightarrow> string \<Rightarrow> string \<Rightarrow> sched \<Rightarrow> sched \<times> launch" where
  "validate_model env uuid now task leaseId t st =
     (case (if falsy (model_hint task) then None else e_validator env) of
        None \<Rightarrow> (st, Loop_Starts t)
      | Some validator \<Rightarrow>
          (case validator (the (model_hint task)) of
             Model_Ok \<Rightarrow> (st, Loop_Starts t)
           | Model_Bad err permanent \<Rightarrow>
               (finished (t_id task)
                  (or_hard_error env uuid now task leaseId (validation_failure env now task leaseId err permanent st)), No_Loop)))"

definition persist_wakeup ::
  "sched_env \<Rightarrow> (nat \<Rightarrow> string) \<Rightarrow> time \<Rightarrow> task_row \<Rightarrow> string \<Rightarrow> string \<Rightarrow> (string \<times> string) list \<Rightarrow> sched \<Rightarrow> sched \<times> launch" where
  "persist_wakeup env uuid now task leaseId t claims st =
     (let failed = (\<lambda>st. (finished (t_id task) (hard_error env (uuid 6) now task leaseId (e_constraint_error env) st), No_Loop))
      in case insert_messages (wakeup_messages env uuid task t) st of
           (st1, True) \<Rightarrow> failed st1
         | (st1, False) \<Rightarrow>
             (case insert_messages (quiescence_note env uuid now task t (lastUserInteractionAt st1))
                     (fold (\<lambda>(i, tok). ack_firing now i tok) claims st1) of
                (st2, True) \<Rightarrow> failed st2
              | (st2, False) \<Rightarrow> validate_model env (uuid 6) now task leaseId t st2))"

definition launch_run ::
  "sched_env \<Rightarrow> (nat \<Rightarrow> string) \<Rightarrow> (nat \<Rightarrow> string) \<Rightarrow> time \<Rightarrow> task_row \<Rightarrow> string \<Rightarrow> sched \<Rightarrow> sched \<times> launch" where
  "launch_run env uuid tok now task leaseId st =
     (if verifyLeaseStillHeld (map sql_task (tasks (sdb st))) (t_id task) (e_site env) leaseId \<noteq> None
      then (finished (t_id task) st, No_Loop)
      else case run_thread uuid task st of
             (t, st1) \<Rightarrow>
               (let st2 = ensure_thread t st1
                in case fold_events (e_site env) tok now task (task_spool (sdb st2)) of
                     (rows, claims) \<Rightarrow>
                       (let st3 = on_spool (\<lambda>_. rows) st2
                        in if t_type task = Event_Task \<and> 0 < runs task \<and> claims = []
                           then (finished (t_id task) (on_db (resetEventTask now task ''empty re-arm'') st3), No_Loop)
                           else persist_wakeup env uuid now task leaseId t claims st3)))"

section \<open>Events, heartbeats and the poll interval\<close>

definition MAX_EVENT_DEPTH :: int where
  "MAX_EVENT_DEPTH = 5"

definition POLL_INTERVAL :: int where
  "POLL_INTERVAL = 5000"

definition servable :: "sched_env \<Rightarrow> task_row \<Rightarrow> bool" where
  "servable env task =
     (case e_validator env of
        None \<Rightarrow> True
      | Some validator \<Rightarrow> validator (case model_hint task of None \<Rightarrow> [] | Some h \<Rightarrow> h) = Model_Ok)"

text \<open>A throw ends the loop; the depth is restored either way.\<close>

fun event_loop :: "sched_env \<Rightarrow> time \<Rightarrow> task_row list \<Rightarrow> sched \<Rightarrow> sched" where
  "event_loop env now [] st = st"
| "event_loop env now (task # rest) st =
     (case dispatch_here env now (sdb st) task of
        None \<Rightarrow> st
      | Some b \<Rightarrow>
          event_loop env now rest
            (if b \<and> servable env task then on_db (\<lambda>d. snd (claim_task (e_site env) now (t_id task) d)) st else st))"

definition onEvent :: "sched_env \<Rightarrow> time \<Rightarrow> string \<Rightarrow> sched \<Rightarrow> sched" where
  "onEvent env now eventType st =
     (if MAX_EVENT_DEPTH \<le> eventDepth st then st
      else let st1 = event_loop env now
                 (filter (\<lambda>r. t_type r = Event_Task \<and> t_status r = T_Pending \<and> \<not> t_deleted r \<and> trigger_spec r = eventType)
                    (tasks (sdb st)))
                 (st\<lparr>eventDepth := eventDepth st + 1\<rparr>)
           in st1\<lparr>eventDepth := eventDepth st1 - 1\<rparr>)"

definition onUserInteraction :: "time \<Rightarrow> sched \<Rightarrow> sched" where
  "onUserInteraction now st = st\<lparr>lastUserInteractionAt := now, eventDepth := 0\<rparr>"

definition refresh :: "time \<Rightarrow> string \<Rightarrow> string \<Rightarrow> sched \<Rightarrow> sched" where
  "refresh now i leaseId st =
     on_db (\<lambda>d. snd (cas_task i (\<lambda>r. lease_id r = Some leaseId) (\<lambda>r. r\<lparr>heartbeat_at := Some now\<rparr>) d)) st"

definition updateHeartbeats :: "time \<Rightarrow> sched \<Rightarrow> sched" where
  "updateHeartbeats now st = fold (\<lambda>(i, leaseId). refresh now i leaseId) (runningTasks st) st"

definition getEffectivePollInterval :: "int option \<Rightarrow> time \<Rightarrow> sched \<Rightarrow> int" where
  "getEffectivePollInterval basePollIntervalMs now st =
     (let baseInterval = (case basePollIntervalMs of None \<Rightarrow> POLL_INTERVAL | Some b \<Rightarrow> b)
      in if list_ex (\<lambda>r. t_status r = T_Pending \<and> no_quiescence r) (tasks (sdb st)) then baseInterval
         else baseInterval * computeQuiescenceMultiplier now (lastUserInteractionAt st))"

section \<open>The writes keep the invariant\<close>

lemmas sched_rows [task_rows] =
  expire_claim_def evicted_def claimed_row_def budget_release_def start_row_def fail_row_def soft_row_def completed_row_def

interpretation expire_write: task_write guard expire_claim for guard
  by unfold_locales (simp_all add: task_rows claim_ok_def)

interpretation evict_write: task_write guard "evicted n t" for guard n t
  by unfold_locales (simp_all add: task_rows claim_ok_def)

interpretation claim_write: task_write guard "claimed_row s now" for guard s now
  by unfold_locales (simp_all add: task_rows claim_ok_def)

interpretation budget_write: task_write guard budget_release for guard
  by unfold_locales (simp_all add: task_rows claim_ok_def)

interpretation start_write: task_write "\<lambda>r. t_status r = T_Claimed \<and> t_claimed_by r = s" "start_row l now" for s l now
  by unfold_locales (auto simp: task_rows claim_ok_def)

interpretation fail_write: task_write guard "fail_row e" for guard e
  by unfold_locales (simp_all add: task_rows claim_ok_def)

interpretation soft_write: task_write guard "soft_row e x now" for guard e x now
  by unfold_locales (simp_all add: task_rows claim_ok_def)

interpretation complete_write: task_write guard "completed_row x n now" for guard x n now
  by unfold_locales (simp_all add: task_rows claim_ok_def)

interpretation thread_write: task_write guard "\<lambda>r. r\<lparr>thread_id := t\<rparr>" for guard t
  by unfold_locales (simp_all add: claim_ok_def)

interpretation refresh_write: task_write guard "\<lambda>r. r\<lparr>heartbeat_at := Some now\<rparr>" for guard now
  by unfold_locales (auto simp: claim_ok_def)

definition sched_ok :: "sched \<Rightarrow> bool" where
  "sched_ok st \<longleftrightarrow> db_ok (sdb st)"

named_theorems sched_ok_intros "operations that keep the invariant"

lemma on_db_ok [sched_ok_intros]: "sched_ok st \<Longrightarrow> (\<And>d. db_ok d \<Longrightarrow> db_ok (f d)) \<Longrightarrow> sched_ok (on_db f st)"
  by (simp add: sched_ok_def on_db_def)

lemma on_spool_ok [sched_ok_intros]:
  "sched_ok st \<Longrightarrow> (\<And>rows. spool_ok rows \<Longrightarrow> spool_ok (f rows)) \<Longrightarrow> sched_ok (on_spool f st)"
  by (simp add: sched_ok_def on_spool_def on_db_def db_ok_def)

lemma advise_sdb [simp]: "sdb (advise task e n st) = sdb st"
  by (simp add: advise_def triggerFailureAdvisory_def)

lemma insert_messages_sdb [simp]: "sdb (fst (insert_messages ms st)) = sdb st"
  by (induction ms st rule: insert_messages.induct) auto

lemma persist_alert_sdb [simp]: "sdb (persist_alert env u task st) = sdb st"
  by (simp add: persist_alert_def)

lemma ensure_thread_sdb [simp]: "sdb (ensure_thread t st) = sdb st"
  by (simp add: ensure_thread_def)

lemma finished_sdb [simp]: "sdb (finished i st) = sdb st"
  by (simp add: finished_def)

lemmas sdb_only = sched_ok_def advise_sdb insert_messages_sdb persist_alert_sdb ensure_thread_sdb finished_sdb

lemma expire_all_ok: "sched_ok st \<Longrightarrow> sched_ok (on_db (expire_claims now) st)"
proof -
  have "db_ok d \<Longrightarrow> db_ok (expire_claims now d)" for d
    unfolding expire_claims_def by (rule fold_ok) (simp_all add: update_task_def expire_write.cas_ok)
  then show "sched_ok st \<Longrightarrow> sched_ok (on_db (expire_claims now) st)" by (simp add: on_db_ok)
qed

lemma evict_all_ok: "sched_ok st \<Longrightarrow> sched_ok (fold (evict_task env now) rs st)"
proof -
  have "sched_ok (evict_task env now r x)" if "sched_ok x" for r x
    using that evict_write.cas_ok [of "sdb x" "t_id r"]
    by (auto simp: evict_task_def sched_ok_def split: option.split prod.split) (metis snd_conv)
  then show "sched_ok st \<Longrightarrow> sched_ok (fold (evict_task env now) rs st)" by (blast intro: fold_ok [of sched_ok])
qed

lemma phase0_ok [sched_ok_intros]: "sched_ok st \<Longrightarrow> sched_ok (phase0Eviction env now st)"
  unfolding phase0Eviction_def Let_def
  by (intro on_db_ok evict_all_ok expire_all_ok healStuckTasks_ok)

lemma claim_task_ok: "db_ok d \<Longrightarrow> db_ok (snd (claim_task s now i d))"
  by (simp add: claim_task_def claim_write.cas_ok)

lemma enqueue_ok: "sched_ok st \<Longrightarrow> enqueueTaskFire env u now task st = Some st' \<Longrightarrow> sched_ok st'"
  by (auto simp: enqueueTaskFire_def split: option.splits sum.splits intro!: on_spool_ok intro: insert_ok)
    (auto simp: sched_ok_def db_ok_def intro: insert_ok)

lemma schedule_loop_ok: "sched_ok st \<Longrightarrow> sched_ok (fst (schedule_loop env u now n rs st))"
  by (induction env u now n rs st rule: schedule_loop.induct)
    (auto simp: on_db_ok claim_task_ok split: option.split bool.split intro: enqueue_ok)

lemma runTask_ok [sched_ok_intros]: "sched_ok st \<Longrightarrow> sched_ok (snd (runTask env l now task st))"
  using start_write.cas_ok [of "sdb st" "t_id task" "Some (e_site env)" l now]
  by (auto simp: runTask_def sched_ok_def split: prod.split bool.split)

lemma budget_ok: "sched_ok st \<Longrightarrow> sched_ok (on_db (update_task i budget_release) st)"
  by (intro on_db_ok) (simp_all add: update_task_def budget_write.cas_ok)

lemma run_loop_ok: "sched_ok st \<Longrightarrow> sched_ok (run_loop env u now n rs st)"
  by (induction env u now n rs st rule: run_loop.induct) (simp_all add: budget_ok runTask_ok)

lemma ack_firing_ok [sched_ok_intros]: "sched_ok st \<Longrightarrow> sched_ok (ack_firing now i tok st)"
  unfolding ack_firing_def by (intro on_spool_ok) (simp_all add: acknowledgeDurableWork_def consume.update_ok)

lemma release_firing_ok [sched_ok_intros]: "sched_ok st \<Longrightarrow> sched_ok (release_firing i tok st)"
  unfolding release_firing_def by (intro on_spool_ok) (simp_all add: releaseDurableWorkClaim_def release.update_ok)

lemma fire_task_ok: "sched_ok st \<Longrightarrow> sched_ok (fire_task env i tok l now r st)"
proof -
  assume ok: "sched_ok st"
  then have "sched_ok (st\<lparr>sdb := snd (claim_task (e_site env) now (t_id r) (sdb st))\<rparr>)"
    by (simp add: sched_ok_def claim_task_ok)
  then show ?thesis
    using ok by (auto simp: fire_task_def Let_def ack_firing_ok release_firing_ok runTask_ok budget_ok split: prod.split bool.split)
qed

lemma process_fire_ok: "sched_ok st \<Longrightarrow> sched_ok (processPendingTaskFire env tok l now st)"
proof -
  assume ok: "sched_ok st"
  have claimed: "sched_ok (on_spool (\<lambda>_. fst (claimLocalDurableWork (task_spool (sdb st)) s k tok now)) st)" for s k
    using ok by (simp add: sched_ok_def on_spool_def on_db_def db_ok_def claim_local_ok)
  obtain rows w where c: "claimLocalDurableWork (task_spool (sdb st)) (e_site env) (Some ''task_fire'') tok now = (rows, w)"
    by fastforce
  have st1: "sched_ok (on_spool (\<lambda>_. rows) st)" using claimed c by (metis fst_conv)
  then show ?thesis
    using ok by (auto simp: processPendingTaskFire_def c Let_def dead_letter_fst_ok
        split: option.split sum.split intro!: sched_ok_intros fire_task_ok)
qed

lemma tick_ok: "sched_ok st \<Longrightarrow> sched_ok (tick env e u now st)"
  using schedule_loop_ok [OF phase0_ok, of st env "u 1" now 0 "due_tasks now (sdb (phase0Eviction env now st))" env now]
  by (auto simp: tick_def phase1Schedule_def phase3Run_def process_fire_ok run_loop_ok split: prod.split bool.split)

lemma after_failure_ok: "sched_ok st \<Longrightarrow> sched_ok (fst (after_failure env now task c n l st))"
  by (auto simp: after_failure_def Let_def sched_ok_def rescheduleCronTask_ok split: option.split
      intro!: resetEventTask_ok retryDeferredTask_ok intro: rescheduleHeartbeat_ok [OF rescheduleCronTask_ok])

lemma write_failure_ok:
  assumes "sched_ok st"
  shows "sched_ok (write_failure i l (fail_row e) st)" and "sched_ok (write_failure i l (soft_row e x now) st)"
  using assms by (simp_all add: write_failure_def sched_ok_def on_db_def fail_write.cas_ok soft_write.cas_ok)

lemma advise_ok: "sched_ok (advise task e n st) = sched_ok st" "sched_ok (persist_alert env u task st) = sched_ok st"
    "sched_ok (finished i st) = sched_ok st" "sched_ok (ensure_thread t st) = sched_ok st"
    "sched_ok (fst (insert_messages ms st)) = sched_ok st"
  by (simp_all add: sched_ok_def)

lemma hard_error_ok: "sched_ok st \<Longrightarrow> sched_ok (hard_error env u now task l e st)"
  by (simp add: hard_error_def Let_def after_failure_ok advise_ok write_failure_ok)

lemma or_hard_error_ok: "sched_ok (fst r) \<Longrightarrow> sched_ok (or_hard_error env u now task l r)"
  by (auto simp: or_hard_error_def hard_error_ok split: prod.split)

lemma validation_failure_ok: "sched_ok st \<Longrightarrow> sched_ok (fst (validation_failure env now task l e p st))"
  by (auto simp: validation_failure_def Let_def after_failure_ok advise_ok write_failure_ok intro!: on_db_ok parkTask_ok)

lemma soft_error_ok: "sched_ok st \<Longrightarrow> sched_ok (fst (soft_error env now task l e x st))"
  by (simp add: soft_error_def Let_def after_failure_ok advise_ok write_failure_ok)

lemma completion_ok: "sched_ok st \<Longrightarrow> sched_ok (fst (completion env now task l x st))"
  by (auto simp: completion_def Let_def sched_ok_def rescheduleCronTask_ok complete_write.cas_ok split: option.split
      intro!: resetEventTask_ok
      intro: rescheduleHeartbeat_ok [OF rescheduleCronTask_ok [OF complete_write.cas_ok]])

lemma end_run_ok: "sched_ok st \<Longrightarrow> sched_ok (end_run env u now task l out st)"
  by (auto simp: end_run_def advise_ok hard_error_ok soft_error_ok completion_ok split: loop_outcome.split
      intro!: or_hard_error_ok)

lemma run_thread_ok: "sched_ok st \<Longrightarrow> sched_ok (snd (run_thread u task st))"
  by (auto simp: run_thread_def set_thread_def update_task_def thread_write.cas_ok intro!: on_db_ok)

lemma validate_model_ok: "sched_ok st \<Longrightarrow> sched_ok (fst (validate_model env u now task l t st))"
  by (auto simp: validate_model_def advise_ok validation_failure_ok split: option.split validation.split
      intro!: or_hard_error_ok)

lemma persist_wakeup_ok: "sched_ok st \<Longrightarrow> sched_ok (fst (persist_wakeup env u now task l t cs st))"
proof -
  assume ok: "sched_ok st"
  have acks: "sched_ok x \<Longrightarrow> sched_ok (fold (\<lambda>(i, tok). ack_firing now i tok) cs x)" for x
    by (rule fold_ok) (auto intro: ack_firing_ok)
  obtain st1 b1 where i1: "insert_messages (wakeup_messages env u task t) st = (st1, b1)" by fastforce
  obtain st2 b2 where i2: "insert_messages (quiescence_note env u now task t (lastUserInteractionAt st1))
      (fold (\<lambda>(i, tok). ack_firing now i tok) cs st1) = (st2, b2)" by fastforce
  have s1: "sched_ok st1" using ok advise_ok(5) [of "wakeup_messages env u task t" st] i1 by simp
  have s2: "sched_ok st2"
    using acks [OF s1] advise_ok(5) [of "quiescence_note env u now task t (lastUserInteractionAt st1)"] i2 by (metis fst_conv)
  show ?thesis
    using s1 s2 i2 by (cases b1; cases b2) (simp_all add: persist_wakeup_def i1 hard_error_ok advise_ok validate_model_ok)
qed

lemma fold_events_ok: "spool_ok rows \<Longrightarrow> spool_ok (fst (fold_events s tok now task rows))"
  by (simp add: fold_events_def claimDurableWorkByIds_def claim_each_ok Let_def case_prod_unfold)

lemma launch_run_ok: "sched_ok st \<Longrightarrow> sched_ok (fst (launch_run env u tok now task l st))"
proof -
  assume ok: "sched_ok st"
  obtain t st1 where r: "run_thread u task st = (t, st1)" by fastforce
  have s2: "sched_ok (ensure_thread t st1)" using run_thread_ok [OF ok, of u task] r by (simp add: advise_ok)
  obtain rows cs where f: "fold_events (e_site env) tok now task (task_spool (sdb (ensure_thread t st1))) = (rows, cs)"
    by fastforce
  have s3: "sched_ok (on_spool (\<lambda>_. rows) (ensure_thread t st1))"
    using s2 fold_events_ok [of "task_spool (sdb st1)" "e_site env" tok now task] f by (auto simp: sched_ok_def on_spool_def on_db_def db_ok_def)
  show ?thesis
    using ok s3 f by (auto simp: launch_run_def r Let_def advise_ok persist_wakeup_ok intro!: on_db_ok resetEventTask_ok)
qed

lemma onEvent_ok: "sched_ok st \<Longrightarrow> sched_ok (onEvent env now e st)"
proof -
  have depth: "sched_ok (x\<lparr>eventDepth := k\<rparr>) = sched_ok x" for x k by (simp add: sched_ok_def)
  have loop: "sched_ok x \<Longrightarrow> sched_ok (event_loop env now rs x)" for rs x
    by (induction env now rs x rule: event_loop.induct) (auto simp: on_db_ok claim_task_ok split: option.split)
  show "sched_ok st \<Longrightarrow> sched_ok (onEvent env now e st)" by (simp add: onEvent_def Let_def depth loop)
qed

lemma updateHeartbeats_ok: "sched_ok st \<Longrightarrow> sched_ok (updateHeartbeats now st)"
  unfolding updateHeartbeats_def
  by (rule fold_ok) (auto simp: refresh_def refresh_write.cas_ok intro!: on_db_ok split: prod.split)

lemma onUserInteraction_ok: "sched_ok st \<Longrightarrow> sched_ok (onUserInteraction now st)"
  by (simp add: onUserInteraction_def sched_ok_def)

section \<open>What a run may change\<close>

lemma after_failure_frame [frames]:
  assumes "r \<in> set (tasks (sdb st))" and "t_id r \<noteq> t_id task"
  shows "r \<in> set (tasks (sdb (fst (after_failure env now task c n l st))))"
proof -
  have c: "r \<in> set (tasks (rescheduleCronTask (e_json env) now task c (Some l) (sdb st)))"
    using assms by (rule helper_frames(1))
  show ?thesis
    using c helper_frames(5) [OF c assms(2)] assms(2)
    by (auto simp: after_failure_def Let_def helper_frames(3,4) split: option.split)
qed

lemma write_failure_frame [frames]:
  "r \<in> set (tasks (sdb st)) \<Longrightarrow> t_id r \<noteq> i \<Longrightarrow> r \<in> set (tasks (sdb (write_failure i l f st)))"
  by (simp add: write_failure_def on_db_def cas_frame)

lemma hard_error_frame [frames]:
  "r \<in> set (tasks (sdb st)) \<Longrightarrow> t_id r \<noteq> t_id task \<Longrightarrow> r \<in> set (tasks (sdb (hard_error env u now task l e st)))"
  by (simp add: hard_error_def Let_def after_failure_frame write_failure_frame)

lemma or_hard_error_frame [frames]:
  "r \<in> set (tasks (sdb (fst x))) \<Longrightarrow> t_id r \<noteq> t_id task \<Longrightarrow> r \<in> set (tasks (sdb (or_hard_error env u now task l x)))"
  by (auto simp: or_hard_error_def hard_error_frame split: prod.split)

lemma completion_frame [frames]:
  assumes "r \<in> set (tasks (sdb st))" and "t_id r \<noteq> t_id task"
  shows "r \<in> set (tasks (sdb (fst (completion env now task l x st))))"
proof -
  have c: "r \<in> set (tasks (rescheduleCronTask (e_json env) now task ''completion'' (Some l)
      (snd (cas_task (t_id task) g f (sdb st)))))" for g f
    using assms by (simp add: helper_frames(1) cas_frame)
  show ?thesis
    using c helper_frames(5) [OF c assms(2)] assms(2)
    by (auto simp: completion_def Let_def helper_frames(4) split: option.split)
qed

lemma end_run_frame [frames]:
  "r \<in> set (tasks (sdb st)) \<Longrightarrow> t_id r \<noteq> t_id task \<Longrightarrow> r \<in> set (tasks (sdb (end_run env u now task l out st)))"
  by (simp add: end_run_def soft_error_def Let_def hard_error_frame or_hard_error_frame completion_frame
      after_failure_frame write_failure_frame split: loop_outcome.split)

lemma end_run_lost: "\<not> holds_lease (t_id task) l (sdb st) \<Longrightarrow> end_run env u now task l out st = finished (t_id task) st"
  by (simp add: end_run_def hard_error_def split: loop_outcome.split)

section \<open>What a tick may change\<close>

text \<open>A row in a terminal state which the healer does not select.\<close>

definition terminal_row :: "time \<Rightarrow> task_row \<Rightarrow> bool" where
  "terminal_row now r \<longleftrightarrow> t_status r \<in> {T_Completed, T_Failed, T_Cancelled} \<and> \<not> stuck_row now r"

lemma cas_guard_frame: "r \<in> set (tasks d) \<Longrightarrow> \<not> g r \<Longrightarrow> r \<in> set (tasks (snd (cas_task i g f d)))"
  by (auto simp: cas_task_def intro: update_where_miss)

lemma fold_update_frame:
  "r \<in> set (tasks d) \<Longrightarrow> t_id r \<notin> t_id ` set rs \<Longrightarrow> r \<in> set (tasks (fold (\<lambda>x. update_task (t_id x) f) rs d))"
  by (induction rs arbitrary: d) (auto simp: update_frame)

lemma evict_frame:
  "r \<in> set (tasks (sdb st)) \<Longrightarrow> t_status r \<noteq> T_Running \<Longrightarrow> r \<in> set (tasks (sdb (evict_task env now x st)))"
  using cas_guard_frame [of r "sdb st" "\<lambda>r. t_status r = T_Running" "t_id x"]
  by (auto simp: evict_task_def split: option.split prod.split) (metis snd_conv)

lemma phase0_frame:
  assumes "sched_ok st" and "r \<in> set (tasks (sdb st))" and "terminal_row now r"
  shows "r \<in> set (tasks (sdb (phase0Eviction env now st)))"
proof -
  let ?st1 = "on_db (expire_claims now) st"
  let ?st2 = "fold (evict_task env now) (filter (evictable env now) (tasks (sdb ?st1))) ?st1"
  have "t_id r \<notin> t_id ` set (filter (stale_claim now) (tasks (sdb st)))"
    using assms db_ok_unique by (fastforce simp: sched_ok_def terminal_row_def stale_claim_def)
  then have 1: "r \<in> set (tasks (sdb ?st1))"
    using assms(2) by (simp add: on_db_def expire_claims_def fold_update_frame)
  have 2: "r \<in> set (tasks (sdb ?st2))"
    by (rule fold_ok [of "\<lambda>x. r \<in> set (tasks (sdb x))"]) (use 1 assms(3) evict_frame in \<open>auto simp: terminal_row_def\<close>)
  have ok: "sched_ok ?st2" using evict_all_ok expire_all_ok assms(1) by blast
  show ?thesis
    using heal_frame [of "sdb ?st2" r now] ok 2 assms(3)
    by (simp add: phase0Eviction_def Let_def on_db_def sched_ok_def terminal_row_def)
qed

lemma schedule_loop_frame:
  "r \<in> set (tasks (sdb st)) \<Longrightarrow> t_status r \<noteq> T_Pending \<Longrightarrow> r \<in> set (tasks (sdb (fst (schedule_loop env u now n rs st))))"
  by (induction env u now n rs st rule: schedule_loop.induct)
    (auto simp: enqueueTaskFire_def on_spool_def on_db_def claim_task_def cas_guard_frame
      split: option.splits bool.splits sum.splits)

lemma runTask_frame:
  "r \<in> set (tasks (sdb st)) \<Longrightarrow> t_status r \<noteq> T_Claimed \<Longrightarrow> r \<in> set (tasks (sdb (snd (runTask env l now x st))))"
  using cas_guard_frame [of r "sdb st" "\<lambda>r. t_status r = T_Claimed \<and> t_claimed_by r = Some (e_site env)" "t_id x"]
  by (auto simp: runTask_def split: prod.split bool.split) (metis snd_conv)

lemma run_loop_frame:
  "r \<in> set (tasks (sdb st)) \<Longrightarrow> t_status r \<noteq> T_Claimed \<Longrightarrow> t_id r \<notin> t_id ` set rs \<Longrightarrow>
   r \<in> set (tasks (sdb (run_loop env u now n rs st)))"
  by (induction env u now n rs st rule: run_loop.induct) (simp_all add: on_db_def update_frame runTask_frame)

lemma phase3_frame:
  assumes "sched_ok st" and "r \<in> set (tasks (sdb st))" and "t_status r \<noteq> T_Claimed"
  shows "r \<in> set (tasks (sdb (phase3Run env u now st)))"
proof -
  have "t_id r \<notin> t_id ` set (claimed_tasks env (sdb st))"
  proof
    assume "t_id r \<in> t_id ` set (claimed_tasks env (sdb st))"
    then obtain x where x: "x \<in> set (claimed_tasks env (sdb st))" "t_id x = t_id r" by auto
    then have "x \<in> set (tasks (sdb st))" "t_status x = T_Claimed"
      using set_take_subset by (fastforce simp: claimed_tasks_def)+
    then show False using db_ok_unique [of "sdb st" x r] assms x(2) by (auto simp: sched_ok_def)
  qed
  then show ?thesis using assms(2,3) by (simp add: phase3Run_def run_loop_frame)
qed

lemma on_spool_tasks [simp]: "tasks (sdb (on_spool f st)) = tasks (sdb st)"
  by (simp add: on_spool_def on_db_def)

lemma firing_tasks [simp]:
  "tasks (sdb (ack_firing now i tok st)) = tasks (sdb st)" "tasks (sdb (release_firing i tok st)) = tasks (sdb st)"
  by (simp_all add: ack_firing_def release_firing_def)

lemma fire_task_frame:
  "r \<in> set (tasks (sdb st)) \<Longrightarrow> t_id r \<noteq> t_id x \<Longrightarrow> r \<in> set (tasks (sdb (fire_task env i tok l now x st)))"
  using cas_frame [of r "sdb st" "t_id x" "\<lambda>r. t_status r = T_Pending" "claimed_row (e_site env) now"]
  by (auto simp: fire_task_def claim_task_def Let_def runTask_def claimed_row_def on_db_def update_frame
      split: prod.split bool.split) (metis cas_frame snd_conv)

lemma classify_None:
  "classifyStaleFiring env task s = None \<Longrightarrow> \<exists>r. task = Some r \<and> t_status r = T_Pending \<and> next_run r = e_date env s"
  by (auto simp: classifyStaleFiring_def split: option.splits if_splits)

lemma process_fire_frame:
  assumes "sched_ok st" and "r \<in> set (tasks (sdb st))" and "t_status r \<noteq> T_Pending"
  shows "r \<in> set (tasks (sdb (processPendingTaskFire env tok l now st)))"
proof -
  have other: "t_id r \<noteq> t_id (the (find p (tasks (sdb st))))"
    if pending: "classifyStaleFiring env (find p (tasks (sdb st))) s = None" for p s
  proof -
    obtain x where x: "find p (tasks (sdb st)) = Some x" "t_status x = T_Pending" using classify_None [OF pending] by blast
    then have "x \<in> set (tasks (sdb st))" by (metis find_Some_iff nth_mem)
    then show ?thesis using db_ok_unique [of "sdb st" x r] assms x by (auto simp: sched_ok_def)
  qed
  show ?thesis
    using assms(2) other
    by (auto simp: processPendingTaskFire_def Let_def fire_task_frame split: prod.split option.split sum.split)
qed

end
