(* ===== verification/Task_Tools.thy ===== *)
theory Task_Tools
  imports Scheduler
begin

text \<open>
  The tools by which an agent manages tasks, \<open>packages/agent/src/tools/task.ts\<close> and \<open>cancel.ts\<close>, the
  binding guard of \<open>packages/core\<close> they consult, the scheduler together with them as a state machine, and
  the properties of the scheduler. \<open>JSON.stringify\<close> and the resolution of a model hint are arguments; the
  columns that no scheduler decision reads (\<open>origin_thread_id\<close>, \<open>no_history\<close>, \<open>inject_mode\<close>) are left out.
\<close>

section \<open>Cancelling\<close>

record webhook_row =
  hook_task :: string
  hook_name :: string
  hook_deleted :: bool

record handle_row =
  handle_task :: string
  handle_server :: string
  handle_event :: string
  handle_deleted :: bool

datatype infra_binding = Webhook_Binding string | Connector_Binding string

definition findTaskInfraBinding :: "webhook_row list \<Rightarrow> handle_row list \<Rightarrow> string \<Rightarrow> infra_binding option" where
  "findTaskInfraBinding hooks handles taskId =
     (case find (\<lambda>h. hook_task h = taskId \<and> \<not> hook_deleted h) hooks of
        Some h \<Rightarrow> Some (Webhook_Binding (hook_name h))
      | None \<Rightarrow>
          (case find (\<lambda>h. handle_task h = taskId \<and> \<not> handle_deleted h) handles of
             Some h \<Rightarrow> Some (Connector_Binding (handle_server h @ '':'' @ handle_event h))
           | None \<Rightarrow> None))"

text \<open>SQL's \<open>LIKE\<close>: \<open>%\<close> is any text, \<open>_\<close> any character, ASCII letters compare without case.\<close>

fun sql_like :: "string \<Rightarrow> string \<Rightarrow> bool" where
  "sql_like [] s = (s = [])"
| "sql_like (p # ps) [] = (p = CHR ''%'' \<and> sql_like ps [])"
| "sql_like (p # ps) (c # s) =
     (if p = CHR ''%'' then sql_like ps (c # s) \<or> sql_like (p # ps) s
      else (p = CHR ''_'' \<or> lower_char p = lower_char c) \<and> sql_like ps s)"

datatype cancel_reply =
    No_Tasks_Found | None_Cancellable nat | Cancelled_Matching nat nat | Must_Specify | Task_Not_Found
  | Cannot_Cancel_Heartbeat | Cannot_Cancel_Bound infra_binding | Task_Cancelled

definition cancel_row :: "task_row \<Rightarrow> task_row" where
  "cancel_row r = r\<lparr>t_status := T_Cancelled\<rparr>"

definition payload_matches :: "string \<Rightarrow> task_row \<Rightarrow> bool" where
  "payload_matches payloadMatch r \<longleftrightarrow>
     (case t_payload r of None \<Rightarrow> False | Some p \<Rightarrow> sql_like (''%'' @ payloadMatch @ ''%'') p) \<and>
     t_type r \<noteq> Heartbeat_Task \<and> t_status r \<in> {T_Pending, T_Claimed} \<and> \<not> t_deleted r"

definition cancel_matching :: "webhook_row list \<Rightarrow> handle_row list \<Rightarrow> string \<Rightarrow> sched \<Rightarrow> cancel_reply \<times> sched" where
  "cancel_matching hooks handles payloadMatch st =
     (let found = filter (payload_matches payloadMatch) (tasks (sdb st));
          cancellable = filter (\<lambda>r. findTaskInfraBinding hooks handles (t_id r) = None) found;
          skipped = length found - length cancellable
      in if found = [] then (No_Tasks_Found, st)
         else if cancellable = [] then (None_Cancellable skipped, st)
         else (Cancelled_Matching (length cancellable) skipped,
               on_db (fold (\<lambda>r. update_task (t_id r) cancel_row) cancellable) st))"

definition cancel :: "webhook_row list \<Rightarrow> handle_row list \<Rightarrow> string option \<Rightarrow> string option \<Rightarrow> sched \<Rightarrow> cancel_reply \<times> sched" where
  "cancel hooks handles payloadMatch taskId st =
     (if \<not> falsy payloadMatch then cancel_matching hooks handles (the payloadMatch) st
      else if falsy taskId then (Must_Specify, st)
      else case find (\<lambda>r. t_id r = the taskId \<and> \<not> t_deleted r) (tasks (sdb st)) of
             None \<Rightarrow> (Task_Not_Found, st)
           | Some existing \<Rightarrow>
               if t_type existing = Heartbeat_Task then (Cannot_Cancel_Heartbeat, st)
               else case findTaskInfraBinding hooks handles (the taskId) of
                      Some b \<Rightarrow> (Cannot_Cancel_Bound b, st)
                    | None \<Rightarrow> (Task_Cancelled, on_db (update_task (the taskId) cancel_row) st))"

section \<open>Scheduling and updating\<close>

record task_input =
  in_description :: "string option"
  in_cron :: "string option"
  in_delay :: "string option"
  in_event :: "string option"
  in_payload :: "string option"
  in_after :: "string option"
  in_require_success :: bool
  in_task :: "string option"
  in_model :: "string option"
  in_history :: "bool option"
  in_alert :: "int option"

datatype tool_error =
    No_Trigger | Many_Triggers | Bad_Offset | Bad_Date | Cron_Fields nat | Bad_Model string
  | No_Task_Id | Modifies_Itself | Unknown_Task_Id | Bad_Threshold | Nothing_To_Update | Duplicate_Id

text \<open>The largest time of a \<open>Date\<close>; beyond it \<open>toISOString\<close> throws. Hours and days are those of a zone
  without clock changes.\<close>

definition MAX_DATE :: int where
  "MAX_DATE = 8640000000000000"

definition unit_ms :: "char \<Rightarrow> int option" where
  "unit_ms c =
     (if c = CHR ''s'' then Some 1000 else if c = CHR ''m'' then Some 60000
      else if c = CHR ''h'' then Some 3600000 else if c = CHR ''d'' then Some 86400000 else None)"

definition parseTimeOffset :: "time \<Rightarrow> string \<Rightarrow> tool_error + time" where
  "parseTimeOffset now offset =
     (case cron_fields offset of
        [w] \<Rightarrow>
          if to_lower w \<in> {''now'', ''immediate'', ''0''} then Inr now
          else if offset = [] then Inl Bad_Offset
          else (case (parseCronNumber (butlast offset), unit_ms (last offset)) of
                  (Inr n, Some u) \<Rightarrow> if now + n * u \<le> MAX_DATE then Inr (now + n * u) else Inl Bad_Date
                | _ \<Rightarrow> Inl Bad_Offset)
      | _ \<Rightarrow> Inl Bad_Offset)"

definition non_blank :: "string option \<Rightarrow> string option" where
  "non_blank s = (case s of None \<Rightarrow> None | Some t \<Rightarrow> if cron_fields t = [[]] then None else s)"

definition trigger_of ::
  "(json \<Rightarrow> string) \<Rightarrow> (time \<Rightarrow> string) \<Rightarrow> time \<Rightarrow> task_input \<Rightarrow> tool_error + (task_type \<times> string \<times> time option)" where
  "trigger_of stringify stamp now inp =
     (if \<not> falsy (in_delay inp)
      then (case parseTimeOffset now (the (in_delay inp)) of
              Inl e \<Rightarrow> Inl e
            | Inr t \<Rightarrow> Inr (Deferred_Task, stringify (JObj [(''type'', JStr ''deferred''), (''at'', JStr (stamp t))]), Some t))
      else if \<not> falsy (in_cron inp)
      then (if length (cron_fields (the (in_cron inp))) \<noteq> 5 then Inl (Cron_Fields (length (cron_fields (the (in_cron inp)))))
            else Inr (Cron_Task, stringify (JObj [(''type'', JStr ''cron''), (''expression'', JStr (the (in_cron inp)))]), Some now))
      else Inr (Event_Task, stringify (JObj [(''type'', JStr ''event''), (''event'', JStr (the (in_event inp)))]), None))"

definition scheduled_row ::
  "(json \<Rightarrow> string) \<Rightarrow> string \<Rightarrow> string \<Rightarrow> time \<Rightarrow> task_input \<Rightarrow> task_type \<Rightarrow> string \<Rightarrow> time option \<Rightarrow> task_row" where
  "scheduled_row stringify siteId taskId now inp ty spec nextRunAt =
     \<lparr>t_id = taskId, t_type = ty, t_status = T_Pending, trigger_spec = spec,
      t_payload = (case non_blank (in_payload inp) of Some p \<Rightarrow> Some p | None \<Rightarrow> non_blank (in_description inp)),
      thread_id = None, t_claimed_by = None, t_claimed_at = None, lease_id = None, next_run = nextRunAt,
      last_run = None, run_count = Some 0, t_requires = None, model_hint = in_model inp,
      t_depends_on = (if falsy (in_after inp) then None else Some (stringify (JArr [JStr (the (in_after inp))]))),
      t_require_success = in_require_success inp,
      alert_threshold = Some (case in_alert inp of None \<Rightarrow> 3 | Some a \<Rightarrow> if 0 < a then a else 3),
      failures = Some 0, no_quiescence = False, heartbeat_at = None, task_error = None, task_result = None,
      t_created_at = now, created_by = Some siteId, t_deleted = False\<rparr>"

text \<open>\<open>check_hint\<close> is \<open>validateModelHint\<close>: the error of an unresolvable hint.\<close>

definition handleSchedule ::
  "(json \<Rightarrow> string) \<Rightarrow> (time \<Rightarrow> string) \<Rightarrow> (string \<Rightarrow> string option) \<Rightarrow> string \<Rightarrow> string \<Rightarrow> time \<Rightarrow> task_input \<Rightarrow> sched \<Rightarrow>
     (tool_error + string) \<times> sched" where
  "handleSchedule stringify stamp check_hint siteId taskId now inp st =
     (let n = length (filter (\<lambda>v. \<not> falsy v) [in_cron inp, in_delay inp, in_event inp])
      in if n = 0 then (Inl No_Trigger, st)
         else if 1 < n then (Inl Many_Triggers, st)
         else case trigger_of stringify stamp now inp of
                Inl e \<Rightarrow> (Inl e, st)
              | Inr (ty, spec, nextRunAt) \<Rightarrow>
                  (case (if falsy (in_model inp) then None else check_hint (the (in_model inp))) of
                     Some e \<Rightarrow> (Inl (Bad_Model e), st)
                   | None \<Rightarrow>
                       if taskId \<in> t_id ` set (tasks (sdb st)) then (Inl Duplicate_Id, st)
                       else (Inr taskId,
                         on_db (\<lambda>d. d\<lparr>tasks := tasks d @ [scheduled_row stringify siteId taskId now inp ty spec nextRunAt],
                                         task_log := task_log d @ [taskId]\<rparr>) st)))"

definition update_row :: "task_input \<Rightarrow> task_row \<Rightarrow> task_row" where
  "update_row inp r =
     r\<lparr>model_hint := (case in_model inp of None \<Rightarrow> model_hint r | Some h \<Rightarrow> if h = [] then None else Some h),
       alert_threshold := (case in_alert inp of None \<Rightarrow> alert_threshold r | Some a \<Rightarrow> Some a)\<rparr>"

definition handleUpdate ::
  "(string \<Rightarrow> string option) \<Rightarrow> string option \<Rightarrow> task_input \<Rightarrow> sched \<Rightarrow> tool_error option \<times> sched" where
  "handleUpdate check_hint ownTask inp st =
     (if falsy (in_task inp) then (Some No_Task_Id, st)
      else if \<not> falsy ownTask \<and> ownTask = in_task inp then (Some Modifies_Itself, st)
      else if \<not> list_ex (\<lambda>r. t_id r = the (in_task inp) \<and> \<not> t_deleted r) (tasks (sdb st)) then (Some Unknown_Task_Id, st)
      else case (if falsy (in_model inp) then None else check_hint (the (in_model inp))) of
             Some e \<Rightarrow> (Some (Bad_Model e), st)
           | None \<Rightarrow>
               if (case in_alert inp of None \<Rightarrow> False | Some a \<Rightarrow> a \<le> 0) then (Some Bad_Threshold, st)
               else if in_history inp = None \<and> in_model inp = None \<and> in_alert inp = None then (Some Nothing_To_Update, st)
               else (None, on_db (update_task (the (in_task inp)) (update_row inp)) st))"

section \<open>The scheduler as a state machine\<close>

lemmas tool_rows [task_rows] = cancel_row_def update_row_def

interpretation cancel_write: task_write guard cancel_row for guard
  by unfold_locales (simp_all add: task_rows claim_ok_def)

interpretation update_write: task_write guard "update_row inp" for guard inp
  by unfold_locales (simp_all add: task_rows claim_ok_def)

lemma cancel_ok: "sched_ok st \<Longrightarrow> sched_ok (snd (cancel hooks handles m i st))"
proof -
  assume ok: "sched_ok st"
  have one: "sched_ok (on_db (update_task j cancel_row) st)" for j
    using ok by (intro on_db_ok) (simp_all add: update_task_def cancel_write.cas_ok)
  have all: "sched_ok (on_db (fold (\<lambda>r. update_task (t_id r) cancel_row) rs) st)" for rs :: "task_row list"
    using ok by (intro on_db_ok) (auto simp: update_task_def cancel_write.cas_ok intro!: fold_ok [of db_ok])
  show ?thesis using ok one all by (simp add: cancel_def cancel_matching_def Let_def split: option.split)
qed

lemma handleSchedule_ok: "sched_ok st \<Longrightarrow> sched_ok (snd (handleSchedule j s c site i now inp st))"
  by (auto simp: handleSchedule_def Let_def sched_ok_def on_db_def db_ok_def claim_ok_def scheduled_row_def split: sum.split option.split)

lemma handleSchedule_row:
  assumes "handleSchedule stringify stamp check_hint siteId i now inp st = (Inr i', st')"
  shows "\<exists>ty spec t. trigger_of stringify stamp now inp = Inr (ty, spec, t) \<and>
           scheduled_row stringify siteId i now inp ty spec t \<in> set (tasks (sdb st'))"
  using assms by (auto simp: handleSchedule_def Let_def on_db_def split: sum.splits option.splits if_splits)

lemma handleUpdate_ok: "sched_ok st \<Longrightarrow> sched_ok (snd (handleUpdate c own inp st))"
  by (auto simp: handleUpdate_def update_task_def update_write.cas_ok intro!: on_db_ok split: option.split)

text \<open>The steps of one host: the scheduler's own, the tools of its agents, and the work spool's.\<close>

inductive sched_step :: "sched \<Rightarrow> sched \<Rightarrow> bool" where
  do_tick: "sched_step st (tick env stop uuids now st)"
| do_launch: "sched_step st (fst (launch_run env uuid tok now task lease st))"
| do_end: "sched_step st (end_run env uuid now task lease outcome st)"
| do_event: "sched_step st (onEvent env now e st)"
| do_user: "sched_step st (onUserInteraction now st)"
| do_heartbeats: "sched_step st (updateHeartbeats now st)"
| do_cancel: "sched_step st (snd (cancel hooks handles m i st))"
| do_schedule: "sched_step st (snd (handleSchedule stringify stamp check site i now inp st))"
| do_update: "sched_step st (snd (handleUpdate check own inp st))"
| do_spool: "spool_step (task_spool (sdb st)) rows \<Longrightarrow> sched_step st (on_spool (\<lambda>_. rows) st)"

definition sched_init :: "time \<Rightarrow> sched" where
  "sched_init now =
     \<lparr>sdb = \<lparr>tasks = [], task_spool = [], task_log = []\<rparr>, sthreads = [], smessages = [], runningTasks = [],
      lastUserInteractionAt = now, eventDepth = 0, advisories = []\<rparr>"

inductive sched_reachable :: "sched \<Rightarrow> bool" where
  start: "sched_reachable (sched_init now)"
| step: "sched_reachable st \<Longrightarrow> sched_step st st' \<Longrightarrow> sched_reachable st'"

lemmas sched_op_oks =
  tick_ok launch_run_ok end_run_ok onEvent_ok onUserInteraction_ok updateHeartbeats_ok cancel_ok handleSchedule_ok handleUpdate_ok

lemma sched_step_ok: "sched_step st st' \<Longrightarrow> sched_ok st \<Longrightarrow> sched_ok st'"
proof (induction rule: sched_step.induct)
  case (do_spool st rows)
  then show ?case by (auto simp: sched_ok_def on_spool_def on_db_def db_ok_def intro: spool_step_ok)
qed (simp_all add: sched_op_oks)

lemma sched_reachable_ok: "sched_reachable st \<Longrightarrow> sched_ok st"
proof (induction rule: sched_reachable.induct)
  case (start now)
  show ?case by (simp add: sched_init_def sched_ok_def db_ok_def spool_ok_def)
qed (rule sched_step_ok)

text \<open>C5: The invariant of the tasks table. In every state one host reaches by ticks, launches and ends of
  runs, events, heartbeats, the task and cancel tools and the operations of the work spool, task ids are
  unique, a claimed task names its claimer and the time of its claim, and a running task has in addition a
  lease and a heartbeat, so that the eviction query, which compares them, can see it.\<close>

theorem scheduler_invariant:
  assumes "sched_reachable st"
  shows "distinct (map t_id (tasks (sdb st))) \<and>
         (\<forall>r\<in>set (tasks (sdb st)).
            (t_status r = T_Claimed \<or> t_status r = T_Running \<longrightarrow> t_claimed_by r \<noteq> None \<and> t_claimed_at r \<noteq> None) \<and>
            (t_status r = T_Running \<longrightarrow> lease_id r \<noteq> None \<and> heartbeat_at r \<noteq> None))"
  using sched_reachable_ok [OF assms] by (simp add: sched_ok_def db_ok_def claim_ok_def)

definition demo_input :: task_input where
  "demo_input =
     \<lparr>in_description = Some ''report'', in_cron = None, in_delay = None, in_event = Some ''deploy'', in_payload = None,
      in_after = None, in_require_success = False, in_task = None, in_model = None, in_history = None, in_alert = None\<rparr>"

definition plain_text :: "json \<Rightarrow> string" where
  "plain_text v =
     (case v of JObj ob \<Rightarrow> ''{'' @ concat (map (\<lambda>(k, w). case w of JStr s \<Rightarrow> s | _ \<Rightarrow> k) ob) @ ''}'' | _ \<Rightarrow> ''[]'')"

definition demo_sched :: sched where
  "demo_sched = snd (handleSchedule plain_text (\<lambda>_. ''T'') (\<lambda>_. None) ''a'' ''t1'' 0 demo_input (sched_init 0))"

theorem scheduler_invariant_witness: "distinct (map t_id (tasks (sdb demo_sched)))"
proof -
  have "sched_reachable demo_sched"
    unfolding demo_sched_def by (rule sched_reachable.step [OF start do_schedule])
  from scheduler_invariant [OF this] show ?thesis by blast
qed

section \<open>Leases\<close>

text \<open>C6: A run changes no row but the one that carries its lease. Whatever the agent loop did (completed,
  reported an error, threw), the end of a run leaves every other row exactly as it was; and when the run
  has lost its lease (it was evicted, released or claimed again) its end changes no row, message or
  advisory at all.\<close>

theorem run_changes_own_lease:
  assumes "sched_ok st" and "r \<in> set (tasks (sdb st))" and "t_id r \<noteq> t_id task \<or> lease_id r \<noteq> Some lease"
  shows "r \<in> set (tasks (sdb (end_run env uuid now task lease outcome st))) \<and>
         (t_id r = t_id task \<longrightarrow>
            sdb (end_run env uuid now task lease outcome st) = sdb st \<and>
            smessages (end_run env uuid now task lease outcome st) = smessages st \<and>
            advisories (end_run env uuid now task lease outcome st) = advisories st)"
proof (cases "t_id r = t_id task")
  case True
  have "find_task (t_id task) (sdb st) = Some r"
    using find_task_eq [of "sdb st" r] assms(1,2) True by (simp add: sched_ok_def)
  then have "\<not> holds_lease (t_id task) lease (sdb st)" using assms(3) True by (simp add: holds_lease_def)
  then show ?thesis using assms(2) by (simp add: end_run_lost finished_def)
next
  case False
  then show ?thesis using end_run_frame [OF assms(2) False] by simp
qed

definition quiet :: "task_row list \<Rightarrow> sched" where
  "quiet rs = (sched_init 0)\<lparr>sdb := demo_db rs\<rparr>"

lemma quiet_ok: "distinct (map t_id rs) \<Longrightarrow> list_all claim_ok rs \<Longrightarrow> sched_ok (quiet rs)"
  using demo_db_ok by (simp add: quiet_def sched_ok_def)

definition quiet_env :: sched_env where
  "quiet_env =
     \<lparr>e_site = ''a'', e_host = ''host-a'', e_json = (\<lambda>_. None), e_stamp = (\<lambda>_. ''T''), e_date = (\<lambda>_. Some 0),
      e_tasks = \<lparr>parse = (\<lambda>_. None), bind_param = Some, regex_test = (\<lambda>_ _. Some True), date_ms = (\<lambda>_. Some 0)\<rparr>,
      e_hosts = [], e_det = (\<lambda>s. s), e_mode = Durable, e_budget = None, e_spend = 0, e_validator = None, e_backoff = 5000,
      e_type_error = ''TypeError'', e_constraint_error = ''UNIQUE''\<rparr>"

theorem run_changes_own_lease_witness:
  "failed_task \<in> set (tasks (sdb (end_run quiet_env ''u'' 9 failed_task ''l0'' (Run_Threw ''boom'') (quiet [failed_task]))))"
proof -
  have "sched_ok (quiet [failed_task])" by (rule quiet_ok) (simp_all add: failed_task_def claim_ok_def)
  moreover have "failed_task \<in> set (tasks (sdb (quiet [failed_task])))" by (simp add: quiet_def demo_db_def)
  moreover have "t_id failed_task \<noteq> t_id failed_task \<or> lease_id failed_task \<noteq> Some ''l0''" by (simp add: failed_task_def)
  ultimately show ?thesis using run_changes_own_lease by blast
qed

section \<open>Eviction\<close>








section \<open>Terminal rows\<close>

lemma tick_settled_row:
  assumes "sched_ok st" and "r \<in> set (tasks (sdb st))" and "terminal_row now r"
  shows "r \<in> set (tasks (sdb (tick env stop uuids now st)))"
proof -
  let ?st1 = "fst (phase1Schedule env (uuids 1) now (phase0Eviction env now st))"
  have 1: "r \<in> set (tasks (sdb ?st1))" "sched_ok ?st1"
    using phase0_frame [OF assms] assms(3) phase0_ok [OF assms(1)]
    by (simp_all add: phase1Schedule_def schedule_loop_frame schedule_loop_ok terminal_row_def) (auto simp: schedule_loop_frame)
  have "r \<in> set (tasks (sdb (processPendingTaskFire env (uuids 4 0) (uuids 4 1) now (phase3Run env (uuids 3) now ?st1))))"
    using 1 assms(3) by (intro process_fire_frame phase3_frame) (auto simp: phase3Run_def run_loop_ok terminal_row_def)
  then show ?thesis using 1(1) assms(2) by (simp add: tick_def case_prod_unfold split: bool.split)
qed

lemma ticks_settled_row:
  assumes "sched_ok st" and "r \<in> set (tasks (sdb st))" and "\<And>now. terminal_row now r"
  shows "r \<in> set (tasks (sdb (fold (\<lambda>now. tick env stop (uuids now) now) instants st)))"
proof -
  have "sched_ok (fold (\<lambda>now. tick env stop (uuids now) now) instants st) \<and>
        r \<in> set (tasks (sdb (fold (\<lambda>now. tick env stop (uuids now) now) instants st)))"
    by (rule fold_ok [of "\<lambda>x. sched_ok x \<and> r \<in> set (tasks (sdb x))"])
      (use assms tick_settled_row tick_ok in auto)
  then show ?thesis by blast
qed

text \<open>C17: A tick never revives a terminal task, except through the healer. A completed, failed or cancelled
  row that the healer's query does not select is exactly the same after a whole tick (expiry, eviction,
  healing, scheduling, running and the firing lane), in every producer mode.\<close>

theorem tick_leaves_settled:
  assumes "sched_ok st" and "r \<in> set (tasks (sdb st))" and "terminal_row now r"
  shows "r \<in> set (tasks (sdb (tick env stop uuids now st)))"
  using assms by (rule tick_settled_row)

theorem tick_leaves_settled_witness:
  "failed_task\<lparr>t_status := T_Cancelled\<rparr> \<in>
     set (tasks (sdb (tick quiet_env False (\<lambda>_ _. ''u'') 9000000 (quiet [failed_task\<lparr>t_status := T_Cancelled\<rparr>]))))"
proof -
  let ?r = "failed_task\<lparr>t_status := T_Cancelled\<rparr>"
  have "sched_ok (quiet [?r])" by (rule quiet_ok) (simp_all add: failed_task_def claim_ok_def)
  moreover have "?r \<in> set (tasks (sdb (quiet [?r])))" by (simp add: quiet_def demo_db_def)
  moreover have "terminal_row 9000000 ?r" by (simp add: terminal_row_def stuck_row_def failed_task_def)
  ultimately show ?thesis by (rule tick_leaves_settled)
qed

text \<open>C33: A consolidation task that is left in a terminal state stays there. The dispatcher of the healer has a
  case for consolidation tasks, but the query that feeds it names only heartbeat, event, cron and deferred
  tasks: however many ticks run, at whatever times, a failed or completed consolidation row is never armed
  again.\<close>

theorem consolidation_never_healed:
  assumes "sched_ok st" and "r \<in> set (tasks (sdb st))" and "t_type r = Consolidation_Task" and "t_status r \<in> {T_Failed, T_Completed}"
  shows "r \<in> set (tasks (sdb (fold (\<lambda>now. tick env False (uuids now) now) instants st)))"
  using assms by (intro ticks_settled_row) (auto simp: terminal_row_def stuck_row_def)

theorem consolidation_never_healed_witness:
  "failed_task\<lparr>t_type := Consolidation_Task\<rparr> \<in>
     set (tasks (sdb (fold (\<lambda>now. tick quiet_env False (\<lambda>_ _. ''u'') now) [9000000, 9005000]
       (quiet [failed_task\<lparr>t_type := Consolidation_Task\<rparr>]))))"
proof -
  let ?r = "failed_task\<lparr>t_type := Consolidation_Task\<rparr>"
  have "sched_ok (quiet [?r])" by (rule quiet_ok) (simp_all add: failed_task_def claim_ok_def)
  moreover have "?r \<in> set (tasks (sdb (quiet [?r])))" by (simp add: quiet_def demo_db_def)
  moreover have "t_type ?r = Consolidation_Task" "t_status ?r \<in> {T_Failed, T_Completed}" by (simp_all add: failed_task_def)
  ultimately show ?thesis by (rule consolidation_never_healed)
qed

section \<open>Cancellation\<close>

lemma cas_miss_eq: "db_ok d \<Longrightarrow> r \<in> set (tasks d) \<Longrightarrow> t_id r = i \<Longrightarrow> \<not> g r \<Longrightarrow> cas_task i g f d = (False, d)"
  using db_ok_unique by (fastforce simp: cas_task_def list_ex_iff)

text \<open>C30: Cancelling a running cron task does not stop it. The cancel tool accepts the task and writes only its
  status; the lease stays. When the run then completes, its completion write is refused because the row is
  no longer running, but the reschedule that follows tests the lease alone: the cancelled task is pending
  again, with the next run of its schedule.\<close>

theorem cancelled_cron_resurrected:
  assumes "sched_ok st" and "r \<in> set (tasks (sdb st))" and "lease_id r = Some lease"
    and "cancel hooks handles None (Some (t_id r)) st = (Task_Cancelled, st')"
    and "t_id task = t_id r" and "t_type task = Cron_Task" and "trigger_spec task \<noteq> []"
    and "computeNextRunAt (extractCronExpression (e_json env) (trigger_spec task)) now = Inr t"
  shows "cancel_row r \<in> set (tasks (sdb st')) \<and>
         (\<exists>r'\<in>set (tasks (sdb (end_run env uuid now task lease (Run_Returned None res) st'))).
            t_id r' = t_id r \<and> t_status r' = T_Pending \<and> next_run r' = Some t)"
proof -
  have st': "st' = on_db (update_task (t_id r) cancel_row) st"
    using assms(4) by (auto simp: cancel_def falsy_def split: option.splits if_splits)
  have ok: "db_ok (sdb st')" using cancel_ok [OF assms(1), of hooks handles None "Some (t_id r)"] assms(4) by (simp add: sched_ok_def)
  have c: "cancel_row r \<in> set (tasks (sdb st'))" using update_hit [OF assms(2), of cancel_row] by (simp add: st' on_db_def)
  have i: "t_id (cancel_row r) = t_id task" "lease_id (cancel_row r) = Some lease" "t_status (cancel_row r) = T_Cancelled"
    using assms(3,5) by (simp_all add: cancel_row_def)
  have lease: "holds_lease (t_id task) lease (sdb st')" using find_task_eq [OF ok c i(1)] i(2) by (simp add: holds_lease_def)
  have refused: "cas_task (t_id task) (\<lambda>r. t_status r = T_Running \<and> lease_id r = Some lease) f (sdb st') = (False, sdb st')" for f
    by (rule cas_miss_eq [OF ok c i(1)]) (simp add: i)
  have "cron_row ''completion'' t (cancel_row r) \<in>
      set (tasks (sdb (end_run env uuid now task lease (Run_Returned None res) st')))"
    using cron_write.cas_hit [OF c i(1), of "\<lambda>r. lease_id r = Some lease"] i(2) lease assms(6-8)
    by (simp add: end_run_def or_hard_error_def completion_def Let_def refused rescheduleCronTask_def rescheduleHeartbeat_def
        resetEventTask_def falsy_def)
  then show ?thesis using c i(1) assms(5)
    by (intro conjI bexI [of _ "cron_row ''completion'' t (cancel_row r)"]) (simp_all add: task_rows)
qed

definition demo_cron :: task_row where
  "demo_cron = failed_task\<lparr>t_type := Cron_Task, t_status := T_Running, trigger_spec := ''*/15 9-17 * * 1-5''\<rparr>"

theorem cancelled_cron_resurrected_witness:
  "\<exists>r'\<in>set (tasks (sdb (end_run quiet_env ''u'' 32400000 demo_cron ''l1'' (Run_Returned None ''ok'')
       (snd (cancel [] [] None (Some ''t1'') (quiet [demo_cron])))))).
     t_id r' = ''t1'' \<and> t_status r' = T_Pending \<and> next_run r' = Some 33300000"
proof -
  have t: "t_id demo_cron = ''t1''" "lease_id demo_cron = Some ''l1''" by (simp_all add: demo_cron_def failed_task_def)
  have 1: "sched_ok (quiet [demo_cron])" by (rule quiet_ok) (simp_all add: demo_cron_def failed_task_def claim_ok_def)
  have 2: "demo_cron \<in> set (tasks (sdb (quiet [demo_cron])))" by (simp add: quiet_def demo_db_def)
  have 3: "cancel [] [] None (Some (t_id demo_cron)) (quiet [demo_cron]) =
      (Task_Cancelled, snd (cancel [] [] None (Some (t_id demo_cron)) (quiet [demo_cron])))"
    by (simp add: cancel_def falsy_def quiet_def demo_db_def demo_cron_def failed_task_def findTaskInfraBinding_def)
  have 4: "computeNextRunAt (extractCronExpression (e_json quiet_env) (trigger_spec demo_cron)) 32400000 = Inr 33300000"
    by code_simp
  have 5: "t_type demo_cron = Cron_Task" "trigger_spec demo_cron \<noteq> []" by (simp_all add: demo_cron_def)
  from cancelled_cron_resurrected [OF 1 2 t(2) 3 refl 5 4] show ?thesis by (simp add: t(1))
qed

section \<open>Tasks on events\<close>

lemma event_loop_frame:
  "r \<in> set (tasks (sdb st)) \<Longrightarrow> t_id r \<notin> t_id ` set rs \<Longrightarrow> r \<in> set (tasks (sdb (event_loop env now rs st)))"
  by (induction env now rs st rule: event_loop.induct)
    (auto simp: on_db_def claim_task_def cas_frame split: option.split)

text \<open>C34: A task scheduled on an event never starts. The task tool stores the trigger of an event task as the text
  of a JSON object around the event's name, while the scheduler looks event tasks up by comparing the
  stored trigger with the name itself. For every \<open>JSON.stringify\<close> whose text of an object is longer than the
  strings in it, the task that the tool has just scheduled is pending without a time, so that no tick finds
  it due, and the very event it was scheduled on does not claim it.\<close>

theorem tool_event_never_fires:
  assumes "\<forall>ob k s. (k, JStr s) \<in> set ob \<longrightarrow> length s < length (stringify (JObj ob))"
    and "sched_ok st" and "in_event inp = Some e" and "falsy (in_delay inp)" and "falsy (in_cron inp)"
    and "handleSchedule stringify stamp check_hint siteId i now inp st = (Inr i, st')"
  shows "\<exists>r\<in>set (tasks (sdb st')). t_id r = i \<and> t_type r = Event_Task \<and> t_status r = T_Pending \<and> (\<forall>now'. \<not> due now' r) \<and>
           r \<in> set (tasks (sdb (onEvent env now2 e st')))"
proof -
  have ok: "db_ok (sdb st')"
    using handleSchedule_ok [OF assms(2), of stringify stamp check_hint siteId i now inp] assms(6) by (simp add: sched_ok_def)
  obtain r where r: "r \<in> set (tasks (sdb st'))" "t_id r = i" "t_type r = Event_Task" "t_status r = T_Pending" "next_run r = None"
      "trigger_spec r = stringify (JObj [(''type'', JStr ''event''), (''event'', JStr e)])"
    using handleSchedule_row [OF assms(6)] assms(3-5) by (fastforce simp: trigger_of_def scheduled_row_def)
  have "(''event'', JStr e) \<in> set [(''type'', JStr ''event''), (''event'', JStr e)]" by simp
  then have "length e < length (trigger_spec r)" using assms(1) r(6) by metis
  then have spec: "trigger_spec r \<noteq> e" by auto
  let ?rs = "filter (\<lambda>r. t_type r = Event_Task \<and> t_status r = T_Pending \<and> \<not> t_deleted r \<and> trigger_spec r = e) (tasks (sdb st'))"
  have "t_id r \<notin> t_id ` set ?rs" using db_ok_unique [OF ok r(1)] spec by auto
  then have "r \<in> set (tasks (sdb (onEvent env now2 e st')))"
    using r(1) event_loop_frame [of r "st'\<lparr>eventDepth := eventDepth st' + 1\<rparr>" ?rs env now2]
    by (simp add: onEvent_def Let_def)
  then show ?thesis using r by (auto simp: due_def)
qed

theorem tool_event_never_fires_witness:
  "\<exists>r\<in>set (tasks (sdb demo_sched)). t_id r = ''t1'' \<and> t_status r = T_Pending \<and>
     r \<in> set (tasks (sdb (onEvent quiet_env 5 ''deploy'' demo_sched)))"
proof -
  have 1: "\<forall>ob k s. (k, JStr s) \<in> set ob \<longrightarrow> length s < length (plain_text (JObj ob))"
    by (auto simp: plain_text_def dest!: split_list)
  have 2: "sched_ok (sched_init 0)" by (rule sched_reachable_ok) (rule start)
  have 3: "in_event demo_input = Some ''deploy''" "falsy (in_delay demo_input)" "falsy (in_cron demo_input)"
    by (simp_all add: demo_input_def falsy_def)
  have 4: "handleSchedule plain_text (\<lambda>_. ''T'') (\<lambda>_. None) ''a'' ''t1'' 0 demo_input (sched_init 0) = (Inr ''t1'', demo_sched)"
    by (simp add: demo_sched_def handleSchedule_def demo_input_def falsy_def trigger_of_def sched_init_def)
  show ?thesis using tool_event_never_fires [OF 1 2 3 4, of quiet_env 5] by blast
qed

section \<open>Firings\<close>

lemma find_live: "db_ok d \<Longrightarrow> r \<in> set (tasks d) \<Longrightarrow> \<not> t_deleted r \<Longrightarrow> find (\<lambda>x. t_id x = t_id r \<and> \<not> t_deleted x) (tasks d) = Some r"
proof -
  assume a: "db_ok d" "r \<in> set (tasks d)" "\<not> t_deleted r"
  then obtain x where x: "find (\<lambda>x. t_id x = t_id r \<and> \<not> t_deleted x) (tasks d) = Some x"
    by (cases "find (\<lambda>x. t_id x = t_id r \<and> \<not> t_deleted x) (tasks d)") (auto simp: find_None_iff)
  then have "x \<in> set (tasks d)" "t_id x = t_id r" by (auto simp: find_Some_iff)
  then show ?thesis using x db_ok_unique [OF a(1), of x r] a(2) by simp
qed

lemma expire_spool: "task_spool (expire_claims now d) = task_spool d"
  unfolding expire_claims_def by (rule fold_ok [of "\<lambda>x. task_spool x = task_spool d"]) (simp_all add: update_task_def cas_task_def)

lemma expire_hit:
  assumes "db_ok d" and "r \<in> set (tasks d)" and "stale_claim now r"
  shows "expire_claim r \<in> set (tasks (expire_claims now d))"
proof -
  obtain xs ys where l: "filter (stale_claim now) (tasks d) = xs @ r # ys"
    using split_list [of r "filter (stale_claim now) (tasks d)"] assms(2,3) by auto
  have "distinct (map t_id (filter (stale_claim now) (tasks d)))" using assms(1) by (simp add: db_ok_def distinct_map_filter)
  then have ids: "t_id r \<notin> t_id ` set xs" "t_id r \<notin> t_id ` set ys" by (auto simp: l)
  have "expire_claim r \<in> set (tasks (update_task (t_id r) expire_claim (fold (\<lambda>r. update_task (t_id r) expire_claim) xs d)))"
    using fold_update_frame [OF assms(2) ids(1)] by (rule update_hit)
  then have "expire_claim r \<in> set (tasks (fold (\<lambda>r. update_task (t_id r) expire_claim) ys
      (update_task (t_id r) expire_claim (fold (\<lambda>r. update_task (t_id r) expire_claim) xs d))))"
    using ids(2) by (intro fold_update_frame) (simp_all add: expire_write.step_id)
  then show ?thesis by (simp add: expire_claims_def l)
qed

lemma enqueue_fenced:
  assumes "w \<in> set (task_spool (sdb st))" and "kind w = ''task_fire''"
    and "idempotency_key w = taskFireIdempotencyKey (t_id r) (e_stamp env t)"
    and "next_run r = Some t" and "uuid \<noteq> []" and "e_site env \<noteq> []"
  shows "enqueueTaskFire env uuid now r st = Some st"
proof -
  have "fenced (task_spool (sdb st)) (fire_work env uuid now (t_id r) (e_stamp env t))"
    using assms(1-3) by (auto simp: fenced_def fire_work_def list_ex_iff)
  then show ?thesis
    using assms(4-6)
    by (simp add: enqueueTaskFire_def insertDurableWork_def validateDurableWork_def fire_work_def taskFireIdempotencyKey_def
        json_stringify_def on_spool_def on_db_def)
qed

lemma process_fire_stale:
  assumes "sched_ok st" and "r \<in> set (tasks (sdb st))" and "\<not> t_deleted r" and "next_run r = Some t"
    and "t_status r = T_Claimed" and "t_claimed_by r \<noteq> Some (e_site env)" and "t_id r \<noteq> []" and "e_stamp env t \<noteq> []"
    and "e_date env (e_stamp env t) = Some t"
    and "claimLocalDurableWork (task_spool (sdb st)) (e_site env) (Some ''task_fire'') tok now = (rows, Some w)"
    and "payload w = json_stringify (fire_payload (t_id r) (e_stamp env t))"
  shows "processPendingTaskFire env tok l now st = ack_firing now (wid w) tok (on_spool (\<lambda>_. rows) st)"
proof -
  have "find (\<lambda>x. t_id x = t_id r \<and> \<not> t_deleted x) (tasks (sdb st)) = Some r"
    using find_live [of "sdb st" r] assms(1-3) by (simp add: sched_ok_def)
  moreover have "parseTaskFirePayload env (payload w) = Inr (t_id r, e_stamp env t)"
    using assms(7-9,11)
    by (cases "t_id r"; cases "e_stamp env t") (simp_all add: parseTaskFirePayload_def fire_payload_def is_object_def object_prop_def obj_get_def)
  ultimately show ?thesis
    using assms(4-6,10) by (simp add: processPendingTaskFire_def classifyStaleFiring_def self_owned_def)
qed

lemma ack_after_claim:
  assumes "spool_ok rows0" and "claimLocalDurableWork rows0 site k tok now = (rows, Some w)"
  shows "to_consumed now w \<in> set (fst (acknowledgeDurableWork rows (wid w) tok now))"
proof -
  obtain row where row: "row \<in> set rows0" "claim_state row = Pending" "w = to_processing tok now row"
      "rows = claim_row tok now (wid row) rows0"
    using claimLocal_Some [OF assms(2)] by metis
  have "w \<in> set rows" using row by (auto simp: claim_row_def intro: update_where_hit)
  then show ?thesis
    using row(3) by (auto simp: acknowledgeDurableWork_def ack_matches_def to_processing_def intro: update_where_hit)
qed

text \<open>C31: A firing that is superseded by a peer's claim loses its instant. The firing lane of a host finds a due
  firing whose task a peer has claimed, and consumes it. When the peer never runs the task, the claim
  expires and the task is pending again at the same instant; but the consumed row still holds the fence of
  that instant: the task enters no new firing into the spool, and the only firing of the instant is
  consumed. The task waits until the consumed row is pruned.\<close>

theorem superseded_firing_stranded:
  assumes "sched_ok st" and "r \<in> set (tasks (sdb st))" and "\<not> t_deleted r" and "next_run r = Some t"
    and "t_status r = T_Claimed" and "t_claimed_by r \<noteq> Some (e_site env)" and "t_id r \<noteq> []" and "e_stamp env t \<noteq> []"
    and "e_date env (e_stamp env t) = Some t"
    and "claimLocalDurableWork (task_spool (sdb st)) (e_site env) (Some ''task_fire'') tok now = (rows, Some w)"
    and "payload w = json_stringify (fire_payload (t_id r) (e_stamp env t))"
    and "kind w = ''task_fire''" and "idempotency_key w = taskFireIdempotencyKey (t_id r) (e_stamp env t)"
    and "stale_claim now2 r" and "uuid \<noteq> []" and "e_site env \<noteq> []"
    and "st2 = on_db (expire_claims now2) (processPendingTaskFire env tok l now st)"
  shows "expire_claim r \<in> set (tasks (sdb st2)) \<and> t_status (expire_claim r) = T_Pending \<and> next_run (expire_claim r) = Some t \<and>
         enqueueTaskFire env uuid now2 (expire_claim r) st2 = Some st2 \<and>
         (\<forall>x\<in>set (task_spool (sdb st2)). fence_key x = (''task_fire'', taskFireIdempotencyKey (t_id r) (e_stamp env t)) \<longrightarrow>
            claim_state x = Consumed)"
proof -
  let ?st1 = "processPendingTaskFire env tok l now st"
  have st1: "?st1 = ack_firing now (wid w) tok (on_spool (\<lambda>_. rows) st)" by (rule process_fire_stale [OF assms(1-11)])
  have ok1: "db_ok (sdb ?st1)" using process_fire_ok [OF assms(1)] by (simp add: sched_ok_def)
  have spool2: "task_spool (sdb st2) = task_spool (sdb ?st1)" using expire_spool by (simp add: assms(17) on_db_def)
  have w: "to_consumed now w \<in> set (task_spool (sdb st2))"
    using ack_after_claim [OF _ assms(10)] assms(1)
    by (simp add: spool2 st1 ack_firing_def on_spool_def on_db_def sched_ok_def db_ok_def)
  have "r \<in> set (tasks (sdb ?st1))" using assms(2) by (simp add: st1)
  then have row: "expire_claim r \<in> set (tasks (sdb st2))"
    using expire_hit [OF ok1 _ assms(14)] by (simp add: assms(17) on_db_def)
  have fenced: "enqueueTaskFire env uuid now2 (expire_claim r) st2 = Some st2"
    using enqueue_fenced [OF w, of "expire_claim r" env t uuid now2] assms(4,12,13,15,16)
    by (simp add: to_consumed_def task_rows)
  have "claim_state x = Consumed"
    if "x \<in> set (task_spool (sdb st2))" "fence_key x = (''task_fire'', taskFireIdempotencyKey (t_id r) (e_stamp env t))" for x
  proof -
    have "fence_key x = fence_key (to_consumed now w)" using that(2) assms(12,13) by (simp add: fence_key_def to_consumed_def)
    then have "x = to_consumed now w" using ok1 w that(1) spool2 by (auto simp: db_ok_def spool_ok_def distinct_map dest: inj_onD)
    then show ?thesis by (simp add: to_consumed_def)
  qed
  then show ?thesis using row fenced assms(4) by (auto simp: task_rows)
qed

definition demo_peer :: task_row where
  "demo_peer = failed_task\<lparr>t_status := T_Claimed, t_claimed_by := Some ''b''\<rparr>"

definition demo_firing :: work_row where
  "demo_firing = fresh_row (fire_work quiet_env ''w1'' 0 ''t1'' ''T'') 0"

definition demo_fired :: sched where
  "demo_fired = on_spool (\<lambda>_. [demo_firing]) (quiet [demo_peer])"

theorem superseded_firing_stranded_witness:
  "enqueueTaskFire quiet_env ''u'' 600000 (expire_claim demo_peer)
     (on_db (expire_claims 600000) (processPendingTaskFire quiet_env ''tok'' ''l2'' 5 demo_fired)) =
   Some (on_db (expire_claims 600000) (processPendingTaskFire quiet_env ''tok'' ''l2'' 5 demo_fired))"
proof -
  let ?rows = "[to_processing ''tok'' 5 demo_firing]"
  have ok: "sched_ok demo_fired"
    using quiet_ok [of "[demo_peer]"] unfolding demo_fired_def
    by (simp add: sched_ok_def on_spool_def on_db_def db_ok_def demo_firing_def spool_ok_def fresh_row_ok)
      (simp add: demo_peer_def failed_task_def claim_ok_def)
  have row: "demo_peer \<in> set (tasks (sdb demo_fired))" by (simp add: demo_fired_def quiet_def demo_db_def)
  have task: "\<not> t_deleted demo_peer" "next_run demo_peer = Some 0" "t_status demo_peer = T_Claimed"
      "t_claimed_by demo_peer \<noteq> Some (e_site quiet_env)" "t_id demo_peer \<noteq> []"
    by (simp_all add: demo_peer_def failed_task_def quiet_env_def)
  have env: "e_stamp quiet_env 0 \<noteq> []" "e_date quiet_env (e_stamp quiet_env 0) = Some 0" by (simp_all add: quiet_env_def)
  have claim: "claimLocalDurableWork (task_spool (sdb demo_fired)) (e_site quiet_env) (Some ''task_fire'') ''tok'' 5 =
      (?rows, Some (to_processing ''tok'' 5 demo_firing))"
    by code_simp
  have work: "payload (to_processing ''tok'' 5 demo_firing) = json_stringify (fire_payload (t_id demo_peer) (e_stamp quiet_env 0))"
      "kind (to_processing ''tok'' 5 demo_firing) = ''task_fire''"
      "idempotency_key (to_processing ''tok'' 5 demo_firing) = taskFireIdempotencyKey (t_id demo_peer) (e_stamp quiet_env 0)"
    by (simp_all add: to_processing_def demo_firing_def fresh_row_def fire_work_def demo_peer_def failed_task_def quiet_env_def)
  have stale: "stale_claim 600000 demo_peer"
    by (simp add: stale_claim_def demo_peer_def failed_task_def LEASE_DURATION_def)
  have site: "''u'' \<noteq> []" "e_site quiet_env \<noteq> []" by (simp_all add: quiet_env_def)
  show ?thesis
    using superseded_firing_stranded [OF ok row task env claim work stale site refl, of "''l2''"] by blast
qed

section \<open>Failed runs\<close>

lemma write_failure_hit:
  assumes "sched_ok st" and "r \<in> set (tasks (sdb st))" and "lease_id r = Some l"
  shows "fail_row e r \<in> set (tasks (sdb (write_failure (t_id r) l (fail_row e) st)))"
    and "find_task (t_id r) (sdb (write_failure (t_id r) l (fail_row e) st)) = Some (fail_row e r)"
    and "holds_lease (t_id r) l (sdb st)"
proof -
  show hit: "fail_row e r \<in> set (tasks (sdb (write_failure (t_id r) l (fail_row e) st)))"
    using fail_write.cas_hit [OF assms(2) refl, of "\<lambda>r. lease_id r = Some l"] assms(3) by (simp add: write_failure_def on_db_def)
  show "find_task (t_id r) (sdb (write_failure (t_id r) l (fail_row e) st)) = Some (fail_row e r)"
    using find_task_eq [OF _ hit] write_failure_ok(1) [OF assms(1)] by (simp add: sched_ok_def task_rows)
  show "holds_lease (t_id r) l (sdb st)"
    using find_task_eq [OF _ assms(2) refl] assms(1,3) by (simp add: holds_lease_def sched_ok_def)
qed

text \<open>C23: A failing deferred task is retried twice and then given up. When a run that holds the lease of a
  deferred task throws with at most one failure before it, the row is pending again with its claim and
  lease released and the failure counted, due after a backoff that grows linearly with the number of
  consecutive failures. The third failure leaves the row failed with no retry scheduled, and no sequence of
  later ticks, at whatever times, touches it again.\<close>

theorem deferred_retry_bound:
  assumes "sched_ok st" and "r \<in> set (tasks (sdb st))" and "lease_id r = Some l" and "failures r = Some n"
    and "t_type r = Deferred_Task" and "t_id task = t_id r" and "t_type task = Deferred_Task"
  shows "if n < 2
         then r\<lparr>t_status := T_Pending, next_run := Some (now + e_backoff env * (n + 1)), failures := Some (n + 1),
                task_error := Some err, t_claimed_by := None, t_claimed_at := None, lease_id := None\<rparr>
                \<in> set (tasks (sdb (end_run env u now task l (Run_Threw err) st)))
         else r\<lparr>t_status := T_Failed, failures := Some (n + 1), task_error := Some err\<rparr>
                \<in> set (tasks (sdb (fold (\<lambda>now'. tick env stop (uuids now') now') instants
                     (end_run env u now task l (Run_Threw err) st))))"
proof -
  note w = write_failure_hit(1,2) [OF assms(1-3), of err] write_failure_hit(3) [OF assms(1-3)]
  let ?st1 = "write_failure (t_id r) l (fail_row err) st"
  have n: "counted (t_id r) ?st1 = n + 1" using w(2) assms(4) by (simp add: counted_def failure_count_def task_rows)
  have st': "sdb (end_run env u now task l (Run_Threw err) st) = snd (retryDeferredTask now task (n + 1) (e_backoff env) (sdb ?st1))"
    using w(3) n assms(6,7)
    by (simp add: end_run_def hard_error_def Let_def after_failure_def rescheduleCronTask_def rescheduleHeartbeat_def resetEventTask_def)
  have failed: "r\<lparr>t_status := T_Failed, failures := Some (n + 1), task_error := Some err\<rparr> = fail_row err r"
    using assms(4) by (simp add: fail_row_def)
  have retried: "r\<lparr>t_status := T_Pending, next_run := Some x, failures := Some (n + 1), task_error := Some err,
      t_claimed_by := None, t_claimed_at := None, lease_id := None\<rparr> = retried_row x (n + 1) (fail_row err r)" for x
    by (simp add: retried_row_def fail_row_def release_claim_def)
  show ?thesis
  proof (cases "n < 2")
    case True
    have "f (fail_row err r) \<in> set (tasks (update_task (t_id r) f (sdb ?st1)))" for f
      using update_hit [OF w(1), of f] by (simp add: task_rows)
    then show ?thesis unfolding retried using True assms(6,7) by (simp add: st' retryDeferredTask_def DEFERRED_MAX_RETRIES_def)
  next
    case False
    have kept: "fail_row err r \<in> set (tasks (sdb (end_run env u now task l (Run_Threw err) st)))"
      using w(1) False assms(7) by (simp add: st' retryDeferredTask_def DEFERRED_MAX_RETRIES_def)
    have "terminal_row now' (fail_row err r)" for now'
      using False assms(4,5) by (simp add: terminal_row_def stuck_row_def task_rows DEFERRED_MAX_RETRIES_def)
    then show ?thesis using False ticks_settled_row [OF end_run_ok [OF assms(1)] kept] by (simp add: failed)
  qed
qed

definition demo_running :: task_row where
  "demo_running = failed_task\<lparr>t_status := T_Running\<rparr>"

theorem deferred_retry_bound_witness:
  "demo_running\<lparr>t_status := T_Pending, next_run := Some 10007, failures := Some 2, task_error := Some ''boom'',
       t_claimed_by := None, t_claimed_at := None, lease_id := None\<rparr> \<in>
     set (tasks (sdb (end_run quiet_env ''u'' 7 demo_running ''l1'' (Run_Threw ''boom'') (quiet [demo_running]))))"
proof -
  have 1: "sched_ok (quiet [demo_running])" by (rule quiet_ok) (simp_all add: demo_running_def failed_task_def claim_ok_def)
  have 2: "demo_running \<in> set (tasks (sdb (quiet [demo_running])))" by (simp add: quiet_def demo_db_def)
  have 3: "lease_id demo_running = Some ''l1''" "failures demo_running = Some 1" "t_type demo_running = Deferred_Task"
    by (simp_all add: demo_running_def failed_task_def)
  show ?thesis
    using deferred_retry_bound [OF 1 2 3 refl 3(3), where now = 7 and env = quiet_env and err = "''boom''" and u = "''u''"] by (simp add: quiet_env_def)
qed

section \<open>Events that were folded but not delivered\<close>

lemma claim_each_row:
  "x \<in> set (fst (claim_each tok now n rs rows)) \<Longrightarrow>
   \<exists>y\<in>set rows. wid x = wid y \<and> kind x = kind y \<and> ref_id x = ref_id y \<and>
     (if wid y \<in> wid ` set rs \<and> claim_state y = Pending then claim_state x = Processing else x = y)"
proof (induction tok now n rs rows rule: claim_each.induct)
  case (2 tok now n r rs rows)
  then obtain y where y: "y \<in> set (claim_row (tok n) now (wid r) rows)" "wid x = wid y" "kind x = kind y" "ref_id x = ref_id y"
      "if wid y \<in> wid ` set rs \<and> claim_state y = Pending then claim_state x = Processing else x = y"
    by (auto simp: case_prod_unfold Let_def)
  then obtain z where z: "z \<in> set rows" "y = (if wid z = wid r \<and> claim_state z = Pending then to_processing (tok n) now z else z)"
    by (auto simp: claim_row_def update_where_def)
  show ?case using y z by (intro bexI [of _ z]) (auto simp: to_processing_def split: if_splits)
qed auto

definition intake_of :: "string \<Rightarrow> work_row \<Rightarrow> bool" where
  "intake_of t w \<longleftrightarrow> ref_id w = Some t \<and> kind w \<in> set PASSIVE_INTAKE_KINDS"

lemma fold_events_claims:
  assumes "t_type task = Event_Task" and "thread_id task = Some t" and "t \<noteq> []"
    and "\<forall>w\<in>set rows. intake_of t w \<and> claim_state w = Pending \<longrightarrow> target_site_id w = site"
    and "w0 \<in> set rows" and "intake_of t w0" and "claim_state w0 = Pending" and "spool_ok rows"
  shows "countPendingIntakeDurableWork (fst (fold_events site tok now task rows)) t = 0"
    and "\<exists>x\<in>set (fst (fold_events site tok now task rows)). wid x = wid w0 \<and> claim_state x = Processing"
    and "snd (fold_events site tok now task rows) \<noteq> []"
proof -
  let ?listed = "listPendingIntakeDurableWorkForRef rows t"
  let ?sel = "filter (\<lambda>r. target_site_id r = site \<and> claim_state r = Pending \<and> wid r \<in> set (map wid ?listed)) rows"
  have listed: "set ?listed = {w \<in> set rows. intake_of t w \<and> claim_state w = Pending}"
    by (auto simp: listPendingIntakeDurableWorkForRef_def intake_of_def)
  have ne: "?listed \<noteq> []" using listed assms(5-7) by (metis (mono_tags, lifting) empty_iff empty_set mem_Collect_eq)
  have cl: "claimDurableWorkByIds rows (map wid ?listed) site tok now = claim_each tok now 0 ?sel rows"
    using ne by (simp add: claimDurableWorkByIds_def)
  have fst: "fst (fold_events site tok now task rows) = fst (claim_each tok now 0 ?sel rows)"
    using assms(1-3) cl by (simp add: fold_events_def falsy_def Let_def case_prod_unfold)
  have sel: "wid y \<in> wid ` set ?sel" if "y \<in> set rows" "intake_of t y" "claim_state y = Pending" for y
    using that listed assms(4) by auto
  show "countPendingIntakeDurableWork (fst (fold_events site tok now task rows)) t = 0"
    unfolding countPendingIntakeDurableWork_def fst count_where_0
  proof (intro ballI notI)
    fix x assume x: "x \<in> set (fst (claim_each tok now 0 ?sel rows))"
      and p: "ref_id x = Some t \<and> kind x \<in> set PASSIVE_INTAKE_KINDS \<and> claim_state x = Pending"
    from claim_each_row [OF x] p sel show False by (auto simp: intake_of_def split: if_splits)
  qed
  have "wid w0 \<in> wid ` set (fst (claim_each tok now 0 ?sel rows))"
    using claim_each_frame(1) [of tok now 0 ?sel rows] assms(5) by (metis image_eqI set_map)
  then obtain x where x: "x \<in> set (fst (claim_each tok now 0 ?sel rows))" "wid x = wid w0" by auto
  show "\<exists>x\<in>set (fst (fold_events site tok now task rows)). wid x = wid w0 \<and> claim_state x = Processing"
    using claim_each_row [OF x(1)] x sel [OF assms(5-7)] spool_ok_unique [OF assms(8) assms(5)] assms(7)
    unfolding fst by (intro bexI [of _ x]) (auto split: if_splits)
  let ?tok = "map_of (map (\<lambda>r. (wid r, the (claim_token r))) (snd (claim_each tok now 0 ?sel rows)))"
  have "wid ` set (snd (claim_each tok now 0 ?sel rows)) = wid ` set ?sel"
    using claim_each_ids [of tok now 0 ?sel rows] by (metis set_map)
  then have "?tok (wid w0) \<noteq> None" using sel [OF assms(5-7)] by (auto simp: map_of_eq_None_iff image_image)
  moreover have "w0 \<in> set ?listed" using listed assms(5-7) by simp
  ultimately have "(wid w0, the (?tok (wid w0))) \<in> set (List.map_filter (\<lambda>r. map_option (\<lambda>t. (wid r, t)) (?tok (wid r))) ?listed)"
    by (force simp: List.map_filter_def)
  then show "snd (fold_events site tok now task rows) \<noteq> []"
    using assms(1-3) cl by (auto simp: fold_events_def falsy_def Let_def case_prod_unfold)
qed

lemma lease_held:
  assumes "db_ok d" and "r \<in> set (tasks d)" and "\<not> t_deleted r" and "t_claimed_by r = Some site" and "lease_id r = Some l"
    and "t_status r = T_Running"
  shows "verifyLeaseStillHeld (map sql_task (tasks d)) (t_id r) site l = None"
proof -
  have "find (\<lambda>x. sql_eq (x ''id'') (JStr i)) (map sql_task rs) = map_option sql_task (find (\<lambda>x. t_id x = i) rs)" for rs i
    by (induction rs) (simp_all add: sql_task_def sql_eq_def)
  then have "find (\<lambda>x. sql_eq (x ''id'') (JStr (t_id r))) (map sql_task (tasks d)) = Some (sql_task r)"
    using find_task_eq [OF assms(1,2) refl] by (simp add: find_task_def)
  then show ?thesis
    using assms(3-6) by (simp add: verifyLeaseStillHeld_def sql_task_def null_or_str_def status_text_def)
qed

lemma hard_error_event:
  assumes "sched_ok st" and "r \<in> set (tasks (sdb st))" and "lease_id r = Some l" and "\<not> t_deleted r"
    and "t_id task = t_id r" and "t_type task = Event_Task" and "thread_id task = Some t"
    and "countPendingIntakeDurableWork (task_spool (sdb st)) t = 0"
  shows "reset_row None (fail_row e r) \<in> set (tasks (sdb (hard_error env u now task l e st)))"
    and "task_spool (sdb (hard_error env u now task l e st)) = task_spool (sdb st)"
proof -
  note w = write_failure_hit(1,2) [OF assms(1-3), of e] write_failure_hit(3) [OF assms(1-3)]
  let ?st1 = "write_failure (t_id r) l (fail_row e) st"
  have sp: "task_spool (sdb ?st1) = task_spool (sdb st)" by (simp add: write_failure_def on_db_def cas_task_def)
  have "event_rearm now task ''hard error'' (fail_row e r) (task_spool (sdb ?st1)) = None"
    using assms(7,8) sp by (simp add: event_rearm_def)
  then have "sdb (hard_error env u now task l e st) = update_task (t_id r) (reset_row None) (sdb ?st1)"
    using w(2,3) assms(4-6)
    by (simp add: hard_error_def Let_def after_failure_def rescheduleCronTask_def rescheduleHeartbeat_def retryDeferredTask_def
        resetEventTask_def task_rows)
  then show "reset_row None (fail_row e r) \<in> set (tasks (sdb (hard_error env u now task l e st)))"
    "task_spool (sdb (hard_error env u now task l e st)) = task_spool (sdb st)"
    using update_hit [OF w(1), of "reset_row None"] sp by (simp_all add: task_rows update_task_def cas_task_def)
qed

text \<open>C32: Events folded into a wakeup that cannot be persisted are stranded. A re-armed event task whose
  thread has pending intake, all of it addressed to this host, folds the intake, which claims it, and then inserts its
  wakeup messages under the ids of the firing. When a peer's copy of the wakeup has already arrived, the
  insert is refused and the run takes the failure path: the reset looks for pending intake, finds none
  because the run itself holds the claims, and leaves the task pending with no next run and its claim
  released, while every event that was folded stays claimed.\<close>

theorem folded_events_stranded:
  assumes "sched_ok st" and "r \<in> set (tasks (sdb st))" and "\<not> t_deleted r" and "t_status r = T_Running"
    and "t_claimed_by r = Some (e_site env)" and "lease_id r = Some l"
    and "t_id task = t_id r" and "t_type task = Event_Task" and "thread_id task = Some t" and "t \<noteq> []"
    and "firing_key env task = Some k"
    and "wakeupMessageId (deriveFiringWakeupIds (e_det env) k) \<in> msg_id ` set (smessages st)"
    and "\<forall>w\<in>set (task_spool (sdb st)). intake_of t w \<and> claim_state w = Pending \<longrightarrow> target_site_id w = e_site env"
    and "w0 \<in> set (task_spool (sdb st))" and "intake_of t w0" and "claim_state w0 = Pending"
  shows "snd (launch_run env uuid tok now task l st) = No_Loop \<and>
         r\<lparr>t_status := T_Pending, next_run := None, task_error := Some (e_constraint_error env),
           failures := map_option (\<lambda>n. n + 1) (failures r), t_claimed_by := None, t_claimed_at := None, lease_id := None\<rparr>
           \<in> set (tasks (sdb (fst (launch_run env uuid tok now task l st)))) \<and>
         (\<exists>x\<in>set (task_spool (sdb (fst (launch_run env uuid tok now task l st)))). wid x = wid w0 \<and> claim_state x = Processing)"
proof -
  have ok: "db_ok (sdb st)" using assms(1) by (simp add: sched_ok_def)
  obtain rows claims where f: "fold_events (e_site env) tok now task (task_spool (sdb st)) = (rows, claims)" by fastforce
  have spool: "spool_ok (task_spool (sdb st))" using ok by (simp add: db_ok_def)
  note fe = fold_events_claims [OF assms(8-10,13-16) spool, of tok now, unfolded f fst_conv snd_conv]
  let ?st3 = "on_spool (\<lambda>_. rows) (ensure_thread t st)"
  have rows: "spool_ok rows" using fold_events_ok [OF spool, of "e_site env" tok now task] f by simp
  have ok3: "sched_ok ?st3" using ok rows by (simp add: sched_ok_def on_spool_def on_db_def db_ok_def)
  have r3: "r \<in> set (tasks (sdb ?st3))" using assms(2) by simp
  have c3: "countPendingIntakeDurableWork (task_spool (sdb ?st3)) t = 0" using fe(1) by (simp add: on_spool_def on_db_def)
  have m3: "smessages ?st3 = smessages st" by (simp add: on_spool_def on_db_def ensure_thread_def)
  have ins: "insert_messages (wakeup_messages env uuid task t) ?st3 = (?st3, True)"
    using assms(11,12) m3 by (simp add: wakeup_messages_def Let_def)
  have held: "verifyLeaseStillHeld (map sql_task (tasks (sdb st))) (t_id task) (e_site env) l = None"
    using lease_held [OF ok assms(2,3,5,6,4)] assms(7) by simp
  have launch: "launch_run env uuid tok now task l st =
      (finished (t_id task) (hard_error env (uuid 6) now task l (e_constraint_error env) ?st3), No_Loop)"
    using held f fe(3) assms(8-10) ins
    by (simp add: launch_run_def run_thread_def falsy_def Let_def persist_wakeup_def)
  have row: "r\<lparr>t_status := T_Pending, next_run := None, task_error := Some (e_constraint_error env),
      failures := map_option (\<lambda>n. n + 1) (failures r), t_claimed_by := None, t_claimed_at := None, lease_id := None\<rparr> =
      reset_row None (fail_row (e_constraint_error env) r)"
    by (simp add: reset_row_def fail_row_def release_claim_def)
  show ?thesis
    unfolding row using hard_error_event [OF ok3 r3 assms(6,3,7,8,9) c3, where e = "e_constraint_error env" and env = env and u = "uuid 6" and now = now] fe(2)
    by (simp add: launch on_spool_def on_db_def)
qed

definition demo_listener :: task_row where
  "demo_listener = failed_task\<lparr>t_type := Event_Task, t_status := T_Running, thread_id := Some ''th''\<rparr>"

definition demo_intake :: work_row where
  "demo_intake =
     fresh_row \<lparr>new_id = ''e1'', new_target = ''a'', new_kind = ''webhook_intake'', new_payload = json_stringify JNull, new_key = ''k1'',
       new_expires_at = None, new_ref_id = Some ''th'', new_source_site = None, new_received_at = None, new_stream_id = None,
       new_trace_context = None\<rparr> 0"

definition demo_rearmed :: sched where
  "demo_rearmed =
     (on_spool (\<lambda>_. [demo_intake]) (quiet [demo_listener]))
       \<lparr>smessages := [\<lparr>msg_id = ''firing:t1:T:wakeup'', msg_thread = ''th'', msg_role = ''developer''\<rparr>]\<rparr>"

theorem folded_events_stranded_witness:
  "\<exists>x\<in>set (task_spool (sdb (fst (launch_run quiet_env (\<lambda>_. ''u'') (\<lambda>_. ''tok'') 9 demo_listener ''l1'' demo_rearmed)))).
     wid x = ''e1'' \<and> claim_state x = Processing"
proof -
  have spool: "task_spool (sdb demo_rearmed) = [demo_intake]" by (simp add: demo_rearmed_def on_spool_def on_db_def)
  have tasks: "tasks (sdb demo_rearmed) = [demo_listener]" by (simp add: demo_rearmed_def quiet_def demo_db_def)
  have 1: "sched_ok demo_rearmed"
    using fresh_row_ok
    by (auto simp: sched_ok_def db_ok_def spool tasks spool_ok_def demo_intake_def demo_listener_def failed_task_def claim_ok_def)
  have 2: "demo_listener \<in> set (tasks (sdb demo_rearmed))" by (simp add: tasks)
  have 3: "\<not> t_deleted demo_listener" "t_status demo_listener = T_Running" "t_claimed_by demo_listener = Some (e_site quiet_env)"
      "lease_id demo_listener = Some ''l1''" "t_type demo_listener = Event_Task" "thread_id demo_listener = Some ''th''"
    by (simp_all add: demo_listener_def failed_task_def quiet_env_def)
  have 4: "firing_key quiet_env demo_listener = Some ''firing:t1:T''"
    by (simp add: firing_key_def computeFiringKey_def falsy_def quiet_env_def demo_listener_def failed_task_def)
  have 5: "wakeupMessageId (deriveFiringWakeupIds (e_det quiet_env) ''firing:t1:T'') \<in> msg_id ` set (smessages demo_rearmed)"
    by (simp add: deriveFiringWakeupIds_def quiet_env_def demo_rearmed_def)
  have 6: "demo_intake \<in> set (task_spool (sdb demo_rearmed))" "intake_of ''th'' demo_intake" "claim_state demo_intake = Pending"
      "target_site_id demo_intake = e_site quiet_env" "wid demo_intake = ''e1''"
    by (simp_all add: spool intake_of_def demo_intake_def fresh_row_def PASSIVE_INTAKE_KINDS_def quiet_env_def)
  have 7: "\<forall>w\<in>set (task_spool (sdb demo_rearmed)). intake_of ''th'' w \<and> claim_state w = Pending \<longrightarrow> target_site_id w = e_site quiet_env"
    using 6(4) by (simp add: spool)
  have "''th'' \<noteq> []" by simp
  from folded_events_stranded [OF 1 2 3(1-4) refl 3(5,6) this 4 5 7 6(1-3), of "\<lambda>_. ''u''" "\<lambda>_. ''tok''" 9] 6(5)
  show ?thesis by simp
qed

end
