(* ===== verification/Spec2Isabelle.thy ===== *)
theory Spec2Isabelle
  imports Thread_Executor Changelog_Sync Spool_Transfer Task_Resolution Tool_Pairs Agent_Loop Multipart_Lane Relay_Stream Ws_Frames Task_Tools
begin

text \<open>
  Bound is a distributed agent runtime. Hosts keep their state in SQLite, replicate the synced
  tables through a change log, hand work to each other through a durable spool, wake the agent
  threads that work concerns, and run a tool-calling loop against a language model. This library
  models the parts that carry those guarantees, each as executable definitions translated from the
  code, and proves what the parts rely on. Source paths below are relative to \<open>src/packages\<close>.

  \<^bold>\<open>Foundations.\<close> \<open>Prelude\<close> holds JSON values and texts, the string order and lemmas on keyed
  lists; \<open>Sql_Store\<close> the tables with the schema as an argument; \<open>Hlc\<close> the clock of
  \<open>shared/src/hlc.ts\<close> on the strings the code compares, with the locale \<open>logical_clock\<close> for its
  contract.

  \<^bold>\<open>Replication.\<close> \<open>Change_Log\<close> is the transactional outbox of \<open>core/src/change-log.ts\<close> and the
  row writes over it (locale \<open>logged_body\<close>, interpreted on the four write bodies);
  \<open>Write_Transactions\<close> nests programs of writes under \<open>withTx\<close>. \<open>Reducers\<close> applies a peer's events
  (\<open>sync/src/reducers.ts\<close>; locale \<open>commuting_replica\<close>) and \<open>Replication\<close> states what replay,
  snapshots and column chunks guarantee. \<open>Changelog_Sync\<close> is the exchange: cursors
  (\<open>sync/src/peer-cursor.ts\<close>), changesets, the change-log half of \<open>sync/src/ws-transport.ts\<close> and
  \<open>sync/src/pruning.ts\<close>, over the sending side of \<open>Connection\<close>. \<open>Memory_Relations\<close> is the
  normalization of edge relations that the reducers call.

  \<^bold>\<open>Work.\<close> \<open>Durable_Work\<close> is the spool of \<open>core/src/durable-work.ts\<close>: a row moves between the states
  pending, processing, transferring, consumed and dead letter, every transition is an instance of the
  locale \<open>row_transition\<close>, and \<open>spool_step\<close> is the step relation of the whole interface.
  \<open>Spool_Transfer\<close> moves rows between hosts (the spool half of \<open>ws-transport.ts\<close>), in the frames of
  \<open>Ws_Frames\<close> (\<open>sync/src/ws-frames.ts\<close>, \<open>encryption.ts\<close>) over an authenticated cipher. \<open>Dispatch\<close> is the
  wakeup queue of \<open>core/src/dispatch.ts\<close> that bridges a legacy table and the spool, and
  \<open>Thread_Executor\<close> the drain loop of \<open>core/src/thread-executor.ts\<close> over any \<open>wakeup_queue\<close>,
  interpreted on \<open>Dispatch\<close>.

  \<^bold>\<open>Relay.\<close> \<open>Relay_Routing\<close> writes requests and responses into the spool
  (\<open>agent/src/relay-router.ts\<close>, \<open>topology.ts\<close>, \<open>durable-work-registry.ts\<close>) and reads them back.
  \<open>Inference_Parts\<close> is the codec of requests that exceed a row
  (\<open>agent/src/inference-request-parts.ts\<close>), \<open>Multipart_Lane\<close> the lane of
  \<open>agent/src/relay-processor.ts\<close> that reassembles and launches them, and \<open>Relay_Stream\<close> the requester's
  side of the answer (\<open>agent/src/relay-stream$.ts\<close>), refined from an ideal stream that knows only
  which numbers have arrived and how many payloads are delivered.

  \<^bold>\<open>Tasks and agents.\<close> \<open>Cron\<close> and \<open>Task_Resolution\<close> are \<open>agent/src/task-resolution.ts\<close>: when a task
  fires and which host runs it, with \<open>shared/src/uuid.ts\<close>. \<open>Task_Lifecycle\<close> holds the task rows and the
  helpers of \<open>agent/src/scheduler.ts\<close> that re-arm, retry, park and heal them (every write is an instance
  of the locale \<open>task_write\<close>); \<open>Scheduler\<close> is its tick, the firing lane over \<open>Durable_Work\<close> and
  \<open>Task_Resolution\<close>, and the launch and end of a run under its lease; \<open>Task_Tools\<close> adds the tools of
  \<open>agent/src/tools/task.ts\<close> and \<open>cancel.ts\<close> and the step relation \<open>sched_step\<close>. \<open>Stream_Parser\<close> and \<open>Agent_Loop\<close> are
  \<open>loop/src\<close>: the parser of a model's chunk stream and the turn loop with its retries and guards, over
  abstract host hooks. \<open>Tool_Pairs\<close> is \<open>agent/src/tool-pair-sanitize\<close>, which repairs the message
  stream that is sent to the model; below, its result is composed with what the loop stores.

  \<^bold>\<open>What is shown.\<close> Custody of spooled work across hosts and its end-to-end delivery; the spool
  invariant, exclusive claims and token fencing; convergence of last-writer-wins replicas under any
  delivery order as long as no two images of a row share a timestamp; atomic nested transactions with ordered logs and events; claims that hand out each wakeup
  exactly once and a drain loop that returns with none left held; exactly one dispatcher for a firing; the least cron date; the invariant
  of the task rows, runs confined to their lease, exact eviction and healing, bounded retries; typed frames
  and their round trip; in-order delivery of relayed
  streams, complete until a gap is given up; multipart round trips within the byte limit and a single launch; termination of the agent
  loop, the guard that stops a repeating model and the bound on a model that only thinks; closed tool pairs for every history. Where the code falls short of what it
  states, a theorem shows the failing run.

  \<^bold>\<open>Environment.\<close> Clocks, random ids and claim tokens are arguments or streams of draws in the
  state; SHA-1, the cipher, \<open>JSON.stringify\<close> where its text matters, byte sizes of encoded frames, the schema, model and tools are arguments. Strings are
  over single-byte characters.

  \<^bold>\<open>Bounds.\<close> The loops that may not end take fuel: \<open>drain_loop\<close> one unit for each run of a thread,
  \<open>drain_batches\<close> one for each batch of the change log, \<open>turn_loop\<close> one for each turn. Theorems that
  claim a result state the fuel that suffices: the cap plus both retry budgets for the agent loop, one run
  more than the last that makes a wakeup arrive for \<open>drain_loop\<close>, the length of the log for the drain. All other loops terminate by a measure, among them the
  minute-by-minute cron search, which the code bounds by four years.

  \<^bold>\<open>Not modelled.\<close> Sockets, timers, logging, metrics and traces; key agreement and signatures; prompt
  assembly, summaries and progressive fidelity, which render text for a model; the model drivers, tool
  bodies, MCP and platform connectors; the command line, web and terminal interfaces. The manifest
  lists them part by part.
\<close>

section \<open>What the loop persists can be sent again\<close>

text \<open>Each tool call of a turn is declared by the blocks that the loop stores for it.\<close>

lemma blocks_declare_calls:
  assumes "\<forall>c\<in>set (toolCalls p). tc_id c \<noteq> []"
  shows "extractToolUseIds (json_stringify (JArr (buildAssistantToolCallBlocks p))) = map (\<lambda>c. JStr (tc_id c)) (toolCalls p)"
proof -
  have calls: "List.map_filter block_id (map call_block cs) = map (\<lambda>c. JStr (tc_id c)) cs"
    if "\<forall>c\<in>set cs. tc_id c \<noteq> []" for cs
    using that by (induction cs) (auto simp: List.map_filter_simps block_id_def call_block_def obj_get_def)
  have other: "block_id (thinking_block p) = None" "block_id (JObj [(''type'', JStr ''text''), (''text'', JStr x)]) = None" for x
    by (simp_all add: block_id_def thinking_block_def obj_get_def map_of_append)
  have split: "List.map_filter block_id (xs @ ys) = List.map_filter block_id xs @ List.map_filter block_id ys" for xs ys
    by (induction xs) (auto simp: List.map_filter_simps split: option.splits)
  have "JNull \<notin> set (buildAssistantToolCallBlocks p)"
    by (auto simp: buildAssistantToolCallBlocks_def thinking_block_def call_block_def)
  moreover have "thinking_block p \<noteq> JNull" by (simp add: thinking_block_def)
  ultimately show ?thesis
    using calls [OF assms] other
    by (simp add: extractToolUseIds_def buildAssistantToolCallBlocks_def split List.map_filter_simps)
qed

text \<open>C29: A history written by the loop is closed by the sanitizer. When every tool-call message
  of a stream stores the blocks the loop built for a turn with at least one call and nonempty ids, and every result message is
  named, then after sanitization no call is left unanswered, whatever results are missing, late or foreign.\<close>

theorem loop_history_closed:
  assumes "\<forall>m\<in>set ms. is_call m \<longrightarrow>
             (\<exists>p. m_content m = json_stringify (JArr (buildAssistantToolCallBlocks p)) \<and> toolCalls p \<noteq> [] \<and>
                  (\<forall>c\<in>set (toolCalls p). tc_id c \<noteq> []))"
    and "\<forall>m\<in>set ms. is_result m \<longrightarrow> js_truthy (m_tool_name m)"
  shows "\<not> hasUnclosedToolCall (sanitizeToolPairs t now ms)"
proof (rule sanitized_closed)
  show "\<forall>m\<in>set ms. well_named m"
    using assms blocks_declare_calls unfolding well_named_def by fastforce
qed

definition demo_turn :: parsed_response where
  "demo_turn = parseResponseChunks (\<lambda>_. Some (JObj [])) (\<lambda>k i. i) spin_chunks"

definition demo_history :: "message list" where
  "demo_history =
     [\<lparr>m_id = ''1'', m_thread = ''t'', m_role = ''tool_call'',
       m_content = json_stringify (JArr (buildAssistantToolCallBlocks demo_turn)), m_model = None, m_tool_name = JNull,
       m_created = ''c'', m_modified = None, m_host = ''h'', m_deleted = 0, m_exit = None, m_metadata = None\<rparr>]"

theorem loop_history_closed_witness:
  "\<not> hasUnclosedToolCall (sanitizeToolPairs ''t'' ''now'' demo_history) \<and> length (sanitizeToolPairs ''t'' ''now'' demo_history) = 2"
proof
  have "toolCalls demo_turn \<noteq> [] \<and> (\<forall>c\<in>set (toolCalls demo_turn). tc_id c \<noteq> [])" by code_simp
  then show "\<not> hasUnclosedToolCall (sanitizeToolPairs ''t'' ''now'' demo_history)"
    by (intro loop_history_closed) (auto simp: demo_history_def)
  show "length (sanitizeToolPairs ''t'' ''now'' demo_history) = 2" by code_simp
qed

end
